(* ===== verification/Prelude.thy ===== *)
theory Prelude
  imports Main "HOL-Library.Sublist"
begin

text \<open>
  Shared material of the development: the error values of fallible Go functions, Go slices with
  their bounds checks, the functions of the packages \<open>strings\<close> and \<open>sort\<close> that the modelled
  code calls, and the generic lemmas about lists the components use.

  A Go \<open>string\<close> or \<open>[]byte\<close> is a \<^typ>\<open>string\<close>, one \<^typ>\<open>char\<close> per byte. A Go function with results
  \<open>(T, error)\<close> returns \<open>string + T\<close>, with the error message on the left. A run-time panic
  (an index or slice bound out of range) is \<^const>\<open>None\<close>.
\<close>

named_theorems slice_simps \<open>evaluation of slice expressions\<close>
named_theorems origin_intros \<open>introduction rules for origin maps\<close>

section \<open>Error results\<close>

type_synonym 'a result = "string + 'a"

definition res_bind :: "'e + 'a \<Rightarrow> ('a \<Rightarrow> 'e + 'b) \<Rightarrow> 'e + 'b" where
  "res_bind m f = (case m of Inl e \<Rightarrow> Inl e | Inr x \<Rightarrow> f x)"

lemma res_bind_simps [simp]:
  "res_bind (Inl e) f = Inl e"
  "res_bind (Inr x) f = f x"
  by (simp_all add: res_bind_def)

lemma res_bind_Inr_iff:
  "res_bind m f = Inr y \<longleftrightarrow> (\<exists>x. m = Inr x \<and> f x = Inr y)"
  by (cases m) auto

lemma res_bind_cong [fundef_cong]:
  "m = m' \<Longrightarrow> (\<And>x. m' = Inr x \<Longrightarrow> f x = f' x) \<Longrightarrow> res_bind m f = res_bind m' f'"
  by (cases m') auto

section \<open>Slices\<close>

text \<open>The slice expression \<open>xs[a:b]\<close>; out of range it panics.\<close>

definition slice :: "'a list \<Rightarrow> int \<Rightarrow> int \<Rightarrow> 'a list option" where
  "slice xs a b =
     (if 0 \<le> a \<and> a \<le> b \<and> b \<le> int (length xs)
      then Some (take (nat b - nat a) (drop (nat a) xs)) else None)"

lemma slice_length: "slice xs a b = Some ys \<Longrightarrow> int (length ys) = b - a"
  by (auto simp: slice_def split: if_splits)

lemma slice_nth:
  "slice xs a b = Some ys \<Longrightarrow> i < length ys \<Longrightarrow> ys ! i = xs ! (nat a + i)"
  by (auto simp: slice_def split: if_splits)

lemma slice_Some_iff:
  "(\<exists>ys. slice xs a b = Some ys) \<longleftrightarrow> 0 \<le> a \<and> a \<le> b \<and> b \<le> int (length xs)"
  by (auto simp: slice_def)

lemma slice_same_bounds:
  "length xs = length ys \<Longrightarrow> slice xs a b = None \<longleftrightarrow> slice ys a b = None"
  by (auto simp: slice_def)

lemma set_slice: "slice xs a b = Some ys \<Longrightarrow> set ys \<subseteq> set xs"
  by (auto simp: slice_def split: if_splits dest!: in_set_takeD in_set_dropD)

section \<open>Strings\<close>

text \<open>The functions of package strings the code calls, on byte strings.\<close>

definition newline :: char where "newline = CHR 0x0A"

definition count_lines :: "string \<Rightarrow> nat" where
  \<comment> \<open>\<open>strings.Count(s, "\n")\<close>\<close>
  "count_lines s = length (filter (\<lambda>c. c = newline) s)"

fun join :: "string \<Rightarrow> string list \<Rightarrow> string" where
  "join sep [] = []"
| "join sep [x] = x"
| "join sep (x # xs) = x @ sep @ join sep xs"

fun split_on :: "char \<Rightarrow> string \<Rightarrow> string list" where
  \<comment> \<open>\<open>strings.Split(s, sep)\<close> for a separator of one byte\<close>
  "split_on c [] = [[]]"
| "split_on c (x # xs) =
     (if x = c then [] # split_on c xs
      else (case split_on c xs of [] \<Rightarrow> [[x]] | p # ps \<Rightarrow> (x # p) # ps))"

definition has_prefix :: "string \<Rightarrow> string \<Rightarrow> bool" where
  "has_prefix s p \<longleftrightarrow> take (length p) s = p"

definition has_suffix :: "string \<Rightarrow> string \<Rightarrow> bool" where
  "has_suffix s p \<longleftrightarrow> length p \<le> length s \<and> drop (length s - length p) s = p"

lemma has_prefix_iff: "has_prefix s p \<longleftrightarrow> prefix p s"
  unfolding has_prefix_def prefix_def by (metis append_eq_conv_conj append_take_drop_id)

lemma split_on_ne [simp]: "split_on c s \<noteq> []"
  by (induction c s rule: split_on.induct) (auto split: list.splits)

lemma join_split_on: "join [c] (split_on c s) = s"
proof (induction c s rule: split_on.induct)
  case (2 c x xs)
  then show ?case
    by (cases "split_on c xs"; cases "tl (split_on c xs)") auto
qed simp

lemma split_on_no_sep: "p \<in> set (split_on c s) \<Longrightarrow> c \<notin> set p"
  by (induction c s arbitrary: p rule: split_on.induct) (auto split: list.splits if_splits)

lemma split_on_subset: "p \<in> set (split_on c s) \<Longrightarrow> set p \<subseteq> set s"
  by (induction c s arbitrary: p rule: split_on.induct) (fastforce split: list.splits if_splits)+

lemma count_lines_append [simp]: "count_lines (a @ b) = count_lines a + count_lines b"
  by (simp add: count_lines_def)

lemma count_lines_Nil [simp]: "count_lines [] = 0"
  by (simp add: count_lines_def)

text \<open>\<open>strings.LastIndex(s, "\n")\<close>: the offset of the last newline, or -1.\<close>

fun last_newline_from :: "int \<Rightarrow> int \<Rightarrow> string \<Rightarrow> int" where
  "last_newline_from i found [] = found"
| "last_newline_from i found (c # cs) =
     last_newline_from (i + 1) (if c = newline then i else found) cs"

definition last_newline :: "string \<Rightarrow> int" where
  "last_newline s = last_newline_from 0 (-1) s"

section \<open>Binary search\<close>

text \<open>
  Package sort's \<open>Search(n, f)\<close>: a binary search over \<open>[i, j)\<close> with the midpoint
  \<open>int(uint(i+j) >> 1)\<close>.
\<close>

function sort_search :: "(nat \<Rightarrow> bool) \<Rightarrow> nat \<Rightarrow> nat \<Rightarrow> nat" where
  "sort_search f i j =
     (if i < j then
        let h = (i + j) div 2 in
        if \<not> f h then sort_search f (h + 1) j else sort_search f i h
      else i)"
  by pat_completeness auto
termination
  by (relation "measure (\<lambda>(f, i, j). j - i)") auto

declare sort_search.simps [simp del]

lemma sort_search_bounds: "i \<le> j \<Longrightarrow> i \<le> sort_search f i j \<and> sort_search f i j \<le> j"
proof (induction f i j rule: sort_search.induct)
  case (1 f i j)
  then show ?case
    by (subst (1 2) sort_search.simps) (fastforce simp: Let_def)
qed

lemma sort_search_least:
  assumes mono: "\<And>a b. a \<le> b \<Longrightarrow> b < n \<Longrightarrow> f a \<Longrightarrow> f b"
  shows "i \<le> j \<Longrightarrow> j \<le> n \<Longrightarrow> (\<forall>k < i. \<not> f k) \<Longrightarrow>
    (\<forall>k < sort_search f i j. \<not> f k) \<and> (sort_search f i j < j \<longrightarrow> f (sort_search f i j))"
proof (induction "j - i" arbitrary: i j rule: less_induct)
  case less
  let ?h = "(i + j) div 2"
  show ?case
  proof (cases "i < j")
    case False
    then have "sort_search f i j = i" by (subst sort_search.simps) simp
    with False less.prems show ?thesis by simp
  next
    case lt: True
    show ?thesis
    proof (cases "f ?h")
      case True
      have eq: "sort_search f i j = sort_search f i ?h"
        using lt True by (subst sort_search.simps) (simp add: Let_def)
      have "?h - i < j - i" and "i \<le> ?h" using lt by auto
      from less.hyps [OF this _ less.prems(3)] lt less.prems(2)
      have "(\<forall>k < sort_search f i ?h. \<not> f k)
          \<and> (sort_search f i ?h < ?h \<longrightarrow> f (sort_search f i ?h))" by simp
      moreover have "sort_search f i ?h \<le> ?h"
        using sort_search_bounds [of i ?h f] lt by simp
      ultimately show ?thesis using True eq
        by (cases "sort_search f i ?h = ?h") auto
    next
      case False
      have eq: "sort_search f i j = sort_search f (?h + 1) j"
        using lt False by (subst sort_search.simps) (simp add: Let_def)
      have low: "\<forall>k < ?h + 1. \<not> f k"
      proof (intro allI impI)
        fix k assume "k < ?h + 1"
        then have "k \<le> ?h" by simp
        moreover have "?h < n" using lt less.prems(2) by simp
        ultimately show "\<not> f k" using False mono by blast
      qed
      have "j - (?h + 1) < j - i" and "?h + 1 \<le> j" using lt by auto
      from less.hyps [OF this less.prems(2) low] eq show ?thesis by simp
    qed
  qed
qed

section \<open>Decimal numbers\<close>

text \<open>\<open>fmt\<close>'s \<open>%d\<close> of a natural number, and the number that a string of digits denotes.\<close>

definition digit :: "nat \<Rightarrow> char" where "digit d = char_of (48 + d)"

fun decimal :: "nat \<Rightarrow> string" where
  "decimal n = (if n < 10 then [digit n] else decimal (n div 10) @ [digit (n mod 10)])"

declare decimal.simps [simp del]

definition is_digit :: "char \<Rightarrow> bool" where
  "is_digit c \<longleftrightarrow> 48 \<le> (of_char c :: nat) \<and> (of_char c :: nat) \<le> 57"

definition digits_value :: "string \<Rightarrow> nat" where
  "digits_value s = foldl (\<lambda>n c. 10 * n + (of_char c - 48)) 0 s"

lemma of_char_digit: "d < 10 \<Longrightarrow> (of_char (digit d) :: nat) = 48 + d"
  by (simp add: digit_def)

lemma digits_value_snoc [simp]: "digits_value (s @ [c]) = 10 * digits_value s + (of_char c - 48)"
  by (simp add: digits_value_def)

lemma digits_value_decimal [simp]: "digits_value (decimal n) = n"
proof (induction n rule: decimal.induct)
  case (1 n)
  then show ?case
    by (subst decimal.simps) (auto simp: of_char_digit digits_value_def)
qed

lemma decimal_inj [simp]: "decimal m = decimal n \<longleftrightarrow> m = n"
  by (metis digits_value_decimal)

lemma decimal_digits: "c \<in> set (decimal n) \<Longrightarrow> is_digit c"
proof (induction n rule: decimal.induct)
  case (1 n)
  then show ?case
    by (subst (asm) (2) decimal.simps) (auto simp: is_digit_def of_char_digit split: if_splits)
qed

lemma decimal_ne [simp]: "decimal n \<noteq> []"
  by (subst decimal.simps) simp

end
