(* ===== verification/SourceMap.thy ===== *)
theory SourceMap
  imports Prelude
begin

text \<open>
  The source map of the surface-syntax passes (\<open>internal/compiler/coverage_source.go\<close>): every
  pass rewrites the source with a list of edits, and the map keeps, for each byte of the
  rewritten text, the offset of the byte of the original text it comes from, or -1 for inserted
  text. Offsets are Go \<open>int\<close>s, here \<^typ>\<open>int\<close>; a source is far below \<open>2^63\<close> bytes.
\<close>

section \<open>Edits\<close>

record sourceEdit =
  edit_start :: int
  edit_end :: int
  edit_text :: string

abbreviation sEdit :: "int \<Rightarrow> int \<Rightarrow> string \<Rightarrow> sourceEdit" where
  "sEdit s e t \<equiv> \<lparr>edit_start = s, edit_end = e, edit_text = t\<rparr>"

text \<open>
  The loop that every pass runs over its edits: copy the elements between two edits, put the
  replacement of the edit, go on behind it. The passes run it on the bytes of the source
  (\<open>applyEdits\<close>) and the source map on the origins of the bytes.
\<close>

fun spliceEdits :: "'a list \<Rightarrow> (sourceEdit \<Rightarrow> 'a list) \<Rightarrow> sourceEdit list \<Rightarrow> int \<Rightarrow> 'a list option" where
  "spliceEdits xs f [] previous = slice xs previous (int (length xs))"
| "spliceEdits xs f (e # es) previous =
     (case slice xs previous (edit_start e) of
        None \<Rightarrow> None
      | Some copied \<Rightarrow>
          (case spliceEdits xs f es (edit_end e) of
             None \<Rightarrow> None
           | Some rest \<Rightarrow> Some (copied @ f e @ rest)))"

definition applyEdits :: "string \<Rightarrow> sourceEdit list \<Rightarrow> string option" where
  "applyEdits source edits = spliceEdits source edit_text edits 0"

text \<open>What the passes guarantee of their edits: sorted, disjoint and inside the source.\<close>

fun edits_ok :: "int \<Rightarrow> sourceEdit list \<Rightarrow> int \<Rightarrow> bool" where
  "edits_ok previous [] n \<longleftrightarrow> 0 \<le> previous \<and> previous \<le> n"
| "edits_ok previous (e # es) n \<longleftrightarrow>
     0 \<le> previous \<and> previous \<le> edit_start e \<and> edit_start e \<le> edit_end e
     \<and> edit_end e \<le> n \<and> edits_ok (edit_end e) es n"

lemma spliceEdits_total:
  "edits_ok p es (int (length xs)) \<Longrightarrow> \<exists>ys. spliceEdits xs f es p = Some ys"
proof (induction es arbitrary: p)
  case (Cons e es)
  then obtain rest where "spliceEdits xs f es (edit_end e) = Some rest" by auto
  moreover from Cons.prems obtain c where "slice xs p (edit_start e) = Some c"
    by (auto simp: slice_def)
  ultimately show ?case by simp
qed (auto simp: slice_def)

lemma spliceEdits_list_all2:
  assumes "list_all2 P xs ys" and "\<And>e. e \<in> set es \<Longrightarrow> list_all2 P (f e) (g e)"
    and "spliceEdits xs f es p = Some us" and "spliceEdits ys g es p = Some vs"
  shows "list_all2 P us vs"
  using assms
proof (induction es arbitrary: p us vs)
  case Nil
  then show ?case
    by (auto simp: slice_def list_all2_lengthD list_all2_takeI list_all2_dropI split: if_splits)
next
  case (Cons e es)
  from Cons.prems obtain a r b s where
    eqs: "slice xs p (edit_start e) = Some a" "spliceEdits xs f es (edit_end e) = Some r"
      "us = a @ f e @ r" "slice ys p (edit_start e) = Some b"
      "spliceEdits ys g es (edit_end e) = Some s" "vs = b @ g e @ s"
    by (auto split: option.splits)
  have "list_all2 P a b" using eqs Cons.prems(1)
    by (auto simp: slice_def list_all2_takeI list_all2_dropI split: if_splits)
  moreover have "list_all2 P r s" using Cons.IH [OF Cons.prems(1) _ eqs(2,5)] Cons.prems(2) by simp
  moreover have "list_all2 P (f e) (g e)" using Cons.prems(2) by simp
  ultimately show ?case using eqs by (simp add: list_all2_appendI)
qed

lemma slice_filter_split:
  assumes "slice xs p s = Some a" and "p \<le> s" and "s \<le> e" and "e \<le> int (length xs)"
  shows "\<exists>gap. drop (nat p) xs = a @ gap @ drop (nat e) xs"
proof -
  from assms have a: "a = take (nat s - nat p) (drop (nat p) xs)" and "0 \<le> p"
    by (auto simp: slice_def split: if_splits)
  have "drop (nat p) xs = a @ drop (nat s) xs"
    using a assms \<open>0 \<le> p\<close> append_take_drop_id [of "nat s - nat p" "drop (nat p) xs"]
    by (simp add: nat_mono)
  moreover have "drop (nat s) xs = take (nat e - nat s) (drop (nat s) xs) @ drop (nat e) xs"
    using assms append_take_drop_id [of "nat e - nat s" "drop (nat s) xs"] by (simp add: nat_mono)
  ultimately show ?thesis by metis
qed

text \<open>
  The elements with a property that no replacement has are a subsequence of the elements the
  source had: nothing is duplicated and nothing changes its order.
\<close>

lemma spliceEdits_subseq:
  assumes "\<forall>e \<in> set es. \<forall>x \<in> set (f e). \<not> P x" and "spliceEdits xs f es p = Some ys"
    and "edits_ok p es (int (length xs))"
  shows "subseq (filter P ys) (filter P (drop (nat p) xs))"
  using assms
proof (induction es arbitrary: p ys)
  case (Cons e es)
  from Cons.prems obtain a r where eqs: "slice xs p (edit_start e) = Some a"
      "spliceEdits xs f es (edit_end e) = Some r" "ys = a @ f e @ r"
    by (auto split: option.splits)
  from Cons.prems eqs obtain gap where gap: "drop (nat p) xs = a @ gap @ drop (nat (edit_end e)) xs"
    using slice_filter_split [OF eqs(1)] by (metis edits_ok.simps(2))
  have "filter P (f e) = []" using Cons.prems(1) by (simp add: filter_empty_conv)
  moreover have "subseq (filter P r) (filter P (drop (nat (edit_end e)) xs))"
    using Cons.IH [OF _ eqs(2)] Cons.prems by simp
  ultimately show ?case unfolding gap eqs
    by (simp add: list_emb_append2 subseq_append')
qed (auto simp: slice_def split: if_splits)

section \<open>The source map\<close>

record surfaceExpressionOrigin =
  so_start :: int
  so_end :: int
  so_originalStart :: int
  so_originalEnd :: int

text \<open>\<open>offsets\<close> is a Go slice that is nil until the first edit.\<close>

record coverageSourceMap =
  expressions :: "surfaceExpressionOrigin list"
  original :: string
  offsets :: "int list option"
  map_lines :: "int list"
  originalLines :: "int list"

definition emptyMap :: coverageSourceMap where
  "emptyMap = \<lparr>expressions = [], original = [], offsets = None, map_lines = [], originalLines = []\<rparr>"

fun editedSourceOffset_loop :: "int \<Rightarrow> int \<Rightarrow> sourceEdit list \<Rightarrow> bool \<Rightarrow> int" where
  "editedSourceOffset_loop delta offset [] afterInsertion = offset + delta"
| "editedSourceOffset_loop delta offset (e # es) afterInsertion =
     (if offset < edit_start e then offset + delta
      else if edit_start e = edit_end e \<and> offset = edit_start e then
        editedSourceOffset_loop
          (if afterInsertion then delta + int (length (edit_text e)) else delta) offset es afterInsertion
      else if offset = edit_start e then offset + delta
      else if offset < edit_end e then -1
      else editedSourceOffset_loop
             (delta + int (length (edit_text e)) - (edit_end e - edit_start e)) offset es afterInsertion)"

definition editedSourceOffset :: "int \<Rightarrow> sourceEdit list \<Rightarrow> bool \<Rightarrow> int" where
  "editedSourceOffset offset edits afterInsertion = editedSourceOffset_loop 0 offset edits afterInsertion"

definition apply_map :: "coverageSourceMap \<Rightarrow> string \<Rightarrow> sourceEdit list \<Rightarrow> coverageSourceMap option" where
  "apply_map m source edits =
     (if edits = [] then Some m
      else
        let moved = map (\<lambda>x. x\<lparr>so_start := editedSourceOffset (so_start x) edits True,
                              so_end := editedSourceOffset (so_end x) edits False\<rparr>) (expressions m);
            m1 = m\<lparr>expressions := moved\<rparr>;
            m2 = (case offsets m1 of
                    None \<Rightarrow> m1\<lparr>original := source,
                              offsets := Some (map int [0..<length source])\<rparr>
                  | Some _ \<Rightarrow> m1)
        in case spliceEdits (the (offsets m2)) (\<lambda>e. replicate (length (edit_text e)) (-1)) edits 0 of
             None \<Rightarrow> None
           | Some nextOffsets \<Rightarrow> Some (m2\<lparr>offsets := Some nextOffsets\<rparr>))"

definition expressionBoundary :: "coverageSourceMap \<Rightarrow> int \<Rightarrow> int" where
  "expressionBoundary m offset =
     (case offsets m of
        None \<Rightarrow> offset
      | Some offs \<Rightarrow>
          if 0 \<le> offset \<and> offset < int (length offs) \<and> 0 \<le> offs ! nat offset then offs ! nat offset
          else (case find (\<lambda>x. offset = so_start x \<or> offset = so_end x - 1) (expressions m) of
                  None \<Rightarrow> -1
                | Some x \<Rightarrow> if offset = so_start x then so_originalStart x else so_originalEnd x - 1))"

definition applyExpression ::
  "coverageSourceMap \<Rightarrow> string \<Rightarrow> sourceEdit list \<Rightarrow> int \<Rightarrow> int \<Rightarrow> coverageSourceMap option" where
  "applyExpression m source edits start stop =
     (let originalStart = expressionBoundary m start;
          originalLast = expressionBoundary m (stop - 1)
      in case apply_map m source edits of
           None \<Rightarrow> None
         | Some m' \<Rightarrow>
             Some (if 0 \<le> originalStart \<and> originalStart \<le> originalLast
                   then m'\<lparr>expressions := expressions m' @
                          [\<lparr>so_start = editedSourceOffset start edits False,
                            so_end = editedSourceOffset stop edits True,
                            so_originalStart = originalStart,
                            so_originalEnd = originalLast + 1\<rparr>]\<rparr>
                   else m'))"

fun lineStarts_from :: "int \<Rightarrow> string \<Rightarrow> int list" where
  "lineStarts_from i [] = []"
| "lineStarts_from i (b # bs) =
     (if b = newline then (i + 1) # lineStarts_from (i + 1) bs else lineStarts_from (i + 1) bs)"

definition lineStarts :: "string \<Rightarrow> int list" where
  "lineStarts s = 0 # lineStarts_from 0 s"

definition finish_map :: "coverageSourceMap \<Rightarrow> string \<Rightarrow> coverageSourceMap" where
  "finish_map m source =
     (case offsets m of
        None \<Rightarrow> m
      | Some _ \<Rightarrow> m\<lparr>map_lines := lineStarts source, originalLines := lineStarts (original m)\<rparr>)"

text \<open>A \<open>token.Position\<close>; its offset field is not used here.\<close>

record position =
  Filename :: string
  PosLine :: int
  Column :: int

definition noPosition :: position where
  "noPosition = \<lparr>Filename = [], PosLine = 0, Column = 0\<rparr>"

definition position :: "coverageSourceMap option \<Rightarrow> position \<Rightarrow> position" where
  "position mo pos =
     (case mo of
        None \<Rightarrow> pos
      | Some m \<Rightarrow>
          (case offsets m of
             None \<Rightarrow> pos
           | Some offs \<Rightarrow>
               if PosLine pos < 1 \<or> int (length (map_lines m)) < PosLine pos \<or> Column pos < 1
               then noPosition
               else
                 let offset = map_lines m ! nat (PosLine pos - 1) + Column pos - 1
                 in if offset < 0 \<or> int (length offs) \<le> offset \<or> offs ! nat offset < 0
                    then noPosition
                    else
                      let origin = offs ! nat offset;
                          ls = originalLines m;
                          line = sort_search (\<lambda>i. origin < ls ! i) 0 (length ls)
                      in pos\<lparr>PosLine := int line, Column := origin - ls ! (line - 1) + 1\<rparr>))"

text \<open>
  The line and column of an offset, as \<open>tokenPosition\<close> of \<open>ternary_parse.go\<close> and Go's scanner
  compute them: one more than the newlines before it, and its distance to the last of them.
\<close>

definition lineColumn :: "string \<Rightarrow> string \<Rightarrow> nat \<Rightarrow> position" where
  "lineColumn file source offset =
     \<lparr>Filename = file, PosLine = 1 + int (count_lines (take offset source)),
      Column = int offset - last_newline (take offset source)\<rparr>"

section \<open>Correctness\<close>

text \<open>
  An origin map: one origin for each byte, which is -1 or the offset of an equal byte of the
  original text, and the origins that are not -1 are strictly increasing.
\<close>

definition origin_byte :: "string \<Rightarrow> char \<Rightarrow> int \<Rightarrow> bool" where
  "origin_byte orig b off \<longleftrightarrow> 0 \<le> off \<longrightarrow> off < int (length orig) \<and> b = orig ! nat off"

definition origin_map :: "string \<Rightarrow> string \<Rightarrow> int list \<Rightarrow> bool" where
  "origin_map orig src offs \<longleftrightarrow>
     list_all2 (origin_byte orig) src offs \<and> sorted_wrt (<) (filter (\<lambda>x. 0 \<le> x) offs)"

definition map_ok :: "coverageSourceMap \<Rightarrow> string \<Rightarrow> bool" where
  "map_ok m source \<longleftrightarrow>
     (case offsets m of None \<Rightarrow> True | Some offs \<Rightarrow> origin_map (original m) source offs)"

lemma origin_mapD:
  assumes "origin_map orig src offs" and "i < length src" and "0 \<le> offs ! i"
  shows "length offs = length src" and "offs ! i < int (length orig)" and "src ! i = orig ! nat (offs ! i)"
  using assms by (auto simp: origin_map_def origin_byte_def list_all2_conv_all_nth)

lemma sorted_wrt_subseq: "subseq xs ys \<Longrightarrow> sorted_wrt R ys \<Longrightarrow> sorted_wrt R xs"
  by (induction rule: list_emb.induct) (auto dest: list_emb_set)

lemma origin_map_identity: "origin_map s s (map int [0..<length s])"
proof -
  have "filter (\<lambda>x. 0 \<le> x) (map int [0..<length s]) = map int [0..<length s]"
    by (simp add: filter_id_conv)
  moreover have "sorted_wrt (<) (map int [0..<length s])" by (simp add: sorted_wrt_map)
  ultimately show ?thesis
    by (simp add: origin_map_def origin_byte_def list_all2_conv_all_nth)
qed

lemma origin_map_splice:
  assumes om: "origin_map orig src offs" and ok: "edits_ok 0 edits (int (length src))"
    and s: "spliceEdits src edit_text edits 0 = Some src'"
    and f: "spliceEdits offs (\<lambda>e. replicate (length (edit_text e)) (-1)) edits 0 = Some offs'"
  shows "origin_map orig src' offs'"
proof -
  have len: "length offs = length src"
    using om by (auto simp: origin_map_def dest: list_all2_lengthD)
  have "list_all2 (origin_byte orig) src' offs'"
    using om by (intro spliceEdits_list_all2 [OF _ _ s f])
      (auto simp: origin_map_def origin_byte_def list_all2_conv_all_nth)
  moreover have "subseq (filter (\<lambda>x. 0 \<le> x) offs') (filter (\<lambda>x. 0 \<le> x) (drop (nat 0) offs))"
    using ok len f by (intro spliceEdits_subseq) auto
  then have "sorted_wrt (<) (filter (\<lambda>x. 0 \<le> x) offs')"
    using om by (auto simp: origin_map_def intro: sorted_wrt_subseq)
  ultimately show ?thesis by (simp add: origin_map_def)
qed

lemma apply_map_ok:
  assumes "map_ok m source" and "edits_ok 0 edits (int (length source))"
  shows "\<exists>m' source'. apply_map m source edits = Some m' \<and> applyEdits source edits = Some source'
    \<and> map_ok m' source' \<and> (offsets m \<noteq> None \<longrightarrow> original m' = original m)
    \<and> (offsets m = None \<and> edits \<noteq> [] \<longrightarrow> original m' = source)"
proof (cases "edits = []")
  case True
  then show ?thesis using assms by (simp add: apply_map_def applyEdits_def slice_def)
next
  case False
  obtain source' where s: "spliceEdits source edit_text edits 0 = Some source'"
    using spliceEdits_total [OF assms(2)] by blast
  define orig where "orig = (case offsets m of None \<Rightarrow> source | Some _ \<Rightarrow> original m)"
  define offs where "offs = (case offsets m of None \<Rightarrow> map int [0..<length source] | Some x \<Rightarrow> x)"
  have om: "origin_map orig source offs"
    using assms(1) origin_map_identity
    by (auto simp: map_ok_def orig_def offs_def split: option.splits)
  then have len: "length source = length offs" by (auto simp: origin_map_def dest: list_all2_lengthD)
  obtain offs' where f: "spliceEdits offs (\<lambda>e. replicate (length (edit_text e)) (-1)) edits 0 = Some offs'"
    using spliceEdits_total [of 0 edits offs] assms(2) len by auto
  have "origin_map orig source' offs'" using origin_map_splice [OF om assms(2) s f] .
  then show ?thesis using False s f
    by (cases "offsets m") (auto simp: apply_map_def applyEdits_def map_ok_def orig_def offs_def Let_def)
qed

text \<open>
  C19: applying a list of sorted, disjoint edits never panics, and it keeps the source map right:
  afterwards every byte of the rewritten source is inserted or equal to the byte of the original
  source at its origin, and the origins of the kept bytes are strictly increasing. The original
  text is fixed by the first pass that edits.
\<close>

theorem apply_map_origin:
  assumes "map_ok m source" and "edits_ok 0 edits (int (length source))"
  shows "\<exists>m' source'. apply_map m source edits = Some m' \<and> applyEdits source edits = Some source'
    \<and> map_ok m' source' \<and> (offsets m \<noteq> None \<longrightarrow> original m' = original m)
    \<and> (offsets m = None \<and> edits \<noteq> [] \<longrightarrow> original m' = source)"
  using assms by (rule apply_map_ok)

subsection \<open>Lines and columns\<close>

lemma last_newline_from_snoc:
  "last_newline_from i found (s @ [c])
     = (if c = newline then i + int (length s) else last_newline_from i found s)"
  by (induction s arbitrary: i found) auto

lemma last_newline_snoc:
  "last_newline (s @ [c]) = (if c = newline then int (length s) else last_newline s)"
  by (simp add: last_newline_def last_newline_from_snoc)

lemma last_newline_lt: "last_newline s < int (length s)"
  by (induction s rule: rev_induct) (auto simp: last_newline_snoc, simp add: last_newline_def)

lemma lineStarts_from_append:
  "lineStarts_from i (a @ b) = lineStarts_from i a @ lineStarts_from (i + int (length a)) b"
  by (induction a arbitrary: i) (auto simp: algebra_simps)

lemma lineStarts_append: "lineStarts (a @ b) = lineStarts a @ lineStarts_from (int (length a)) b"
  by (simp add: lineStarts_def lineStarts_from_append)

lemma length_lineStarts_from: "length (lineStarts_from i s) = count_lines s"
  by (induction s arbitrary: i) (auto simp: count_lines_def)

lemma length_lineStarts: "length (lineStarts s) = Suc (count_lines s)"
  by (simp add: lineStarts_def length_lineStarts_from)

lemma last_lineStarts: "last (lineStarts s) = last_newline s + 1"
proof (induction s rule: rev_induct)
  case Nil
  then show ?case by (simp add: lineStarts_def last_newline_def)
next
  case (snoc c s)
  have ne: "lineStarts s \<noteq> []" by (simp add: lineStarts_def)
  show ?case using snoc ne by (simp add: lineStarts_append last_newline_snoc)
qed

lemma lineStarts_from_bounds:
  "x \<in> set (lineStarts_from i s) \<Longrightarrow> i < x \<and> x \<le> i + int (length s)"
  by (induction s arbitrary: i) (fastforce split: if_splits)+

lemma lineStarts_upper: "x \<in> set (lineStarts s) \<Longrightarrow> x \<le> int (length s)"
  using lineStarts_from_bounds [of x 0 s] by (auto simp: lineStarts_def)

lemma sorted_lineStarts_from: "sorted_wrt (<) (lineStarts_from i s)"
  by (induction s arbitrary: i) (auto dest: lineStarts_from_bounds)

lemma sorted_lineStarts: "sorted_wrt (<) (lineStarts s)"
  using sorted_lineStarts_from lineStarts_from_bounds by (fastforce simp: lineStarts_def)

lemma lineStarts_nth_take:
  "lineStarts s ! count_lines (take i s) = last_newline (take i s) + 1"
proof -
  have "lineStarts s = lineStarts (take i s) @ lineStarts_from (int (length (take i s))) (drop i s)"
    by (metis append_take_drop_id lineStarts_append)
  then have "lineStarts s ! count_lines (take i s) = last (lineStarts (take i s))"
    using length_lineStarts [of "take i s"] by (simp add: nth_append last_conv_nth)
      (metis diff_Suc_1 last_conv_nth length_0_conv nat.distinct(1))
  then show ?thesis by (simp add: last_lineStarts)
qed

text \<open>The binary search of \<open>position\<close> finds the number of the line that holds an offset.\<close>

lemma search_lineStarts:
  assumes "i \<le> length s"
  shows "sort_search (\<lambda>k. int i < lineStarts s ! k) 0 (length (lineStarts s))
    = Suc (count_lines (take i s))"
proof -
  let ?L = "lineStarts s" and ?n = "count_lines (take i s)"
  let ?r = "sort_search (\<lambda>k. int i < ?L ! k) 0 (length ?L)"
  have split: "?L = lineStarts (take i s) @ lineStarts_from (int i) (drop i s)"
    using assms lineStarts_append [of "take i s" "drop i s"] by simp
  have lenp: "length (lineStarts (take i s)) = Suc ?n" by (simp add: length_lineStarts)
  have low: "?L ! k \<le> int i" if "k \<le> ?n" for k
  proof -
    have "?L ! k \<in> set (lineStarts (take i s))" using that lenp split by (simp add: nth_append)
    then show ?thesis using lineStarts_upper [of "?L ! k" "take i s"] assms by simp
  qed
  have high: "int i < ?L ! k" if "?n < k" "k < length ?L" for k
  proof -
    have "?L ! k \<in> set (lineStarts_from (int i) (drop i s))"
      using that lenp split by (simp add: nth_append not_less)
    then show ?thesis using lineStarts_from_bounds by blast
  qed
  have mono: "int i < ?L ! b" if "a \<le> b" "b < length ?L" "int i < ?L ! a" for a b
  proof (cases "a = b")
    case False
    then have "?L ! a < ?L ! b" using that sorted_lineStarts [of s] by (simp add: sorted_wrt_nth_less)
    then show ?thesis using that by simp
  qed (use that in simp)
  have least: "\<forall>k < ?r. \<not> int i < ?L ! k" "?r < length ?L \<longrightarrow> int i < ?L ! ?r"
    using sort_search_least [of "length ?L" "\<lambda>k. int i < ?L ! k" 0 "length ?L"] mono by blast+
  have le: "?r \<le> length ?L" using sort_search_bounds [of 0 "length ?L"] by blast
  have "Suc ?n \<le> length ?L" using split lenp by simp
  then have "\<not> ?r < Suc ?n" using least(2) low [of ?r] by (auto simp: less_Suc_eq_le)
  moreover have "\<not> Suc ?n < ?r"
  proof
    assume "Suc ?n < ?r"
    with le have "int i < ?L ! Suc ?n" by (intro high) auto
    with least(1) \<open>Suc ?n < ?r\<close> show False by blast
  qed
  ultimately show ?thesis by (metis linorder_neqE_nat)
qed

lemma position_finish:
  assumes "offsets m = Some offs" and len: "length offs = length source" and "i < length source"
  shows "position (Some (finish_map m source)) (lineColumn file source i) =
    (if offs ! i < 0 then noPosition
     else let ls = lineStarts (original m); l = sort_search (\<lambda>k. offs ! i < ls ! k) 0 (length ls)
          in \<lparr>Filename = file, PosLine = int l, Column = offs ! i - ls ! (l - 1) + 1\<rparr>)"
proof -
  let ?n = "count_lines (take i source)"
  have "Suc ?n \<le> length (lineStarts source)"
    using lineStarts_append [of "take i source" "drop i source"]
      length_lineStarts [of "take i source"] by simp
  moreover have "last_newline (take i source) < int i"
    using last_newline_lt [of "take i source"] by simp
  ultimately show ?thesis using assms
    by (simp add: position_def finish_map_def lineColumn_def Let_def lineStarts_nth_take)
qed

lemma apply_map_origin_witness:
  "\<exists>m' source'. apply_map emptyMap ''a?b'' [sEdit 1 2 ''xy''] = Some m'
    \<and> applyEdits ''a?b'' [sEdit 1 2 ''xy''] = Some source'
    \<and> map_ok m' source' \<and> original m' = ''a?b''"
  using apply_map_origin [of emptyMap "''a?b''" "[sEdit 1 2 ''xy'']"]
  by (simp add: map_ok_def emptyMap_def)

text \<open>
  C20: the position of a kept byte of the rewritten source is mapped to the line and column that
  its origin has in the original source.
\<close>

theorem position_origin:
  assumes "map_ok m source" and "offsets m = Some offs" and "i < length source" and "0 \<le> offs ! i"
  shows "position (Some (finish_map m source)) (lineColumn file source i)
    = lineColumn file (original m) (nat (offs ! i))"
proof -
  let ?o = "nat (offs ! i)"
  from assms have om: "origin_map (original m) source offs" by (simp add: map_ok_def)
  note o = origin_mapD [OF om assms(3,4)]
  then have "sort_search (\<lambda>k. int ?o < lineStarts (original m) ! k) 0 (length (lineStarts (original m)))
      = Suc (count_lines (take ?o (original m)))"
    by (intro search_lineStarts) simp
  then show ?thesis
    unfolding position_finish [OF assms(2) o(1) assms(3)] using assms(4) o
    by (simp add: lineStarts_nth_take lineColumn_def Let_def)
qed

text \<open>An example: the text \<open>axyb\<close> rewritten from \<open>ab\<close>.\<close>

definition example_map :: coverageSourceMap where
  "example_map = emptyMap\<lparr>original := ''ab'', offsets := Some [0, -1, -1, 1]\<rparr>"

lemma example_map_ok: "map_ok example_map ''axyb''"
  by (simp add: map_ok_def example_map_def emptyMap_def origin_map_def origin_byte_def)

lemma position_origin_witness:
  "position (Some (finish_map example_map ''axyb'')) (lineColumn ''f'' ''axyb'' 3)
    = lineColumn ''f'' (original example_map) (nat ([0, -1, -1, 1 :: int] ! 3))"
  by (rule position_origin [OF example_map_ok]) (simp_all add: example_map_def)

text \<open>
  The position of an inserted byte is mapped to no position.
\<close>

theorem position_inserted:
  assumes "map_ok m source" and "offsets m = Some offs" and "i < length source" and "offs ! i < 0"
  shows "position (Some (finish_map m source)) (lineColumn file source i) = noPosition"
proof -
  from assms have "length offs = length source"
    by (auto simp: map_ok_def origin_map_def dest: list_all2_lengthD)
  then show ?thesis using position_finish [OF assms(2) _ assms(3)] assms(4) by simp
qed

lemma position_inserted_witness:
  "position (Some (finish_map example_map ''axyb'')) (lineColumn ''f'' ''axyb'' 1) = noPosition"
  by (rule position_inserted [OF example_map_ok, of "[0, -1, -1, 1]"]) (simp_all add: example_map_def)

subsection \<open>Offsets that survive an edit\<close>

definition retained :: "int \<Rightarrow> sourceEdit list \<Rightarrow> bool" where
  "retained offset edits \<longleftrightarrow> (\<forall>e \<in> set edits. \<not> (edit_start e \<le> offset \<and> offset < edit_end e))"

lemma editedSourceOffset_loop_nth:
  assumes "edits_ok p es (int (length xs))" and "p \<le> offset" and "offset < int (length xs)"
    and "retained offset es" and "spliceEdits xs f es p = Some ys"
    and "\<forall>e \<in> set es. length (f e) = length (edit_text e)"
  shows "\<exists>k < length ys. editedSourceOffset_loop delta offset es True = p + delta + int k
    \<and> ys ! k = xs ! nat offset"
  using assms
proof (induction es arbitrary: p delta ys)
  case Nil
  then have "ys = drop (nat p) xs" by (auto simp: slice_def split: if_splits)
  then show ?case using Nil by (intro exI [of _ "nat (offset - p)"]) (auto simp: nat_diff_distrib)
next
  case (Cons e es)
  from Cons.prems obtain a r where eqs: "slice xs p (edit_start e) = Some a"
      "spliceEdits xs f es (edit_end e) = Some r" "ys = a @ f e @ r"
    by (auto split: option.splits)
  have la: "int (length a) = edit_start e - p" using eqs(1) by (rule slice_length)
  have lf: "length (f e) = length (edit_text e)" using Cons.prems(6) by simp
  show ?case
  proof (cases "offset < edit_start e")
    case True
    let ?k = "nat (offset - p)"
    have k: "?k < length a" using True la Cons.prems(2) by linarith
    have "a ! ?k = xs ! nat offset"
      using slice_nth [OF eqs(1) k] Cons.prems(1,2) by (simp add: nat_diff_distrib)
    then show ?thesis using True k eqs(3) Cons.prems(2)
      by (intro exI [of _ ?k]) (simp add: nth_append)
  next
    case False
    then have ge: "edit_end e \<le> offset" using Cons.prems(4) by (auto simp: retained_def)
    let ?delta = "delta + int (length (edit_text e)) - (edit_end e - edit_start e)"
    have step: "editedSourceOffset_loop delta offset (e # es) True
        = editedSourceOffset_loop ?delta offset es True"
      using False ge Cons.prems(1) by auto
    obtain k where k: "k < length r" "r ! k = xs ! nat offset"
        "editedSourceOffset_loop ?delta offset es True = edit_end e + ?delta + int k"
      using Cons.IH [of "edit_end e" r ?delta] Cons.prems eqs(2) ge by (auto simp: retained_def)
    let ?k = "length a + length (f e) + k"
    have "ys ! ?k = r ! k" using eqs(3) by (simp add: nth_append)
    moreover have "?k < length ys" using k eqs(3) by simp
    moreover have "edit_end e + ?delta + int k = p + delta + int ?k" using la lf by simp
    ultimately show ?thesis using k step by (intro exI [of _ ?k]) simp
  qed
qed

text \<open>
  C21: \<open>editedSourceOffset\<close> follows a byte through the edits: the byte at the new offset of the
  rewritten source is the byte at the old offset, when no edit replaces it.
\<close>

theorem editedSourceOffset_byte:
  assumes "edits_ok 0 edits (int (length source))" and "0 \<le> offset" and "offset < int (length source)"
    and "retained offset edits" and "applyEdits source edits = Some source'"
  shows "0 \<le> editedSourceOffset offset edits True
    \<and> editedSourceOffset offset edits True < int (length source')
    \<and> source' ! nat (editedSourceOffset offset edits True) = source ! nat offset"
  using editedSourceOffset_loop_nth [OF assms(1-4), of edit_text source' 0] assms(5)
  by (auto simp: applyEdits_def editedSourceOffset_def)

lemma editedSourceOffset_byte_witness:
  "0 \<le> editedSourceOffset 2 [sEdit 1 2 ''xy''] True
    \<and> editedSourceOffset 2 [sEdit 1 2 ''xy''] True < int (length ''axyb'')
    \<and> ''axyb'' ! nat (editedSourceOffset 2 [sEdit 1 2 ''xy''] True) = ''a?b'' ! nat 2"
  by (rule editedSourceOffset_byte) (simp_all add: retained_def applyEdits_def slice_def)

end
