(* ===== verification/GoToken.thy ===== *)
theory GoToken
  imports SourceMap
begin

text \<open>
  Tokens: the constants of Go's package \<open>go/token\<close> that the compiler names, the lexemes of
  \<open>internal/compiler/frontend.go\<close>, and its two helpers on them, \<open>match\<close> and \<open>erase\<close>.
\<close>

section \<open>Package go/token\<close>

text \<open>\<open>token.Token\<close> is an \<open>int\<close>; the constants are numbered in the order the package has them.\<close>

type_synonym token = int

abbreviation (input) "ILLEGAL \<equiv> (0 :: token)"
abbreviation (input) "EOF \<equiv> (1 :: token)"
abbreviation (input) "COMMENT \<equiv> (2 :: token)"
abbreviation (input) "IDENT \<equiv> (4 :: token)"
abbreviation (input) "INTLIT \<equiv> (5 :: token)"
abbreviation (input) "FLOAT \<equiv> (6 :: token)"
abbreviation (input) "IMAG \<equiv> (7 :: token)"
abbreviation (input) "CHARLIT \<equiv> (8 :: token)"
abbreviation (input) "STRING \<equiv> (9 :: token)"
abbreviation (input) "operator_beg \<equiv> (11 :: token)"
abbreviation (input) "ADD \<equiv> (12 :: token)"
abbreviation (input) "SUB \<equiv> (13 :: token)"
abbreviation (input) "MUL \<equiv> (14 :: token)"
abbreviation (input) "AND \<equiv> (17 :: token)"
abbreviation (input) "ADD_ASSIGN \<equiv> (23 :: token)"
abbreviation (input) "AND_NOT_ASSIGN \<equiv> (33 :: token)"
abbreviation (input) "LAND \<equiv> (34 :: token)"
abbreviation (input) "LOR \<equiv> (35 :: token)"
abbreviation (input) "ARROW \<equiv> (36 :: token)"
abbreviation (input) "INC \<equiv> (37 :: token)"
abbreviation (input) "DEC \<equiv> (38 :: token)"
abbreviation (input) "EQL \<equiv> (39 :: token)"
abbreviation (input) "GTR \<equiv> (41 :: token)"
abbreviation (input) "ASSIGN \<equiv> (42 :: token)"
abbreviation (input) "NOTOP \<equiv> (43 :: token)"
abbreviation (input) "NEQ \<equiv> (44 :: token)"
abbreviation (input) "DEFINE \<equiv> (47 :: token)"
abbreviation (input) "LPAREN \<equiv> (49 :: token)"
abbreviation (input) "LBRACK \<equiv> (50 :: token)"
abbreviation (input) "LBRACE \<equiv> (51 :: token)"
abbreviation (input) "COMMA \<equiv> (52 :: token)"
abbreviation (input) "PERIOD \<equiv> (53 :: token)"
abbreviation (input) "RPAREN \<equiv> (54 :: token)"
abbreviation (input) "RBRACK \<equiv> (55 :: token)"
abbreviation (input) "RBRACE \<equiv> (56 :: token)"
abbreviation (input) "SEMICOLON \<equiv> (57 :: token)"
abbreviation (input) "COLON \<equiv> (58 :: token)"
abbreviation (input) "operator_end \<equiv> (59 :: token)"
abbreviation (input) "BREAK \<equiv> (61 :: token)"
abbreviation (input) "CASE \<equiv> (62 :: token)"
abbreviation (input) "CONTINUE \<equiv> (65 :: token)"
abbreviation (input) "DEFAULT \<equiv> (66 :: token)"
abbreviation (input) "FALLTHROUGH \<equiv> (69 :: token)"
abbreviation (input) "FOR \<equiv> (70 :: token)"
abbreviation (input) "FUNC \<equiv> (71 :: token)"
abbreviation (input) "GOTO \<equiv> (73 :: token)"
abbreviation (input) "IF \<equiv> (74 :: token)"
abbreviation (input) "IMPORT \<equiv> (75 :: token)"
abbreviation (input) "INTERFACE \<equiv> (76 :: token)"
abbreviation (input) "RANGE \<equiv> (79 :: token)"
abbreviation (input) "RETURN \<equiv> (80 :: token)"
abbreviation (input) "SELECT \<equiv> (81 :: token)"
abbreviation (input) "STRUCT \<equiv> (82 :: token)"
abbreviation (input) "SWITCH \<equiv> (83 :: token)"
abbreviation (input) "TYPETOK \<equiv> (84 :: token)"
abbreviation (input) "VAR \<equiv> (85 :: token)"
abbreviation (input) "TILDE \<equiv> (88 :: token)"

definition isOperator :: "token \<Rightarrow> bool" where
  "isOperator t \<longleftrightarrow> operator_beg < t \<and> t < operator_end \<or> t = TILDE"

section \<open>Lexemes\<close>

record lexeme =
  Kind :: token
  Text :: string
  Start :: nat
  End :: nat
  Line :: nat

abbreviation lexm :: "token \<Rightarrow> string \<Rightarrow> nat \<Rightarrow> nat \<Rightarrow> nat \<Rightarrow> lexeme" where
  "lexm k t s e l \<equiv> \<lparr>Kind = k, Text = t, Start = s, End = e, Line = l\<rparr>"

text \<open>
  \<open>match\<close>: the index of the token that closes the bracket at \<open>start\<close>. The loop runs over the
  tokens from \<open>start\<close> with the depth; a depth back at 0 after a closing token is the match.
\<close>

fun match_loop :: "token \<Rightarrow> token \<Rightarrow> lexeme list \<Rightarrow> nat \<Rightarrow> int \<Rightarrow> nat option" where
  "match_loop op cl [] i depth = None"
| "match_loop op cl (t # ts) i depth =
     (let d1 = (if Kind t = op then depth + 1 else depth) in
      if Kind t = cl then
        (if d1 - 1 = 0 then Some i else match_loop op cl ts (i + 1) (d1 - 1))
      else match_loop op cl ts (i + 1) d1)"

definition match :: "lexeme list \<Rightarrow> nat \<Rightarrow> token \<Rightarrow> token \<Rightarrow> nat result" where
  "match tokens start op cl =
     (case match_loop op cl (drop start tokens) start 0 of
        Some i \<Rightarrow> Inr i
      | None \<Rightarrow> Inl ''unclosed'')"

text \<open>\<open>erase\<close>: blank the bytes of a range, leaving line ends in place.\<close>

definition carriage_return :: char where "carriage_return = CHR 0x0D"

fun erase_from :: "nat \<Rightarrow> nat \<Rightarrow> nat \<Rightarrow> string \<Rightarrow> string" where
  "erase_from i s e [] = []"
| "erase_from i s e (b # bs) =
     (if s \<le> i \<and> i < e \<and> b \<noteq> newline \<and> b \<noteq> carriage_return then CHR '' '' else b)
       # erase_from (i + 1) s e bs"

definition erase :: "string \<Rightarrow> nat \<Rightarrow> nat \<Rightarrow> string" where
  "erase data s e = erase_from 0 s e data"

section \<open>Matching brackets\<close>

text \<open>The words of the bracket language: what may stand between an opening token and its match.\<close>

inductive bracketed :: "token \<Rightarrow> token \<Rightarrow> lexeme list \<Rightarrow> bool" for op cl where
  empty: "bracketed op cl []"
| plain: "Kind t \<noteq> op \<Longrightarrow> Kind t \<noteq> cl \<Longrightarrow> bracketed op cl ts \<Longrightarrow> bracketed op cl (t # ts)"
| group: "Kind o1 = op \<Longrightarrow> Kind c1 = cl \<Longrightarrow> bracketed op cl inner \<Longrightarrow> bracketed op cl ts
    \<Longrightarrow> bracketed op cl (o1 # inner @ c1 # ts)"

lemma bracketed_append: "bracketed op cl xs \<Longrightarrow> bracketed op cl ys \<Longrightarrow> bracketed op cl (xs @ ys)"
  by (induction rule: bracketed.induct) (auto intro: bracketed.intros)

lemma match_loop_bracketed:
  assumes "bracketed op cl inner" and "op \<noteq> cl" and "0 < d"
  shows "match_loop op cl (inner @ rest) i d = match_loop op cl rest (i + length inner) d"
  using assms
proof (induction inner arbitrary: i d rest rule: bracketed.induct)
  case (group o1 c1 inner ts)
  have "match_loop op cl (o1 # inner @ c1 # ts @ rest) i d
      = match_loop op cl (inner @ c1 # ts @ rest) (i + 1) (d + 1)"
    using group by (simp add: Let_def)
  also have "\<dots> = match_loop op cl (c1 # ts @ rest) (i + 1 + length inner) (d + 1)"
    using group by simp
  also have "\<dots> = match_loop op cl (ts @ rest) (i + 1 + length inner + 1) d"
    using group by (simp add: Let_def)
  also have "\<dots> = match_loop op cl rest (i + 1 + length inner + 1 + length ts) d"
    using group by blast
  finally show ?case by (simp add: ac_simps)
qed (auto simp: Let_def)

lemma match_loop_split:
  assumes "match_loop op cl ts i (d + e) = Some j" and "op \<noteq> cl" and "0 < d" and "0 < e"
  shows "\<exists>k. i \<le> k \<and> k < i + length ts \<and> match_loop op cl ts i e = Some k
    \<and> match_loop op cl (drop (k - i + 1) ts) (k + 1) d = Some j"
  using assms
proof (induction ts arbitrary: i e)
  case (Cons t ts)
  define e' where "e' = (if Kind t = op then e + 1 else if Kind t = cl then e - 1 else e)"
  show ?case
  proof (cases "Kind t = cl \<and> e = 1")
    case True
    then show ?thesis using Cons.prems by (intro exI [of _ i]) (auto simp: Let_def)
  next
    case False
    have pos: "0 < e'" using False Cons.prems by (auto simp: e'_def)
    have "match_loop op cl ts (i + 1) (d + e') = Some j"
      using Cons.prems False by (auto simp: e'_def Let_def algebra_simps split: if_splits)
    from Cons.IH [OF this Cons.prems(2,3) pos] obtain k where k:
        "i + 1 \<le> k" "k < i + 1 + length ts" "match_loop op cl ts (i + 1) e' = Some k"
        "match_loop op cl (drop (k - (i + 1) + 1) ts) (k + 1) d = Some j" by blast
    have "match_loop op cl (t # ts) i e = Some k"
      using k(3) False Cons.prems by (auto simp: e'_def Let_def)
    moreover have "drop (k - i + 1) (t # ts) = drop (k - (i + 1) + 1) ts"
      using k(1) by (simp flip: Suc_diff_Suc)
    ultimately show ?thesis using k by (intro exI [of _ k]) auto
  qed
qed simp

lemma match_loop_sound:
  assumes "match_loop op cl ts i 1 = Some j" and "op \<noteq> cl"
  shows "\<exists>inner c rest. ts = inner @ c # rest \<and> j = i + length inner \<and> Kind c = cl
    \<and> bracketed op cl inner"
  using assms
proof (induction ts arbitrary: i j rule: length_induct)
  case (1 ts)
  then obtain t us where ts: "ts = t # us" by (cases ts) auto
  consider "Kind t = op" | "Kind t = cl" | "Kind t \<noteq> op" "Kind t \<noteq> cl" by blast
  then show ?case
  proof cases
    case op: 1
    then have "match_loop op cl us (i + 1) (1 + 1) = Some j"
      using "1.prems" ts by (simp add: Let_def)
    from match_loop_split [OF this] "1.prems"(2) obtain k where k:
        "i + 1 \<le> k" "k < i + 1 + length us" "match_loop op cl us (i + 1) 1 = Some k"
        "match_loop op cl (drop (k - (i + 1) + 1) us) (k + 1) 1 = Some j" by auto
    from "1.IH" k(3) ts "1.prems"(2) obtain a c1 r where a:
        "us = a @ c1 # r" "k = i + 1 + length a" "Kind c1 = cl" "bracketed op cl a" by fastforce
    with k(4) have "match_loop op cl r (k + 1) 1 = Some j" by simp
    with "1.IH" ts a(1) "1.prems"(2) obtain b c2 r' where b:
        "r = b @ c2 # r'" "j = k + 1 + length b" "Kind c2 = cl" "bracketed op cl b"
      using "1.IH" [rule_format, of r "k + 1" j] by auto
    show ?thesis using ts a b op
      by (intro exI [of _ "t # a @ c1 # b"] exI [of _ c2] exI [of _ r']) (auto intro: group)
  next
    case 2
    then show ?thesis using "1.prems" ts
      by (intro exI [of _ "[]"] exI [of _ t] exI [of _ us]) (auto intro: bracketed.empty)
  next
    case other: 3
    then have "match_loop op cl us (i + 1) 1 = Some j" using "1.prems" ts by (simp add: Let_def)
    with "1.IH" ts "1.prems"(2) obtain a c r where a:
        "us = a @ c # r" "j = i + 1 + length a" "Kind c = cl" "bracketed op cl a" by fastforce
    show ?thesis using ts a other
      by (intro exI [of _ "t # a"] exI [of _ c] exI [of _ r]) (auto intro: plain)
  qed
qed

text \<open>
  C22: \<open>match\<close> returns index \<open>j\<close> exactly when the tokens between the opening token and \<open>j\<close> are
  balanced and \<open>j\<close> closes: it finds the matching bracket, and it fails only when there is none.
\<close>

theorem match_iff:
  assumes "op \<noteq> cl" and "start < length tokens" and "Kind (tokens ! start) = op"
  shows "match tokens start op cl = Inr j \<longleftrightarrow>
    (\<exists>inner c rest. drop start tokens = tokens ! start # inner @ c # rest
       \<and> j = start + 1 + length inner \<and> Kind c = cl \<and> bracketed op cl inner)"
proof -
  obtain us where us: "drop start tokens = tokens ! start # us"
    using assms(2) by (metis Cons_nth_drop_Suc)
  have step: "match_loop op cl (drop start tokens) start 0 = match_loop op cl us (start + 1) 1"
    using us assms by (simp add: Let_def)
  show ?thesis
  proof
    assume "match tokens start op cl = Inr j"
    then have "match_loop op cl us (start + 1) 1 = Some j"
      using step by (auto simp: match_def split: option.splits)
    from match_loop_sound [OF this assms(1)] us show "\<exists>inner c rest.
        drop start tokens = tokens ! start # inner @ c # rest
       \<and> j = start + 1 + length inner \<and> Kind c = cl \<and> bracketed op cl inner" by auto
  next
    assume "\<exists>inner c rest. drop start tokens = tokens ! start # inner @ c # rest
       \<and> j = start + 1 + length inner \<and> Kind c = cl \<and> bracketed op cl inner"
    then obtain inner c rest where r: "us = inner @ c # rest" "j = start + 1 + length inner"
        "Kind c = cl" "bracketed op cl inner" using us by auto
    then have "match_loop op cl us (start + 1) 1 = Some j"
      using match_loop_bracketed [OF r(4) assms(1), of 1 "c # rest" "start + 1"] assms(1)
      by (simp add: Let_def)
    then show "match tokens start op cl = Inr j" using step by (simp add: match_def)
  qed
qed

lemma match_iff_witness:
  "let ts = [lexm LPAREN ''('' 0 1 1, lexm LPAREN ''('' 1 2 1, lexm RPAREN '')'' 2 3 1,
       lexm RPAREN '')'' 3 4 1]
   in match ts 0 LPAREN RPAREN = Inr 3 \<longleftrightarrow>
    (\<exists>inner c rest. drop 0 ts = ts ! 0 # inner @ c # rest
       \<and> (3 :: nat) = 0 + 1 + length inner \<and> Kind c = RPAREN \<and> bracketed LPAREN RPAREN inner)"
  unfolding Let_def by (rule match_iff) simp_all

section \<open>Erasing keeps positions\<close>

lemma length_erase [simp]: "length (erase data s e) = length data"
proof -
  have "length (erase_from i s e data) = length data" for i by (induction data arbitrary: i) auto
  then show ?thesis by (simp add: erase_def)
qed

lemma erase_from_nth:
  "k < length data \<Longrightarrow> erase_from i s e data ! k =
     (if s \<le> i + k \<and> i + k < e \<and> data ! k \<noteq> newline \<and> data ! k \<noteq> carriage_return
      then CHR '' '' else data ! k)"
  by (induction data arbitrary: i k) (auto simp: nth_Cons' split: if_splits)

lemma erase_nth:
  "k < length data \<Longrightarrow> erase data s e ! k =
     (if s \<le> k \<and> k < e \<and> data ! k \<noteq> newline \<and> data ! k \<noteq> carriage_return
      then CHR '' '' else data ! k)"
  using erase_from_nth [of k data 0] by (simp add: erase_def)

text \<open>Two texts of one length with the same line ends give every offset the same position.\<close>

definition same_lines :: "string \<Rightarrow> string \<Rightarrow> bool" where
  "same_lines a b \<longleftrightarrow> list_all2 (\<lambda>x y. x = newline \<longleftrightarrow> y = newline) a b"

lemma same_lines_refl [simp]: "same_lines a a"
  by (simp add: same_lines_def list_all2_refl)

lemma same_lines_trans: "same_lines a b \<Longrightarrow> same_lines b c \<Longrightarrow> same_lines a c"
  unfolding same_lines_def by (rule list_all2_trans) auto

lemma same_lines_length: "same_lines a b \<Longrightarrow> length a = length b"
  by (auto simp: same_lines_def dest: list_all2_lengthD)

lemma last_newline_same:
  "same_lines a b \<Longrightarrow> last_newline_from i f a = last_newline_from i f b"
  by (induction a arbitrary: b i f) (auto simp: same_lines_def list_all2_Cons1)

lemma count_lines_same: "same_lines a b \<Longrightarrow> count_lines a = count_lines b"
  by (induction a arbitrary: b) (auto simp: same_lines_def list_all2_Cons1 count_lines_def)

lemma lineColumn_same:
  assumes "same_lines a b"
  shows "lineColumn file a k = lineColumn file b k"
proof -
  have "same_lines (take k a) (take k b)" using assms by (simp add: same_lines_def)
  then show ?thesis
    by (simp add: lineColumn_def last_newline_def last_newline_same [of "take k a"]
        count_lines_same [of "take k a"])
qed

lemma same_lines_erase: "same_lines data (erase data s e)"
  by (simp add: same_lines_def list_all2_conv_all_nth erase_nth newline_def)

text \<open>
  Erasing a range keeps the length, the line and column of every offset and all bytes outside
  the range.
\<close>

theorem erase_positions:
  "length (erase data s e) = length data
   \<and> lineColumn file (erase data s e) k = lineColumn file data k
   \<and> (k < length data \<and> \<not> (s \<le> k \<and> k < e) \<longrightarrow> erase data s e ! k = data ! k)"
  using lineColumn_same [OF same_lines_erase [of data s e]] by (simp add: erase_nth)

lemma erase_positions_witness:
  "length (erase ''ab'' 0 1) = length ''ab''
   \<and> lineColumn ''f'' (erase ''ab'' 0 1) 1 = lineColumn ''f'' ''ab'' 1
   \<and> erase ''ab'' 0 1 ! 1 = ''ab'' ! 1"
  using erase_positions [of "''ab''" 0 1 "''f''" 1] by simp

end
