(* ===== verification/GoAst.thy ===== *)
theory GoAst
  imports GoToken
begin

text \<open>
  The syntax trees of Go's package \<open>go/ast\<close>, over which the compiler's analyses run. The
  constructors and their arguments are the package's node types and fields, with these changes: a
  position is kept where the code uses the identity or the position of the node (identifiers,
  function literals, dereferences, returns and branches); the \<open>BlockStmt\<close> or \<open>FieldList\<close> that a
  node only holds for its list is that list; an absent child is \<^const>\<open>None\<close>.
\<close>

named_theorems ast_size \<open>sizes of parts of syntax trees, for termination proofs\<close>

section \<open>Nodes\<close>

datatype (plugins only: size code) expr =
    BadExpr
  | Ident nat string
  | BasicLit token string
  | Ellipsis "expr option"
  | FuncLit nat expr "stmt list"
  | CompositeLit "expr option" "expr list"
  | ParenExpr expr
  | SelectorExpr expr nat string
  | IndexExpr expr expr
  | IndexListExpr expr "expr list"
  | SliceExpr expr "expr option" "expr option" "expr option"
  | TypeAssertExpr expr "expr option"
  | CallExpr expr "expr list" bool
  | StarExpr nat expr
  | UnaryExpr token expr
  | BinaryExpr expr token expr
  | KeyValueExpr expr expr
  | ArrayType "expr option" expr
  | StructType "field list"
  | FuncType "field list" "field list" "field list option"
  | InterfaceType "field list"
  | MapType expr expr
  | ChanType nat expr
and field =
    Field "(nat \<times> string) list" expr
and stmt =
    BadStmt
  | EmptyStmt
  | DeclStmt token "spec list"
  | LabeledStmt string stmt
  | ExprStmt expr
  | SendStmt expr expr
  | IncDecStmt expr token
  | AssignStmt "expr list" token "expr list"
  | GoStmt expr
  | DeferStmt expr
  | ReturnStmt nat "expr list"
  | BranchStmt nat token "string option"
  | BlockStmt "stmt list"
  | IfStmt "stmt option" expr "stmt list" "stmt option"
  | CaseClause "expr list option" "stmt list"
  | SwitchStmt "stmt option" "expr option" "stmt list"
  | TypeSwitchStmt "stmt option" stmt "stmt list"
  | CommClause "stmt option" "stmt list"
  | SelectStmt "stmt list"
  | ForStmt "stmt option" "expr option" "stmt option" "stmt list"
  | RangeStmt "expr option" "expr option" token expr "stmt list"
and spec =
    ImportSpec "string option" string
  | TypeSpec string "field list" expr
  | ValueSpec "(nat \<times> string) list" "expr option" "expr list"

datatype (plugins only: size code) decl =
    GenDecl token "spec list"
  | FuncDecl "field list" nat string expr "stmt list option"

text \<open>\<open>ast.Node\<close>: what \<open>ast.Inspect\<close> visits.\<close>

datatype (plugins only: size code) node = NE expr | NF field | NS stmt | NP spec

section \<open>ast.Inspect\<close>

definition opt_list :: "'a option \<Rightarrow> 'a list" where
  "opt_list x = (case x of None \<Rightarrow> [] | Some y \<Rightarrow> [y])"

definition names_nodes :: "(nat \<times> string) list \<Rightarrow> node list" where
  "names_nodes names = map (\<lambda>(p, n). NE (Ident p n)) names"

definition exprs_nodes :: "expr list \<Rightarrow> node list" where "exprs_nodes es = map NE es"
definition stmts_nodes :: "stmt list \<Rightarrow> node list" where "stmts_nodes ss = map NS ss"
definition fields_nodes :: "field list \<Rightarrow> node list" where "fields_nodes fs = map NF fs"
definition label_nodes :: "string option \<Rightarrow> node list" where
  "label_nodes l = map (\<lambda>n. NE (Ident 0 n)) (opt_list l)"

text \<open>The children of a node, in the order in which \<open>ast.Walk\<close> visits them.\<close>

fun expr_children :: "expr \<Rightarrow> node list" where
  "expr_children BadExpr = []"
| "expr_children (Ident p n) = []"
| "expr_children (BasicLit k v) = []"
| "expr_children (Ellipsis e) = exprs_nodes (opt_list e)"
| "expr_children (FuncLit p t b) = NE t # stmts_nodes b"
| "expr_children (CompositeLit t es) = exprs_nodes (opt_list t) @ exprs_nodes es"
| "expr_children (ParenExpr e) = [NE e]"
| "expr_children (SelectorExpr e p n) = [NE e, NE (Ident p n)]"
| "expr_children (IndexExpr e i) = [NE e, NE i]"
| "expr_children (IndexListExpr e es) = NE e # exprs_nodes es"
| "expr_children (SliceExpr e a b c) =
     NE e # exprs_nodes (opt_list a) @ exprs_nodes (opt_list b) @ exprs_nodes (opt_list c)"
| "expr_children (TypeAssertExpr e t) = NE e # exprs_nodes (opt_list t)"
| "expr_children (CallExpr f args v) = NE f # exprs_nodes args"
| "expr_children (StarExpr p e) = [NE e]"
| "expr_children (UnaryExpr op e) = [NE e]"
| "expr_children (BinaryExpr a op b) = [NE a, NE b]"
| "expr_children (KeyValueExpr k v) = [NE k, NE v]"
| "expr_children (ArrayType l e) = exprs_nodes (opt_list l) @ [NE e]"
| "expr_children (StructType fs) = fields_nodes fs"
| "expr_children (FuncType tp ps rs) =
     fields_nodes tp @ fields_nodes ps @ concat (map fields_nodes (opt_list rs))"
| "expr_children (InterfaceType fs) = fields_nodes fs"
| "expr_children (MapType k v) = [NE k, NE v]"
| "expr_children (ChanType d v) = [NE v]"

fun field_children :: "field \<Rightarrow> node list" where
  "field_children (Field names t) = names_nodes names @ [NE t]"

fun spec_children :: "spec \<Rightarrow> node list" where
  "spec_children (ImportSpec name path) = label_nodes name @ [NE (BasicLit STRING path)]"
| "spec_children (TypeSpec name tps t) = NE (Ident 0 name) # fields_nodes tps @ [NE t]"
| "spec_children (ValueSpec names t vs) =
     names_nodes names @ exprs_nodes (opt_list t) @ exprs_nodes vs"

fun stmt_children :: "stmt \<Rightarrow> node list" where
  "stmt_children BadStmt = []"
| "stmt_children EmptyStmt = []"
| "stmt_children (DeclStmt tok specs) = map NP specs"
| "stmt_children (LabeledStmt l s) = [NE (Ident 0 l), NS s]"
| "stmt_children (ExprStmt e) = [NE e]"
| "stmt_children (SendStmt c v) = [NE c, NE v]"
| "stmt_children (IncDecStmt e tok) = [NE e]"
| "stmt_children (AssignStmt l tok r) = exprs_nodes l @ exprs_nodes r"
| "stmt_children (GoStmt e) = [NE e]"
| "stmt_children (DeferStmt e) = [NE e]"
| "stmt_children (ReturnStmt p es) = exprs_nodes es"
| "stmt_children (BranchStmt p tok l) = label_nodes l"
| "stmt_children (BlockStmt b) = stmts_nodes b"
| "stmt_children (IfStmt i c b e) =
     stmts_nodes (opt_list i) @ [NE c] @ stmts_nodes b @ stmts_nodes (opt_list e)"
| "stmt_children (CaseClause l b) = concat (map exprs_nodes (opt_list l)) @ stmts_nodes b"
| "stmt_children (SwitchStmt i t b) =
     stmts_nodes (opt_list i) @ exprs_nodes (opt_list t) @ stmts_nodes b"
| "stmt_children (TypeSwitchStmt i a b) = stmts_nodes (opt_list i) @ [NS a] @ stmts_nodes b"
| "stmt_children (CommClause c b) = stmts_nodes (opt_list c) @ stmts_nodes b"
| "stmt_children (SelectStmt b) = stmts_nodes b"
| "stmt_children (ForStmt i c p b) =
     stmts_nodes (opt_list i) @ exprs_nodes (opt_list c) @ stmts_nodes (opt_list p) @ stmts_nodes b"
| "stmt_children (RangeStmt k v tok x b) =
     exprs_nodes (opt_list k) @ exprs_nodes (opt_list v) @ [NE x] @ stmts_nodes b"

fun children :: "node \<Rightarrow> node list" where
  "children (NE e) = expr_children e"
| "children (NF f) = field_children f"
| "children (NS s) = stmt_children s"
| "children (NP p) = spec_children p"

text \<open>A size in which a child is smaller than its node (an identifier weighs less than what names it).\<close>

fun node_size :: "node \<Rightarrow> nat" where
  "node_size (NE e) = 2 * size e + (case e of Ident p n \<Rightarrow> 0 | _ \<Rightarrow> 1)"
| "node_size (NF f) = 2 * size f + 1"
| "node_size (NS s) = 2 * size s + 1"
| "node_size (NP p) = 2 * size p + 2"

lemma node_size_le: "node_size (NE e) \<le> 2 * size e + 1"
  by (cases e) auto

lemma case_ident_less [simp]: "(case e of Ident p n \<Rightarrow> 0 | _ \<Rightarrow> 1) < (3 :: nat)"
  by (cases e) auto

lemma size_list_mem [ast_size]: "x \<in> set xs \<Longrightarrow> size x < size_list size xs"
  by (induction xs) auto

lemma opt_list_mem [ast_size]: "x \<in> set (opt_list o1) \<Longrightarrow> o1 = Some x"
  by (auto simp: opt_list_def split: option.splits)

lemmas nodes_defs = names_nodes_def exprs_nodes_def stmts_nodes_def fields_nodes_def label_nodes_def

lemma children_smaller [ast_size]: "c \<in> set (children n) \<Longrightarrow> node_size c < node_size n"
proof (cases n)
  case (NE e)
  assume "c \<in> set (children n)"
  then show ?thesis using NE
    by (cases e) (auto simp: nodes_defs dest!: size_list_mem opt_list_mem
        intro: le_less_trans [OF node_size_le])
next
  case (NF f)
  assume "c \<in> set (children n)"
  then show ?thesis using NF
    by (cases f) (auto simp: nodes_defs intro: le_less_trans [OF node_size_le])
next
  case (NS s)
  assume "c \<in> set (children n)"
  then show ?thesis using NS
    by (cases s) (auto simp: nodes_defs dest!: size_list_mem opt_list_mem
        intro: le_less_trans [OF node_size_le])
next
  case (NP p)
  assume "c \<in> set (children n)"
  then show ?thesis using NP
    by (cases p) (auto simp: nodes_defs dest!: size_list_mem opt_list_mem
        intro: le_less_trans [OF node_size_le])
qed

text \<open>
  \<open>ast.Inspect(n, f)\<close>: visit \<open>n\<close> and, where the callback returns true, its children. The callback
  returns what it reports beside that; the reports come in the order of the visits.
\<close>

function inspect :: "(node \<Rightarrow> 'a list \<times> bool) \<Rightarrow> node \<Rightarrow> 'a list" where
  "inspect f n =
     (let (out, descend) = f n in
      if descend then out @ concat (map (inspect f) (children n)) else out)"
  by pat_completeness auto
termination
  by (relation "measure (\<lambda>(f, n). node_size n)") (auto intro: children_smaller)

declare inspect.simps [simp del]

lemma inspect_stop: "f n = (out, False) \<Longrightarrow> inspect f n = out"
  by (subst inspect.simps) simp

lemma inspect_descend:
  "f n = (out, True) \<Longrightarrow> inspect f n = out @ concat (map (inspect f) (children n))"
  by (subst inspect.simps) simp

section \<open>Helpers of the compiler\<close>

text \<open>\<open>callNamed\<close> of \<open>control_flow.go\<close>: the arguments of a call of the named function.\<close>

definition callNamed :: "expr \<Rightarrow> string \<Rightarrow> expr list option" where
  "callNamed x name =
     (case x of
        CallExpr (Ident p n) args v \<Rightarrow> if n = name then Some args else None
      | _ \<Rightarrow> None)"

fun funcLitBody :: "expr \<Rightarrow> stmt list option" where
  "funcLitBody (FuncLit p t b) = Some b"
| "funcLitBody _ = None"

fun unparen :: "expr \<Rightarrow> expr" where
  "unparen (ParenExpr e) = unparen e"
| "unparen e = e"

lemma callNamed_size [ast_size]:
  "callNamed x name = Some args \<Longrightarrow> size_list size args < size x"
  by (auto simp: callNamed_def split: expr.splits if_splits)

lemma funcLitBody_size [ast_size]: "funcLitBody x = Some b \<Longrightarrow> size_list size b < size x"
  by (cases x) auto

lemma unparen_not_paren [simp]: "unparen e \<noteq> ParenExpr x"
  by (induction e arbitrary: x rule: unparen.induct) auto

end
