(* ===== verification/NullFlow.thy ===== *)
theory NullFlow
  imports GoAst
begin

text \<open>
  The narrowing of nullable variables (\<open>internal/compiler/nullable_flow.go\<close>, \<open>blockTerminates\<close> of
  \<open>control_flow.go\<close>, \<open>isTernaryFunction\<close> of \<open>match_lower.go\<close>). A nullable value is a Go pointer; where
  a check has proved a local variable not to be nil, the compiler dereferences it for the programmer.

  Types and objects of \<open>go/types\<close> are numbers; \<open>nullInfo\<close> is what the code asks \<open>types.Info\<close> about
  them, and \<open>noZero\<close> is \<open>p.needsInitialization\<close>. The code rewrites the tree in place and remembers in
  \<open>CheckedDereferences\<close> the dereferences it made or found proved; here the rewritten tree is a result,
  and a dereference in that set has the position 0, which no dereference of a source has. A Go map of
  objects holds no false values, so a proof is the set of its keys.
\<close>

section \<open>State\<close>

type_synonym nullProof = "nat set"

record nullInfo =
  objectOf :: "nat \<Rightarrow> string \<Rightarrow> nat option"
  typeOf :: "expr \<Rightarrow> nat option"
  pointee :: "nat \<Rightarrow> nat option"
  noZero :: "nat \<Rightarrow> bool"
  assignable :: "nat \<Rightarrow> nat \<Rightarrow> bool"
  signatureOf :: "nat \<Rightarrow> (nat list \<times> bool) option"
  channelElem :: "nat \<Rightarrow> nat option"
  definedType :: "nat \<Rightarrow> nat option"
  scopeChain :: "nat \<Rightarrow> nat list"
  packageLevel :: "nat \<Rightarrow> bool"
  scopeOf :: "nat \<Rightarrow> nat"
  ternaryFunctions :: "nat \<Rightarrow> bool"

record nullableFlow =
  nf_unstable :: "nat list"
  nf_scope :: nat
  nf_results :: "field list option"

definition mergeProof :: "nullProof \<Rightarrow> nullProof \<Rightarrow> nullProof" where
  "mergeProof a b = a \<inter> b"

fun object :: "nullInfo \<Rightarrow> expr \<Rightarrow> nat option" where
  "object I (Ident p n) = objectOf I p n"
| "object I e = None"

definition optional :: "nullInfo \<Rightarrow> expr \<Rightarrow> bool" where
  "optional I e =
     (case typeOf I e of
        None \<Rightarrow> False
      | Some t \<Rightarrow> (case pointee I t of None \<Rightarrow> False | Some el \<Rightarrow> noZero I el))"

definition proved :: "nullInfo \<Rightarrow> nullProof \<Rightarrow> expr \<Rightarrow> bool" where
  "proved I P e \<longleftrightarrow> (case object I e of None \<Rightarrow> False | Some x \<Rightarrow> x \<in> P)"

definition checked :: "expr \<Rightarrow> expr" where
  "checked e = StarExpr 0 e"

definition require :: "nullInfo \<Rightarrow> nat option \<Rightarrow> nullProof \<Rightarrow> expr \<Rightarrow> expr \<times> bool" where
  "require I expected P e =
     (case expected of
        None \<Rightarrow> (e, False)
      | Some t \<Rightarrow>
          if noZero I t \<and> optional I e \<and> proved I P e
            \<and> (case Option.bind (typeOf I e) (pointee I) of None \<Rightarrow> False | Some el \<Rightarrow> assignable I el t)
          then (checked e, True) else (e, False))"

text \<open>Where the code asks \<open>optional\<close> and the proof of an operand and dereferences it.\<close>

definition narrow :: "nullInfo \<Rightarrow> nullProof \<Rightarrow> expr \<Rightarrow> expr \<times> bool" where
  "narrow I P e = (if optional I e \<and> proved I P e then (checked e, True) else (e, False))"

definition is_nil :: "expr \<Rightarrow> bool" where
  "is_nil e = (case e of Ident p n \<Rightarrow> n = ''nil'' | _ \<Rightarrow> False)"

definition local_object :: "nullInfo \<Rightarrow> nullableFlow \<Rightarrow> nat \<Rightarrow> bool" where
  "local_object I f x \<longleftrightarrow> nf_scope f \<in> set (scopeChain I x) \<and> \<not> packageLevel I x"

fun assume_cond :: "nullInfo \<Rightarrow> nullableFlow \<Rightarrow> expr \<Rightarrow> bool \<Rightarrow> nullProof \<Rightarrow> nullProof" where
  "assume_cond I f (ParenExpr e) truth P = assume_cond I f e truth P"
| "assume_cond I f (UnaryExpr op e) truth P = (if op = NOTOP then assume_cond I f e (\<not> truth) P else P)"
| "assume_cond I f (BinaryExpr x op y) truth P =
     (if op = LAND \<and> truth then assume_cond I f y True (assume_cond I f x True P)
      else if op = LOR \<and> \<not> truth then assume_cond I f y False (assume_cond I f x False P)
      else if op = EQL \<or> op = NEQ then
        (let candidate = (if is_nil x then y else x);
             nilValue = (if is_nil x then x else y)
         in case object I candidate of
              None \<Rightarrow> P
            | Some v \<Rightarrow>
                if is_nil nilValue \<and> optional I candidate \<and> v \<notin> set (nf_unstable f) \<and> local_object I f v
                then (if truth = (op = NEQ) then insert v P else P - {v})
                else P)
      else P)"
| "assume_cond I f e truth P = P"

definition assume_opt :: "nullInfo \<Rightarrow> nullableFlow \<Rightarrow> expr option \<Rightarrow> bool \<Rightarrow> nullProof \<Rightarrow> nullProof" where
  "assume_opt I f c truth P = (case c of None \<Rightarrow> P | Some e \<Rightarrow> assume_cond I f e truth P)"

section \<open>Statements\<close>

definition opt_object :: "nullInfo \<Rightarrow> expr option \<Rightarrow> nat list" where
  "opt_object I e = (case e of None \<Rightarrow> [] | Some x \<Rightarrow> opt_list (object I x))"

text \<open>The objects that \<open>invalidateWrites\<close> deletes.\<close>

definition written_by :: "nullInfo \<Rightarrow> node \<Rightarrow> nat list" where
  "written_by I n =
     (case n of
        NS (AssignStmt l tok r) \<Rightarrow> concat (map (\<lambda>x. opt_list (object I x)) l)
      | NS (RangeStmt k v tok x b) \<Rightarrow> opt_object I k @ opt_object I v
      | _ \<Rightarrow> [])"

definition writes :: "nullInfo \<Rightarrow> node \<Rightarrow> nat list" where
  "writes I n = inspect (\<lambda>m. (written_by I m, True)) n"

definition invalidateWrites :: "nullInfo \<Rightarrow> stmt \<Rightarrow> nullProof \<Rightarrow> nullProof" where
  "invalidateWrites I s P = P - set (writes I (NS s))"

text \<open>\<open>blockTerminates\<close>; the arguments of a try that are not what the parser makes would panic.\<close>

function (sequential) stmtTerminates :: "stmt \<Rightarrow> bool" and blockTerminates :: "stmt list \<Rightarrow> bool" where
  "stmtTerminates (ReturnStmt p es) = True"
| "stmtTerminates (ExprStmt x) =
     (if callNamed x ''GhiThrow'' \<noteq> None \<or> callNamed x ''panic'' \<noteq> None then True
      else
        case callNamed x ''GhiTry'' of
          Some [body, handler, finalizer] \<Rightarrow>
            (case funcLitBody finalizer of Some fin \<Rightarrow> blockTerminates fin | None \<Rightarrow> False)
            \<or> (case funcLitBody body of Some b \<Rightarrow> blockTerminates b | None \<Rightarrow> False)
              \<and> (case funcLitBody handler of Some h \<Rightarrow> blockTerminates h | None \<Rightarrow> True)
        | _ \<Rightarrow> False)"
| "stmtTerminates (BlockStmt b) = blockTerminates b"
| "stmtTerminates (IfStmt i c b (Some e)) = (blockTerminates b \<and> stmtTerminates e)"
| "stmtTerminates s = False"
| "blockTerminates [] = False"
| "blockTerminates (s # ss) = (if ss = [] then stmtTerminates s else blockTerminates ss)"
  by pat_completeness auto
termination
  by (relation "measures [\<lambda>x. case x of Inl s \<Rightarrow> 2 * size s | Inr b \<Rightarrow> 2 * size_list size b]")
    (auto dest!: callNamed_size funcLitBody_size)

definition falls_visit :: "node \<Rightarrow> bool list \<times> bool" where
  "falls_visit n =
     (case n of
        NE e \<Rightarrow> ([], case e of FuncLit p t body \<Rightarrow> False | _ \<Rightarrow> True)
      | NS s \<Rightarrow> (case s of BranchStmt p tok l \<Rightarrow> [tok = FALLTHROUGH] | _ \<Rightarrow> [], True)
      | _ \<Rightarrow> ([], True))"

definition falls_through :: "stmt list \<Rightarrow> bool" where
  "falls_through b = (\<exists>s \<in> set b. True \<in> set (inspect falls_visit (NS s)))"

definition ternary_marker :: string where "ternary_marker = ''ghi_ternary_result''"

definition isTernaryFunction :: "nullInfo \<Rightarrow> nat \<Rightarrow> expr \<Rightarrow> bool" where
  "isTernaryFunction I p t \<longleftrightarrow>
     ternaryFunctions I p \<or>
     (case t of FuncType tps ps (Some [Field names (Ident q n)]) \<Rightarrow> n = ternary_marker | _ \<Rightarrow> False)"

text \<open>The variables that a closure mentions or whose address is taken.\<close>

definition mentioned :: "nullInfo \<Rightarrow> node \<Rightarrow> nat list" where
  "mentioned I n = inspect (\<lambda>m. case m of NE (Ident p name) \<Rightarrow> (opt_list (objectOf I p name), True) | _ \<Rightarrow> ([], True)) n"

definition unstable_by :: "nullInfo \<Rightarrow> node \<Rightarrow> nat list \<times> bool" where
  "unstable_by I n =
     (case n of
        NE (FuncLit p t b) \<Rightarrow>
          if isTernaryFunction I p t then ([], True) else (concat (map (\<lambda>s. mentioned I (NS s)) b), False)
      | NE (UnaryExpr op x) \<Rightarrow> (if op = AND then opt_list (object I x) else [], True)
      | _ \<Rightarrow> ([], True))"

definition unstable :: "nullInfo \<Rightarrow> stmt list \<Rightarrow> nat list" where
  "unstable I b = concat (map (\<lambda>s. inspect (unstable_by I) (NS s)) b)"

fun type_results :: "expr \<Rightarrow> field list option" where
  "type_results (FuncType tps ps rs) = rs"
| "type_results t = None"

definition function_flow :: "nullInfo \<Rightarrow> nat \<Rightarrow> expr \<Rightarrow> stmt list \<Rightarrow> nullableFlow" where
  "function_flow I p t b =
     \<lparr>nf_unstable = unstable I b, nf_scope = scopeOf I p,
      nf_results = type_results t\<rparr>"

text \<open>\<open>require\<close> for a list of expected types; values beyond it stay.\<close>

fun require_each :: "nullInfo \<Rightarrow> nullProof \<Rightarrow> nat option list \<Rightarrow> expr list \<Rightarrow> (expr \<times> bool) list" where
  "require_each I P (t # ts) (e # es) = require I t P e # require_each I P ts es"
| "require_each I P ts es = map (\<lambda>e. (e, False)) es"

text \<open>The parameters that are not variadic.\<close>

definition expected_params :: "nullInfo \<Rightarrow> expr \<Rightarrow> nat option list" where
  "expected_params I f =
     (case Option.bind (typeOf I f) (signatureOf I) of
        None \<Rightarrow> []
      | Some (ts, variadic) \<Rightarrow> map Some (if variadic then butlast ts else ts))"

definition expected_results :: "nullInfo \<Rightarrow> nullableFlow \<Rightarrow> nat option list" where
  "expected_results I f =
     concat (map (\<lambda>fl. case fl of Field names t \<Rightarrow> replicate (max 1 (length names)) (typeOf I t))
       (concat (opt_list (nf_results f))))"

section \<open>Rewriting\<close>

text \<open>The two exits of an if statement: the branch that always leaves does not reach what follows.\<close>

definition if_proof :: "stmt list \<Rightarrow> stmt option \<Rightarrow> nullProof \<Rightarrow> nullProof \<Rightarrow> nullProof" where
  "if_proof body els yes no =
     (if blockTerminates body then no
      else case els of
        Some (BlockStmt b) \<Rightarrow> if blockTerminates b then yes else mergeProof yes no
      | _ \<Rightarrow> mergeProof yes no)"

definition spec_expected :: "nullInfo \<Rightarrow> (nat \<times> string) list \<Rightarrow> expr list \<Rightarrow> nat option list" where
  "spec_expected I names vs =
     (if length vs = length names then map (\<lambda>(p, n). definedType I p) names else [])"

definition assign_expected :: "nullInfo \<Rightarrow> expr list \<Rightarrow> expr list \<Rightarrow> nat option list" where
  "assign_expected I lhs rhs = (if length rhs = length lhs then map (typeOf I) lhs else [])"

definition branch_proof :: "nullProof option \<Rightarrow> nullProof \<Rightarrow> nullProof" where
  "branch_proof matched branch = (case matched of None \<Rightarrow> branch | Some m \<Rightarrow> mergeProof m branch)"

text \<open>
  The elements of a list in their order, each with the state its predecessors left; the flag says
  whether one of them changed something.
\<close>

fun thread :: "('s \<Rightarrow> 'a \<Rightarrow> 'b \<times> 's \<times> bool) \<Rightarrow> 's \<Rightarrow> 'a list \<Rightarrow> 'b list \<times> 's \<times> bool" where
  "thread g s [] = ([], s, False)"
| "thread g s (x # xs) =
     (let (y, s1, c1) = g s x; (ys, s2, c2) = thread g s1 xs in (y # ys, s2, c1 \<or> c2))"

lemma thread_cong [fundef_cong]:
  "xs = ys \<Longrightarrow> s = t \<Longrightarrow> (\<And>x r. x \<in> set ys \<Longrightarrow> g r x = h r x) \<Longrightarrow> thread g s xs = thread h t ys"
  by (induction xs arbitrary: s t ys) (auto simp: Let_def split: prod.splits)

definition each :: "('a \<Rightarrow> 'b \<times> bool) \<Rightarrow> 'a list \<Rightarrow> 'b list \<times> bool" where
  "each g xs = (map (\<lambda>x. fst (g x)) xs, list_ex (\<lambda>x. snd (g x)) xs)"

lemma each_cong [fundef_cong]:
  "xs = ys \<Longrightarrow> (\<And>x. x \<in> set ys \<Longrightarrow> g x = h x) \<Longrightarrow> each g xs = each h ys"
  by (auto simp: each_def list_ex_iff)

definition each_opt :: "('a \<Rightarrow> 'b \<times> bool) \<Rightarrow> 'a option \<Rightarrow> 'b option \<times> bool" where
  "each_opt g x = (case x of None \<Rightarrow> (None, False) | Some y \<Rightarrow> (let (z, c) = g y in (Some z, c)))"

lemma each_opt_cong [fundef_cong]:
  "x = y \<Longrightarrow> (\<And>z. y = Some z \<Longrightarrow> g z = h z) \<Longrightarrow> each_opt g x = each_opt h y"
  by (auto simp: each_opt_def split: option.splits)

definition thread_opt :: "('a \<Rightarrow> 'b \<times> 's \<times> bool) \<Rightarrow> 's \<Rightarrow> 'a option \<Rightarrow> 'b option \<times> 's \<times> bool" where
  "thread_opt g s x = (case x of None \<Rightarrow> (None, s, False) | Some y \<Rightarrow> (let (z, t, c) = g y in (Some z, t, c)))"

lemma thread_opt_cong [fundef_cong]:
  "x = y \<Longrightarrow> s = t \<Longrightarrow> (\<And>z. y = Some z \<Longrightarrow> g z = h z) \<Longrightarrow> thread_opt g s x = thread_opt h t y"
  by (auto simp: thread_opt_def split: option.splits)

text \<open>\<open>expression\<close> for a list of values and then \<open>require\<close>.\<close>

definition required_each ::
  "nullInfo \<Rightarrow> nullProof \<Rightarrow> nat option list \<Rightarrow> expr list \<times> bool \<Rightarrow> expr list \<times> bool" where
  "required_each I P ts r = (let rs = require_each I P ts (fst r) in (map fst rs, snd r \<or> list_ex snd rs))"

fun clause_list :: "stmt \<Rightarrow> expr list option" where
  "clause_list (CaseClause l b) = l"
| "clause_list s = None"

fun clause_body :: "stmt \<Rightarrow> stmt list" where
  "clause_body (CaseClause l b) = b"
| "clause_body s = []"

fun value_spec :: "nullInfo \<Rightarrow> nullProof \<Rightarrow> (expr \<Rightarrow> expr \<times> bool) \<Rightarrow> spec \<Rightarrow> spec \<times> bool" where
  "value_spec I P g (ValueSpec names t vs) =
     (let (vs1, c) = required_each I P (spec_expected I names vs) (each g vs) in (ValueSpec names t vs1, c))"
| "value_spec I P g sp = (sp, False)"

fun spec_exprs :: "spec \<Rightarrow> expr list" where
  "spec_exprs (ValueSpec names t vs) = vs"
| "spec_exprs sp = []"

lemma value_spec_cong [fundef_cong]:
  "sp = sq \<Longrightarrow> (\<And>x. x \<in> set (spec_exprs sq) \<Longrightarrow> g x = h x) \<Longrightarrow> value_spec I P g sp = value_spec I P h sq"
  by (cases sq) (auto simp: Let_def split: prod.splits cong: each_cong)

lemma part_size: "s \<in> set xs \<Longrightarrow> size e < size s \<Longrightarrow> size e < size_list size xs"
  using size_list_mem [of s xs] by simp

lemma spec_exprs_size [ast_size]:
  assumes "x \<in> set (spec_exprs sp)" "sp \<in> set specs" shows "size x < size_list size specs"
  using assms(2) by (rule part_size) (use assms(1) in \<open>cases sp, auto dest: size_list_mem\<close>)

lemma clause_list_size [ast_size]:
  assumes "clause_list s = Some es" "e \<in> set es" "s \<in> set b" shows "size e < size_list size b"
  using assms(3) by (rule part_size) (use assms in \<open>cases s, auto dest: size_list_mem\<close>)

lemma clause_body_size [ast_size]:
  assumes "x \<in> set (clause_body s)" "s \<in> set b" shows "size x < size_list size b"
  using assms(2) by (rule part_size) (use assms in \<open>cases s, auto dest: size_list_mem\<close>)

lemma zip_body_size [ast_size]:
  "(s, m) \<in> set (zip b hs) \<Longrightarrow> x \<in> set (clause_body s) \<Longrightarrow> size x < size_list size b"
  by (auto dest: set_zip_leftD intro: clause_body_size)

text \<open>
  \<open>block\<close> is \<^const>\<open>thread\<close> over the statements. In a switch the state of the first loop of
  \<open>switchCases\<close> is the proof \<open>remaining\<close>, with the proof \<open>matched\<close> inside a clause, and that of the
  second loop is \<open>fallthroughPossible\<close>.
\<close>

definition incoming :: "nullProof \<Rightarrow> bool \<Rightarrow> expr list option \<Rightarrow> nullProof option \<Rightarrow> nullProof" where
  "incoming remaining fell l m =
     (if fell then {} else case l of None \<Rightarrow> remaining | Some es \<Rightarrow> (case m of None \<Rightarrow> {} | Some P \<Rightarrow> P))"

function (sequential)
  expression :: "nullInfo \<Rightarrow> nullableFlow \<Rightarrow> nullProof \<Rightarrow> expr \<Rightarrow> expr \<times> bool"
  and statement :: "nullInfo \<Rightarrow> nullableFlow \<Rightarrow> nullProof \<Rightarrow> stmt \<Rightarrow> stmt \<times> nullProof \<times> bool"
where
  "expression I f P (SelectorExpr e p n) =
     (let (e1, c1) = expression I f P e; (e2, c2) = narrow I P e1
      in (SelectorExpr e2 p n, c1 \<or> c2))"
| "expression I f P (BinaryExpr x op y) =
     (let (x1, c1) = expression I f P x;
          right = (if op = LAND then assume_cond I f x1 True P
                   else if op = LOR then assume_cond I f x1 False P else P);
          (y1, c2) = expression I f right y
      in (BinaryExpr x1 op y1, c1 \<or> c2))"
| "expression I f P (CallExpr g args v) =
     (let (g1, c1) = expression I f P g;
          (as1, c2) = required_each I P (expected_params I g) (each (expression I f P) args)
      in (CallExpr g1 as1 v, c1 \<or> c2))"
| "expression I f P (ParenExpr e) = (let (e1, c1) = expression I f P e in (ParenExpr e1, c1))"
| "expression I f P (UnaryExpr op e) = (let (e1, c1) = expression I f P e in (UnaryExpr op e1, c1))"
| "expression I f P (StarExpr p e) =
     (let (e1, c1) = expression I f P e
      in (StarExpr (if optional I e \<and> proved I P e then 0 else p) e1, c1))"
| "expression I f P (IndexExpr e i) =
     (let (e1, c1) = expression I f P e; (e2, c2) = narrow I P e1; (i1, c3) = expression I f P i
      in (IndexExpr e2 i1, c1 \<or> c2 \<or> c3))"
| "expression I f P (IndexListExpr e is) =
     (let (e1, c1) = expression I f P e; (is1, c2) = each (expression I f P) is
      in (IndexListExpr e1 is1, c1 \<or> c2))"
| "expression I f P (SliceExpr e l h m) =
     (let (e1, c1) = expression I f P e; (e2, c2) = narrow I P e1;
          (l1, c3) = each_opt (expression I f P) l; (h1, c4) = each_opt (expression I f P) h;
          (m1, c5) = each_opt (expression I f P) m
      in (SliceExpr e2 l1 h1 m1, c1 \<or> c2 \<or> c3 \<or> c4 \<or> c5))"
| "expression I f P (TypeAssertExpr e t) =
     (let (e1, c1) = expression I f P e in (TypeAssertExpr e1 t, c1))"
| "expression I f P (CompositeLit t es) =
     (let (es1, c1) = each (expression I f P) es in (CompositeLit t es1, c1))"
| "expression I f P (KeyValueExpr k v) =
     (let (k1, c1) = expression I f P k; (v1, c2) = expression I f P v
      in (KeyValueExpr k1 v1, c1 \<or> c2))"
| "expression I f P (FuncLit p t b) =
     (if isTernaryFunction I p t
      then (let (b1, Q, c) = thread (statement I (f\<lparr>nf_results := type_results t\<rparr>)) P b in (FuncLit p t b1, c))
      else (let (b1, Q, c) = thread (statement I (function_flow I p t b)) {} b in (FuncLit p t b1, c)))"
| "expression I f P e = (e, False)"
| "statement I f P (BlockStmt b) = (let (b1, Q, c) = thread (statement I f) P b in (BlockStmt b1, Q, c))"
| "statement I f P (ExprStmt e) = (let (e1, c) = expression I f P e in (ExprStmt e1, P, c))"
| "statement I f P (AssignStmt l tok r) =
     (let (r1, c1) = required_each I P (assign_expected I l r) (each (expression I f P) r);
          (l1, Q, c2) = thread (\<lambda>Q e. let (e1, c) = expression I f Q e in (e1, Q - set (opt_list (object I e)), c)) P l
      in (AssignStmt l1 tok r1, Q, c1 \<or> c2))"
| "statement I f P (DeclStmt tok specs) =
     (let (specs1, c) = each (value_spec I P (expression I f P)) specs in (DeclStmt tok specs1, P, c))"
| "statement I f P (ReturnStmt p es) =
     (let (es1, c) = required_each I P (expected_results I f) (each (expression I f P) es)
      in (ReturnStmt p es1, P, c))"
| "statement I f P (IfStmt i c b e) =
     (let (i1, P1, c1) = thread_opt (statement I f P) P i;
          (cond1, c2) = expression I f P1 c;
          (b1, yes, c3) = thread (statement I f) (assume_cond I f cond1 True P1) b;
          (e1, no, c4) = thread_opt (statement I f (assume_cond I f cond1 False P1)) (assume_cond I f cond1 False P1) e
      in (IfStmt i1 cond1 b1 e1, if_proof b1 e1 yes no, c1 \<or> c2 \<or> c3 \<or> c4))"
| "statement I f P (ForStmt i c p b) =
     (let (i1, P1, c1) = thread_opt (statement I f P) P i;
          P2 = invalidateWrites I (ForStmt i1 c p b) P1;
          (cond1, c2) = each_opt (expression I f P2) c;
          (b1, Q, c3) = thread (statement I f) (assume_opt I f cond1 True P2) b;
          (p1, R, c4) = thread_opt (statement I f Q) Q p
      in (ForStmt i1 cond1 p1 b1, P2, c1 \<or> c2 \<or> c3 \<or> c4))"
| "statement I f P (RangeStmt k v tok x b) =
     (let (x1, c1) = expression I f P x; (x2, c2) = narrow I P x1;
          P1 = invalidateWrites I (RangeStmt k v tok x2 b) P;
          (b1, Q, c3) = thread (statement I f) P1 b
      in (RangeStmt k v tok x2 b1, P1, c1 \<or> c2 \<or> c3))"
| "statement I f P (IncDecStmt e tok) = (let (e1, c) = expression I f P e in (IncDecStmt e1 tok, P, c))"
| "statement I f P (SendStmt ch v) =
     (let (ch1, c1) = expression I f P ch; (v1, c2) = expression I f P v;
          (v2, c3) = require I (Option.bind (typeOf I ch) (channelElem I)) P v1
      in (SendStmt ch1 v2, P, c1 \<or> c2 \<or> c3))"
| "statement I f P (GoStmt e) = (let (e1, c) = expression I f P e in (GoStmt e1, P, c))"
| "statement I f P (DeferStmt e) = (let (e1, c) = expression I f P e in (DeferStmt e1, P, c))"
| "statement I f P (SwitchStmt i t b) =
     (let (i1, P1, c1) = thread_opt (statement I f P) P i;
          (t1, c2) = each_opt (expression I f P1) t;
          (heads, remaining, c3) = thread (\<lambda>r cl.
             case clause_list cl of
               None \<Rightarrow> ((None, None), r, False)
             | Some es \<Rightarrow>
                 (let (es1, (m, r1), c) = thread (\<lambda>mr e.
                    let r = snd mr;
                        (e1, c) = expression I f r e;
                        branch = (if t = None then assume_cond I f e1 True r else r);
                        r1 = (if t = None then assume_cond I f e1 False r else r)
                    in (e1, (Some (branch_proof (fst mr) branch), r1), c)) (None, r) es
                  in ((Some es1, m), r1, c))) P1 b;
          (b1, fell, c4) = thread (\<lambda>fell h.
             let (cb, Q, c) = thread (statement I f) (incoming remaining fell (fst (snd h)) (snd (snd h))) (clause_body (fst h))
             in (CaseClause (fst (snd h)) cb, falls_through cb, c)) False (zip b heads)
      in (SwitchStmt i1 t1 b1, invalidateWrites I (SwitchStmt i1 t1 b1) P1, c1 \<or> c2 \<or> c3 \<or> c4))"
| "statement I f P (TypeSwitchStmt i a b) =
     (let (i1, P1, c1) = thread_opt (statement I f P) P i;
          (a1, P2, c2) = statement I f P1 a;
          P3 = invalidateWrites I (TypeSwitchStmt i1 a1 b) P2;
          (b1, Q, c3) = thread (statement I f) P3 b
      in (TypeSwitchStmt i1 a1 b1, P3, c1 \<or> c2 \<or> c3))"
| "statement I f P (SelectStmt b) =
     (let P1 = invalidateWrites I (SelectStmt b) P; (b1, Q, c) = thread (statement I f) P1 b
      in (SelectStmt b1, P1, c))"
| "statement I f P (CaseClause l b) =
     (let (l1, c1) = each_opt (each (expression I f P)) l; (b1, Q, c2) = thread (statement I f) P b
      in (CaseClause l1 b1, P, c1 \<or> c2))"
| "statement I f P (CommClause s b) =
     (let (s1, P1, c1) = thread_opt (statement I f P) P s; (b1, Q, c2) = thread (statement I f) P1 b
      in (CommClause s1 b1, P1, c1 \<or> c2))"
| "statement I f P (LabeledStmt l s) = (let (s1, Q, c) = statement I f {} s in (LabeledStmt l s1, Q, c))"
| "statement I f P s = (s, P, False)"
  by pat_completeness auto

termination
  by (relation "measure (\<lambda>x. case x of Inl (I, f, P, e) \<Rightarrow> size e | Inr (I, f, P, s) \<Rightarrow> size s)")
    (auto dest: ast_size)

section \<open>Functions\<close>

text \<open>\<open>narrowFunction\<close> and \<open>narrowNullable\<close> with the rewritten bodies.\<close>

definition narrowFunction :: "nullInfo \<Rightarrow> nat \<Rightarrow> expr \<Rightarrow> stmt list option \<Rightarrow> stmt list option \<times> bool" where
  "narrowFunction I p t body =
     (case body of
        None \<Rightarrow> (None, False)
      | Some b \<Rightarrow> (let (b1, Q, c) = thread (statement I (function_flow I p t b)) {} b in (Some b1, c)))"

fun narrow_decl :: "nullInfo \<Rightarrow> decl \<Rightarrow> decl \<times> bool" where
  "narrow_decl I (FuncDecl recv p name t body) =
     (let (body1, c) = narrowFunction I p t body in (FuncDecl recv p name t body1, c))"
| "narrow_decl I d = (d, False)"

text \<open>The files of the namespaces in their order, each with its flag \<open>Unit.Native\<close>.\<close>

definition narrow_file :: "nullInfo \<Rightarrow> bool \<times> decl list \<Rightarrow> (bool \<times> decl list) \<times> bool" where
  "narrow_file I x =
     (if fst x then (x, False) else (let (ds, c) = each (narrow_decl I) (snd x) in ((fst x, ds), c)))"

definition narrowNullable :: "nullInfo \<Rightarrow> (bool \<times> decl list) list list \<Rightarrow> (bool \<times> decl list) list list \<times> bool" where
  "narrowNullable I ordered = each (each (narrow_file I)) ordered"

end
