(* ===== verification/NullRuns.thy ===== *)
theory NullRuns
  imports NullFlow
begin

text \<open>
  What the narrowing is about: runs of a rewritten function. The state of a run is the set of
  variables that are not nil; a run chooses the values of everything else, any iterations of a loop
  and any communication, and ends \<open>NilDeref\<close> when it evaluates a dereference that the compiler made
  or marked (position 0) of a variable that is nil. A panic ends a run early and is not an end. It is
  the behaviour that the analysis approximates and no part of the compiler. \<open>narrowable\<close> names the
  bodies for which the analysis is sound; what it excludes but labels and gotos is unusual.
\<close>

datatype run_end = NilDeref | Ends "nat set" token

text \<open>
  The variables that a run follows: local ones that no closure mentions and whose address is not
  taken. Only the statements of the function itself change them, no call and no other goroutine.
\<close>

definition tracked :: "nullInfo \<Rightarrow> nullableFlow \<Rightarrow> nat set" where
  "tracked I f = {x. local_object I f x \<and> x \<notin> set (nf_unstable f)}"

section \<open>Expressions\<close>

text \<open>Can the condition have the truth value \<open>b\<close> when exactly the tracked variables in \<open>\<sigma>\<close> are not nil?\<close>

fun may :: "nullInfo \<Rightarrow> nat set \<Rightarrow> nat set \<Rightarrow> expr \<Rightarrow> bool \<Rightarrow> bool" where
  "may I T \<sigma> (ParenExpr e) b = may I T \<sigma> e b"
| "may I T \<sigma> (UnaryExpr op e) b = (if op = NOTOP then may I T \<sigma> e (\<not> b) else True)"
| "may I T \<sigma> (BinaryExpr x op y) b =
     (if op = LAND then (if b then may I T \<sigma> x True \<and> may I T \<sigma> y True
                         else may I T \<sigma> x False \<or> may I T \<sigma> x True \<and> may I T \<sigma> y False)
      else if op = LOR then (if b then may I T \<sigma> x True \<or> may I T \<sigma> x False \<and> may I T \<sigma> y True
                             else may I T \<sigma> x False \<and> may I T \<sigma> y False)
      else if op = EQL \<or> op = NEQ then
        (case object I (if is_nil x then y else x) of
           Some v \<Rightarrow> if is_nil (if is_nil x then x else y) \<and> v \<in> T then b = ((op = EQL) = (v \<notin> \<sigma>)) else True
         | None \<Rightarrow> True)
      else True)"
| "may I T \<sigma> e b = True"

definition may_opt :: "nullInfo \<Rightarrow> nat set \<Rightarrow> nat set \<Rightarrow> expr option \<Rightarrow> bool \<Rightarrow> bool" where
  "may_opt I T \<sigma> c b = (case c of None \<Rightarrow> b | Some e \<Rightarrow> may I T \<sigma> e b)"

text \<open>The operands that are evaluated whenever the expression is; a type has none.\<close>

fun operands :: "expr \<Rightarrow> expr list" where
  "operands (CompositeLit t es) = es"
| "operands (ParenExpr e) = [e]"
| "operands (SelectorExpr e p n) = [e]"
| "operands (IndexExpr e i) = [e, i]"
| "operands (IndexListExpr e is) = e # is"
| "operands (SliceExpr e l h m) = e # opt_list l @ opt_list h @ opt_list m"
| "operands (TypeAssertExpr e t) = [e]"
| "operands (CallExpr g args v) = g # args"
| "operands (StarExpr p e) = [e]"
| "operands (UnaryExpr op e) = [e]"
| "operands (BinaryExpr x op y) = (if op = LAND \<or> op = LOR then [x] else [x, y])"
| "operands (KeyValueExpr k v) = [k, v]"
| "operands e = []"

definition not_nil :: "nullInfo \<Rightarrow> nat set \<Rightarrow> nat set \<Rightarrow> expr \<Rightarrow> bool" where
  "not_nil I T \<sigma> e \<longleftrightarrow> (case object I e of None \<Rightarrow> False | Some x \<Rightarrow> x \<in> T \<and> x \<in> \<sigma>)"

section \<open>Runs\<close>

text \<open>A write may leave any value in the variables it names.\<close>

definition changes :: "nat list \<Rightarrow> nat set \<Rightarrow> nat set \<Rightarrow> bool" where
  "changes xs \<sigma> \<sigma>' \<longleftrightarrow> \<sigma> - set xs = \<sigma>' - set xs"

definition named :: "nullInfo \<Rightarrow> expr \<Rightarrow> nat list" where
  "named I e = opt_list (object I (unparen e))"

definition named_opt :: "nullInfo \<Rightarrow> expr option \<Rightarrow> nat list" where
  "named_opt I e = concat (map (named I) (opt_list e))"

definition spec_names :: "nullInfo \<Rightarrow> spec list \<Rightarrow> nat list" where
  "spec_names I specs =
     concat (map (\<lambda>sp. case sp of ValueSpec names t vs \<Rightarrow> concat (map (\<lambda>(p, n). opt_list (objectOf I p n)) names) | _ \<Rightarrow> []) specs)"

definition spec_values :: "spec list \<Rightarrow> expr list" where
  "spec_values specs = concat (map spec_exprs specs)"

fun simple_operands :: "stmt \<Rightarrow> expr list option" where
  "simple_operands BadStmt = Some []"
| "simple_operands EmptyStmt = Some []"
| "simple_operands (SendStmt a b) = Some [a, b]"
| "simple_operands (IncDecStmt e t) = Some [e]"
| "simple_operands (GoStmt e) = Some [e]"
| "simple_operands (DeferStmt e) = Some [e]"
| "simple_operands _ = None"

definition case_exprs :: "stmt list \<Rightarrow> expr list" where
  "case_exprs cs = concat (map (\<lambda>c. case clause_list c of None \<Rightarrow> [] | Some es \<Rightarrow> es) cs)"

text \<open>All conditions of an expressionless switch that were tried before fail.\<close>

definition all_fail :: "nullInfo \<Rightarrow> nat set \<Rightarrow> nat set \<Rightarrow> bool \<Rightarrow> expr list \<Rightarrow> bool" where
  "all_fail I T \<sigma> tagless es \<longleftrightarrow> (tagless \<longrightarrow> (\<forall>e \<in> set es. may I T \<sigma> e False))"

definition end_flow :: "run_end \<Rightarrow> token option" where
  "end_flow r = (case r of NilDeref \<Rightarrow> None | Ends \<sigma> f \<Rightarrow> Some f)"

definition leave_switch :: "run_end \<Rightarrow> run_end" where
  "leave_switch r = (case r of NilDeref \<Rightarrow> NilDeref | Ends \<sigma> f \<Rightarrow> Ends \<sigma> (if f = BREAK then ILLEGAL else f))"

inductive
  derefs_nil :: "nullInfo \<Rightarrow> nat set \<Rightarrow> nat set \<Rightarrow> expr \<Rightarrow> bool"
  and run_stmt :: "nullInfo \<Rightarrow> nat set \<Rightarrow> stmt \<Rightarrow> nat set \<Rightarrow> run_end \<Rightarrow> bool"
  and run_stmts :: "nullInfo \<Rightarrow> nat set \<Rightarrow> stmt list \<Rightarrow> nat set \<Rightarrow> run_end \<Rightarrow> bool"
  and run_opt :: "nullInfo \<Rightarrow> nat set \<Rightarrow> stmt option \<Rightarrow> nat set \<Rightarrow> run_end \<Rightarrow> bool"
  and run_for :: "nullInfo \<Rightarrow> nat set \<Rightarrow> expr option \<Rightarrow> stmt option \<Rightarrow> stmt list \<Rightarrow> nat set \<Rightarrow> run_end \<Rightarrow> bool"
  and run_range :: "nullInfo \<Rightarrow> nat set \<Rightarrow> nat list \<Rightarrow> stmt list \<Rightarrow> nat set \<Rightarrow> run_end \<Rightarrow> bool"
  and run_clauses :: "nullInfo \<Rightarrow> nat set \<Rightarrow> stmt list \<Rightarrow> nat set \<Rightarrow> run_end \<Rightarrow> bool"
  for I T
where
  star: "\<not> not_nil I T \<sigma> e \<Longrightarrow> derefs_nil I T \<sigma> (StarExpr 0 e)"
| operand: "x \<in> set (operands e) \<Longrightarrow> derefs_nil I T \<sigma> x \<Longrightarrow> derefs_nil I T \<sigma> e"
| and_right: "may I T \<sigma> x True \<Longrightarrow> derefs_nil I T \<sigma> y \<Longrightarrow> derefs_nil I T \<sigma> (BinaryExpr x LAND y)"
| or_right: "may I T \<sigma> x False \<Longrightarrow> derefs_nil I T \<sigma> y \<Longrightarrow> derefs_nil I T \<sigma> (BinaryExpr x LOR y)"
| ternary: "isTernaryFunction I p t \<Longrightarrow> run_stmts I T b \<sigma> NilDeref \<Longrightarrow> derefs_nil I T \<sigma> (FuncLit p t b)"
| stmts_nil: "run_stmts I T [] \<sigma> (Ends \<sigma> ILLEGAL)"
| stmts_stop: "run_stmt I T s \<sigma> r \<Longrightarrow> end_flow r \<noteq> Some ILLEGAL \<Longrightarrow> run_stmts I T (s # ss) \<sigma> r"
| stmts_cons: "run_stmt I T s \<sigma> (Ends \<sigma>1 ILLEGAL) \<Longrightarrow> run_stmts I T ss \<sigma>1 r \<Longrightarrow> run_stmts I T (s # ss) \<sigma> r"
| opt_none: "run_opt I T None \<sigma> (Ends \<sigma> ILLEGAL)"
| opt_some: "run_stmt I T s \<sigma> r \<Longrightarrow> run_opt I T (Some s) \<sigma> r"
| expr_nil: "derefs_nil I T \<sigma> x \<Longrightarrow> run_stmt I T (ExprStmt x) \<sigma> NilDeref"
| expr_ends: "callNamed x ''GhiThrow'' = None \<Longrightarrow> callNamed x ''panic'' = None \<Longrightarrow>
    run_stmt I T (ExprStmt x) \<sigma> (Ends \<sigma> ILLEGAL)"
| simple_nil: "simple_operands s = Some es \<Longrightarrow> x \<in> set es \<Longrightarrow> derefs_nil I T \<sigma> x \<Longrightarrow> run_stmt I T s \<sigma> NilDeref"
| simple_ends: "simple_operands s = Some es \<Longrightarrow> run_stmt I T s \<sigma> (Ends \<sigma> ILLEGAL)"
| assign_nil: "x \<in> set (l @ r) \<Longrightarrow> derefs_nil I T \<sigma> x \<Longrightarrow> run_stmt I T (AssignStmt l tok r) \<sigma> NilDeref"
| assign_ends: "changes (concat (map (named I) l)) \<sigma> \<sigma>1 \<Longrightarrow> run_stmt I T (AssignStmt l tok r) \<sigma> (Ends \<sigma>1 ILLEGAL)"
| decl_nil: "x \<in> set (spec_values specs) \<Longrightarrow> derefs_nil I T \<sigma> x \<Longrightarrow> run_stmt I T (DeclStmt tok specs) \<sigma> NilDeref"
| decl_ends: "changes (spec_names I specs) \<sigma> \<sigma>1 \<Longrightarrow> run_stmt I T (DeclStmt tok specs) \<sigma> (Ends \<sigma>1 ILLEGAL)"
| return_nil: "x \<in> set es \<Longrightarrow> derefs_nil I T \<sigma> x \<Longrightarrow> run_stmt I T (ReturnStmt p es) \<sigma> NilDeref"
| return_ends: "run_stmt I T (ReturnStmt p es) \<sigma> (Ends \<sigma> RETURN)"
| branch: "tok \<in> {BREAK, CONTINUE, FALLTHROUGH} \<Longrightarrow> run_stmt I T (BranchStmt p tok None) \<sigma> (Ends \<sigma> tok)"
| block: "run_stmts I T b \<sigma> r \<Longrightarrow> run_stmt I T (BlockStmt b) \<sigma> r"
| labeled: "run_stmt I T s \<sigma> r \<Longrightarrow> run_stmt I T (LabeledStmt l s) \<sigma> r"
| if_init: "run_opt I T i \<sigma> r \<Longrightarrow> end_flow r \<noteq> Some ILLEGAL \<Longrightarrow> run_stmt I T (IfStmt i c b e) \<sigma> r"
| if_nil: "run_opt I T i \<sigma> (Ends \<sigma>1 ILLEGAL) \<Longrightarrow> derefs_nil I T \<sigma>1 c \<Longrightarrow> run_stmt I T (IfStmt i c b e) \<sigma> NilDeref"
| if_true: "run_opt I T i \<sigma> (Ends \<sigma>1 ILLEGAL) \<Longrightarrow> may I T \<sigma>1 c True \<Longrightarrow> run_stmts I T b \<sigma>1 r \<Longrightarrow>
    run_stmt I T (IfStmt i c b e) \<sigma> r"
| if_false: "run_opt I T i \<sigma> (Ends \<sigma>1 ILLEGAL) \<Longrightarrow> may I T \<sigma>1 c False \<Longrightarrow> run_opt I T e \<sigma>1 r \<Longrightarrow>
    run_stmt I T (IfStmt i c b e) \<sigma> r"
| for_init: "run_opt I T i \<sigma> NilDeref \<Longrightarrow> run_stmt I T (ForStmt i c p b) \<sigma> NilDeref"
| for_loop: "run_opt I T i \<sigma> (Ends \<sigma>1 ILLEGAL) \<Longrightarrow> run_for I T c p b \<sigma>1 r \<Longrightarrow> run_stmt I T (ForStmt i c p b) \<sigma> r"
| loop_nil: "c = Some e \<Longrightarrow> derefs_nil I T \<sigma> e \<Longrightarrow> run_for I T c p b \<sigma> NilDeref"
| loop_end: "may_opt I T \<sigma> c False \<Longrightarrow> run_for I T c p b \<sigma> (Ends \<sigma> ILLEGAL)"
| loop_break: "may_opt I T \<sigma> c True \<Longrightarrow> run_stmts I T b \<sigma> (Ends \<sigma>1 BREAK) \<Longrightarrow> run_for I T c p b \<sigma> (Ends \<sigma>1 ILLEGAL)"
| loop_out: "may_opt I T \<sigma> c True \<Longrightarrow> run_stmts I T b \<sigma> r \<Longrightarrow> end_flow r \<in> {None, Some RETURN} \<Longrightarrow> run_for I T c p b \<sigma> r"
| loop_post: "may_opt I T \<sigma> c True \<Longrightarrow> run_stmts I T b \<sigma> (Ends \<sigma>1 f) \<Longrightarrow> f \<in> {ILLEGAL, CONTINUE} \<Longrightarrow>
    run_opt I T p \<sigma>1 NilDeref \<Longrightarrow> run_for I T c p b \<sigma> NilDeref"
| loop_next: "may_opt I T \<sigma> c True \<Longrightarrow> run_stmts I T b \<sigma> (Ends \<sigma>1 f) \<Longrightarrow> f \<in> {ILLEGAL, CONTINUE} \<Longrightarrow>
    run_opt I T p \<sigma>1 (Ends \<sigma>2 ILLEGAL) \<Longrightarrow> run_for I T c p b \<sigma>2 r \<Longrightarrow> run_for I T c p b \<sigma> r"
| range_nil: "derefs_nil I T \<sigma> x \<Longrightarrow> run_stmt I T (RangeStmt k v tok x b) \<sigma> NilDeref"
| range_loop: "run_range I T (named_opt I k @ named_opt I v) b \<sigma> r \<Longrightarrow> run_stmt I T (RangeStmt k v tok x b) \<sigma> r"
| range_end: "run_range I T xs b \<sigma> (Ends \<sigma> ILLEGAL)"
| range_break: "changes xs \<sigma> \<sigma>1 \<Longrightarrow> run_stmts I T b \<sigma>1 (Ends \<sigma>2 BREAK) \<Longrightarrow> run_range I T xs b \<sigma> (Ends \<sigma>2 ILLEGAL)"
| range_out: "changes xs \<sigma> \<sigma>1 \<Longrightarrow> run_stmts I T b \<sigma>1 r \<Longrightarrow> end_flow r \<in> {None, Some RETURN} \<Longrightarrow> run_range I T xs b \<sigma> r"
| range_next: "changes xs \<sigma> \<sigma>1 \<Longrightarrow> run_stmts I T b \<sigma>1 (Ends \<sigma>2 f) \<Longrightarrow> f \<in> {ILLEGAL, CONTINUE} \<Longrightarrow>
    run_range I T xs b \<sigma>2 r \<Longrightarrow> run_range I T xs b \<sigma> r"
| switch_init: "run_opt I T i \<sigma> r \<Longrightarrow> end_flow r \<noteq> Some ILLEGAL \<Longrightarrow> run_stmt I T (SwitchStmt i t cs) \<sigma> r"
| switch_tag: "run_opt I T i \<sigma> (Ends \<sigma>1 ILLEGAL) \<Longrightarrow> t = Some e \<Longrightarrow> derefs_nil I T \<sigma>1 e \<Longrightarrow>
    run_stmt I T (SwitchStmt i t cs) \<sigma> NilDeref"
| switch_nil: "run_opt I T i \<sigma> (Ends \<sigma>1 ILLEGAL) \<Longrightarrow> case_exprs cs = before @ e # rest \<Longrightarrow>
    all_fail I T \<sigma>1 (t = None) before \<Longrightarrow> derefs_nil I T \<sigma>1 e \<Longrightarrow> run_stmt I T (SwitchStmt i t cs) \<sigma> NilDeref"
| switch_case: "run_opt I T i \<sigma> (Ends \<sigma>1 ILLEGAL) \<Longrightarrow> cs = cs1 @ CaseClause (Some (before @ e # rest)) b # cs2 \<Longrightarrow>
    all_fail I T \<sigma>1 (t = None) (case_exprs cs1 @ before) \<Longrightarrow> (t = None \<Longrightarrow> may I T \<sigma>1 e True) \<Longrightarrow>
    run_clauses I T (CaseClause (Some (before @ e # rest)) b # cs2) \<sigma>1 r \<Longrightarrow>
    run_stmt I T (SwitchStmt i t cs) \<sigma> (leave_switch r)"
| switch_default: "run_opt I T i \<sigma> (Ends \<sigma>1 ILLEGAL) \<Longrightarrow> cs = cs1 @ CaseClause None b # cs2 \<Longrightarrow>
    all_fail I T \<sigma>1 (t = None) (case_exprs cs) \<Longrightarrow> run_clauses I T (CaseClause None b # cs2) \<sigma>1 r \<Longrightarrow>
    run_stmt I T (SwitchStmt i t cs) \<sigma> (leave_switch r)"
| switch_none: "run_opt I T i \<sigma> (Ends \<sigma>1 ILLEGAL) \<Longrightarrow> run_stmt I T (SwitchStmt i t cs) \<sigma> (Ends \<sigma>1 ILLEGAL)"
| clause_end: "run_stmts I T b \<sigma> r \<Longrightarrow> end_flow r \<noteq> Some FALLTHROUGH \<Longrightarrow> run_clauses I T (CaseClause l b # cs) \<sigma> r"
| clause_fall: "run_stmts I T b \<sigma> (Ends \<sigma>1 FALLTHROUGH) \<Longrightarrow> run_clauses I T cs \<sigma>1 r \<Longrightarrow>
    run_clauses I T (CaseClause l b # cs) \<sigma> r"
| type_switch_init: "run_opt I T i \<sigma> r \<Longrightarrow> end_flow r \<noteq> Some ILLEGAL \<Longrightarrow> run_stmt I T (TypeSwitchStmt i a cs) \<sigma> r"
| type_switch_assign: "run_opt I T i \<sigma> (Ends \<sigma>1 ILLEGAL) \<Longrightarrow> run_stmt I T a \<sigma>1 r \<Longrightarrow> run_stmt I T (TypeSwitchStmt i a cs) \<sigma> r"
| type_switch_case: "run_opt I T i \<sigma> (Ends \<sigma>1 ILLEGAL) \<Longrightarrow> run_stmt I T a \<sigma>1 (Ends \<sigma>2 ILLEGAL) \<Longrightarrow>
    CaseClause l b \<in> set cs \<Longrightarrow> run_stmts I T b \<sigma>2 r \<Longrightarrow> run_stmt I T (TypeSwitchStmt i a cs) \<sigma> (leave_switch r)"
| select_nil: "CommClause s b \<in> set cs \<Longrightarrow> run_opt I T s \<sigma> NilDeref \<Longrightarrow> run_stmt I T (SelectStmt cs) \<sigma> NilDeref"
| select_case: "CommClause s b \<in> set cs \<Longrightarrow> run_opt I T s \<sigma> (Ends \<sigma>1 ILLEGAL) \<Longrightarrow> run_stmts I T b \<sigma>1 r \<Longrightarrow>
    run_stmt I T (SelectStmt cs) \<sigma> (leave_switch r)"

section \<open>The bodies for which the analysis is sound\<close>

text \<open>The branches of a loop's body that run its post statement.\<close>

definition continues_visit :: "node \<Rightarrow> bool list \<times> bool" where
  "continues_visit n =
     (case n of
        NE e \<Rightarrow> ([], False)
      | NS s \<Rightarrow> (case s of BranchStmt p tok l \<Rightarrow> ([tok = CONTINUE], True)
                         | ForStmt i c p b \<Rightarrow> ([], False) | RangeStmt k v tok x b \<Rightarrow> ([], False) | _ \<Rightarrow> ([], True))
      | _ \<Rightarrow> ([], True))"

definition continues :: "stmt list \<Rightarrow> bool" where
  "continues b \<longleftrightarrow> (\<exists>s \<in> set b. True \<in> set (inspect continues_visit (NS s)))"

text \<open>The usual steps of a counting loop.\<close>

fun counts :: "stmt option \<Rightarrow> bool" where
  "counts None = True"
| "counts (Some (IncDecStmt (Ident p n) tok)) = True"
| "counts (Some (AssignStmt [Ident p n] tok [BasicLit k v])) = True"
| "counts s = False"

fun parenthesised :: "expr \<Rightarrow> bool" where
  "parenthesised (ParenExpr e) = True"
| "parenthesised e = False"

fun type_clause :: "stmt \<Rightarrow> bool" where
  "type_clause (CaseClause l b) = True"
| "type_clause s = False"

fun comm_clause :: "stmt \<Rightarrow> bool" where
  "comm_clause (CommClause None b) = True"
| "comm_clause (CommClause (Some (SendStmt c v)) b) = True"
| "comm_clause (CommClause (Some (ExprStmt e)) b) = True"
| "comm_clause (CommClause (Some (AssignStmt l tok r)) b) = True"
| "comm_clause s = False"

definition ternary_writes :: "nullInfo \<Rightarrow> nat set \<Rightarrow> stmt list \<Rightarrow> bool" where
  "ternary_writes I T b \<longleftrightarrow> (\<exists>s \<in> set b. set (writes I (NS s)) \<inter> T \<noteq> {})"

definition narrow_ok :: "nullInfo \<Rightarrow> nat set \<Rightarrow> node \<Rightarrow> bool" where
  "narrow_ok I T n =
     (case n of
        NS (BranchStmt p tok l) \<Rightarrow> l = None
      | NS (AssignStmt l tok r) \<Rightarrow> list_all (\<lambda>e. \<not> parenthesised e) l
      | NS (RangeStmt k v tok x b) \<Rightarrow> list_all (\<lambda>e. \<not> parenthesised e) (opt_list k @ opt_list v)
      | NS (DeclStmt tok specs) \<Rightarrow> set (spec_names I specs) \<inter> T = {}
      | NS (TypeSwitchStmt i a b) \<Rightarrow> (case a of ExprStmt x \<Rightarrow> True | _ \<Rightarrow> False) \<and> list_all type_clause b
      | NS (SelectStmt b) \<Rightarrow> list_all comm_clause b
      | NS (ForStmt i c p b) \<Rightarrow> continues b \<longrightarrow> counts p
      | NS (ExprStmt x) \<Rightarrow> callNamed x ''GhiTry'' = None
      | NE (UnaryExpr op x) \<Rightarrow> op \<noteq> AND \<or> \<not> parenthesised x
      | NE (StarExpr p x) \<Rightarrow> p \<noteq> 0
      | NE (FuncLit p t b) \<Rightarrow> \<not> ternary_writes I T b
      | _ \<Rightarrow> True)"

text \<open>A closure that is no conditional expression is a function of its own.\<close>

definition narrowable_node :: "nullInfo \<Rightarrow> nat set \<Rightarrow> node \<Rightarrow> bool" where
  "narrowable_node I T n =
     list_all id (inspect (\<lambda>m. case m of
        NE (FuncLit p t b) \<Rightarrow> if isTernaryFunction I p t then ([narrow_ok I T m], True) else ([], False)
      | _ \<Rightarrow> ([narrow_ok I T m], True)) n)"

definition narrowable :: "nullInfo \<Rightarrow> nat set \<Rightarrow> stmt list \<Rightarrow> bool" where
  "narrowable I T b \<longleftrightarrow> (\<forall>s \<in> set b. narrowable_node I T (NS s))"

end
