(* ===== verification/NullKeeps.thy ===== *)
theory NullKeeps
  imports NullRuns
begin

text \<open>
  What the rewriting of \<^theory_text>\<open>NullFlow\<close> keeps of a statement, what runs leave alone, and how they leave
  a statement. \<open>stmt_visit\<close> is the contract of a visit that sees nothing but what rewriting keeps;
  \<open>branch_visit\<close> extends it to visits that find a kind of branch.
\<close>

section \<open>Conditions and values\<close>

lemma assume_sound:
  "tracked I f = T \<Longrightarrow> P \<subseteq> T \<inter> \<sigma> \<Longrightarrow> may I T \<sigma> e b \<Longrightarrow> assume_cond I f e b P \<subseteq> T \<inter> \<sigma>"
proof (induction I f e b P rule: assume_cond.induct)
  case (3 I f x op y truth P)
  consider "op = LAND \<and> truth" | "op = LOR \<and> \<not> truth" | "op = EQL \<or> op = NEQ"
    | "\<not> (op = LAND \<and> truth) \<and> \<not> (op = LOR \<and> \<not> truth) \<and> op \<noteq> EQL \<and> op \<noteq> NEQ" by blast
  then show ?case
  proof cases
    case 1
    with 3 show ?thesis by simp
  next
    case 2
    with 3 show ?thesis by simp
  next
    case 3
    have "op \<noteq> LAND" "op \<noteq> LOR" using 3 by auto
    with "3" "3.prems" show ?thesis
      by (auto simp: tracked_def Let_def split: option.splits if_splits)
  next
    case 4
    with "3.prems" show ?thesis by auto
  qed
qed (auto split: if_splits)

lemma derefs_nil_literal [simp]: "\<not> derefs_nil I T \<sigma> (Ident p n)" "\<not> derefs_nil I T \<sigma> (BasicLit k v)"
  by (auto elim: derefs_nil.cases)

inductive_simps derefs_nil_star: "derefs_nil I T \<sigma> (StarExpr p e)"

lemma derefs_nil_operands:
  assumes "derefs_nil I T \<sigma> e" "\<And>p x. e \<noteq> StarExpr p x" "\<And>p t b. e \<noteq> FuncLit p t b" "\<And>x op y. e \<noteq> BinaryExpr x op y"
  shows "\<exists>x \<in> set (operands e). derefs_nil I T \<sigma> x"
  using assms by cases auto

lemma checked_sound:
  assumes "P \<subseteq> T \<inter> \<sigma>" "proved I P e" "\<not> derefs_nil I T \<sigma> e"
  shows "\<not> derefs_nil I T \<sigma> (checked e)"
  using assms by (auto simp: checked_def derefs_nil_star proved_def not_nil_def split: option.splits)

lemma narrow_sound:
  "P \<subseteq> T \<inter> \<sigma> \<Longrightarrow> \<not> derefs_nil I T \<sigma> e \<Longrightarrow> \<not> derefs_nil I T \<sigma> (fst (narrow I P e))"
  by (auto simp: narrow_def checked_sound)

lemma require_sound:
  "P \<subseteq> T \<inter> \<sigma> \<Longrightarrow> \<not> derefs_nil I T \<sigma> e \<Longrightarrow> \<not> derefs_nil I T \<sigma> (fst (require I t P e))"
  by (auto simp: require_def checked_sound split: option.splits)

lemma require_each_sound:
  "P \<subseteq> T \<inter> \<sigma> \<Longrightarrow> \<forall>e \<in> set es. \<not> derefs_nil I T \<sigma> e \<Longrightarrow>
     \<forall>r \<in> set (require_each I P ts es). \<not> derefs_nil I T \<sigma> (fst r)"
  by (induction I P ts es rule: require_each.induct) (auto simp: require_sound)

lemma required_each_sound:
  "P \<subseteq> T \<inter> \<sigma> \<Longrightarrow> \<forall>e \<in> set (fst r). \<not> derefs_nil I T \<sigma> e \<Longrightarrow>
     \<forall>e \<in> set (fst (required_each I P ts r)). \<not> derefs_nil I T \<sigma> e"
  using require_each_sound [of P T \<sigma> "fst r"] by (auto simp: required_each_def Let_def)

section \<open>Narrowable parts\<close>

definition is_closure :: "nullInfo \<Rightarrow> node \<Rightarrow> bool" where
  "is_closure I n \<longleftrightarrow> (case n of NE (FuncLit p t b) \<Rightarrow> \<not> isTernaryFunction I p t | _ \<Rightarrow> False)"

lemma narrowable_node_iff:
  "narrowable_node I T n \<longleftrightarrow> is_closure I n \<or> narrow_ok I T n \<and> (\<forall>c \<in> set (children n). narrowable_node I T c)"
proof (cases "is_closure I n")
  case True
  then show ?thesis
    unfolding narrowable_node_def by (subst inspect.simps) (auto simp: is_closure_def split: node.splits expr.splits)
next
  case False
  then have "(case n of NE (FuncLit p t b) \<Rightarrow> if isTernaryFunction I p t then ([narrow_ok I T n], True) else ([], False)
      | _ \<Rightarrow> ([narrow_ok I T n], True)) = ([narrow_ok I T n], True)"
    by (auto simp: is_closure_def split: node.splits expr.splits)
  with False show ?thesis
    unfolding narrowable_node_def by (subst inspect_descend) (auto simp: list_all_iff)
qed

lemma narrowable_child:
  "narrowable_node I T n \<Longrightarrow> \<not> is_closure I n \<Longrightarrow> c \<in> set (children n) \<Longrightarrow> narrowable_node I T c"
  by (auto simp: narrowable_node_iff [of I T n])

lemma narrowable_ok: "narrowable_node I T n \<Longrightarrow> \<not> is_closure I n \<Longrightarrow> narrow_ok I T n"
  by (auto simp: narrowable_node_iff [of I T n])

lemma not_closure [simp]: "\<not> is_closure I (NS s)" "\<not> is_closure I (NP sp)"
  by (auto simp: is_closure_def)

section \<open>What runs leave alone\<close>

definition touched_by :: "nullInfo \<Rightarrow> node \<Rightarrow> nat list \<times> bool" where
  "touched_by I n =
     (case n of
        NE e \<Rightarrow> ([], False)
      | NS (AssignStmt l tok r) \<Rightarrow> (concat (map (named I) l), True)
      | NS (RangeStmt k v tok x b) \<Rightarrow> (named_opt I k @ named_opt I v, True)
      | NS (DeclStmt tok specs) \<Rightarrow> (spec_names I specs, True)
      | _ \<Rightarrow> ([], True))"

definition touched :: "nullInfo \<Rightarrow> stmt \<Rightarrow> nat set" where
  "touched I s = set (inspect (touched_by I) (NS s))"

lemma set_inspect:
  "set (inspect g n) = set (fst (g n)) \<union> (if snd (g n) then (\<Union>c \<in> set (children n). set (inspect g c)) else {})"
proof (cases "g n")
  case (Pair out d)
  then show ?thesis by (cases d) (simp_all add: inspect_stop inspect_descend)
qed

definition touched_all :: "nullInfo \<Rightarrow> stmt list \<Rightarrow> nat set" where
  "touched_all I b = (\<Union>s \<in> set b. touched I s)"

definition touched_opt :: "nullInfo \<Rightarrow> stmt option \<Rightarrow> nat set" where
  "touched_opt I b = (case b of None \<Rightarrow> {} | Some s \<Rightarrow> touched I s)"

lemma touched_node: "set (inspect (touched_by I) (NE e)) = {}"
  by (subst set_inspect) (simp add: touched_by_def)

lemma touched_step:
  "touched I s = set (fst (touched_by I (NS s))) \<union> (\<Union>c \<in> set (stmt_children s). set (inspect (touched_by I) c))"
proof -
  have "snd (touched_by I (NS s))" by (cases s) (simp_all add: touched_by_def)
  then show ?thesis unfolding touched_def by (subst set_inspect) simp
qed

lemma touched_fold [simp]: "set (inspect (touched_by I) (NS s)) = touched I s"
  by (simp add: touched_def)

lemma touched_nodes [simp]:
  "(\<Union>c \<in> set (exprs_nodes es). set (inspect (touched_by I) c)) = {}"
  "(\<Union>c \<in> set (stmts_nodes b). set (inspect (touched_by I) c)) = touched_all I b"
  "(\<Union>c \<in> set (stmts_nodes (opt_list i)). set (inspect (touched_by I) c)) = touched_opt I i"
  "set (inspect (touched_by I) (NE e)) = {}"
  by (auto simp: nodes_defs touched_node touched_all_def touched_opt_def opt_list_def split: option.splits)

lemma touched_opt_list: "touched_all I (opt_list i) = touched_opt I i"
  by (auto simp: touched_all_def touched_opt_def opt_list_def split: option.splits)

lemma touched_list_nodes [simp]:
  "(\<Union>c \<in> set (concat (map exprs_nodes xs)). set (inspect (touched_by I) c)) = {}"
  by (auto simp: nodes_defs touched_node)

lemma touched_simps [simp]:
  "touched I (AssignStmt l tok r) = set (concat (map (named I) l))"
  "touched I (BlockStmt b) = touched_all I b"
  "touched I (LabeledStmt lb s) = touched I s"
  "touched I (IfStmt i c b e) = touched_opt I i \<union> touched_all I b \<union> touched_opt I e"
  "touched I (ForStmt i co p b) = touched_opt I i \<union> touched_opt I p \<union> touched_all I b"
  "touched I (RangeStmt k v tok x b) = set (named_opt I k @ named_opt I v) \<union> touched_all I b"
  "touched I (SwitchStmt i t b) = touched_opt I i \<union> touched_all I b"
  "touched I (TypeSwitchStmt i a b) = touched_opt I i \<union> touched I a \<union> touched_all I b"
  "touched I (SelectStmt b) = touched_all I b"
  "touched I (CaseClause cl b) = touched_all I b"
  "touched I (CommClause i b) = touched_opt I i \<union> touched_all I b"
  unfolding touched_step [of I "AssignStmt l tok r"] touched_step [of I "BlockStmt b"]
    touched_step [of I "LabeledStmt lb s"] touched_step [of I "IfStmt i c b e"]
    touched_step [of I "ForStmt i co p b"] touched_step [of I "RangeStmt k v tok x b"]
    touched_step [of I "SwitchStmt i t b"] touched_step [of I "TypeSwitchStmt i a b"]
    touched_step [of I "SelectStmt b"] touched_step [of I "CaseClause cl b"]
    touched_step [of I "CommClause i b"]
  by (simp_all add: touched_by_def UN_Un Un_ac touched_opt_list)

lemma touched_decl: "touched I (DeclStmt tok specs) \<supseteq> set (spec_names I specs)"
  unfolding touched_def by (subst set_inspect) (auto simp: touched_by_def)

lemma touched_lists [simp]:
  "touched_all I [] = {}" "touched_all I (s # ss) = touched I s \<union> touched_all I ss"
  "touched_opt I None = {}" "touched_opt I (Some s) = touched I s"
  by (auto simp: touched_all_def touched_opt_def)

definition same :: "nat set \<Rightarrow> nat set \<Rightarrow> nat set \<Rightarrow> bool" where
  "same xs \<sigma> \<sigma>' \<longleftrightarrow> \<sigma> - xs = \<sigma>' - xs"

definition keeps :: "nat set \<Rightarrow> nat set \<Rightarrow> run_end \<Rightarrow> bool" where
  "keeps xs \<sigma> r \<longleftrightarrow> (case r of NilDeref \<Rightarrow> True | Ends \<sigma>' f \<Rightarrow> same xs \<sigma> \<sigma>')"

lemma same_refl [simp]: "same xs \<sigma> \<sigma>"
  by (simp add: same_def)

lemma keeps_simps [simp]:
  "keeps xs \<sigma> NilDeref" "keeps xs \<sigma> (Ends \<sigma>' f) \<longleftrightarrow> same xs \<sigma> \<sigma>'"
  "keeps xs \<sigma> (leave_switch r) = keeps xs \<sigma> r"
  by (auto simp: keeps_def leave_switch_def split: run_end.splits)

lemma keeps_mono: "keeps xs \<sigma> r \<Longrightarrow> xs \<subseteq> ys \<Longrightarrow> keeps ys \<sigma> r"
  by (auto simp: keeps_def same_def split: run_end.splits)

lemma same_mono: "same xs \<sigma> \<sigma>' \<Longrightarrow> xs \<subseteq> ys \<Longrightarrow> same ys \<sigma> \<sigma>'"
  by (auto simp: same_def)

lemma same_seq: "same xs \<sigma> \<sigma>1 \<Longrightarrow> same ys \<sigma>1 \<sigma>2 \<Longrightarrow> xs \<subseteq> zs \<Longrightarrow> ys \<subseteq> zs \<Longrightarrow> same zs \<sigma> \<sigma>2"
  by (auto simp: same_def)

lemma runs_keep_seq: "same xs \<sigma> \<sigma>1 \<Longrightarrow> keeps ys \<sigma>1 r \<Longrightarrow> xs \<subseteq> zs \<Longrightarrow> ys \<subseteq> zs \<Longrightarrow> keeps zs \<sigma> r"
  by (auto simp: keeps_def same_def split: run_end.splits)

lemma changes_same: "changes xs \<sigma> \<sigma>1 \<longleftrightarrow> same (set xs) \<sigma> \<sigma>1"
  by (simp add: changes_def same_def)

lemma member_touched: "s \<in> set b \<Longrightarrow> touched I s \<subseteq> touched_all I b"
  by (auto simp: touched_all_def)

lemma touched_all_append [simp]: "touched_all I (a @ b) = touched_all I a \<union> touched_all I b"
  by (auto simp: touched_all_def)

lemma runs_keep:
  "derefs_nil I T \<sigma> e \<Longrightarrow> True"
  "run_stmt I T s \<sigma> r \<Longrightarrow> keeps (touched I s) \<sigma> r"
  "run_stmts I T b \<sigma> r \<Longrightarrow> keeps (touched_all I b) \<sigma> r"
  "run_opt I T os \<sigma> r \<Longrightarrow> keeps (touched_opt I os) \<sigma> r"
  "run_for I T c p b \<sigma> r \<Longrightarrow> keeps (touched_opt I p \<union> touched_all I b) \<sigma> r"
  "run_range I T xs b \<sigma> r \<Longrightarrow> keeps (set xs \<union> touched_all I b) \<sigma> r"
  "run_clauses I T b \<sigma> r \<Longrightarrow> keeps (touched_all I b) \<sigma> r"
proof (induction rule: derefs_nil_run_stmt_run_stmts_run_opt_run_for_run_range_run_clauses.inducts)
  case (decl_ends specs \<sigma> \<sigma>1 tok)
  then show ?case using touched_decl [of I specs tok] by (auto simp: changes_same intro: same_mono)
next
  case (type_switch_case i \<sigma> \<sigma>1 a \<sigma>2 l b cs r)
  then have "touched_all I b \<subseteq> touched_all I cs" using member_touched [of "CaseClause l b" cs I] by simp
  moreover have "same (touched I (TypeSwitchStmt i a cs)) \<sigma> \<sigma>2"
    using type_switch_case by (auto intro: same_seq)
  ultimately show ?case using type_switch_case by (auto intro: runs_keep_seq)
next
  case (select_case s b cs \<sigma> \<sigma>1 r)
  then have "touched_opt I s \<subseteq> touched_all I cs" "touched_all I b \<subseteq> touched_all I cs"
    using member_touched [of "CommClause s b" cs I] by simp_all
  then show ?case using select_case by (auto intro: runs_keep_seq)
next
  case (loop_next \<sigma> c b \<sigma>1 f p \<sigma>2 r)
  then have "same (touched_opt I p \<union> touched_all I b) \<sigma> \<sigma>2" by (auto intro: same_seq)
  with loop_next show ?case by (auto intro: runs_keep_seq)
next
  case (range_next xs \<sigma> \<sigma>1 b \<sigma>2 f r)
  then have "same (set xs \<union> touched_all I b) \<sigma> \<sigma>2" by (auto simp: changes_same intro: same_seq)
  with range_next show ?case by (auto intro: runs_keep_seq)
qed (simp_all add: changes_same, ((erule (1) runs_keep_seq; blast) | (erule (1) same_seq; blast) | (erule keeps_mono; blast) | (erule same_mono; blast))+)

section \<open>What rewriting keeps\<close>

lemmas statement_beta = statement.simps [unfolded Let_def case_prod_beta]
lemmas expression_beta = expression.simps [unfolded Let_def case_prod_beta]

lemmas value_spec_beta = value_spec.simps [unfolded Let_def case_prod_beta]

declare expression.simps [simp del] statement.simps [simp del] value_spec.simps [simp del]

lemma thread_simps [simp]:
  "fst (thread g s []) = []" "fst (thread g s (x # xs)) = fst (g s x) # fst (thread g (fst (snd (g s x))) xs)"
  "fst (snd (thread g s (x # xs))) = fst (snd (thread g (fst (snd (g s x))) xs))" "fst (snd (thread g s [])) = s"
  by (simp_all add: Let_def case_prod_beta)

declare thread.simps [simp del]

lemma thread_member:
  "y \<in> set (fst (thread g s xs)) \<Longrightarrow> \<exists>x \<in> set xs. \<exists>s. y = fst (g s x)"
  by (induction xs arbitrary: s) auto

lemma thread_map: "(\<And>s x. x \<in> set xs \<Longrightarrow> h (fst (g s x)) = k x) \<Longrightarrow> map h (fst (thread g s xs)) = map k xs"
  by (induction xs arbitrary: s) auto

lemma thread_length [simp]: "length (fst (thread g s xs)) = length xs"
  by (induction xs arbitrary: s) auto

lemma thread_opt_fst [simp]:
  "fst (thread_opt g s x) = map_option (\<lambda>y. fst (g y)) x"
  by (simp add: thread_opt_def Let_def case_prod_beta split: option.split)

lemma thread_opt_snd [simp]:
  "fst (snd (thread_opt g s None)) = s" "fst (snd (thread_opt g s (Some x))) = fst (snd (g x))"
  by (simp_all add: thread_opt_def Let_def case_prod_beta)

lemma each_fst [simp]: "fst (each g xs) = map (\<lambda>x. fst (g x)) xs"
  by (simp add: each_def)

lemma each_opt_fst [simp]: "fst (each_opt g x) = map_option (\<lambda>y. fst (g y)) x"
  by (simp add: each_opt_def Let_def case_prod_beta split: option.split)

lemma expression_ident [simp]:
  "expression I f P (Ident p n) = (Ident p n, False)" "expression I f P (BasicLit k v) = (BasicLit k v, False)"
  by (simp_all add: expression_beta)

lemma object_expression: "object I (fst (expression I f P e)) = object I e"
  by (cases e) (simp_all add: expression_beta)

lemma named_expression: "named I (fst (expression I f P e)) = named I e"
  unfolding named_def
  by (induction e arbitrary: f P rule: unparen.induct) (simp_all add: expression_beta)

lemma spec_names_value_spec:
  "spec_names I (map (\<lambda>sp. fst (value_spec I P g sp)) specs) = spec_names I specs"
  unfolding spec_names_def map_map
  by (intro arg_cong [where f = concat] map_cong refl) (auto simp: value_spec_beta split: spec.splits)

lemma no_field_child [simp]: "NF x \<notin> set (stmt_children s)"
  by (cases s) (auto simp: nodes_defs)

lemma switch_bodies_member:
  assumes "c1 \<in> set (fst (thread (\<lambda>fell h. (CaseClause (fst (snd h)) (fst (thread (statement I f) (Q fell h) (clause_body (fst h)))),
      F fell h, G fell h)) z (zip b heads)))"
  shows "\<exists>c \<in> set b. \<exists>l R. c1 = CaseClause l (fst (thread (statement I f) R (clause_body c)))"
proof -
  from thread_member [OF assms] obtain h s where "h \<in> set (zip b heads)" and
    c1: "c1 = CaseClause (fst (snd h)) (fst (thread (statement I f) (Q s h) (clause_body (fst h))))" by auto
  then have "fst h \<in> set b" by (metis prod.collapse set_zip_leftD)
  with c1 show ?thesis by blast
qed

lemma node_images [simp]: "NS c \<in> NS ` A \<longleftrightarrow> c \<in> A" "NS c \<notin> NE ` B" "set (opt_list (map_option h x)) = h ` set (opt_list x)"
  by (auto simp: opt_list_def split: option.splits)

lemma statement_children:
  "NS c1 \<in> set (stmt_children (fst (statement I f P s))) \<Longrightarrow>
     \<exists>c. NS c \<in> set (stmt_children s) \<and>
       ((\<exists>g R. c1 = fst (statement I g R c)) \<or>
        (\<exists>l R. c1 = CaseClause l (fst (thread (statement I f) R (clause_body c)))))"
  by (cases s) (auto simp: statement_beta nodes_defs dest!: thread_member switch_bodies_member, (blast+)?)

text \<open>A visit of statements that sees nothing of a statement but what rewriting keeps.\<close>

locale stmt_visit =
  fixes I :: nullInfo and visit :: "node \<Rightarrow> 'a list \<times> bool"
  assumes visit_expr: "inspect visit (NE e) = []"
    and visit_spec: "inspect visit (NP sp) = []"
    and visit_clause: "visit (NS (CaseClause l b)) = ([], True)"
    and visit_rewritten: "visit (NS (fst (statement I f P s))) = visit (NS s)"
begin

definition seen :: "stmt \<Rightarrow> 'a set" where
  "seen s = set (inspect visit (NS s))"

lemma seen_step:
  "seen s = set (fst (visit (NS s))) \<union>
     (if snd (visit (NS s)) then (\<Union>c \<in> {c. NS c \<in> set (stmt_children s)}. seen c) else {})"
proof -
  have "set (inspect visit c) = (case c of NS c \<Rightarrow> seen c | _ \<Rightarrow> {})" if "c \<in> set (stmt_children s)" for c
    using that by (cases c rule: node.exhaust) (simp_all add: visit_expr visit_spec seen_def)
  then have "(\<Union>c \<in> set (stmt_children s). set (inspect visit c)) =
      (\<Union>c \<in> {c. NS c \<in> set (stmt_children s)}. seen c)"
    by (auto split: node.splits)
  then show ?thesis by (simp add: seen_def set_inspect [of visit "NS s"])
qed

lemma seen_child: "snd (visit (NS s)) \<Longrightarrow> NS c \<in> set (stmt_children s) \<Longrightarrow> seen c \<subseteq> seen s"
  using seen_step [of s] by auto

lemma seen_clause: "seen (CaseClause l b) = (\<Union>c \<in> set b. seen c)"
  by (subst seen_step) (auto simp: visit_clause nodes_defs opt_list_def split: option.splits)

lemma seen_rewritten: "seen (fst (statement I f P s)) \<subseteq> seen s"
proof (induction "size s" arbitrary: f P s rule: less_induct)
  case less
  have "\<exists>c. NS c \<in> set (stmt_children s) \<and> seen c1 \<subseteq> seen c"
    if "NS c1 \<in> set (stmt_children (fst (statement I f P s)))" for c1
  proof -
    from statement_children [OF that] obtain c where c: "NS c \<in> set (stmt_children s)" and
      d: "(\<exists>g R. c1 = fst (statement I g R c)) \<or>
          (\<exists>l R. c1 = CaseClause l (fst (thread (statement I f) R (clause_body c))))" by blast
    have size: "size c < size s" using children_smaller [of "NS c" "NS s"] c by simp
    have "seen (CaseClause l (fst (thread (statement I f) R (clause_body c)))) \<subseteq> seen c" for l R
    proof (cases c)
      case (CaseClause l' b)
      have "seen (fst (statement I f Q x)) \<subseteq> seen x" if "x \<in> set b" for x Q
        using that size CaseClause by (intro less.hyps) (auto dest: size_list_mem)
      with CaseClause show ?thesis by (fastforce simp: seen_clause dest: thread_member)
    qed (simp_all add: seen_clause)
    with c d less.hyps [OF size] show ?thesis by blast
  qed
  then have "(\<Union>c \<in> {c. NS c \<in> set (stmt_children (fst (statement I f P s)))}. seen c)
      \<subseteq> (\<Union>c \<in> {c. NS c \<in> set (stmt_children s)}. seen c)" by blast
  then show ?case
    unfolding seen_step [of "fst (statement I f P s)"] seen_step [of s] visit_rewritten
    by (simp add: le_supI2 del: UN_simps)
qed

lemma seen_block: "x \<in> set (fst (thread (statement I f) P b)) \<Longrightarrow> \<exists>s \<in> set b. seen x \<subseteq> seen s"
  using thread_member [of x "statement I f" P b] seen_rewritten by blast

end

lemma expr_blind: "(\<And>e. visit (NE e) = ([], False)) \<Longrightarrow> inspect visit (NE e) = []"
  by (rule inspect_stop)

lemma spec_children_exprs: "c \<in> set (spec_children sp) \<Longrightarrow> (\<exists>e. c = NE e) \<or> (\<exists>f. c = NF f)"
  by (cases sp) (auto simp: nodes_defs)

lemma field_children_exprs: "c \<in> set (field_children f) \<Longrightarrow> \<exists>e. c = NE e"
  by (cases f) (auto simp: nodes_defs)

lemma spec_blind:
  assumes e: "\<And>e. inspect visit (NE e) = []" and f: "\<And>f. visit (NF f) = ([], True)" and s: "\<And>sp. visit (NP sp) = ([], True)"
  shows "inspect visit (NP sp) = []"
proof -
  have "inspect visit (NF x) = []" for x
    using field_children_exprs [of _ x] e by (subst inspect_descend [of visit "NF x", OF f]) force
  then show ?thesis
    using spec_children_exprs [of _ sp] e by (subst inspect_descend [of visit "NP sp", OF s]) force
qed

interpretation touches: stmt_visit I "touched_by I" for I
proof
  show "inspect (touched_by I) (NE e) = []" for e
    by (rule expr_blind) (simp add: touched_by_def)
  show "inspect (touched_by I) (NP sp) = []" for sp
    by (rule spec_blind) (simp_all add: expr_blind touched_by_def)
  show "touched_by I (NS (CaseClause l b)) = ([], True)" for l b
    by (simp add: touched_by_def)
  show "touched_by I (NS (fst (statement I f P s))) = touched_by I (NS s)" for f P s
    by (cases s) (auto simp: touched_by_def statement_beta spec_names_value_spec
        intro!: arg_cong [where f = concat] thread_map named_expression)
qed

lemma touched_rewritten: "touched I (fst (statement I f P s)) \<subseteq> touched I s"
  using touches.seen_rewritten [of I f P s] by (simp add: touches.seen_def)

lemma touched_block: "touched_all I (fst (thread (statement I f) P b)) \<subseteq> touched_all I b"
  using touched_rewritten by (fastforce simp: touched_all_def dest: thread_member)

text \<open>What a run of a narrowable statement changes of the tracked variables, the code invalidates.\<close>

lemma writes_step: "set (writes I n) = set (written_by I n) \<union> (\<Union>c \<in> set (children n). set (writes I c))"
  unfolding writes_def by (subst set_inspect) simp

lemma not_parenthesised: "\<not> parenthesised e \<Longrightarrow> named I e = opt_list (object I e)"
  by (cases e) (simp_all add: named_def)

lemma touched_writes:
  "narrowable_node I T (NS s) \<Longrightarrow> touched I s \<inter> T \<subseteq> set (writes I (NS s))"
proof (induction "size s" arbitrary: s rule: less_induct)
  case less
  note ok = narrowable_ok [OF less.prems not_closure(1)]
  have step: "touched I c \<inter> T \<subseteq> set (writes I (NS s))" if c: "NS c \<in> set (stmt_children s)" for c
  proof -
    have "touched I c \<inter> T \<subseteq> set (writes I (NS c))"
      using c children_smaller [of "NS c" "NS s"] narrowable_child [OF less.prems not_closure(1)]
      by (intro less.hyps) auto
    also have "\<dots> \<subseteq> set (writes I (NS s))" using c by (subst (2) writes_step) auto
    finally show ?thesis .
  qed
  have own: "set (fst (touched_by I (NS s))) \<inter> T \<subseteq> set (written_by I (NS s))"
    using ok by (cases s) (auto simp: touched_by_def narrow_ok_def written_by_def list_all_iff not_parenthesised
        named_opt_def opt_object_def opt_list_def split: option.splits)
  show ?case
  proof
    fix x assume x: "x \<in> touched I s \<inter> T"
    then consider "x \<in> set (fst (touched_by I (NS s)))" | c where "NS c \<in> set (stmt_children s)" "x \<in> touched I c"
      using touches.seen_step [of I s] by (auto simp: touches.seen_def split: if_splits)
    then show "x \<in> set (writes I (NS s))"
    proof cases
      case 1
      then show ?thesis using own x writes_step [of I "NS s"] by auto
    next
      case 2
      then show ?thesis using step x by blast
    qed
  qed
qed

section \<open>How runs leave statements\<close>

locale branch_visit = stmt_visit I visit for I and visit :: "node \<Rightarrow> bool list \<times> bool" +
  fixes K :: token
  assumes flow: "K \<notin> {ILLEGAL, BREAK, RETURN}"
    and sees: "visit (NS (BranchStmt p K l)) = ([True], True)"
    and descends: "(\<forall>i c p b. s \<noteq> ForStmt i c p b) \<and> (\<forall>k v tok x b. s \<noteq> RangeStmt k v tok x b) \<Longrightarrow> snd (visit (NS s))"
begin

lemma leave_flow: "end_flow (leave_switch r) = Some K \<longleftrightarrow> end_flow r = Some K"
  using flow by (auto simp: end_flow_def leave_switch_def split: run_end.splits)

lemma ends_flow: "end_flow (Ends \<sigma> f) = Some f" "end_flow NilDeref = None"
  by (simp_all add: end_flow_def)

lemma sub_seen:
  "True \<in> seen c \<Longrightarrow> NS c \<in> set (stmt_children s) \<Longrightarrow>
     (\<forall>i c p b. s \<noteq> ForStmt i c p b) \<and> (\<forall>k v tok x b. s \<noteq> RangeStmt k v tok x b) \<Longrightarrow> True \<in> seen s"
  using seen_child [OF descends] by blast

lemma branch_seen: "True \<in> seen (BranchStmt p K l)"
  by (subst seen_step) (simp add: sees)

end

lemma opt_list_simps [simp]: "opt_list None = []" "opt_list (Some x) = [x]"
  by (simp_all add: opt_list_def)

context branch_visit begin

lemma run_seen:
  "derefs_nil I T \<sigma> e \<Longrightarrow> True"
  "run_stmt I T s \<sigma> r \<Longrightarrow> end_flow r = Some K \<Longrightarrow> True \<in> seen s"
  "run_stmts I T b \<sigma> r \<Longrightarrow> end_flow r = Some K \<Longrightarrow> \<exists>s \<in> set b. True \<in> seen s"
  "run_opt I T os \<sigma> r \<Longrightarrow> end_flow r = Some K \<Longrightarrow> \<exists>s \<in> set (opt_list os). True \<in> seen s"
  "run_for I T c p b \<sigma> r \<Longrightarrow> end_flow r \<noteq> Some K"
  "run_range I T xs b \<sigma> r \<Longrightarrow> end_flow r \<noteq> Some K"
  "run_clauses I T b \<sigma> r \<Longrightarrow> end_flow r = Some K \<Longrightarrow> \<exists>s \<in> set b. True \<in> seen s"
proof (induction rule: derefs_nil_run_stmt_run_stmts_run_opt_run_for_run_range_run_clauses.inducts)
  case (branch tok p \<sigma>)
  then show ?case using branch_seen by (simp add: end_flow_def)
next
  case (type_switch_case i \<sigma> \<sigma>1 a \<sigma>2 l b cs r)
  have "end_flow r = Some K" using type_switch_case.prems by (simp only: leave_flow)
  then have "\<exists>s \<in> set b. True \<in> seen s" by (rule type_switch_case)
  then have "True \<in> seen (CaseClause l b)" by (simp only: seen_clause) blast
  moreover have "NS (CaseClause l b) \<in> set (stmt_children (TypeSwitchStmt i a cs))"
    by (simp add: nodes_defs \<open>CaseClause l b \<in> set cs\<close>)
  ultimately show ?case by (rule sub_seen) simp
next
  case (select_case s b cs \<sigma> \<sigma>1 r)
  have "end_flow r = Some K" using select_case.prems by (simp only: leave_flow)
  then have "\<exists>s \<in> set b. True \<in> seen s" by (rule select_case)
  then obtain c where "c \<in> set b" "True \<in> seen c" by (elim bexE)
  then have "True \<in> seen (CommClause s b)" using sub_seen [of c "CommClause s b"] by (simp add: nodes_defs)
  moreover have "NS (CommClause s b) \<in> set (stmt_children (SelectStmt cs))"
    by (simp add: nodes_defs \<open>CommClause s b \<in> set cs\<close>)
  ultimately show ?case by (rule sub_seen) simp
qed (insert flow, simp_all add: leave_flow ends_flow,
    (((elim bexE disjE)?; erule sub_seen; simp add: nodes_defs) | (simp add: seen_clause; elim bexE; erule sub_seen; simp add: nodes_defs) | fastforce)+)

end

lemma expr_children_exprs:
  "c \<in> set (expr_children e) \<Longrightarrow> \<forall>p t b. e \<noteq> FuncLit p t b \<Longrightarrow> (\<exists>x. c = NE x) \<or> (\<exists>f. c = NF f)"
  by (cases e) (auto simp: nodes_defs)

lemma falls_blind: "(\<exists>e. n = NE e) \<or> (\<exists>f. n = NF f) \<Longrightarrow> inspect falls_visit n = []"
proof (induction "node_size n" arbitrary: n rule: less_induct)
  case less
  show ?case
  proof (cases "\<exists>p t b. n = NE (FuncLit p t b)")
    case True
    then show ?thesis by (auto simp: falls_visit_def intro: inspect_stop)
  next
    case False
    with less.prems have v: "falls_visit n = ([], True)"
      by (auto simp: falls_visit_def split: expr.splits)
    have "inspect falls_visit c = []" if c: "c \<in> set (children n)" for c
    proof (rule less.hyps)
      show "node_size c < node_size n" using c by (rule children_smaller)
      show "(\<exists>e. c = NE e) \<or> (\<exists>f. c = NF f)"
        using less.prems
      proof (elim disjE exE)
        fix e assume n: "n = NE e"
        then show ?thesis using expr_children_exprs [of c e] False c by simp
      next
        fix f assume "n = NF f"
        then show ?thesis using field_children_exprs [of c f] c by simp
      qed
    qed
    then show ?thesis by (simp add: inspect_descend [of falls_visit n, OF v])
  qed
qed

interpretation falls: branch_visit I falls_visit FALLTHROUGH for I
proof
  show "inspect falls_visit (NE e) = []" for e by (rule falls_blind) blast
  show "inspect falls_visit (NP sp) = []" for sp
    by (rule spec_blind) (simp_all add: falls_blind falls_visit_def)
  show "falls_visit (NS (fst (statement I f P s))) = falls_visit (NS s)" for f P s
    by (cases s) (simp_all add: falls_visit_def statement_beta)
  show "snd (falls_visit (NS s))" for s by (simp add: falls_visit_def)
qed (simp_all add: falls_visit_def)

interpretation continues: branch_visit I continues_visit CONTINUE for I
proof
  show "inspect continues_visit (NE e) = []" for e by (rule expr_blind) (simp add: continues_visit_def)
  show "inspect continues_visit (NP sp) = []" for sp
    by (rule spec_blind) (simp_all add: expr_blind continues_visit_def)
  show "continues_visit (NS (fst (statement I f P s))) = continues_visit (NS s)" for f P s
    by (cases s) (simp_all add: continues_visit_def statement_beta)
  show "(\<forall>i c p b. s \<noteq> ForStmt i c p b) \<and> (\<forall>k v tok x b. s \<noteq> RangeStmt k v tok x b) \<Longrightarrow> snd (continues_visit (NS s))" for s
    by (cases s) (simp_all add: continues_visit_def)
qed (simp_all add: continues_visit_def)

lemma run_falls_through: "run_stmts I T b \<sigma> (Ends \<sigma>1 FALLTHROUGH) \<Longrightarrow> falls_through b"
  using falls.run_seen(3) by (fastforce simp: falls_through_def falls.seen_def end_flow_def)

lemma run_continues:
  assumes "run_stmts I T (fst (thread (statement I f) P b)) \<sigma> (Ends \<sigma>1 CONTINUE)"
  shows "continues b"
proof -
  from continues.run_seen(3) [OF assms] obtain s where
    "s \<in> set (fst (thread (statement I f) P b))" "True \<in> continues.seen s" by (auto simp: end_flow_def)
  with continues.seen_block show ?thesis by (fastforce simp: continues_def continues.seen_def)
qed

section \<open>Blocks that do not end\<close>

inductive_simps run_stmts_simps [simp]: "run_stmts I T [] \<sigma> r"
inductive_simps run_opt_simps [simp]: "run_opt I T None \<sigma> r" "run_opt I T (Some s) \<sigma> r"
inductive_simps run_cons: "run_stmts I T (s # ss) \<sigma> r"
inductive_simps run_block: "run_stmt I T (BlockStmt b) \<sigma> r"
inductive_simps run_expr: "run_stmt I T (ExprStmt x) \<sigma> r"
inductive_simps run_if: "run_stmt I T (IfStmt i c b e) \<sigma> r"
inductive_simps run_return: "run_stmt I T (ReturnStmt p es) \<sigma> r"

lemma callNamed_expression: "callNamed (fst (expression I f P x)) n = None \<longleftrightarrow> callNamed x n = None"
proof (cases x)
  case (CallExpr g args v)
  then show ?thesis by (cases g) (simp_all add: expression_beta callNamed_def)
qed (simp_all add: expression_beta callNamed_def)

lemma block_terminates:
  assumes "\<And>s P \<sigma>. s \<in> set b \<Longrightarrow> run_stmt I T (fst (statement I f P s)) \<sigma> (Ends \<sigma>1 ILLEGAL) \<Longrightarrow>
      \<not> stmtTerminates (fst (statement I f P s))"
  shows "run_stmts I T (fst (thread (statement I f) P b)) \<sigma> (Ends \<sigma>1 ILLEGAL) \<Longrightarrow>
      \<not> blockTerminates (fst (thread (statement I f) P b))"
  using assms
proof (induction b arbitrary: P \<sigma>)
  case (Cons s b)
  from Cons.prems(1) obtain \<sigma>2 where
    s: "run_stmt I T (fst (statement I f P s)) \<sigma> (Ends \<sigma>2 ILLEGAL)" and
    b: "run_stmts I T (fst (thread (statement I f) (fst (snd (statement I f P s))) b)) \<sigma>2 (Ends \<sigma>1 ILLEGAL)"
    by (auto simp: run_cons end_flow_def)
  show ?case
  proof (cases "b = []")
    case True
    with s b Cons.prems(2) [of s P \<sigma>] show ?thesis by simp
  next
    case False
    then have "fst (thread (statement I f) Q b) \<noteq> []" for Q by (metis length_0_conv thread_length)
    with Cons.IH [OF b] Cons.prems(2) show ?thesis by simp
  qed
qed simp

lemma statement_terminates:
  assumes "narrowable_node I T (NS s)" "run_stmt I T (fst (statement I f P s)) \<sigma> (Ends \<sigma>1 ILLEGAL)"
  shows "\<not> stmtTerminates (fst (statement I f P s))"
  using assms
proof (induction "size s" arbitrary: s f P \<sigma> rule: less_induct)
  case less
  have sub: "narrowable_node I T (NS c)" if "NS c \<in> set (stmt_children s)" for c
    using narrowable_child [OF less.prems(1)] that by simp
  have IH: "\<not> stmtTerminates (fst (statement I f Q c))"
    if "NS c \<in> set (stmt_children s)" "run_stmt I T (fst (statement I f Q c)) \<tau> (Ends \<sigma>1 ILLEGAL)" for c f Q \<tau>
    using less.hyps [OF _ sub [OF that(1)] that(2)] children_smaller [of "NS c" "NS s"] that(1) by simp
  show ?case
  proof (cases s)
    case (ExprStmt x)
    moreover have "callNamed x ''GhiTry'' = None"
      using narrowable_ok [OF less.prems(1)] ExprStmt by (simp add: narrow_ok_def)
    then have "callNamed (fst (expression I f P x)) ''GhiTry'' = None" by (simp only: callNamed_expression)
    ultimately show ?thesis
      using less.prems(2) by (auto simp: statement_beta run_expr)
  next
    case (BlockStmt b)
    with IH less.prems(2) show ?thesis
      by (auto simp: statement_beta run_block nodes_defs dest!: block_terminates [rotated])
  next
    case (IfStmt i c b e)
    with IH less.prems(2) show ?thesis
      by (cases e) (auto simp: statement_beta run_if nodes_defs end_flow_def dest!: block_terminates [rotated])
  next
    case (ReturnStmt p es)
    with less.prems(2) show ?thesis by (auto simp: statement_beta run_return)
  qed (simp_all add: statement_beta)
qed

end
