(* ===== verification/NullParts.thy ===== *)
theory NullParts
  imports NullKeeps
begin

text \<open>
  The parts of the soundness proof of the narrowing: expressions, lists of statements, assignments,
  loops and switches, each under the assumption that what they contain is sound. Expressions and
  statements contain each other (conditional expressions are function literals), so
  \<^theory_text>\<open>NullSound\<close> closes the induction over the size.
\<close>

section \<open>Soundness\<close>

definition safe :: "nat set \<Rightarrow> nullProof \<Rightarrow> run_end \<Rightarrow> bool" where
  "safe T Q r \<longleftrightarrow> (case r of NilDeref \<Rightarrow> False | Ends \<sigma> f \<Rightarrow> f = ILLEGAL \<longrightarrow> Q \<subseteq> T \<inter> \<sigma>)"

lemma safe_simps [simp]:
  "\<not> safe T Q NilDeref" "safe T Q (Ends \<sigma> f) \<longleftrightarrow> (f = ILLEGAL \<longrightarrow> Q \<subseteq> T \<inter> \<sigma>)"
  by (simp_all add: safe_def)

lemma safe_mono: "safe T Q r \<Longrightarrow> R \<subseteq> Q \<Longrightarrow> safe T R r"
  by (auto simp: safe_def split: run_end.splits)

definition sound_expr :: "nullInfo \<Rightarrow> nat set \<Rightarrow> expr \<Rightarrow> bool" where
  "sound_expr I T e \<longleftrightarrow> narrowable_node I T (NE e) \<longrightarrow>
     (\<forall>f P \<sigma>. tracked I f = T \<longrightarrow> P \<subseteq> T \<inter> \<sigma> \<longrightarrow> \<not> derefs_nil I T \<sigma> (fst (expression I f P e)))"

definition sound_stmt :: "nullInfo \<Rightarrow> nat set \<Rightarrow> stmt \<Rightarrow> bool" where
  "sound_stmt I T s \<longleftrightarrow> narrowable_node I T (NS s) \<longrightarrow>
     (\<forall>f P \<sigma> r. tracked I f = T \<longrightarrow> P \<subseteq> T \<inter> \<sigma> \<longrightarrow> run_stmt I T (fst (statement I f P s)) \<sigma> r \<longrightarrow>
        safe T (fst (snd (statement I f P s))) r)"

lemma sound_exprD:
  "sound_expr I T e \<Longrightarrow> narrowable_node I T (NE e) \<Longrightarrow> tracked I f = T \<Longrightarrow> P \<subseteq> T \<inter> \<sigma> \<Longrightarrow>
     \<not> derefs_nil I T \<sigma> (fst (expression I f P e))"
  by (simp add: sound_expr_def)

lemma sound_stmtD:
  "sound_stmt I T s \<Longrightarrow> narrowable_node I T (NS s) \<Longrightarrow> tracked I f = T \<Longrightarrow> P \<subseteq> T \<inter> \<sigma> \<Longrightarrow>
     run_stmt I T (fst (statement I f P s)) \<sigma> r \<Longrightarrow> safe T (fst (snd (statement I f P s))) r"
  unfolding sound_stmt_def by blast

lemma block_sound:
  assumes "\<And>s. s \<in> set b \<Longrightarrow> sound_stmt I T s \<and> narrowable_node I T (NS s)" "tracked I f = T"
  shows "P \<subseteq> T \<inter> \<sigma> \<Longrightarrow> run_stmts I T (fst (thread (statement I f) P b)) \<sigma> r \<Longrightarrow>
      safe T (fst (snd (thread (statement I f) P b))) r"
  using assms(1)
proof (induction b arbitrary: P \<sigma>)
  case (Cons s b)
  have s: "safe T (fst (snd (statement I f P s))) q" if "run_stmt I T (fst (statement I f P s)) \<sigma> q" for q
    using sound_stmtD [OF _ _ assms(2) Cons.prems(1) that] Cons.prems(3) by simp
  from Cons.prems(2) consider "run_stmt I T (fst (statement I f P s)) \<sigma> r" "end_flow r \<noteq> Some ILLEGAL"
    | \<tau> where "run_stmt I T (fst (statement I f P s)) \<sigma> (Ends \<tau> ILLEGAL)"
        "run_stmts I T (fst (thread (statement I f) (fst (snd (statement I f P s))) b)) \<tau> r"
    by (auto simp: run_cons)
  then show ?case
  proof cases
    case 1
    then show ?thesis using s [of r] by (cases r) (auto simp: end_flow_def)
  next
    case 2
    then show ?thesis using s [of "Ends \<tau> ILLEGAL"] Cons.IH [of _ \<tau>] Cons.prems(3) by simp
  qed
qed auto

lemma opt_sound:
  assumes "\<And>s. x = Some s \<Longrightarrow> sound_stmt I T s \<and> narrowable_node I T (NS s)" "tracked I f = T" "P \<subseteq> T \<inter> \<sigma>"
    and "run_opt I T (fst (thread_opt (statement I f P) P x)) \<sigma> r"
  shows "safe T (fst (snd (thread_opt (statement I f P) P x))) r"
proof (cases x)
  case None
  with assms show ?thesis by simp
next
  case (Some s)
  with assms show ?thesis by (auto intro: sound_stmtD)
qed

lemma tracked_results [simp]: "tracked I (f\<lparr>nf_results := rs\<rparr>) = tracked I f"
  by (simp add: tracked_def local_object_def)

lemma derefs_nil_part:
  assumes "\<forall>x \<in> set (operands e). \<not> derefs_nil I T \<sigma> x"
    and "(\<forall>p x. e \<noteq> StarExpr p x) \<and> (\<forall>p t b. e \<noteq> FuncLit p t b) \<and> (\<forall>x op y. e \<noteq> BinaryExpr x op y)"
  shows "\<not> derefs_nil I T \<sigma> e"
  using assms derefs_nil_operands [of I T \<sigma> e] by blast

inductive_simps derefs_nil_binary: "derefs_nil I T \<sigma> (BinaryExpr x op y)"
inductive_simps derefs_nil_function: "derefs_nil I T \<sigma> (FuncLit p t b)"

lemma binary_sound:
  assumes "\<not> derefs_nil I T \<sigma> x" "P \<subseteq> T \<inter> \<sigma>" "tracked I f = T"
    and "\<And>R. R \<subseteq> T \<inter> \<sigma> \<Longrightarrow> \<not> derefs_nil I T \<sigma> (fst (expression I f R y))"
  shows "\<not> derefs_nil I T \<sigma> (BinaryExpr x op (fst (expression I f
      (if op = LAND then assume_cond I f x True P else if op = LOR then assume_cond I f x False P else P) y)))"
  using assms assume_sound [OF assms(3,2), of x] by (auto simp: derefs_nil_binary split: if_splits)

lemma expr_images [simp]: "NE x \<in> NE ` A \<longleftrightarrow> x \<in> A"
  by auto

lemma operand_child:
  "x \<in> set (operands e) \<Longrightarrow> NE x \<in> set (expr_children e) \<and> size x < size e \<and> \<not> is_closure I (NE e)"
  by (cases e) (auto simp: nodes_defs is_closure_def dest: size_list_mem opt_list_mem split: if_splits)

lemma expression_sound:
  assumes sub: "\<And>x. size x < size e \<Longrightarrow> sound_expr I T x" "\<And>s. size s < size e \<Longrightarrow> sound_stmt I T s"
  shows "sound_expr I T e"
  unfolding sound_expr_def
proof (intro impI allI)
  fix f P \<sigma>
  assume n: "narrowable_node I T (NE e)" and f: "tracked I f = T" and P: "P \<subseteq> T \<inter> \<sigma>"
  have E: "\<not> derefs_nil I T \<sigma> (fst (expression I f Q x))"
    if "NE x \<in> set (expr_children e)" "size x < size e" "Q \<subseteq> T \<inter> \<sigma>" "\<not> is_closure I (NE e)" for x Q
    using that narrowable_child [OF n] by (intro sound_exprD [OF sub(1) _ f]) simp_all
  have O: "\<forall>x \<in> set (operands e). \<not> derefs_nil I T \<sigma> (fst (expression I f P x))"
    using E P operand_child by blast
  show "\<not> derefs_nil I T \<sigma> (fst (expression I f P e))"
  proof (cases e)
    case (FuncLit p t b)
    show ?thesis
    proof (cases "isTernaryFunction I p t")
      case True
      have "sound_stmt I T s \<and> narrowable_node I T (NS s)" if "s \<in> set b" for s
        using that FuncLit sub(2) narrowable_child [OF n] True
        by (auto simp: nodes_defs is_closure_def dest: size_list_mem)
      then show ?thesis using True FuncLit block_sound [of b I T "f\<lparr>nf_results := type_results t\<rparr>" P \<sigma> NilDeref] f P
        by (auto simp: expression_beta derefs_nil_function)
    qed (use FuncLit in \<open>simp add: expression_beta derefs_nil_function\<close>)
  next
    case (BinaryExpr x op y)
    then have "\<not> derefs_nil I T \<sigma> (fst (expression I f P x))" "\<And>R. R \<subseteq> T \<inter> \<sigma> \<Longrightarrow> \<not> derefs_nil I T \<sigma> (fst (expression I f R y))"
      using E P by (simp_all add: is_closure_def)
    then show ?thesis unfolding BinaryExpr expression_beta fst_conv by (intro binary_sound P f)
  next
    case (StarExpr p x)
    then have "\<not> derefs_nil I T \<sigma> (fst (expression I f P x))" using E P by (simp add: is_closure_def)
    moreover have "p \<noteq> 0" using narrowable_ok [OF n] StarExpr by (simp add: narrow_ok_def is_closure_def)
    moreover have "not_nil I T \<sigma> (fst (expression I f P x))" if "proved I P x"
      using that P by (auto simp: proved_def not_nil_def object_expression split: option.splits)
    ultimately show ?thesis using StarExpr by (auto simp: expression_beta derefs_nil_star)
  next
    case (CallExpr g args v)
    have "\<forall>x \<in> set (fst (each (expression I f P) args)). \<not> derefs_nil I T \<sigma> x"
      using O CallExpr by simp
    from required_each_sound [OF P this] show ?thesis
      using O CallExpr by (simp add: expression_beta derefs_nil_part)
  qed (use O in \<open>simp_all add: expression_beta derefs_nil_part narrow_sound [OF P] ball_Un\<close>)
qed

inductive_simps run_simple: "run_stmt I T BadStmt \<sigma> r" "run_stmt I T EmptyStmt \<sigma> r" "run_stmt I T (SendStmt a v) \<sigma> r"
  "run_stmt I T (IncDecStmt e tok) \<sigma> r" "run_stmt I T (GoStmt e) \<sigma> r" "run_stmt I T (DeferStmt e) \<sigma> r"
  "run_stmt I T (BranchStmt p tok l) \<sigma> r" "run_stmt I T (CaseClause cl b) \<sigma> r" "run_stmt I T (CommClause s b) \<sigma> r"
inductive_simps run_assign: "run_stmt I T (AssignStmt l tok rs) \<sigma> r"
inductive_simps run_decl: "run_stmt I T (DeclStmt tok specs) \<sigma> r"
inductive_simps run_labeled: "run_stmt I T (LabeledStmt l s) \<sigma> r"
inductive_cases run_forE: "run_stmt I T (ForStmt i c p b) \<sigma> r"
inductive_cases run_rangeE: "run_stmt I T (RangeStmt k v tok x b) \<sigma> r"
inductive_cases run_switchE: "run_stmt I T (SwitchStmt i t cs) \<sigma> r"
inductive_cases run_type_switchE: "run_stmt I T (TypeSwitchStmt i a cs) \<sigma> r"
inductive_cases run_selectE: "run_stmt I T (SelectStmt cs) \<sigma> r"

section \<open>Assignments\<close>

lemma targets_proof:
  "fst (snd (thread (\<lambda>Q e. (fst (expression I f Q e), Q - set (opt_list (object I e)), snd (expression I f Q e))) P l)) =
     P - set (concat (map (\<lambda>e. opt_list (object I e)) l))"
  by (induction l arbitrary: P) auto

lemma targets_member:
  "x \<in> set (fst (thread (\<lambda>Q e. (fst (expression I f Q e), Q - set (opt_list (object I e)), snd (expression I f Q e))) P l)) \<Longrightarrow>
     \<exists>e \<in> set l. \<exists>Q \<subseteq> P. x = fst (expression I f Q e)"
proof (induction l arbitrary: P)
  case (Cons e l)
  let ?Q = "P - set (opt_list (object I e))"
  from Cons.prems consider "x = fst (expression I f P e)"
    | "x \<in> set (fst (thread (\<lambda>Q e. (fst (expression I f Q e), Q - set (opt_list (object I e)), snd (expression I f Q e))) ?Q l))"
    by auto
  then show ?case
  proof cases
    case 2
    from Cons.IH [OF this] obtain d R where "d \<in> set l" "R \<subseteq> ?Q" "x = fst (expression I f R d)" by blast
    then show ?thesis by (intro bexI [of _ d] exI [of _ R]) auto
  qed auto
qed simp

lemma targets_named:
  "list_all (\<lambda>e. \<not> parenthesised e) l \<Longrightarrow>
   map (named I) (fst (thread (\<lambda>Q e. (fst (expression I f Q e), Q - set (opt_list (object I e)), snd (expression I f Q e))) P l)) =
     map (\<lambda>e. opt_list (object I e)) l"
  by (rule thread_map) (simp add: named_expression not_parenthesised list_all_iff)

section \<open>Loops\<close>

lemma kept_safe:
  assumes "P \<subseteq> T \<inter> \<sigma>" "keeps W \<sigma> r" "P \<inter> W = {}" "r \<noteq> NilDeref"
  shows "safe T P r"
  using assms by (auto simp: keeps_def same_def safe_def split: run_end.splits)

lemma same_sub: "same W \<sigma> \<sigma>1 \<Longrightarrow> R \<inter> W = {} \<Longrightarrow> R \<subseteq> T \<inter> \<sigma> \<Longrightarrow> R \<subseteq> T \<inter> \<sigma>1"
  by (auto simp: same_def)

lemma block_keeps_proof:
  "run_stmts I T b \<sigma> (Ends \<sigma>1 f) \<Longrightarrow> R \<inter> touched_all I b = {} \<Longrightarrow> R \<subseteq> T \<inter> \<sigma> \<Longrightarrow> R \<subseteq> T \<inter> \<sigma>1"
  using runs_keep(3) [of I T b \<sigma> "Ends \<sigma>1 f"] same_sub [of "touched_all I b" \<sigma> \<sigma>1 R T] by simp

lemma opt_keeps_proof:
  "run_opt I T p \<sigma> (Ends \<sigma>1 f) \<Longrightarrow> R \<inter> touched_opt I p = {} \<Longrightarrow> R \<subseteq> T \<inter> \<sigma> \<Longrightarrow> R \<subseteq> T \<inter> \<sigma>1"
  using runs_keep(4) [of I T p \<sigma> "Ends \<sigma>1 f"] same_sub [of "touched_opt I p" \<sigma> \<sigma>1 R T] by simp

lemma for_no_nil:
  assumes cond: "\<And>\<sigma> e. c = Some e \<Longrightarrow> R \<subseteq> T \<inter> \<sigma> \<Longrightarrow> \<not> derefs_nil I T \<sigma> e"
    and body: "\<And>\<sigma>. R \<subseteq> T \<inter> \<sigma> \<Longrightarrow> may_opt I T \<sigma> c True \<Longrightarrow> \<not> run_stmts I T b \<sigma> NilDeref"
    and post: "\<And>\<sigma> \<sigma>1 f. R \<subseteq> T \<inter> \<sigma> \<Longrightarrow> may_opt I T \<sigma> c True \<Longrightarrow> run_stmts I T b \<sigma> (Ends \<sigma>1 f) \<Longrightarrow>
      f \<in> {ILLEGAL, CONTINUE} \<Longrightarrow> \<not> run_opt I T p \<sigma>1 NilDeref"
    and W: "R \<inter> (touched_opt I p \<union> touched_all I b) = {}"
  shows "run_for I T c p b \<sigma> r \<Longrightarrow> R \<subseteq> T \<inter> \<sigma> \<Longrightarrow> r \<noteq> NilDeref"
proof -
  have next_keeps: "R \<subseteq> T \<inter> \<sigma>2" if "run_stmts I T b \<sigma> (Ends \<sigma>1 f)" "run_opt I T p \<sigma>1 (Ends \<sigma>2 g)" "R \<subseteq> T \<inter> \<sigma>" for \<sigma> \<sigma>1 \<sigma>2 f g
    using W by (intro opt_keeps_proof [OF that(2)] block_keeps_proof [OF that(1) _ that(3)]) blast+
  have "derefs_nil I T \<sigma>0 e0 \<Longrightarrow> True" and "run_stmt I T s0 \<sigma>0 r0 \<Longrightarrow> True" and "run_stmts I T b0 \<sigma>0 r0 \<Longrightarrow> True"
    and "run_opt I T os0 \<sigma>0 r0 \<Longrightarrow> True"
    and "run_for I T c0 p0 b0 \<sigma> r \<Longrightarrow> c0 = c \<Longrightarrow> p0 = p \<Longrightarrow> b0 = b \<Longrightarrow> R \<subseteq> T \<inter> \<sigma> \<Longrightarrow> r \<noteq> NilDeref"
    and "run_range I T xs0 b0 \<sigma>0 r0 \<Longrightarrow> True" and "run_clauses I T b0 \<sigma>0 r0 \<Longrightarrow> True"
    for \<sigma>0 e0 s0 r0 b0 os0 c0 p0 xs0
  proof (induction rule: derefs_nil_run_stmt_run_stmts_run_opt_run_for_run_range_run_clauses.inducts)
    case (loop_nil c0 e \<sigma> p0 b0)
    then show ?case using cond [of e \<sigma>] by simp
  next
    case (loop_out \<sigma> c0 b0 r p0)
    then show ?case using body [of \<sigma>] by auto
  next
    case (loop_post \<sigma> c0 b0 \<sigma>1 f p0)
    then show ?case using post [of \<sigma> \<sigma>1 f] by simp
  next
    case (loop_next \<sigma> c0 b0 \<sigma>1 f p0 \<sigma>2 r)
    then show ?case using next_keeps [of \<sigma> \<sigma>1 f \<sigma>2 ILLEGAL] by simp
  qed simp_all
  then show "run_for I T c p b \<sigma> r \<Longrightarrow> R \<subseteq> T \<inter> \<sigma> \<Longrightarrow> r \<noteq> NilDeref" by blast
qed

lemma range_no_nil:
  assumes body: "\<And>\<sigma>. R \<subseteq> T \<inter> \<sigma> \<Longrightarrow> \<not> run_stmts I T b \<sigma> NilDeref"
    and W: "R \<inter> (set xs \<union> touched_all I b) = {}"
  shows "run_range I T xs b \<sigma> r \<Longrightarrow> R \<subseteq> T \<inter> \<sigma> \<Longrightarrow> r \<noteq> NilDeref"
proof -
  have changed: "R \<subseteq> T \<inter> \<sigma>1" if "changes xs \<sigma> \<sigma>1" "R \<subseteq> T \<inter> \<sigma>" for \<sigma> \<sigma>1
    by (rule same_sub [of "set xs" \<sigma>]) (use that W in \<open>auto simp: changes_same\<close>)
  have next_keeps: "R \<subseteq> T \<inter> \<sigma>1" if "run_stmts I T b \<sigma> (Ends \<sigma>1 f)" "R \<subseteq> T \<inter> \<sigma>" for \<sigma> \<sigma>1 f
    using W by (intro block_keeps_proof [OF that(1) _ that(2)]) blast
  have "derefs_nil I T \<sigma>0 e0 \<Longrightarrow> True" and "run_stmt I T s0 \<sigma>0 r0 \<Longrightarrow> True" and "run_stmts I T b0 \<sigma>0 r0 \<Longrightarrow> True"
    and "run_opt I T os0 \<sigma>0 r0 \<Longrightarrow> True" and "run_for I T c0 p0 b0 \<sigma>0 r0 \<Longrightarrow> True"
    and "run_range I T xs0 b0 \<sigma> r \<Longrightarrow> xs0 = xs \<Longrightarrow> b0 = b \<Longrightarrow> R \<subseteq> T \<inter> \<sigma> \<Longrightarrow> r \<noteq> NilDeref"
    and "run_clauses I T b0 \<sigma>0 r0 \<Longrightarrow> True"
    for \<sigma>0 e0 s0 r0 b0 os0 c0 p0 xs0
  proof (induction rule: derefs_nil_run_stmt_run_stmts_run_opt_run_for_run_range_run_clauses.inducts)
    case (range_out xs0 \<sigma> \<sigma>1 b0 r)
    have "R \<subseteq> T \<inter> \<sigma>1" by (rule changed [of \<sigma>]) (use range_out in simp_all)
    then show ?case using body [of \<sigma>1] range_out by auto
  next
    case (range_next xs0 \<sigma> \<sigma>1 b0 \<sigma>2 f r)
    have "R \<subseteq> T \<inter> \<sigma>1" by (rule changed [of \<sigma>]) (use range_next in simp_all)
    then have "R \<subseteq> T \<inter> \<sigma>2" by (rule next_keeps [rotated]) (use range_next in simp)
    then show ?case using range_next by simp
  qed simp_all
  then show "run_range I T xs b \<sigma> r \<Longrightarrow> R \<subseteq> T \<inter> \<sigma> \<Longrightarrow> r \<noteq> NilDeref" by blast
qed

lemma require_each_literal:
  "require_each I Q ts [BasicLit k v] = [(BasicLit k v, False)]"
  by (cases ts) (simp_all add: require_def proved_def split: option.splits)

lemma counts_no_nil:
  "counts p \<Longrightarrow> \<not> run_opt I T (fst (thread_opt (statement I f Q) Q p)) \<sigma> NilDeref"
  by (cases p rule: counts.cases)
    (auto simp: statement_beta run_simple run_assign required_each_def require_each_literal)

section \<open>Switches\<close>

text \<open>The two loops of \<open>switchCases\<close> by themselves.\<close>

definition switch_condition ::
  "nullInfo \<Rightarrow> nullableFlow \<Rightarrow> bool \<Rightarrow> nullProof option \<times> nullProof \<Rightarrow> expr \<Rightarrow> expr \<times> (nullProof option \<times> nullProof) \<times> bool" where
  "switch_condition I f tagless mr e =
     (let e1 = fst (expression I f (snd mr) e) in
      (e1, (Some (branch_proof (fst mr) (if tagless then assume_cond I f e1 True (snd mr) else snd mr)),
            if tagless then assume_cond I f e1 False (snd mr) else snd mr), snd (expression I f (snd mr) e)))"

definition switch_head ::
  "nullInfo \<Rightarrow> nullableFlow \<Rightarrow> bool \<Rightarrow> nullProof \<Rightarrow> stmt \<Rightarrow> (expr list option \<times> nullProof option) \<times> nullProof \<times> bool" where
  "switch_head I f tagless r cl =
     (case clause_list cl of
        None \<Rightarrow> ((None, None), r, False)
      | Some es \<Rightarrow> (let x = thread (switch_condition I f tagless) (None, r) es
                    in ((Some (fst x), fst (fst (snd x))), snd (fst (snd x)), snd (snd x))))"

definition switch_body ::
  "nullInfo \<Rightarrow> nullableFlow \<Rightarrow> nullProof \<Rightarrow> bool \<Rightarrow> stmt \<times> expr list option \<times> nullProof option \<Rightarrow> stmt \<times> bool \<times> bool" where
  "switch_body I f remaining fell h =
     (let x = thread (statement I f) (incoming remaining fell (fst (snd h)) (snd (snd h))) (clause_body (fst h))
      in (CaseClause (fst (snd h)) (fst x), falls_through (fst x), snd (snd x)))"

lemma statement_switch:
  "statement I f P (SwitchStmt i t b) =
     (let i1 = thread_opt (statement I f P) P i; P1 = fst (snd i1); t1 = each_opt (expression I f P1) t;
          hs = thread (switch_head I f (t = None)) P1 b;
          b1 = thread (switch_body I f (fst (snd hs))) False (zip b (fst hs))
      in (SwitchStmt (fst i1) (fst t1) (fst b1), invalidateWrites I (SwitchStmt (fst i1) (fst t1) (fst b1)) P1,
          snd (snd i1) \<or> snd t1 \<or> snd (snd hs) \<or> snd (snd b1)))"
proof -
  have c: "(\<lambda>mr e. (fst (expression I f (snd mr) e),
      (Some (branch_proof (fst mr) (if t = None then assume_cond I f (fst (expression I f (snd mr) e)) True (snd mr) else snd mr)),
       if t = None then assume_cond I f (fst (expression I f (snd mr) e)) False (snd mr) else snd mr),
      snd (expression I f (snd mr) e))) = switch_condition I f (t = None)" for t :: "expr option"
    by (intro ext) (simp add: switch_condition_def Let_def)
  have h: "(\<lambda>r cl. case clause_list cl of None \<Rightarrow> ((None, None), r, False)
      | Some es \<Rightarrow> ((Some (fst (thread (switch_condition I f (t = None)) (None, r) es)),
          fst (fst (snd (thread (switch_condition I f (t = None)) (None, r) es)))),
          snd (fst (snd (thread (switch_condition I f (t = None)) (None, r) es))),
          snd (snd (thread (switch_condition I f (t = None)) (None, r) es)))) = switch_head I f (t = None)" for t :: "expr option"
    by (intro ext) (simp add: switch_head_def Let_def split: option.split)
  have b: "(\<lambda>fell h. (CaseClause (fst (snd h)) (fst (thread (statement I f) (incoming R fell (fst (snd h)) (snd (snd h))) (clause_body (fst h)))),
      falls_through (fst (thread (statement I f) (incoming R fell (fst (snd h)) (snd (snd h))) (clause_body (fst h)))),
      snd (snd (thread (statement I f) (incoming R fell (fst (snd h)) (snd (snd h))) (clause_body (fst h)))))) = switch_body I f R" for R
    by (intro ext) (simp add: switch_body_def Let_def)
  show ?thesis unfolding statement_beta c h b Let_def by (rule refl)
qed

lemma all_fail_simps [simp]:
  "all_fail I T \<sigma> tg []" "all_fail I T \<sigma> tg (e # es) \<longleftrightarrow> (tg \<longrightarrow> may I T \<sigma> e False) \<and> all_fail I T \<sigma> tg es"
  "all_fail I T \<sigma> tg (es @ ds) \<longleftrightarrow> all_fail I T \<sigma> tg es \<and> all_fail I T \<sigma> tg ds"
  by (auto simp: all_fail_def)

lemma switch_condition_simps [simp]:
  "fst (switch_condition I f tg mr e) = fst (expression I f (snd mr) e)"
  "fst (fst (snd (switch_condition I f tg mr e))) =
     Some (branch_proof (fst mr) (if tg then assume_cond I f (fst (expression I f (snd mr) e)) True (snd mr) else snd mr))"
  "snd (fst (snd (switch_condition I f tg mr e))) =
     (if tg then assume_cond I f (fst (expression I f (snd mr) e)) False (snd mr) else snd mr)"
  by (simp_all add: switch_condition_def Let_def)

text \<open>What a clause has matched only shrinks.\<close>

lemma matched_shrinks:
  "fst mr = Some M \<Longrightarrow> \<exists>N. fst (fst (snd (thread (switch_condition I f tg) mr es))) = Some N \<and> N \<subseteq> M"
proof (induction es arbitrary: mr M)
  case (Cons e es)
  let ?n = "fst (snd (switch_condition I f tg mr e))"
  obtain M1 where "fst ?n = Some M1" "M1 \<subseteq> M" using Cons.prems by (auto simp: branch_proof_def mergeProof_def)
  with Cons.IH [of ?n M1] show ?case by force
qed simp

lemma condition_next:
  "tracked I f = T \<Longrightarrow> snd mr \<subseteq> T \<inter> \<sigma> \<Longrightarrow> tg \<longrightarrow> may I T \<sigma> (fst (expression I f (snd mr) e)) False \<Longrightarrow>
     snd (fst (snd (switch_condition I f tg mr e))) \<subseteq> T \<inter> \<sigma>"
  using assume_sound [of I f T "snd mr" \<sigma> "fst (expression I f (snd mr) e)" False] by simp

lemma conditions_fail:
  assumes "tracked I f = T"
  shows "snd mr \<subseteq> T \<inter> \<sigma> \<Longrightarrow> all_fail I T \<sigma> tg (fst (thread (switch_condition I f tg) mr es)) \<Longrightarrow>
      snd (fst (snd (thread (switch_condition I f tg) mr es))) \<subseteq> T \<inter> \<sigma>"
proof (induction es arbitrary: mr)
  case (Cons d es)
  have "snd (fst (snd (switch_condition I f tg mr d))) \<subseteq> T \<inter> \<sigma>"
    by (rule condition_next [OF assms Cons.prems(1)]) (use Cons.prems(2) in simp)
  from Cons.IH [OF this] Cons.prems(2) show ?case by simp
qed simp

lemma conditions_evaluate:
  assumes "tracked I f = T" "\<And>e Q. e \<in> Z \<Longrightarrow> Q \<subseteq> T \<inter> \<sigma> \<Longrightarrow> \<not> derefs_nil I T \<sigma> (fst (expression I f Q e))"
  shows "set es \<subseteq> Z \<Longrightarrow> snd mr \<subseteq> T \<inter> \<sigma> \<Longrightarrow>
      fst (thread (switch_condition I f tg) mr es) = before @ e # rest \<Longrightarrow>
      all_fail I T \<sigma> tg before \<Longrightarrow> \<not> derefs_nil I T \<sigma> e"
proof (induction es arbitrary: mr before)
  case (Cons d es)
  show ?case
  proof (cases before)
    case Nil
    with Cons.prems assms(2) [of d "snd mr"] show ?thesis by auto
  next
    case b: (Cons c cs)
    have "snd (fst (snd (switch_condition I f tg mr d))) \<subseteq> T \<inter> \<sigma>"
      by (rule condition_next [OF assms(1) Cons.prems(2)]) (use Cons.prems b in auto)
    from Cons.IH [OF _ this, of cs] Cons.prems b show ?thesis by simp
  qed
qed simp

lemma conditions_match:
  assumes "tracked I f = T"
  shows "snd mr \<subseteq> T \<inter> \<sigma> \<Longrightarrow> fst (thread (switch_condition I f tg) mr es) = before @ e # rest \<Longrightarrow>
      all_fail I T \<sigma> tg before \<Longrightarrow> (tg \<Longrightarrow> may I T \<sigma> e True) \<Longrightarrow>
      \<exists>M. fst (fst (snd (thread (switch_condition I f tg) mr es))) = Some M \<and> M \<subseteq> T \<inter> \<sigma>"
proof (induction es arbitrary: mr before)
  case (Cons d es)
  let ?n = "fst (snd (switch_condition I f tg mr d))" and ?d = "fst (expression I f (snd mr) d)"
  show ?case
  proof (cases before)
    case Nil
    then have e: "e = ?d" using Cons.prems by simp
    have "\<exists>M. fst ?n = Some M \<and> M \<subseteq> T \<inter> \<sigma>"
      using Cons.prems assume_sound [OF assms Cons.prems(1), of ?d True] e
      by (auto simp: branch_proof_def mergeProof_def split: option.splits)
    then show ?thesis using matched_shrinks [of ?n _ I f tg es] by fastforce
  next
    case b: (Cons c cs)
    have "snd ?n \<subseteq> T \<inter> \<sigma>"
      by (rule condition_next [OF assms Cons.prems(1)]) (use Cons.prems b in auto)
    from Cons.IH [OF this, of cs] Cons.prems b show ?thesis by simp
  qed
qed simp

text \<open>The expressions of the rewritten clauses in the order in which a switch tries them.\<close>

definition head_exprs :: "(expr list option \<times> nullProof option) list \<Rightarrow> expr list" where
  "head_exprs hs = concat (map (\<lambda>h. case fst h of None \<Rightarrow> [] | Some es \<Rightarrow> es) hs)"

lemma head_exprs_simps [simp]:
  "head_exprs [] = []" "head_exprs (h # hs) = (case fst h of None \<Rightarrow> [] | Some es \<Rightarrow> es) @ head_exprs hs"
  "head_exprs (hs @ gs) = head_exprs hs @ head_exprs gs"
  by (simp_all add: head_exprs_def)

definition head_list :: "(expr list option \<times> nullProof option) \<times> nullProof \<times> bool \<Rightarrow> expr list" where
  "head_list h = (case fst (fst h) of None \<Rightarrow> [] | Some es \<Rightarrow> es)"

lemma head_list_switch: "head_list (switch_head I f tg r c) =
    (case clause_list c of None \<Rightarrow> [] | Some es \<Rightarrow> fst (thread (switch_condition I f tg) (None, r) es))"
  by (simp add: head_list_def switch_head_def Let_def split: option.split)

lemma head_exprs_thread [simp]:
  "head_exprs (fst (thread (switch_head I f tg) r (c # cs))) = head_list (switch_head I f tg r c) @
     head_exprs (fst (thread (switch_head I f tg) (fst (snd (switch_head I f tg r c))) cs))"
  by (simp add: head_list_def)

lemma head_next:
  "tracked I f = T \<Longrightarrow> r \<subseteq> T \<inter> \<sigma> \<Longrightarrow> all_fail I T \<sigma> tg (head_list (switch_head I f tg r c)) \<Longrightarrow>
     fst (snd (switch_head I f tg r c)) \<subseteq> T \<inter> \<sigma>"
  using conditions_fail [of I f T "(None, r)" \<sigma> tg]
  by (auto simp: head_list_def switch_head_def Let_def split: option.splits)

lemma heads_fail:
  assumes "tracked I f = T"
  shows "r \<subseteq> T \<inter> \<sigma> \<Longrightarrow> all_fail I T \<sigma> tg (head_exprs (fst (thread (switch_head I f tg) r cs))) \<Longrightarrow>
      fst (snd (thread (switch_head I f tg) r cs)) \<subseteq> T \<inter> \<sigma>"
proof (induction cs arbitrary: r)
  case (Cons c cs)
  have "fst (snd (switch_head I f tg r c)) \<subseteq> T \<inter> \<sigma>"
    by (rule head_next [OF assms Cons.prems(1)]) (use Cons.prems(2) in \<open>simp del: thread_simps\<close>)
  from Cons.IH [OF this] Cons.prems(2) show ?case by (simp add: head_list_def)
qed simp

lemma heads_evaluate:
  assumes "tracked I f = T" "\<And>c es e Q. c \<in> Z \<Longrightarrow> clause_list c = Some es \<Longrightarrow> e \<in> set es \<Longrightarrow> Q \<subseteq> T \<inter> \<sigma> \<Longrightarrow>
      \<not> derefs_nil I T \<sigma> (fst (expression I f Q e))"
  shows "set cs \<subseteq> Z \<Longrightarrow> r \<subseteq> T \<inter> \<sigma> \<Longrightarrow> head_exprs (fst (thread (switch_head I f tg) r cs)) = before @ e # rest \<Longrightarrow>
      all_fail I T \<sigma> tg before \<Longrightarrow> \<not> derefs_nil I T \<sigma> e"
proof (induction cs arbitrary: r before)
  case (Cons c cs)
  let ?h = "switch_head I f tg r c"
  have "head_list ?h @ head_exprs (fst (thread (switch_head I f tg) (fst (snd ?h)) cs)) = before @ e # rest"
    using Cons.prems(3) by (simp del: thread_simps)
  then consider b where "head_list ?h = before @ e # b"
    | d where "before = head_list ?h @ d" "head_exprs (fst (thread (switch_head I f tg) (fst (snd ?h)) cs)) = d @ e # rest"
    by (auto simp: append_eq_append_conv2 append_eq_Cons_conv Cons_eq_append_conv)
  then show ?case
  proof cases
    case 1
    then obtain es where es: "clause_list c = Some es" "fst (thread (switch_condition I f tg) (None, r) es) = before @ e # b"
      by (auto simp: head_list_switch split: option.splits)
    then show ?thesis
      using conditions_evaluate [OF assms(1), of "set es" \<sigma> es "(None, r)" tg before e b] assms(2) [OF _ es(1)] Cons.prems
      by simp
  next
    case 2
    have "fst (snd ?h) \<subseteq> T \<inter> \<sigma>"
      by (rule head_next [OF assms(1) Cons.prems(2)]) (use Cons.prems 2 in simp)
    from Cons.IH [OF _ this 2(2)] Cons.prems 2(1) show ?thesis by simp
  qed
qed simp

lemma heads_match:
  assumes "tracked I f = T"
  shows "r \<subseteq> T \<inter> \<sigma> \<Longrightarrow> fst (thread (switch_head I f tg) r cs) = hs1 @ (Some (before @ e # rest), m) # hs2 \<Longrightarrow>
      all_fail I T \<sigma> tg (head_exprs hs1 @ before) \<Longrightarrow> (tg \<Longrightarrow> may I T \<sigma> e True) \<Longrightarrow> \<exists>M. m = Some M \<and> M \<subseteq> T \<inter> \<sigma>"
proof (induction cs arbitrary: r hs1)
  case (Cons c cs)
  let ?h = "switch_head I f tg r c"
  show ?case
  proof (cases hs1)
    case Nil
    with Cons.prems have h: "fst ?h = (Some (before @ e # rest), m)" by simp
    then obtain es where es: "clause_list c = Some es" "fst (thread (switch_condition I f tg) (None, r) es) = before @ e # rest"
      "m = fst (fst (snd (thread (switch_condition I f tg) (None, r) es)))"
      by (auto simp: switch_head_def Let_def split: option.splits)
    then show ?thesis
      using conditions_match [OF assms, of "(None, r)" \<sigma> tg es before e rest] Cons.prems Nil by simp
  next
    case b: (Cons h hs)
    have "fst (snd ?h) \<subseteq> T \<inter> \<sigma>"
      by (rule head_next [OF assms Cons.prems(1)]) (use Cons.prems b in \<open>auto simp: head_list_def\<close>)
    from Cons.IH [OF this, of hs] Cons.prems b show ?thesis by simp
  qed
qed simp

text \<open>The bodies: one that is entered by falling through starts without a proof.\<close>

lemma switch_body_simps [simp]:
  "fst (switch_body I f R fell h) =
     CaseClause (fst (snd h)) (fst (thread (statement I f) (incoming R fell (fst (snd h)) (snd (snd h))) (clause_body (fst h))))"
  "fst (snd (switch_body I f R fell h)) =
     falls_through (fst (thread (statement I f) (incoming R fell (fst (snd h)) (snd (snd h))) (clause_body (fst h))))"
  by (simp_all add: switch_body_def Let_def)

inductive_simps run_clauses_simps: "run_clauses I T [] \<sigma> r" "run_clauses I T (CaseClause l b # cs) \<sigma> r"

lemma clauses_no_nil:
  assumes "tracked I f = T"
    and "\<And>c s. c \<in> Z \<Longrightarrow> s \<in> set (clause_body c) \<Longrightarrow> sound_stmt I T s \<and> narrowable_node I T (NS s)"
  shows "run_clauses I T (fst (thread (switch_body I f R) fell zs)) \<sigma> r \<Longrightarrow> fst ` set zs \<subseteq> Z \<Longrightarrow>
      (\<And>h hs. zs = h # hs \<Longrightarrow> incoming R fell (fst (snd h)) (snd (snd h)) \<subseteq> T \<inter> \<sigma>) \<Longrightarrow> r \<noteq> NilDeref"
proof (induction zs arbitrary: fell \<sigma>)
  case Nil
  then show ?case by (simp add: run_clauses_simps)
next
  case (Cons h zs)
  let ?in = "incoming R fell (fst (snd h)) (snd (snd h))"
  let ?b = "thread (statement I f) ?in (clause_body (fst h))"
  have safe: "safe T (fst (snd ?b)) q" if "run_stmts I T (fst ?b) \<sigma> q" for q
    using Cons.prems(2,3) that by (intro block_sound [OF assms(2) assms(1)]) auto
  from Cons.prems(1) consider "run_stmts I T (fst ?b) \<sigma> r"
    | \<tau> where "run_stmts I T (fst ?b) \<sigma> (Ends \<tau> FALLTHROUGH)"
        "run_clauses I T (fst (thread (switch_body I f R) (falls_through (fst ?b)) zs)) \<tau> r"
    by (auto simp: run_clauses_simps)
  then show ?case
  proof cases
    case 1
    from safe [OF this] show ?thesis by auto
  next
    case 2
    have "falls_through (fst ?b)" using 2(1) by (rule run_falls_through)
    with 2(2) Cons.prems(2) show ?thesis by (intro Cons.IH [of True \<tau>]) (auto simp: incoming_def)
  qed
qed

lemma thread_split:
  "fst (thread g s xs) = ys @ zs \<Longrightarrow>
     \<exists>as bs t. xs = as @ bs \<and> ys = fst (thread g s as) \<and> zs = fst (thread g t bs) \<and> (ys = [] \<longrightarrow> t = s)"
proof (induction ys arbitrary: s xs)
  case Nil
  then show ?case by (intro exI [of _ "[]"] exI [of _ xs] exI [of _ s]) simp
next
  case (Cons y ys)
  then obtain x xs' where xs: "xs = x # xs'" by (cases xs) auto
  with Cons.prems have "fst (thread g (fst (snd (g s x))) xs') = ys @ zs" by simp
  from Cons.IH [OF this] obtain as bs t where
    "xs' = as @ bs" "ys = fst (thread g (fst (snd (g s x))) as)" "zs = fst (thread g t bs)" by blast
  with xs Cons.prems show ?case by (intro exI [of _ "x # as"] exI [of _ bs] exI [of _ t]) simp
qed

lemma switch_exprs: "case_exprs (fst (thread (switch_body I f R) fell zs)) = head_exprs (map snd zs)"
  by (induction zs arbitrary: fell) (auto simp: case_exprs_def split: option.splits)

lemma map_snd_zip_thread: "map snd (zip b (fst (thread g s b))) = fst (thread g s b)"
  by (simp add: map_snd_zip)

lemma switch_no_nil:
  fixes tg :: bool
  assumes f: "tracked I f = T" and P: "P \<subseteq> T \<inter> \<sigma>"
    and bodies: "\<And>c s. c \<in> set b \<Longrightarrow> s \<in> set (clause_body c) \<Longrightarrow> sound_stmt I T s \<and> narrowable_node I T (NS s)"
  defines "hs \<equiv> thread (switch_head I f tg) P b"
  assumes cs: "fst (thread (switch_body I f (fst (snd hs))) False (zip b (fst hs))) = cs1 @ CaseClause l cb # cs2"
    and run: "run_clauses I T (CaseClause l cb # cs2) \<sigma> r"
    and chosen: "l = None \<and> all_fail I T \<sigma> tg (case_exprs (cs1 @ CaseClause l cb # cs2)) \<or>
      (\<exists>before e rest. l = Some (before @ e # rest) \<and> all_fail I T \<sigma> tg (case_exprs cs1 @ before) \<and> (tg \<longrightarrow> may I T \<sigma> e True))"
  shows "r \<noteq> NilDeref"
proof -
  let ?B = "switch_body I f (fst (snd hs))"
  have heads: "map snd (zip b (fst hs)) = fst hs" unfolding hs_def by (rule map_snd_zip_thread)
  from thread_split [OF cs] obtain as bs t where zip: "zip b (fst hs) = as @ bs" and as: "cs1 = fst (thread ?B False as)"
    and bs: "CaseClause l cb # cs2 = fst (thread ?B t bs)" by blast
  from bs obtain h hs' where h: "bs = h # hs'" "fst (snd h) = l" by (cases bs) auto
  have split: "fst hs = map snd as @ snd h # map snd hs'" using heads zip h(1) by simp
  have exprs: "case_exprs cs1 = head_exprs (map snd as)" using switch_exprs as by blast
  have "incoming (fst (snd hs)) t (fst (snd h)) (snd (snd h)) \<subseteq> T \<inter> \<sigma>"
  proof (cases l)
    case None
    then have "all_fail I T \<sigma> tg (head_exprs (fst hs))"
      using chosen switch_exprs [of I f "fst (snd hs)" False "zip b (fst hs)"] cs heads by simp
    from heads_fail [OF f P this [unfolded hs_def]] None h(2) show ?thesis by (simp add: incoming_def hs_def)
  next
    case (Some es)
    with chosen obtain before e rest where e: "es = before @ e # rest"
      "all_fail I T \<sigma> tg (head_exprs (map snd as) @ before)" "tg \<Longrightarrow> may I T \<sigma> e True" using exprs by auto
    have "fst hs = map snd as @ (Some (before @ e # rest), snd (snd h)) # map snd hs'"
      using split h(2) Some e(1) by (metis prod.collapse)
    from heads_match [OF f P this [unfolded hs_def] e(2,3)] show ?thesis
      using Some h(2) by (auto simp: incoming_def)
  qed
  then have inc: "incoming (fst (snd hs)) t (fst (snd k)) (snd (snd k)) \<subseteq> T \<inter> \<sigma>" if "bs = k # ks" for k ks
    using that h(1) by simp
  have "set bs \<subseteq> set (zip b (fst hs))" by (simp add: zip)
  moreover have "fst k \<in> set b" if "k \<in> set (zip b (fst hs))" for k
    using that by (cases k rule: prod.exhaust) (simp add: set_zip_leftD)
  ultimately have sub: "fst ` set bs \<subseteq> set b" by blast
  show ?thesis
    by (rule clauses_no_nil [OF f bodies run [unfolded bs] sub inc])
qed

end
