(* ===== verification/NullSound.thy ===== *)
theory NullSound
  imports NullParts
begin

text \<open>
  The narrowing of nullable variables is sound for the bodies that \<open>narrowable\<close> describes; two short
  functions outside of them show why: a loop that continues to its post statement before the check,
  and an assignment to a variable in parentheses.
\<close>

section \<open>What a rewritten switch writes\<close>

lemma written_rewritten: "written_by I (NS (fst (statement I f P s))) = written_by I (NS s)"
  by (cases s) (auto simp: written_by_def statement_beta object_expression
      intro!: arg_cong [where f = concat] thread_map)

lemma own_writes:
  "narrow_ok I T (NS s) \<Longrightarrow> set (fst (touched_by I (NS s))) \<inter> T \<subseteq> set (written_by I (NS s))"
  by (cases s) (auto simp: touched_by_def narrow_ok_def written_by_def list_all_iff not_parenthesised
      named_opt_def opt_object_def opt_list_def split: option.splits)

lemma writes_child: "NS c \<in> set (stmt_children s) \<Longrightarrow> set (writes I (NS c)) \<subseteq> set (writes I (NS s))"
  using writes_step [of I "NS s"] by auto

lemma rewritten_writes:
  "narrowable_node I T (NS s) \<Longrightarrow>
     touched I (fst (statement I f P s)) \<inter> T \<subseteq> set (writes I (NS (fst (statement I f P s))))"
proof (induction "size s" arbitrary: s f P rule: less_induct)
  case less
  let ?s = "fst (statement I f P s)"
  have child: "touched I c1 \<inter> T \<subseteq> set (writes I (NS c1))" if c1: "NS c1 \<in> set (stmt_children ?s)" for c1
  proof -
    from statement_children [OF c1] obtain c where c: "NS c \<in> set (stmt_children s)" and
      d: "(\<exists>g R. c1 = fst (statement I g R c)) \<or>
          (\<exists>l R. c1 = CaseClause l (fst (thread (statement I f) R (clause_body c))))" by blast
    have size: "size c < size s" using children_smaller [of "NS c" "NS s"] c by simp
    have nc: "narrowable_node I T (NS c)" using narrowable_child [OF less.prems not_closure(1)] c by simp
    have "touched I x \<inter> T \<subseteq> set (writes I (NS (CaseClause l (fst (thread (statement I f) R (clause_body c))))))"
      if x: "x \<in> set (fst (thread (statement I f) R (clause_body c)))" for x l R
    proof -
      obtain y Q where y: "y \<in> set (clause_body c)" "x = fst (statement I f Q y)" using thread_member [OF x] by blast
      then have "NS y \<in> set (stmt_children c)" by (cases c) (simp_all add: nodes_defs)
      then have "size y < size s" "narrowable_node I T (NS y)"
        using children_smaller [of "NS y" "NS c"] size narrowable_child [OF nc not_closure(1)] by simp_all
      from less.hyps [OF this] have "touched I x \<inter> T \<subseteq> set (writes I (NS x))" unfolding y(2) .
      also have "\<dots> \<subseteq> set (writes I (NS (CaseClause l (fst (thread (statement I f) R (clause_body c))))))"
        using x by (intro writes_child) (simp add: nodes_defs)
      finally show ?thesis .
    qed
    then have "touched I (CaseClause l (fst (thread (statement I f) R (clause_body c)))) \<inter> T
        \<subseteq> set (writes I (NS (CaseClause l (fst (thread (statement I f) R (clause_body c))))))" for l R
      by (auto simp: touched_all_def)
    with d less.hyps [OF size nc] show ?thesis by blast
  qed
  show ?case
  proof
    fix x assume x: "x \<in> touched I ?s \<inter> T"
    then consider "x \<in> set (fst (touched_by I (NS ?s)))" | c where "NS c \<in> set (stmt_children ?s)" "x \<in> touched I c"
      using touches.seen_step [of I ?s] by (auto simp: touches.seen_def split: if_splits)
    then show "x \<in> set (writes I (NS ?s))"
    proof cases
      case 1
      then have "x \<in> set (written_by I (NS ?s))"
        using own_writes [OF narrowable_ok [OF less.prems not_closure(1)]] x
        by (auto simp: touches.visit_rewritten written_rewritten)
      then show ?thesis using writes_step [of I "NS ?s"] by auto
    next
      case 2
      then show ?thesis using child writes_child x by blast
    qed
  qed
qed

lemma expr_child_size: "NE x \<in> set (stmt_children s) \<Longrightarrow> size x < size s \<or> (\<exists>p n. x = Ident p n)"
  using children_smaller [of "NE x" "NS s"] by (cases x) auto

lemma changes_proof: "changes xs \<sigma> \<sigma>1 \<Longrightarrow> P \<subseteq> T \<inter> \<sigma> \<Longrightarrow> P - set xs \<subseteq> T \<inter> \<sigma>1"
  unfolding changes_def by blast

text \<open>A statement whose parts are sound.\<close>

definition parts_sound :: "nullInfo \<Rightarrow> nat set \<Rightarrow> stmt \<Rightarrow> bool" where
  "parts_sound I T s \<longleftrightarrow> narrowable_node I T (NS s) \<and>
     (\<forall>x. size x < size s \<longrightarrow> sound_expr I T x) \<and> (\<forall>x. size x < size s \<longrightarrow> sound_stmt I T x)"

lemma part_expr:
  assumes s: "parts_sound I T s" and f: "tracked I f = T" and x: "NE x \<in> set (stmt_children s)" and Q: "Q \<subseteq> T \<inter> \<tau>"
  shows "\<not> derefs_nil I T \<tau> (fst (expression I f Q x))"
  using expr_child_size [OF x]
proof
  assume "size x < size s"
  then have "sound_expr I T x" "narrowable_node I T (NE x)"
    using s x narrowable_child [of I T "NS s" "NE x"] by (simp_all add: parts_sound_def)
  from sound_exprD [OF this f Q] show ?thesis .
qed auto

lemma part_stmt:
  assumes "parts_sound I T s" "NS x \<in> set (stmt_children s)"
  shows "sound_stmt I T x \<and> narrowable_node I T (NS x)"
  using assms children_smaller [of "NS x" "NS s"] narrowable_child [of I T "NS s" "NS x"] by (simp add: parts_sound_def)

lemma part_part:
  assumes s: "parts_sound I T s" and c: "NS c \<in> set (stmt_children s)" and x: "NS x \<in> set (stmt_children c)"
  shows "sound_stmt I T x \<and> narrowable_node I T (NS x)"
proof -
  have "size x < size s" using children_smaller [of "NS x" "NS c"] children_smaller [of "NS c" "NS s"] c x by simp
  then show ?thesis
    using s narrowable_child [of I T "NS c" "NS x"] part_stmt [OF s c] x by (simp add: parts_sound_def)
qed

lemma part_writes:
  assumes "parts_sound I T s" "NS x \<in> set (stmt_children s)"
  shows "touched I x \<inter> T \<subseteq> set (writes I (NS x))"
  using part_stmt [OF assms] by (intro touched_writes) simp

lemma parts_writes:
  assumes "parts_sound I T s" "\<And>x. x \<in> set b \<Longrightarrow> NS x \<in> set (stmt_children s) \<and> NS x \<in> set (stmt_children s')"
  shows "touched_all I b \<inter> T \<subseteq> set (writes I (NS s'))"
  using part_writes [OF assms(1)] writes_child [of _ s' I] assms(2) unfolding touched_all_def by blast

lemma part_ok: "parts_sound I T s \<Longrightarrow> narrow_ok I T (NS s)"
  unfolding parts_sound_def using narrowable_ok not_closure(1) by blast

lemma spec_value_sound:
  assumes s: "parts_sound I T (DeclStmt tok specs)"
    and "tracked I f = T" "P \<subseteq> T \<inter> \<sigma>" and sp: "ValueSpec names ty vs \<in> set specs" and x: "x \<in> set vs"
  shows "\<not> derefs_nil I T \<sigma> (fst (expression I f P x))"
proof (rule sound_exprD [OF _ _ assms(2,3)])
  show "sound_expr I T x"
    using spec_exprs_size [of x "ValueSpec names ty vs" specs] sp x s by (simp add: parts_sound_def)
  have "narrowable_node I T (NP (ValueSpec names ty vs))"
    using narrowable_child [of I T "NS (DeclStmt tok specs)"] sp s by (simp add: parts_sound_def)
  then show "narrowable_node I T (NE x)"
    by (rule narrowable_child) (simp_all add: x nodes_defs)
qed

lemma safe_leaves: "safe T Q r \<Longrightarrow> end_flow r \<noteq> Some ILLEGAL \<Longrightarrow> safe T R r"
  by (cases r) (auto simp: end_flow_def)

lemma if_proof_yes: "\<not> blockTerminates b \<Longrightarrow> if_proof b e yes no \<subseteq> yes"
  by (auto simp: if_proof_def mergeProof_def split: option.splits stmt.splits if_splits)

lemma if_proof_no: "(\<And>s. e = Some s \<Longrightarrow> \<not> stmtTerminates s) \<Longrightarrow> if_proof b e yes no \<subseteq> no"
  by (auto simp: if_proof_def mergeProof_def split: option.splits stmt.splits if_splits)

lemma if_sound:
  assumes run: "run_stmt I T (IfStmt i c b e) \<sigma> r"
    and init: "\<And>q. run_opt I T i \<sigma> q \<Longrightarrow> safe T R q"
    and cond: "\<And>\<tau>. R \<subseteq> T \<inter> \<tau> \<Longrightarrow> \<not> derefs_nil I T \<tau> c"
    and yes: "\<And>\<tau> q. R \<subseteq> T \<inter> \<tau> \<Longrightarrow> may I T \<tau> c True \<Longrightarrow> run_stmts I T b \<tau> q \<Longrightarrow> safe T Y q"
    and no: "\<And>\<tau> q. R \<subseteq> T \<inter> \<tau> \<Longrightarrow> may I T \<tau> c False \<Longrightarrow> run_opt I T e \<tau> q \<Longrightarrow> safe T N q"
    and body: "\<And>\<tau> \<tau>1. run_stmts I T b \<tau> (Ends \<tau>1 ILLEGAL) \<Longrightarrow> \<not> blockTerminates b"
    and other: "\<And>\<tau> \<tau>1 s. e = Some s \<Longrightarrow> run_stmt I T s \<tau> (Ends \<tau>1 ILLEGAL) \<Longrightarrow> \<not> stmtTerminates s"
  shows "safe T (if_proof b e Y N) r"
proof -
  have start: "R \<subseteq> T \<inter> \<tau>" if "run_opt I T i \<sigma> (Ends \<tau> ILLEGAL)" for \<tau>
    using init [OF that] by simp
  from run consider "run_opt I T i \<sigma> r" "end_flow r \<noteq> Some ILLEGAL"
    | \<tau> where "run_opt I T i \<sigma> (Ends \<tau> ILLEGAL)" "derefs_nil I T \<tau> c"
    | \<tau> where "run_opt I T i \<sigma> (Ends \<tau> ILLEGAL)" "may I T \<tau> c True" "run_stmts I T b \<tau> r"
    | \<tau> where "run_opt I T i \<sigma> (Ends \<tau> ILLEGAL)" "may I T \<tau> c False" "run_opt I T e \<tau> r"
    by (auto simp: run_if)
  then show ?thesis
  proof cases
    case 1
    then show ?thesis using safe_leaves [OF init] by blast
  next
    case 2
    then show ?thesis using cond [OF start] by blast
  next
    case 3
    have s: "safe T Y r" by (rule yes [OF start [OF 3(1)] 3(2,3)])
    show ?thesis
    proof (cases "end_flow r = Some ILLEGAL")
      case True
      then obtain \<tau>1 where "r = Ends \<tau>1 ILLEGAL" by (cases r) (auto simp: end_flow_def)
      with 3(3) body if_proof_yes s show ?thesis by (blast intro: safe_mono)
    qed (rule safe_leaves [OF s])
  next
    case 4
    have s: "safe T N r" by (rule no [OF start [OF 4(1)] 4(2,3)])
    show ?thesis
    proof (cases "end_flow r = Some ILLEGAL")
      case True
      then obtain \<tau>1 where "r = Ends \<tau>1 ILLEGAL" by (cases r) (auto simp: end_flow_def)
      with 4(3) other have "\<not> stmtTerminates s" if "e = Some s" for s using that by auto
      then have "if_proof b e Y N \<subseteq> N" by (rule if_proof_no)
      with s show ?thesis by (rule safe_mono)
    qed (rule safe_leaves [OF s])
  qed
qed

lemma touched_opt_rewritten: "touched_opt I (map_option (\<lambda>y. fst (statement I f P y)) i) \<subseteq> touched_opt I i"
  using touched_rewritten by (cases i) auto

lemma assign_sound:
  assumes s: "parts_sound I T (AssignStmt l tok rs)" and f: "tracked I f = T" and P: "P \<subseteq> T \<inter> \<sigma>"
    and run: "run_stmt I T (fst (statement I f P (AssignStmt l tok rs))) \<sigma> r"
  shows "safe T (fst (snd (statement I f P (AssignStmt l tok rs)))) r"
proof -
  note E = part_expr [OF s f] and S = part_stmt [OF s] and W = part_writes [OF s] and ok = part_ok [OF s]
  have rs: "\<forall>x \<in> set (fst (each (expression I f P) rs)). \<not> derefs_nil I T \<sigma> x"
    using E P by (simp add: nodes_defs)
  have l: "\<not> derefs_nil I T \<sigma> (fst (expression I f Q x))" if "x \<in> set l" "Q \<subseteq> P" for x Q
    using E [of x Q \<sigma>] that order_trans [OF that(2) P] by (simp add: nodes_defs)
  have "list_all (\<lambda>e. \<not> parenthesised e) l" using ok by (simp add: narrow_ok_def)
  note plain = this
  have named: "fst (snd (statement I f P (AssignStmt l tok rs))) \<subseteq> T \<inter> \<tau>"
    if c: "changes (concat (map (\<lambda>e. opt_list (object I e)) l)) \<sigma> \<tau>" for \<tau>
    using changes_proof [OF c P] by (simp add: statement_beta targets_proof)
  have "r \<noteq> NilDeref"
    using run required_each_sound [OF P rs] l by (auto simp: statement_beta run_assign dest!: targets_member)
  then show ?thesis using run named plain
    by (auto simp: statement_beta run_assign targets_named)
qed

lemma decl_sound:
  assumes s: "parts_sound I T (DeclStmt tok specs)" and f: "tracked I f = T" and P: "P \<subseteq> T \<inter> \<sigma>"
    and run: "run_stmt I T (fst (statement I f P (DeclStmt tok specs))) \<sigma> r"
  shows "safe T (fst (snd (statement I f P (DeclStmt tok specs)))) r"
proof -
  note E = part_expr [OF s f] and S = part_stmt [OF s] and W = part_writes [OF s] and ok = part_ok [OF s]
  have "\<not> derefs_nil I T \<sigma> x"
    if "x \<in> set (spec_values (map (\<lambda>sp. fst (value_spec I P (expression I f P) sp)) specs))" for x
  proof -
    from that obtain sp0 where sp0: "sp0 \<in> set specs" "x \<in> set (spec_exprs (fst (value_spec I P (expression I f P) sp0)))"
      by (auto simp: spec_values_def)
    from sp0(2) have "\<exists>names ty vs. sp0 = ValueSpec names ty vs"
      by (cases sp0 rule: spec.exhaust) (simp_all add: value_spec_beta)
    then obtain names ty vs where v: "sp0 = ValueSpec names ty vs" by blast
    have sp: "ValueSpec names ty vs \<in> set specs" using sp0(1) unfolding v .
    have x: "x \<in> set (fst (required_each I P (spec_expected I names vs) (each (expression I f P) vs)))"
      using sp0(2) unfolding v by (simp add: value_spec_beta)
    have "\<not> derefs_nil I T \<sigma> (fst (expression I f P y))" if y: "y \<in> set vs" for y
      using spec_value_sound [OF s f P] sp y by blast
    then have "\<forall>y \<in> set (fst (each (expression I f P) vs)). \<not> derefs_nil I T \<sigma> y" by simp
    from required_each_sound [OF P this] x show ?thesis by blast
  qed
  moreover have "P \<subseteq> T \<inter> \<tau>" if "changes (spec_names I specs) \<sigma> \<tau>" for \<tau>
    using changes_proof [OF that P] ok P by (auto simp: narrow_ok_def)
  ultimately show ?thesis using run by (auto simp: statement_beta run_decl spec_names_value_spec)
qed

lemma if_stmt_sound:
  assumes s: "parts_sound I T (IfStmt i c b e)" and f: "tracked I f = T" and P: "P \<subseteq> T \<inter> \<sigma>"
    and run: "run_stmt I T (fst (statement I f P (IfStmt i c b e))) \<sigma> r"
  shows "safe T (fst (snd (statement I f P (IfStmt i c b e)))) r"
proof -
  note E = part_expr [OF s f] and S = part_stmt [OF s] and W = part_writes [OF s] and ok = part_ok [OF s]
  let ?i = "thread_opt (statement I f P) P i"
  let ?c = "fst (expression I f (fst (snd ?i)) c)"
  let ?yes = "assume_cond I f ?c True (fst (snd ?i))" and ?no = "assume_cond I f ?c False (fst (snd ?i))"
  have narrow_b: "narrowable_node I T (NS y)" if "y \<in> set b" for y
    using S [of y] that by (simp add: nodes_defs)
  have init: "safe T (fst (snd ?i)) q" if "run_opt I T (fst ?i) \<sigma> q" for q
    using S by (intro opt_sound [OF _ f P that]) (simp add: nodes_defs)
  have cond: "\<not> derefs_nil I T \<tau> ?c" if "fst (snd ?i) \<subseteq> T \<inter> \<tau>" for \<tau>
    using E [OF _ that] by (simp add: nodes_defs)
  have yes: "safe T (fst (snd (thread (statement I f) ?yes b))) q"
    if "fst (snd ?i) \<subseteq> T \<inter> \<tau>" "may I T \<tau> ?c True" "run_stmts I T (fst (thread (statement I f) ?yes b)) \<tau> q" for \<tau> q
    using S by (intro block_sound [OF _ f assume_sound [OF f that(1,2)] that(3)]) (simp add: nodes_defs)
  have no: "safe T (fst (snd (thread_opt (statement I f ?no) ?no e))) q"
    if "fst (snd ?i) \<subseteq> T \<inter> \<tau>" "may I T \<tau> ?c False" "run_opt I T (fst (thread_opt (statement I f ?no) ?no e)) \<tau> q" for \<tau> q
    using S by (intro opt_sound [OF _ f assume_sound [OF f that(1,2)] that(3)]) (simp add: nodes_defs)
  show ?thesis unfolding statement_beta fst_conv snd_conv
  proof (rule if_sound [OF _ init cond yes no])
    show "run_stmt I T (IfStmt (fst ?i) ?c (fst (thread (statement I f) ?yes b)) (fst (thread_opt (statement I f ?no) ?no e))) \<sigma> r"
      using run by (simp add: statement_beta)
  next
    fix \<tau> \<tau>1
    assume "run_stmts I T (fst (thread (statement I f) ?yes b)) \<tau> (Ends \<tau>1 ILLEGAL)"
    then show "\<not> blockTerminates (fst (thread (statement I f) ?yes b))"
      by (rule block_terminates [rotated]) (rule statement_terminates [OF narrow_b])
  next
    fix \<tau> \<tau>1 x
    assume "fst (thread_opt (statement I f ?no) ?no e) = Some x" "run_stmt I T x \<tau> (Ends \<tau>1 ILLEGAL)"
    then show "\<not> stmtTerminates x"
      using S by (cases e) (auto simp: nodes_defs dest: statement_terminates [rotated])
  qed
qed

lemma for_sound:
  assumes s: "parts_sound I T (ForStmt i c p b)" and f: "tracked I f = T" and P: "P \<subseteq> T \<inter> \<sigma>"
    and run: "run_stmt I T (fst (statement I f P (ForStmt i c p b))) \<sigma> r"
  shows "safe T (fst (snd (statement I f P (ForStmt i c p b)))) r"
proof -
  note E = part_expr [OF s f] and S = part_stmt [OF s] and W = part_writes [OF s] and ok = part_ok [OF s]
  let ?i = "thread_opt (statement I f P) P i"
  let ?R = "invalidateWrites I (ForStmt (fst ?i) c p b) (fst (snd ?i))"
  let ?c = "fst (each_opt (expression I f ?R) c)"
  let ?b = "thread (statement I f) (assume_opt I f ?c True ?R) b"
  let ?p = "thread_opt (statement I f (fst (snd ?b))) (fst (snd ?b)) p"
  have init: "safe T (fst (snd ?i)) q" if "run_opt I T (fst ?i) \<sigma> q" for q
    using S by (intro opt_sound [OF _ f P that]) (simp add: nodes_defs)
  have body: "safe T (fst (snd ?b)) q"
    if "?R \<subseteq> T \<inter> \<tau>" "may_opt I T \<tau> ?c True" "run_stmts I T (fst ?b) \<tau> q" for \<tau> q
  proof (rule block_sound [OF _ f _ that(3)])
    show "assume_opt I f ?c True ?R \<subseteq> T \<inter> \<tau>"
      using assume_sound [OF f that(1)] that(1,2) by (cases c) (simp_all add: assume_opt_def may_opt_def)
  qed (use S in \<open>simp add: nodes_defs\<close>)
  have disjoint: "?R \<inter> (touched_opt I (fst ?p) \<union> touched_all I (fst ?b)) = {}" if "?R \<subseteq> T"
  proof -
    have "touched_opt I p \<inter> T \<subseteq> set (writes I (NS (ForStmt (fst ?i) c p b)))"
      using W writes_child [of _ "ForStmt (fst ?i) c p b" I] by (cases p) (fastforce simp: nodes_defs)+
    moreover have "touched_all I b \<inter> T \<subseteq> set (writes I (NS (ForStmt (fst ?i) c p b)))"
      by (rule parts_writes [OF s]) (simp add: nodes_defs)
    moreover have "touched_opt I (fst ?p) \<subseteq> touched_opt I p" using touched_opt_rewritten by simp
    ultimately show ?thesis
      using touched_block [of I f "assume_opt I f ?c True ?R" b] that unfolding invalidateWrites_def by blast
  qed
  have loop: "q \<noteq> NilDeref" if start: "run_for I T ?c (fst ?p) (fst ?b) \<tau> q" "?R \<subseteq> T \<inter> \<tau>" for \<tau> q
  proof (rule for_no_nil [OF _ _ _ _ start])
    fix \<tau> e
    assume "?c = Some e" "?R \<subseteq> T \<inter> \<tau>"
    then show "\<not> derefs_nil I T \<tau> e" using E [of _ ?R \<tau>] by (auto simp: nodes_defs)
  next
    fix \<tau>
    assume "?R \<subseteq> T \<inter> \<tau>" "may_opt I T \<tau> ?c True"
    then show "\<not> run_stmts I T (fst ?b) \<tau> NilDeref" using body [of \<tau> NilDeref] by auto
  next
    fix \<tau> \<tau>1 g
    assume b: "?R \<subseteq> T \<inter> \<tau>" "may_opt I T \<tau> ?c True" "run_stmts I T (fst ?b) \<tau> (Ends \<tau>1 g)" and g: "g \<in> {ILLEGAL, CONTINUE}"
    show "\<not> run_opt I T (fst ?p) \<tau>1 NilDeref"
    proof (cases "g = CONTINUE")
      case True
      then have "continues b" using b(3) run_continues by blast
      then have "counts p" using ok by (simp add: narrow_ok_def)
      then show ?thesis by (rule counts_no_nil)
    next
      case False
      then have "fst (snd ?b) \<subseteq> T \<inter> \<tau>1" using body [OF b] g by simp
      from opt_sound [OF _ f this, of p NilDeref] S show ?thesis by (auto simp: nodes_defs)
    qed
  next
    show "?R \<inter> (touched_opt I (fst ?p) \<union> touched_all I (fst ?b)) = {}" using start(2) by (intro disjoint) blast
  qed
  from run have "run_stmt I T (ForStmt (fst ?i) ?c (fst ?p) (fst ?b)) \<sigma> r" by (simp add: statement_beta)
  then show ?thesis
  proof (cases rule: run_forE [consumes 1])
    case (4 \<tau>)
    have R: "?R \<subseteq> T \<inter> \<tau>" using init [OF 4(1)] by (auto simp: invalidateWrites_def)
    have "safe T ?R r"
      using R disjoint loop [OF 4(2) R] by (intro kept_safe [OF R runs_keep(5) [OF 4(2)]]) blast+
    then show ?thesis unfolding statement_beta fst_conv snd_conv .
  qed (use init [of NilDeref] in auto)
qed

lemma range_sound:
  assumes s: "parts_sound I T (RangeStmt k v tok x b)" and f: "tracked I f = T" and P: "P \<subseteq> T \<inter> \<sigma>"
    and run: "run_stmt I T (fst (statement I f P (RangeStmt k v tok x b))) \<sigma> r"
  shows "safe T (fst (snd (statement I f P (RangeStmt k v tok x b)))) r"
proof -
  note E = part_expr [OF s f] and S = part_stmt [OF s] and W = part_writes [OF s] and ok = part_ok [OF s]
  let ?x = "fst (narrow I P (fst (expression I f P x)))"
  let ?R = "invalidateWrites I (RangeStmt k v tok ?x b) P"
  let ?b = "thread (statement I f) ?R b" and ?xs = "named_opt I k @ named_opt I v"
  have x: "\<not> derefs_nil I T \<sigma> ?x" using E [OF _ P, of x] by (intro narrow_sound [OF P]) (simp add: nodes_defs)
  have R: "?R \<subseteq> T \<inter> \<sigma>" using P unfolding invalidateWrites_def by blast
  have body: "\<not> run_stmts I T (fst ?b) \<tau> NilDeref" if "?R \<subseteq> T \<inter> \<tau>" for \<tau>
    using block_sound [OF _ f that, of b NilDeref] S by (auto simp: nodes_defs)
  have "set ?xs \<inter> T \<subseteq> set (writes I (NS (RangeStmt k v tok ?x b)))"
    using own_writes [of I T "RangeStmt k v tok ?x b"] ok writes_step [of I "NS (RangeStmt k v tok ?x b)"]
    by (auto simp: touched_by_def narrow_ok_def)
  moreover have "touched_all I b \<inter> T \<subseteq> set (writes I (NS (RangeStmt k v tok ?x b)))"
    by (rule parts_writes [OF s]) (simp add: nodes_defs)
  ultimately have disjoint: "?R \<inter> (set ?xs \<union> touched_all I (fst ?b)) = {}"
    using touched_block [of I f ?R b] R unfolding invalidateWrites_def by blast
  from run have "run_stmt I T (RangeStmt k v tok ?x (fst ?b)) \<sigma> r" by (simp add: statement_beta)
  then show ?thesis
  proof (cases rule: run_rangeE [consumes 1])
    case 4
    have "r \<noteq> NilDeref" by (rule range_no_nil [OF body disjoint 4 R])
    then have "safe T ?R r" using disjoint by (intro kept_safe [OF R runs_keep(6) [OF 4]])
    then show ?thesis unfolding statement_beta fst_conv snd_conv .
  qed (use x in auto)
qed

lemma switch_parts:
  assumes s: "parts_sound I T (SwitchStmt i t b)" and c: "c \<in> set b"
  shows "clause_list c = Some es \<Longrightarrow> e \<in> set es \<Longrightarrow> sound_expr I T e \<and> narrowable_node I T (NE e)"
    and "x \<in> set (clause_body c) \<Longrightarrow> sound_stmt I T x \<and> narrowable_node I T (NS x)"
proof -
  have nc: "narrowable_node I T (NS c)" using part_stmt [OF s, of c] c by (simp add: nodes_defs)
  {
    assume e: "clause_list c = Some es" "e \<in> set es"
    then have "NE e \<in> set (stmt_children c)" by (cases c) (auto simp: nodes_defs)
    with e nc s c show "sound_expr I T e \<and> narrowable_node I T (NE e)"
      using clause_list_size [OF e c] narrowable_child [of I T "NS c"] by (simp add: parts_sound_def)
  }
  assume x: "x \<in> set (clause_body c)"
  then have "NS x \<in> set (stmt_children c)" by (cases c) (auto simp: nodes_defs)
  with nc s show "sound_stmt I T x \<and> narrowable_node I T (NS x)"
    using clause_body_size [OF x c] narrowable_child [of I T "NS c"] by (simp add: parts_sound_def)
qed

lemma leave_switch_nil [simp]: "leave_switch r = NilDeref \<longleftrightarrow> r = NilDeref"
  by (auto simp: leave_switch_def split: run_end.splits)

lemma switch_sound:
  assumes s: "parts_sound I T (SwitchStmt i t b)" and f: "tracked I f = T" and P: "P \<subseteq> T \<inter> \<sigma>"
    and run: "run_stmt I T (fst (statement I f P (SwitchStmt i t b))) \<sigma> r"
  shows "safe T (fst (snd (statement I f P (SwitchStmt i t b)))) r"
proof -
  note E = part_expr [OF s f] and S = part_stmt [OF s] and n = s [unfolded parts_sound_def, THEN conjunct1]
  let ?i = "thread_opt (statement I f P) P i"
  let ?P = "fst (snd ?i)" and ?t = "fst (each_opt (expression I f (fst (snd ?i))) t)"
  let ?hs = "thread (switch_head I f (t = None)) ?P b"
  let ?b = "fst (thread (switch_body I f (fst (snd ?hs))) False (zip b (fst ?hs)))"
  let ?s = "SwitchStmt (fst ?i) ?t ?b" and ?R = "invalidateWrites I (SwitchStmt (fst ?i) ?t ?b) ?P"
  have st: "fst (statement I f P (SwitchStmt i t b)) = ?s" "fst (snd (statement I f P (SwitchStmt i t b))) = ?R"
    by (simp_all add: statement_switch Let_def)
  have tg: "(?t = None) = (t = None)" by simp
  have init: "safe T ?P q" if "run_opt I T (fst ?i) \<sigma> q" for q
    using S by (intro opt_sound [OF _ f P that]) (simp add: nodes_defs)
  have start: "?P \<subseteq> T \<inter> \<tau>" if "run_opt I T (fst ?i) \<sigma> (Ends \<tau> ILLEGAL)" for \<tau>
    using init [OF that] by simp
  have conds: "\<not> derefs_nil I T \<tau> (fst (expression I f Q e))"
    if "c \<in> set b" "clause_list c = Some es" "e \<in> set es" "Q \<subseteq> T \<inter> \<tau>" for c es e Q \<tau>
    using switch_parts(1) [OF s that(1-3)] sound_exprD [OF _ _ f that(4)] by blast
  have "touched I ?s \<inter> T \<subseteq> set (writes I (NS ?s))" using rewritten_writes [OF n, of f P] st(1) by simp
  then have disjoint: "?R \<inter> touched_all I ?b = {}" if "?P \<subseteq> T" using that unfolding invalidateWrites_def by auto
  have finish: "safe T ?R (leave_switch q)"
    if "?P \<subseteq> T \<inter> \<tau>" "keeps (touched_all I ?b) \<tau> q" "q \<noteq> NilDeref" for \<tau> q
    using that disjoint by (intro kept_safe [of ?R T \<tau> "touched_all I ?b"]) (auto simp: invalidateWrites_def)
  from run have "run_stmt I T ?s \<sigma> r" unfolding st .
  then have "safe T ?R r"
  proof (cases rule: run_switchE [consumes 1])
    case 3
    then show ?thesis using safe_leaves [OF init] by blast
  next
    case (4 \<tau> e)
    then obtain e0 where "t = Some e0" "e = fst (expression I f ?P e0)" by (cases t) auto
    then show ?thesis using E [OF _ start [OF 4(3)], of e0] 4(4) by (simp add: nodes_defs)
  next
    case (5 \<tau> before e rest)
    have "\<not> derefs_nil I T \<tau> e"
    proof (rule heads_evaluate [OF f _ subset_refl start [OF 5(2)]])
      show "head_exprs (fst ?hs) = before @ e # rest"
        using 5(3) switch_exprs [of I f "fst (snd ?hs)" False "zip b (fst ?hs)"] by (simp add: map_snd_zip_thread)
      show "all_fail I T \<tau> (t = None) before" using 5(4) tg by simp
    qed (rule conds)
    with 5(5) show ?thesis by contradiction
  next
    case (6 \<tau> cs1 before e rest cb cs2 q)
    have "all_fail I T \<tau> (t = None) (case_exprs cs1 @ before)" "t = None \<longrightarrow> may I T \<tau> e True" using 6(4,5) tg by simp_all
    then have "\<exists>before' e' rest'. Some (before @ e # rest) = Some (before' @ e' # rest') \<and>
        all_fail I T \<tau> (t = None) (case_exprs cs1 @ before') \<and> (t = None \<longrightarrow> may I T \<tau> e' True)" by blast
    then have "q \<noteq> NilDeref"
      by (intro switch_no_nil [OF f start [OF 6(3)] switch_parts(2) [OF s] 6(1) 6(6)] disjI2)
    then show ?thesis unfolding 6(2)
      by (intro finish [OF start [OF 6(3)] keeps_mono [OF runs_keep(7) [OF 6(6)]]]) (simp_all add: 6(1))
  next
    case (7 \<tau> cs1 cb cs2 q)
    have all: "all_fail I T \<tau> (t = None) (case_exprs (cs1 @ CaseClause None cb # cs2))" using 7(4) unfolding tg .
    have "q \<noteq> NilDeref"
      by (rule switch_no_nil [OF f start [OF 7(3)] switch_parts(2) [OF s] 7(1) 7(5) disjI1 [OF conjI [OF refl all]]])
    then show ?thesis unfolding 7(2)
      by (intro finish [OF start [OF 7(3)] keeps_mono [OF runs_keep(7) [OF 7(5)]]]) (simp_all add: 7(1))
  next
    case (8 \<tau>)
    then show ?thesis using start by (auto simp: invalidateWrites_def)
  qed auto
  then show ?thesis unfolding st .
qed

lemma thread_invariant:
  assumes "\<And>x s. x \<in> set xs \<Longrightarrow> J s \<Longrightarrow> J (fst (snd (g s x)))"
  shows "J s \<Longrightarrow> y \<in> set (fst (thread g s xs)) \<Longrightarrow> \<exists>x \<in> set xs. \<exists>t. J t \<and> y = fst (g t x)"
  using assms
proof (induction xs arbitrary: s)
  case (Cons x xs)
  from Cons.prems(2) consider "y = fst (g s x)" | "y \<in> set (fst (thread g (fst (snd (g s x))) xs))" by auto
  then show ?case
  proof cases
    case 2
    have "J (fst (snd (g s x)))" using Cons.prems(1,3) by simp
    from Cons.IH [OF this 2] Cons.prems(3) show ?thesis by auto
  qed (use Cons.prems(1) in auto)
qed simp

lemma type_proof: "type_clause c \<Longrightarrow> fst (snd (statement I f Q c)) = Q"
  by (cases c rule: type_clause.cases) (simp_all add: statement_beta)

lemma type_switch_sound:
  assumes s: "parts_sound I T (TypeSwitchStmt i a b)" and f: "tracked I f = T" and P: "P \<subseteq> T \<inter> \<sigma>"
    and run: "run_stmt I T (fst (statement I f P (TypeSwitchStmt i a b))) \<sigma> r"
  shows "safe T (fst (snd (statement I f P (TypeSwitchStmt i a b)))) r"
proof -
  note S = part_stmt [OF s] and W = part_writes [OF s] and ok = part_ok [OF s]
  let ?i = "thread_opt (statement I f P) P i"
  let ?a = "statement I f (fst (snd ?i)) a"
  let ?s = "TypeSwitchStmt (fst ?i) (fst ?a) b"
  let ?R = "invalidateWrites I ?s (fst (snd ?a))"
  let ?b = "thread (statement I f) ?R b"
  have init: "safe T (fst (snd ?i)) q" if "run_opt I T (fst ?i) \<sigma> q" for q
    using S by (intro opt_sound [OF _ f P that]) (simp add: nodes_defs)
  have assign: "safe T (fst (snd ?a)) q" if "run_opt I T (fst ?i) \<sigma> (Ends \<tau> ILLEGAL)" "run_stmt I T (fst ?a) \<tau> q" for \<tau> q
  proof -
    have "fst (snd ?i) \<subseteq> T \<inter> \<tau>" using init [OF that(1)] by simp
    from sound_stmtD [OF _ _ f this that(2)] S [of a] show ?thesis by (simp add: nodes_defs)
  qed
  have clause: "\<exists>c \<in> set b. \<exists>l0 b0 Q. c = CaseClause l0 b0 \<and> Q \<subseteq> ?R \<and> cb = fst (thread (statement I f) Q b0)"
    if "CaseClause l cb \<in> set (fst ?b)" for l cb
  proof -
    have "\<exists>x \<in> set b. \<exists>Q. Q \<subseteq> ?R \<and> CaseClause l cb = fst (statement I f Q x)"
    proof (rule thread_invariant [OF _ subset_refl that])
      fix x Q assume "x \<in> set b" "Q \<subseteq> ?R"
      moreover have "type_clause x" using ok \<open>x \<in> set b\<close> by (simp add: narrow_ok_def list_all_iff)
      ultimately show "fst (snd (statement I f Q x)) \<subseteq> ?R" by (simp add: type_proof)
    qed
    then obtain x Q where x: "x \<in> set b" "Q \<subseteq> ?R" "CaseClause l cb = fst (statement I f Q x)" by blast
    have "type_clause x" using ok x(1) by (simp add: narrow_ok_def list_all_iff)
    then obtain l0 b0 where c: "x = CaseClause l0 b0" by (cases x rule: type_clause.cases) auto
    with x(3) have "cb = fst (thread (statement I f) Q b0)" by (simp add: statement_beta)
    with x(1,2) c show ?thesis by blast
  qed
  have "touched_all I b \<inter> T \<subseteq> set (writes I (NS ?s))"
    by (rule parts_writes [OF s]) (simp add: nodes_defs)
  then have disjoint: "?R \<inter> touched_all I (fst ?b) = {}" if "?R \<subseteq> T"
    using touched_block [of I f ?R b] that unfolding invalidateWrites_def by blast
  from run have "run_stmt I T (TypeSwitchStmt (fst ?i) (fst ?a) (fst ?b)) \<sigma> r" by (simp add: statement_beta)
  then have "safe T ?R r"
  proof (cases rule: run_type_switchE [consumes 1])
    case 3
    then show ?thesis using safe_leaves [OF init] by blast
  next
    case (4 \<tau>)
    then show ?thesis by (intro safe_mono [OF assign [of \<tau>]]) (auto simp: invalidateWrites_def)
  next
    case (5 \<tau> \<tau>1 l cb q)
    from assign [OF 5(2,3)] have R: "?R \<subseteq> T \<inter> \<tau>1" unfolding invalidateWrites_def by auto
    from clause [OF 5(4)] obtain c l0 b0 Q where c: "c \<in> set b" "c = CaseClause l0 b0" "Q \<subseteq> ?R"
      "cb = fst (thread (statement I f) Q b0)" by blast
    have "sound_stmt I T x \<and> narrowable_node I T (NS x)" if "x \<in> set b0" for x
      using part_part [OF s, of c x] c(1,2) that by (simp add: nodes_defs)
    from block_sound [OF this f order_trans [OF c(3) R] 5(5) [unfolded c(4)]] have "q \<noteq> NilDeref" by auto
    moreover have "touched_all I cb \<subseteq> touched_all I (fst ?b)" using member_touched [OF 5(4), of I] by simp
    ultimately show ?thesis unfolding 5(1)
      using runs_keep(3) [OF 5(5)] disjoint R by (intro kept_safe [OF R]) (auto elim: keeps_mono)
  qed auto
  then show ?thesis unfolding statement_beta fst_conv snd_conv .
qed

lemma comm_proof:
  assumes "comm_clause c"
  shows "fst (snd (statement I f Q c)) \<subseteq> Q"
proof (cases c rule: comm_clause.cases)
  case (4 l tok rs b)
  then show ?thesis by (auto simp: statement_beta targets_proof)
qed (use assms in \<open>auto simp: statement_beta\<close>)

lemma select_sound:
  assumes s: "parts_sound I T (SelectStmt b)" and f: "tracked I f = T" and P: "P \<subseteq> T \<inter> \<sigma>"
    and run: "run_stmt I T (fst (statement I f P (SelectStmt b))) \<sigma> r"
  shows "safe T (fst (snd (statement I f P (SelectStmt b)))) r"
proof -
  note W = part_writes [OF s] and ok = part_ok [OF s]
  let ?R = "invalidateWrites I (SelectStmt b) P"
  let ?b = "thread (statement I f) ?R b"
  have R: "?R \<subseteq> T \<inter> \<sigma>" using P unfolding invalidateWrites_def by blast
  have clause: "\<exists>s0 b0 Q. CommClause s0 b0 \<in> set b \<and> Q \<subseteq> T \<inter> \<sigma> \<and> c0 = fst (thread_opt (statement I f Q) Q s0) \<and>
      cb = fst (thread (statement I f) (fst (snd (thread_opt (statement I f Q) Q s0))) b0)"
    if "CommClause c0 cb \<in> set (fst ?b)" for c0 cb
  proof -
    have "\<exists>x \<in> set b. \<exists>Q. Q \<subseteq> ?R \<and> CommClause c0 cb = fst (statement I f Q x)"
    proof (rule thread_invariant [OF _ subset_refl that])
      fix x Q assume "x \<in> set b" "Q \<subseteq> ?R"
      then show "fst (snd (statement I f Q x)) \<subseteq> ?R"
        using comm_proof [of x I f Q] ok by (auto simp: narrow_ok_def list_all_iff)
    qed
    then obtain x Q where x: "x \<in> set b" "Q \<subseteq> ?R" "CommClause c0 cb = fst (statement I f Q x)" by blast
    have "comm_clause x" using ok x(1) by (simp add: narrow_ok_def list_all_iff)
    then obtain s0 b0 where c: "x = CommClause s0 b0" by (cases x rule: comm_clause.cases) auto
    with x(3) have "c0 = fst (thread_opt (statement I f Q) Q s0)"
      "cb = fst (thread (statement I f) (fst (snd (thread_opt (statement I f Q) Q s0))) b0)"
      by (simp_all add: statement_beta)
    moreover have "Q \<subseteq> T \<inter> \<sigma>" using x(2) R by blast
    ultimately show ?thesis using x(1) c by blast
  qed
  have parts: "sound_stmt I T x \<and> narrowable_node I T (NS x)"
    if "CommClause s0 b0 \<in> set b" "NS x \<in> set (stmt_children (CommClause s0 b0))" for s0 b0 x
    using part_part [OF s _ that(2)] that(1) by (simp add: nodes_defs)
  have "touched_all I b \<inter> T \<subseteq> set (writes I (NS (SelectStmt b)))"
    by (rule parts_writes [OF s]) (simp add: nodes_defs)
  then have disjoint: "?R \<inter> touched_all I (fst ?b) = {}"
    using touched_block [of I f ?R b] R unfolding invalidateWrites_def by blast
  from run have st: "run_stmt I T (SelectStmt (fst ?b)) \<sigma> r" by (simp add: statement_beta)
  then have "r \<noteq> NilDeref"
  proof (cases rule: run_selectE [consumes 1])
    case (3 c0 cb)
    from clause [OF 3(2)] obtain s0 b0 Q where c: "CommClause s0 b0 \<in> set b" "Q \<subseteq> T \<inter> \<sigma>"
      "c0 = fst (thread_opt (statement I f Q) Q s0)" by blast
    have "sound_stmt I T x \<and> narrowable_node I T (NS x)" if "s0 = Some x" for x
      using parts [OF c(1), of x] that by (simp add: nodes_defs)
    from opt_sound [OF this f c(2) 3(3) [unfolded c(3)]] show ?thesis by simp
  next
    case (4 c0 cb \<tau> q)
    from clause [OF 4(2)] obtain s0 b0 Q where c: "CommClause s0 b0 \<in> set b" "Q \<subseteq> T \<inter> \<sigma>"
      "c0 = fst (thread_opt (statement I f Q) Q s0)"
      "cb = fst (thread (statement I f) (fst (snd (thread_opt (statement I f Q) Q s0))) b0)" by blast
    have s0: "sound_stmt I T x \<and> narrowable_node I T (NS x)" if "s0 = Some x" for x
      using parts [OF c(1), of x] that by (simp add: nodes_defs)
    have b0: "sound_stmt I T x \<and> narrowable_node I T (NS x)" if "x \<in> set b0" for x
      using parts [OF c(1), of x] that by (simp add: nodes_defs)
    from opt_sound [OF s0 f c(2) 4(3) [unfolded c(3)]]
    have "fst (snd (thread_opt (statement I f Q) Q s0)) \<subseteq> T \<inter> \<tau>" by simp
    from block_sound [OF b0 f this 4(4) [unfolded c(4)]] 4(1) show ?thesis by auto
  qed auto
  then have "safe T ?R r" using runs_keep(2) [OF st] disjoint by (intro kept_safe [OF R]) simp_all
  then show ?thesis unfolding statement_beta fst_conv snd_conv .
qed

text \<open>All statements, with the structure of expressions and statements.\<close>

lemma statement_sound:
  assumes s: "parts_sound I T s"
  shows "sound_stmt I T s"
  unfolding sound_stmt_def
proof (intro impI allI)
  fix f P \<sigma> r
  assume f: "tracked I f = T" and P: "P \<subseteq> T \<inter> \<sigma>" and run: "run_stmt I T (fst (statement I f P s)) \<sigma> r"
  note E = part_expr [OF s f] and S = part_stmt [OF s]
  show "safe T (fst (snd (statement I f P s))) r"
  proof (cases s)
    case (LabeledStmt l c)
    then have "sound_stmt I T c" "narrowable_node I T (NS c)" using S [of c] by (simp_all add: nodes_defs)
    moreover have "run_stmt I T (fst (statement I f {} c)) \<sigma> r"
      using run unfolding LabeledStmt by (simp add: statement_beta run_labeled)
    ultimately have "safe T (fst (snd (statement I f {} c))) r" by (intro sound_stmtD [OF _ _ f]) auto
    then show ?thesis unfolding LabeledStmt statement_beta fst_conv snd_conv .
  next
    case (BlockStmt b)
    have "sound_stmt I T x \<and> narrowable_node I T (NS x)" if "x \<in> set b" for x
      using S [of x] that BlockStmt by (simp add: nodes_defs)
    moreover have "run_stmts I T (fst (thread (statement I f) P b)) \<sigma> r"
      using run unfolding BlockStmt by (simp add: statement_beta run_block)
    ultimately have "safe T (fst (snd (thread (statement I f) P b))) r" by (rule block_sound [OF _ f P])
    then show ?thesis unfolding BlockStmt statement_beta fst_conv snd_conv .
  next
    case (ReturnStmt p es)
    have "\<forall>x \<in> set (fst (each (expression I f P) es)). \<not> derefs_nil I T \<sigma> x"
      using E P ReturnStmt by (simp add: nodes_defs)
    from required_each_sound [OF P this] show ?thesis
      using run ReturnStmt by (auto simp: statement_beta run_return)
  next
    case (SendStmt ch v)
    then show ?thesis using run E [of ch P \<sigma>] E [of v P \<sigma>] P
      by (auto simp: statement_beta run_simple require_sound)
  next
    case AssignStmt
    then show ?thesis using assign_sound s f P run by blast
  next
    case DeclStmt
    then show ?thesis using decl_sound s f P run by blast
  next
    case IfStmt
    then show ?thesis using if_stmt_sound s f P run by blast
  next
    case ForStmt
    then show ?thesis using for_sound s f P run by blast
  next
    case RangeStmt
    then show ?thesis using range_sound s f P run by blast
  next
    case SwitchStmt
    then show ?thesis using switch_sound s f P run by blast
  next
    case TypeSwitchStmt
    then show ?thesis using type_switch_sound s f P run by blast
  next
    case SelectStmt
    then show ?thesis using select_sound s f P run by blast
  qed (use run E [of _ P \<sigma>] P in \<open>auto simp: statement_beta run_simple run_expr\<close>)
qed

lemma all_sound: "(\<forall>e. size e < n \<longrightarrow> sound_expr I T e) \<and> (\<forall>s. size s < n \<longrightarrow> sound_stmt I T s)"
proof (induction n)
  case (Suc n)
  have "sound_stmt I T s" if "size s < Suc n" for s
  proof (cases "narrowable_node I T (NS s)")
    case True
    have "parts_sound I T s" using True Suc that by (simp add: parts_sound_def)
    then show ?thesis by (rule statement_sound)
  qed (simp add: sound_stmt_def)
  moreover have "sound_expr I T e" if "size e < Suc n" for e
    by (rule expression_sound) (use Suc that in auto)
  ultimately show ?case by blast
qed simp


section \<open>Short functions\<close>

text \<open>A function with one nullable parameter \<open>x\<close> of a class type.\<close>

fun object_name :: "expr \<Rightarrow> string option" where
  "object_name (Ident p n) = Some n"
| "object_name e = None"

definition sample_info :: nullInfo where
  "sample_info =
     \<lparr>objectOf = (\<lambda>p n. if n = ''x'' then Some 1 else None),
      typeOf = (\<lambda>e. if object_name e = Some ''x'' then Some 1 else None),
      pointee = (\<lambda>t. if t = 1 then Some 2 else None), noZero = (\<lambda>t. t = 2),
      assignable = (\<lambda>a b. a = b), signatureOf = (\<lambda>t. None), channelElem = (\<lambda>t. None), definedType = (\<lambda>p. None),
      scopeChain = (\<lambda>x. [0]), packageLevel = (\<lambda>x. False), scopeOf = (\<lambda>p. 0), ternaryFunctions = (\<lambda>p. False)\<rparr>"

definition sample_type :: expr where "sample_type = FuncType [] [] None"
definition sample_touch :: "expr \<Rightarrow> stmt" where
  "sample_touch e = ExprStmt (CallExpr (SelectorExpr e 7 ''touch'') [] False)"
definition sample_nil :: "token \<Rightarrow> expr" where
  "sample_nil op = BinaryExpr (Ident 3 ''x'') op (Ident 4 ''nil'')"

text \<open>\<open>if x == nil { return }; x.touch()\<close>\<close>

definition sample_checked_body :: "stmt list" where
  "sample_checked_body = [IfStmt None (sample_nil EQL) [ReturnStmt 5 []] None, sample_touch (Ident 6 ''x'')]"

text \<open>\<open>for ; ; x.touch() { if c { continue }; if x == nil { return } }\<close>\<close>

definition sample_loop :: "expr \<Rightarrow> stmt list" where
  "sample_loop e =
     [ForStmt None None (Some (sample_touch e))
       [IfStmt None (Ident 1 ''c'') [BranchStmt 2 CONTINUE None] None,
        IfStmt None (sample_nil EQL) [ReturnStmt 5 []] None]]"

text \<open>\<open>if x != nil { (x) = nil; x.touch() }\<close>\<close>

definition sample_paren :: "expr \<Rightarrow> stmt list" where
  "sample_paren e =
     [IfStmt None (sample_nil NEQ)
       [AssignStmt [ParenExpr (Ident 8 ''x'')] ASSIGN [Ident 9 ''nil''], sample_touch e] None]"

lemmas sample_defs = sample_type_def sample_touch_def sample_nil_def sample_checked_body_def sample_loop_def
  sample_paren_def

lemma sample_checked: "narrowFunction sample_info 0 sample_type (Some sample_checked_body) =
  (Some [IfStmt None (sample_nil EQL) [ReturnStmt 5 []] None, sample_touch (StarExpr 0 (Ident 6 ''x''))], True)"
  by code_simp

lemma sample_loop_narrowed: "narrowFunction sample_info 0 sample_type (Some (sample_loop (Ident 6 ''x''))) =
  (Some (sample_loop (StarExpr 0 (Ident 6 ''x''))), True)"
  by code_simp

lemma sample_paren_narrowed: "narrowFunction sample_info 0 sample_type (Some (sample_paren (Ident 6 ''x''))) =
  (Some (sample_paren (StarExpr 0 (Ident 6 ''x''))), True)"
  by code_simp

lemma sample_stable: "unstable sample_info sample_checked_body = []"
  "unstable sample_info (sample_loop (Ident 6 ''x'')) = []" "unstable sample_info (sample_paren (Ident 6 ''x'')) = []"
  by code_simp+

lemma sample_tracked: "unstable sample_info b = [] \<Longrightarrow> tracked sample_info (function_flow sample_info 0 sample_type b) = UNIV"
  by (auto simp: tracked_def local_object_def function_flow_def sample_info_def)

lemma sample_narrowable: "narrowable sample_info T sample_checked_body"
proof -
  have "list_all (\<lambda>s. narrowable_node sample_info T (NS s)) sample_checked_body" by code_simp
  then show ?thesis by (simp add: narrowable_def list_all_iff)
qed


section \<open>Where the narrowing is not sound\<close>

lemma for_runs: "run_for I T c p b \<sigma> r \<Longrightarrow> run_stmt I T (ForStmt None c p b) \<sigma> r"
  by (rule derefs_nil_run_stmt_run_stmts_run_opt_run_for_run_range_run_clauses.for_loop) simp

lemma operand_derefs: "x \<in> set (operands e) \<Longrightarrow> derefs_nil I T \<sigma> x \<Longrightarrow> derefs_nil I T \<sigma> e"
  by (rule derefs_nil_run_stmt_run_stmts_run_opt_run_for_run_range_run_clauses.operand)

lemma loop_post_nil:
  "may_opt I T \<sigma> c True \<Longrightarrow> run_stmts I T b \<sigma> (Ends \<sigma>1 f) \<Longrightarrow> f \<in> {ILLEGAL, CONTINUE} \<Longrightarrow>
     run_opt I T p \<sigma>1 NilDeref \<Longrightarrow> run_for I T c p b \<sigma> NilDeref"
  by (rule derefs_nil_run_stmt_run_stmts_run_opt_run_for_run_range_run_clauses.loop_post)

lemma touch_nil: "1 \<notin> \<sigma> \<Longrightarrow> run_stmt sample_info UNIV (sample_touch (StarExpr 0 (Ident 6 ''x''))) \<sigma> NilDeref"
proof -
  assume "1 \<notin> \<sigma>"
  then have "derefs_nil sample_info UNIV \<sigma> (StarExpr 0 (Ident 6 ''x''))"
    by (simp add: derefs_nil_star not_nil_def sample_info_def)
  then have "derefs_nil sample_info UNIV \<sigma> (SelectorExpr (StarExpr 0 (Ident 6 ''x'')) 7 ''touch'')"
    by (rule operand_derefs [of "StarExpr 0 (Ident 6 ''x'')", rotated]) simp
  then have "derefs_nil sample_info UNIV \<sigma> (CallExpr (SelectorExpr (StarExpr 0 (Ident 6 ''x'')) 7 ''touch'') [] False)"
    by (rule operand_derefs [of "SelectorExpr (StarExpr 0 (Ident 6 ''x'')) 7 ''touch''", rotated]) simp
  then show ?thesis unfolding sample_touch_def run_expr by simp
qed

text \<open>C38: The narrowing is not sound for loops: \<open>continue\<close> runs the post statement without the check at the
  end of the body, whose proof the post statement is narrowed with (\<open>f.statement(s.Post, body)\<close>).\<close>

theorem narrowing_continue:
  "narrowFunction sample_info 0 sample_type (Some (sample_loop (Ident 6 ''x''))) =
     (Some (sample_loop (StarExpr 0 (Ident 6 ''x''))), True) \<and>
   run_stmts sample_info (tracked sample_info (function_flow sample_info 0 sample_type (sample_loop (Ident 6 ''x''))))
     (sample_loop (StarExpr 0 (Ident 6 ''x''))) {} NilDeref"
proof -
  let ?post = "sample_touch (StarExpr 0 (Ident 6 ''x''))"
  let ?continue = "IfStmt None (Ident 1 ''c'') [BranchStmt 2 CONTINUE None] None"
  let ?check = "IfStmt None (sample_nil EQL) [ReturnStmt 5 []] None"
  have "run_stmt sample_info UNIV ?continue {} (Ends {} CONTINUE)"
    by (simp add: run_if run_cons run_simple end_flow_def)
  then have "run_stmts sample_info UNIV [?continue, ?check] {} (Ends {} CONTINUE)"
    by (simp add: run_cons end_flow_def)
  then have "run_for sample_info UNIV None (Some ?post) [?continue, ?check] {} NilDeref"
    using touch_nil [of "{}"] by (intro loop_post_nil [where f = CONTINUE]) (auto simp: may_opt_def)
  from for_runs [OF this] have "run_stmts sample_info UNIV (sample_loop (StarExpr 0 (Ident 6 ''x''))) {} NilDeref"
    by (simp add: sample_loop_def run_cons end_flow_def)
  then show ?thesis by (simp only: sample_loop_narrowed sample_tracked sample_stable simp_thms)
qed

text \<open>C39: The narrowing does not see an assignment to a variable in parentheses.\<close>

theorem narrowing_parenthesised:
  "narrowFunction sample_info 0 sample_type (Some (sample_paren (Ident 6 ''x''))) =
     (Some (sample_paren (StarExpr 0 (Ident 6 ''x''))), True) \<and>
   run_stmts sample_info (tracked sample_info (function_flow sample_info 0 sample_type (sample_paren (Ident 6 ''x''))))
     (sample_paren (StarExpr 0 (Ident 6 ''x''))) {1} NilDeref"
proof -
  let ?assign = "AssignStmt [ParenExpr (Ident 8 ''x'')] ASSIGN [Ident 9 ''nil'']"
  have "changes (concat (map (named sample_info) [ParenExpr (Ident 8 ''x'')])) {1} {}"
    by (simp add: changes_def named_def sample_info_def)
  then have "run_stmt sample_info UNIV ?assign {1} (Ends {} ILLEGAL)" by (simp add: run_assign)
  then have "run_stmts sample_info UNIV [?assign, sample_touch (StarExpr 0 (Ident 6 ''x''))] {1} NilDeref"
    using touch_nil [of "{}"] by (auto simp: run_cons end_flow_def)
  moreover have "may sample_info UNIV {1} (sample_nil NEQ) True"
    by (simp add: sample_nil_def is_nil_def sample_info_def)
  ultimately have "run_stmts sample_info UNIV (sample_paren (StarExpr 0 (Ident 6 ''x''))) {1} NilDeref"
    by (simp add: sample_paren_def run_cons run_if end_flow_def)
  then show ?thesis by (simp only: sample_paren_narrowed sample_tracked sample_stable simp_thms)
qed

end
