(* ===== verification/AstWalk.thy ===== *)
theory AstWalk
  imports GoAst
begin

text \<open>
  The rewriting of syntax trees after their children (\<open>walkNode\<close> with \<open>post\<close> of
  \<open>internal/compiler/ast_walk.go\<close>), and the substitution of type parameters (\<open>substituteType\<close> of
  \<open>internal/compiler/inheritance.go\<close>). A transform returns the new node with the state of the caller;
  a slot keeps its child when the new node does not fit the slot's type.
\<close>

section \<open>Sequences\<close>

primrec walk_seq :: "('s \<Rightarrow> 'a \<times> 's) list \<Rightarrow> 's \<Rightarrow> 'a list \<times> 's" where
  "walk_seq [] s = ([], s)"
| "walk_seq (m # ms) s =
     (let (x, s1) = m s; (xs, s2) = walk_seq ms s1 in (x # xs, s2))"

primrec walk_opt :: "('s \<Rightarrow> 'a \<times> 's) option \<Rightarrow> 's \<Rightarrow> 'a option \<times> 's" where
  "walk_opt None s = (None, s)"
| "walk_opt (Some m) s = (let (x, s1) = m s in (Some x, s1))"

definition then_walk :: "('s \<Rightarrow> 'a \<times> 's) \<Rightarrow> ('a \<Rightarrow> 's \<Rightarrow> 'b \<times> 's) \<Rightarrow> 's \<Rightarrow> 'b \<times> 's" where
  "then_walk m k s = (let (x, s1) = m s in k x s1)"

definition return_walk :: "'a \<Rightarrow> 's \<Rightarrow> 'a \<times> 's" where
  "return_walk x s = (x, s)"

section \<open>Slots\<close>

type_synonym 's transform = "node \<Rightarrow> 's \<Rightarrow> node \<times> 's"

definition slot_expr :: "'s transform \<Rightarrow> expr \<Rightarrow> 's \<Rightarrow> expr \<times> 's" where
  "slot_expr g e s = (case g (NE e) s of (NE e', s') \<Rightarrow> (e', s') | (_, s') \<Rightarrow> (e, s'))"

definition slot_stmt :: "'s transform \<Rightarrow> stmt \<Rightarrow> 's \<Rightarrow> stmt \<times> 's" where
  "slot_stmt g b s = (case g (NS b) s of (NS b', s') \<Rightarrow> (b', s') | (_, s') \<Rightarrow> (b, s'))"

definition slot_field :: "'s transform \<Rightarrow> field \<Rightarrow> 's \<Rightarrow> field \<times> 's" where
  "slot_field g f s = (case g (NF f) s of (NF f', s') \<Rightarrow> (f', s') | (_, s') \<Rightarrow> (f, s'))"

definition slot_spec :: "'s transform \<Rightarrow> spec \<Rightarrow> 's \<Rightarrow> spec \<times> 's" where
  "slot_spec g p s = (case g (NP p) s of (NP p', s') \<Rightarrow> (p', s') | (_, s') \<Rightarrow> (p, s'))"

text \<open>A slot of type \<open>*ast.Ident\<close> takes an identifier only.\<close>

definition slot_ident :: "'s transform \<Rightarrow> nat \<times> string \<Rightarrow> 's \<Rightarrow> (nat \<times> string) \<times> 's" where
  "slot_ident g i s =
     (case g (NE (Ident (fst i) (snd i))) s of (NE (Ident p n), s') \<Rightarrow> ((p, n), s') | (_, s') \<Rightarrow> (i, s'))"

definition slot_label :: "'s transform \<Rightarrow> string \<Rightarrow> 's \<Rightarrow> string \<times> 's" where
  "slot_label g l s = (let (i, s') = slot_ident g (0, l) s in (snd i, s'))"

section \<open>walkNode\<close>

primrec
  walk_expr :: "'s transform \<Rightarrow> expr \<Rightarrow> 's \<Rightarrow> expr \<times> 's"
  and walk_field :: "'s transform \<Rightarrow> field \<Rightarrow> 's \<Rightarrow> field \<times> 's"
  and walk_stmt :: "'s transform \<Rightarrow> stmt \<Rightarrow> 's \<Rightarrow> stmt \<times> 's"
  and walk_spec :: "'s transform \<Rightarrow> spec \<Rightarrow> 's \<Rightarrow> spec \<times> 's"
where
  "walk_expr g BadExpr = slot_expr g BadExpr"
| "walk_expr g (Ident p n) = slot_expr g (Ident p n)"
| "walk_expr g (BasicLit k v) = slot_expr g (BasicLit k v)"
| "walk_expr g (Ellipsis e) =
     then_walk (walk_opt (map_option (walk_expr g) e)) (\<lambda>e. slot_expr g (Ellipsis e))"
| "walk_expr g (FuncLit p t b) =
     then_walk (walk_expr g t) (\<lambda>t. then_walk (walk_seq (map (walk_stmt g) b)) (\<lambda>b. slot_expr g (FuncLit p t b)))"
| "walk_expr g (CompositeLit t es) =
     then_walk (walk_opt (map_option (walk_expr g) t)) (\<lambda>t.
     then_walk (walk_seq (map (walk_expr g) es)) (\<lambda>es. slot_expr g (CompositeLit t es)))"
| "walk_expr g (ParenExpr e) = then_walk (walk_expr g e) (\<lambda>e. slot_expr g (ParenExpr e))"
| "walk_expr g (SelectorExpr e p n) =
     then_walk (walk_expr g e) (\<lambda>e. then_walk (slot_ident g (p, n)) (\<lambda>i. slot_expr g (SelectorExpr e (fst i) (snd i))))"
| "walk_expr g (IndexExpr e i) =
     then_walk (walk_expr g e) (\<lambda>e. then_walk (walk_expr g i) (\<lambda>i. slot_expr g (IndexExpr e i)))"
| "walk_expr g (IndexListExpr e es) =
     then_walk (walk_expr g e) (\<lambda>e. then_walk (walk_seq (map (walk_expr g) es)) (\<lambda>es. slot_expr g (IndexListExpr e es)))"
| "walk_expr g (SliceExpr e a b c) =
     then_walk (walk_expr g e) (\<lambda>e.
     then_walk (walk_opt (map_option (walk_expr g) a)) (\<lambda>a.
     then_walk (walk_opt (map_option (walk_expr g) b)) (\<lambda>b.
     then_walk (walk_opt (map_option (walk_expr g) c)) (\<lambda>c. slot_expr g (SliceExpr e a b c)))))"
| "walk_expr g (TypeAssertExpr e t) =
     then_walk (walk_expr g e) (\<lambda>e.
     then_walk (walk_opt (map_option (walk_expr g) t)) (\<lambda>t. slot_expr g (TypeAssertExpr e t)))"
| "walk_expr g (CallExpr f args v) =
     then_walk (walk_expr g f) (\<lambda>f.
     then_walk (walk_seq (map (walk_expr g) args)) (\<lambda>args. slot_expr g (CallExpr f args v)))"
| "walk_expr g (StarExpr p e) = then_walk (walk_expr g e) (\<lambda>e. slot_expr g (StarExpr p e))"
| "walk_expr g (UnaryExpr op e) = then_walk (walk_expr g e) (\<lambda>e. slot_expr g (UnaryExpr op e))"
| "walk_expr g (BinaryExpr a op b) =
     then_walk (walk_expr g a) (\<lambda>a. then_walk (walk_expr g b) (\<lambda>b. slot_expr g (BinaryExpr a op b)))"
| "walk_expr g (KeyValueExpr k v) =
     then_walk (walk_expr g k) (\<lambda>k. then_walk (walk_expr g v) (\<lambda>v. slot_expr g (KeyValueExpr k v)))"
| "walk_expr g (ArrayType l e) =
     then_walk (walk_opt (map_option (walk_expr g) l)) (\<lambda>l.
     then_walk (walk_expr g e) (\<lambda>e. slot_expr g (ArrayType l e)))"
| "walk_expr g (StructType fs) =
     then_walk (walk_seq (map (walk_field g) fs)) (\<lambda>fs. slot_expr g (StructType fs))"
| "walk_expr g (FuncType tp ps rs) =
     then_walk (walk_seq (map (walk_field g) tp)) (\<lambda>tp.
     then_walk (walk_seq (map (walk_field g) ps)) (\<lambda>ps.
     then_walk (walk_opt (map_option walk_seq (map_option (map (walk_field g)) rs))) (\<lambda>rs. slot_expr g (FuncType tp ps rs))))"
| "walk_expr g (InterfaceType fs) =
     then_walk (walk_seq (map (walk_field g) fs)) (\<lambda>fs. slot_expr g (InterfaceType fs))"
| "walk_expr g (MapType k v) =
     then_walk (walk_expr g k) (\<lambda>k. then_walk (walk_expr g v) (\<lambda>v. slot_expr g (MapType k v)))"
| "walk_expr g (ChanType d v) = then_walk (walk_expr g v) (\<lambda>v. slot_expr g (ChanType d v))"
| "walk_field g (Field names t) =
     then_walk (walk_seq (map (slot_ident g) names)) (\<lambda>names.
     then_walk (walk_expr g t) (\<lambda>t. slot_field g (Field names t)))"
| "walk_stmt g BadStmt = slot_stmt g BadStmt"
| "walk_stmt g EmptyStmt = slot_stmt g EmptyStmt"
| "walk_stmt g (DeclStmt tok specs) =
     then_walk (walk_seq (map (walk_spec g) specs)) (\<lambda>specs. slot_stmt g (DeclStmt tok specs))"
| "walk_stmt g (LabeledStmt l b) =
     then_walk (slot_label g l) (\<lambda>l. then_walk (walk_stmt g b) (\<lambda>b. slot_stmt g (LabeledStmt l b)))"
| "walk_stmt g (ExprStmt e) = then_walk (walk_expr g e) (\<lambda>e. slot_stmt g (ExprStmt e))"
| "walk_stmt g (SendStmt c v) =
     then_walk (walk_expr g c) (\<lambda>c. then_walk (walk_expr g v) (\<lambda>v. slot_stmt g (SendStmt c v)))"
| "walk_stmt g (IncDecStmt e tok) = then_walk (walk_expr g e) (\<lambda>e. slot_stmt g (IncDecStmt e tok))"
| "walk_stmt g (AssignStmt l tok r) =
     then_walk (walk_seq (map (walk_expr g) l)) (\<lambda>l.
     then_walk (walk_seq (map (walk_expr g) r)) (\<lambda>r. slot_stmt g (AssignStmt l tok r)))"
| "walk_stmt g (GoStmt e) = then_walk (walk_expr g e) (\<lambda>e. slot_stmt g (GoStmt e))"
| "walk_stmt g (DeferStmt e) = then_walk (walk_expr g e) (\<lambda>e. slot_stmt g (DeferStmt e))"
| "walk_stmt g (ReturnStmt p es) =
     then_walk (walk_seq (map (walk_expr g) es)) (\<lambda>es. slot_stmt g (ReturnStmt p es))"
| "walk_stmt g (BranchStmt p tok l) =
     then_walk (walk_opt (map_option (slot_label g) l)) (\<lambda>l. slot_stmt g (BranchStmt p tok l))"
| "walk_stmt g (BlockStmt b) =
     then_walk (walk_seq (map (walk_stmt g) b)) (\<lambda>b. slot_stmt g (BlockStmt b))"
| "walk_stmt g (IfStmt i c b e) =
     then_walk (walk_opt (map_option (walk_stmt g) i)) (\<lambda>i.
     then_walk (walk_expr g c) (\<lambda>c.
     then_walk (walk_seq (map (walk_stmt g) b)) (\<lambda>b.
     then_walk (walk_opt (map_option (walk_stmt g) e)) (\<lambda>e. slot_stmt g (IfStmt i c b e)))))"
| "walk_stmt g (CaseClause l b) =
     then_walk (walk_opt (map_option walk_seq (map_option (map (walk_expr g)) l))) (\<lambda>l.
     then_walk (walk_seq (map (walk_stmt g) b)) (\<lambda>b. slot_stmt g (CaseClause l b)))"
| "walk_stmt g (SwitchStmt i t b) =
     then_walk (walk_opt (map_option (walk_stmt g) i)) (\<lambda>i.
     then_walk (walk_opt (map_option (walk_expr g) t)) (\<lambda>t.
     then_walk (walk_seq (map (walk_stmt g) b)) (\<lambda>b. slot_stmt g (SwitchStmt i t b))))"
| "walk_stmt g (TypeSwitchStmt i a b) =
     then_walk (walk_opt (map_option (walk_stmt g) i)) (\<lambda>i.
     then_walk (walk_stmt g a) (\<lambda>a.
     then_walk (walk_seq (map (walk_stmt g) b)) (\<lambda>b. slot_stmt g (TypeSwitchStmt i a b))))"
| "walk_stmt g (CommClause c b) =
     then_walk (walk_opt (map_option (walk_stmt g) c)) (\<lambda>c.
     then_walk (walk_seq (map (walk_stmt g) b)) (\<lambda>b. slot_stmt g (CommClause c b)))"
| "walk_stmt g (SelectStmt b) =
     then_walk (walk_seq (map (walk_stmt g) b)) (\<lambda>b. slot_stmt g (SelectStmt b))"
| "walk_stmt g (ForStmt i c p b) =
     then_walk (walk_opt (map_option (walk_stmt g) i)) (\<lambda>i.
     then_walk (walk_opt (map_option (walk_expr g) c)) (\<lambda>c.
     then_walk (walk_opt (map_option (walk_stmt g) p)) (\<lambda>p.
     then_walk (walk_seq (map (walk_stmt g) b)) (\<lambda>b. slot_stmt g (ForStmt i c p b)))))"
| "walk_stmt g (RangeStmt k v tok x b) =
     then_walk (walk_opt (map_option (walk_expr g) k)) (\<lambda>k.
     then_walk (walk_opt (map_option (walk_expr g) v)) (\<lambda>v.
     then_walk (walk_expr g x) (\<lambda>x.
     then_walk (walk_seq (map (walk_stmt g) b)) (\<lambda>b. slot_stmt g (RangeStmt k v tok x b)))))"
| "walk_spec g (ImportSpec name path) =
     then_walk (walk_opt (map_option (slot_label g) name)) (\<lambda>name. slot_spec g (ImportSpec name path))"
| "walk_spec g (TypeSpec name tps t) =
     then_walk (slot_label g name) (\<lambda>name.
     then_walk (walk_seq (map (walk_field g) tps)) (\<lambda>tps.
     then_walk (walk_expr g t) (\<lambda>t. slot_spec g (TypeSpec name tps t))))"
| "walk_spec g (ValueSpec names t vs) =
     then_walk (walk_seq (map (slot_ident g) names)) (\<lambda>names.
     then_walk (walk_opt (map_option (walk_expr g) t)) (\<lambda>t.
     then_walk (walk_seq (map (walk_expr g) vs)) (\<lambda>vs. slot_spec g (ValueSpec names t vs))))"

text \<open>A transform that returns its node leaves the tree and the state.\<close>

lemma walk_seq_id: "(\<And>x. x \<in> set xs \<Longrightarrow> f x s = (x, s)) \<Longrightarrow> walk_seq (map f xs) s = (xs, s)"
  by (induction xs) auto

lemma walk_opt_id: "(\<And>y. x = Some y \<Longrightarrow> f y s = (y, s)) \<Longrightarrow> walk_opt (map_option f x) s = (x, s)"
  by (cases x) auto

lemma walk_id:
  assumes "\<And>n. g n s = (n, s)"
  shows "walk_expr g e s = (e, s)" "walk_field g f s = (f, s)" "walk_stmt g b s = (b, s)" "walk_spec g p s = (p, s)"
proof (induction e and f and b and p)
qed (simp_all add: then_walk_def walk_seq_id walk_opt_id slot_expr_def slot_field_def slot_stmt_def slot_spec_def
    slot_ident_def slot_label_def assms option.map_comp comp_def split: option.splits)

text \<open>What every call of the transform keeps of the state, the walk keeps.\<close>

definition keeps :: "('s \<Rightarrow> bool) \<Rightarrow> ('s \<Rightarrow> 'a \<times> 's) \<Rightarrow> bool" where
  "keeps I m \<longleftrightarrow> (\<forall>s. I s \<longrightarrow> I (snd (m s)))"

lemma keeps_seq: "\<forall>x \<in> set xs. keeps I (f x) \<Longrightarrow> keeps I (walk_seq (map f xs))"
  unfolding keeps_def by (induction xs) (auto simp: Let_def split_beta)

lemma keeps_opt: "\<forall>y \<in> set_option x. keeps I (f y) \<Longrightarrow> keeps I (walk_opt (map_option f x))"
  unfolding keeps_def by (cases x) (auto simp: split_beta)

lemma keeps_then: "keeps I m \<Longrightarrow> (\<And>x. keeps I (k x)) \<Longrightarrow> keeps I (then_walk m k)"
  unfolding keeps_def by (auto simp: then_walk_def split_beta)

lemma keeps_slot:
  assumes g: "\<And>n. keeps I (g n)"
  shows "keeps I (slot_expr g e)" "keeps I (slot_field g f)" "keeps I (slot_stmt g b)" "keeps I (slot_spec g p)"
    "keeps I (slot_ident g i)" "keeps I (slot_label g l)"
proof -
  have keep: "I s \<Longrightarrow> g n s = (x, s') \<Longrightarrow> I s'" for n s x s' using g [of n] unfolding keeps_def by (metis snd_conv)
  show "keeps I (slot_expr g e)" "keeps I (slot_field g f)" "keeps I (slot_stmt g b)" "keeps I (slot_spec g p)"
    by (auto simp: keeps_def slot_expr_def slot_field_def slot_stmt_def slot_spec_def split: prod.splits node.splits dest: keep)
  show ident: "keeps I (slot_ident g i)" for i
    by (auto simp: keeps_def slot_ident_def split: prod.splits node.splits expr.splits dest: keep)
  from ident [of "(0, l)"] show "keeps I (slot_label g l)" by (auto simp: keeps_def slot_label_def split_beta)
qed

lemma walk_keeps:
  assumes "\<And>n. keeps I (g n)"
  shows "keeps I (walk_expr g e)" "keeps I (walk_field g f)" "keeps I (walk_stmt g b)" "keeps I (walk_spec g p)"
proof (induction e and f and b and p)
qed (simp_all add: option.map_comp comp_def keeps_then keeps_seq keeps_opt keeps_slot [OF assms])

section \<open>substituteType\<close>

text \<open>
  \<open>resolved\<close> says whether the parser resolved the identifier at a position to a local object; \<open>clone\<close>
  prints and parses the bound expression again.
\<close>

fun substituteType :: "(nat \<Rightarrow> bool) \<Rightarrow> (expr \<Rightarrow> expr) \<Rightarrow> (string \<rightharpoonup> expr) \<Rightarrow> expr \<Rightarrow> expr"
  and substituteField :: "(nat \<Rightarrow> bool) \<Rightarrow> (expr \<Rightarrow> expr) \<Rightarrow> (string \<rightharpoonup> expr) \<Rightarrow> field \<Rightarrow> field"
where
  "substituteType resolved clone bindings (Ident p n) =
     (if resolved p then Ident p n
      else case bindings n of None \<Rightarrow> Ident p n | Some value \<Rightarrow> clone value)"
| "substituteType resolved clone bindings (IndexExpr x i) =
     IndexExpr (substituteType resolved clone bindings x) (substituteType resolved clone bindings i)"
| "substituteType resolved clone bindings (IndexListExpr x is) =
     IndexListExpr (substituteType resolved clone bindings x) (map (substituteType resolved clone bindings) is)"
| "substituteType resolved clone bindings (ArrayType l e) = ArrayType l (substituteType resolved clone bindings e)"
| "substituteType resolved clone bindings (StarExpr p x) = StarExpr p (substituteType resolved clone bindings x)"
| "substituteType resolved clone bindings (MapType k v) =
     MapType (substituteType resolved clone bindings k) (substituteType resolved clone bindings v)"
| "substituteType resolved clone bindings (ChanType d v) = ChanType d (substituteType resolved clone bindings v)"
| "substituteType resolved clone bindings (Ellipsis e) = Ellipsis (map_option (substituteType resolved clone bindings) e)"
| "substituteType resolved clone bindings (ParenExpr x) = ParenExpr (substituteType resolved clone bindings x)"
| "substituteType resolved clone bindings (FuncType tp ps rs) =
     FuncType tp (map (substituteField resolved clone bindings) ps)
       (map_option (map (substituteField resolved clone bindings)) rs)"
| "substituteType resolved clone bindings (StructType fs) = StructType (map (substituteField resolved clone bindings) fs)"
| "substituteType resolved clone bindings (InterfaceType fs) = InterfaceType (map (substituteField resolved clone bindings) fs)"
| "substituteType resolved clone bindings (UnaryExpr op x) = UnaryExpr op (substituteType resolved clone bindings x)"
| "substituteType resolved clone bindings (BinaryExpr x op y) =
     BinaryExpr (substituteType resolved clone bindings x) op (substituteType resolved clone bindings y)"
| "substituteType resolved clone bindings e = e"
| "substituteField resolved clone bindings (Field names t) = Field names (substituteType resolved clone bindings t)"

text \<open>The names that the substitution may replace.\<close>

fun type_names :: "(nat \<Rightarrow> bool) \<Rightarrow> expr \<Rightarrow> string list"
  and field_names :: "(nat \<Rightarrow> bool) \<Rightarrow> field \<Rightarrow> string list"
where
  "type_names resolved (Ident p n) = (if resolved p then [] else [n])"
| "type_names resolved (IndexExpr x i) = type_names resolved x @ type_names resolved i"
| "type_names resolved (IndexListExpr x is) = type_names resolved x @ concat (map (type_names resolved) is)"
| "type_names resolved (ArrayType l e) = type_names resolved e"
| "type_names resolved (StarExpr p x) = type_names resolved x"
| "type_names resolved (MapType k v) = type_names resolved k @ type_names resolved v"
| "type_names resolved (ChanType d v) = type_names resolved v"
| "type_names resolved (Ellipsis e) = (case e of None \<Rightarrow> [] | Some e' \<Rightarrow> type_names resolved e')"
| "type_names resolved (ParenExpr x) = type_names resolved x"
| "type_names resolved (FuncType tp ps rs) =
     concat (map (field_names resolved) ps) @
     (case rs of None \<Rightarrow> [] | Some rs' \<Rightarrow> concat (map (field_names resolved) rs'))"
| "type_names resolved (StructType fs) = concat (map (field_names resolved) fs)"
| "type_names resolved (InterfaceType fs) = concat (map (field_names resolved) fs)"
| "type_names resolved (UnaryExpr op x) = type_names resolved x"
| "type_names resolved (BinaryExpr x op y) = type_names resolved x @ type_names resolved y"
| "type_names resolved e = []"
| "field_names resolved (Field names t) = type_names resolved t"

lemma map_fixed: "map f xs = xs \<longleftrightarrow> (\<forall>x \<in> set xs. f x = x)"
  by (induction xs) auto

lemma map_option_fixed: "map_option f x = x \<longleftrightarrow> (\<forall>y \<in> set_option x. f y = y)"
  by (cases x) auto

lemma map_option_eq: "map_option f x = map_option g x \<longleftrightarrow> (\<forall>y \<in> set_option x. f y = g y)"
  by (cases x) auto

lemma substitute_unbound:
  "\<forall>n \<in> set (type_names resolved e). bindings n = None \<Longrightarrow> substituteType resolved clone bindings e = e"
  "\<forall>n \<in> set (field_names resolved f). bindings n = None \<Longrightarrow> substituteField resolved clone bindings f = f"
  by (induction resolved e and resolved f rule: type_names_field_names.induct)
    (simp_all add: map_fixed map_option_fixed split: option.splits if_splits, fastforce+)

text \<open>
  Substituting twice is substituting the composed bindings: the way the arguments of an ancestor are
  expressed in its descendants, edge by edge.
\<close>

definition compose_bindings ::
  "(nat \<Rightarrow> bool) \<Rightarrow> (string \<rightharpoonup> expr) \<Rightarrow> (string \<rightharpoonup> expr) \<Rightarrow> (string \<rightharpoonup> expr)"
where
  "compose_bindings resolved b1 b2 = (\<lambda>n.
     case b1 n of None \<Rightarrow> b2 n | Some v \<Rightarrow> Some (substituteType resolved (\<lambda>v. v) b2 v))"

lemma substitute_twice:
  "substituteType resolved (\<lambda>v. v) b2 (substituteType resolved (\<lambda>v. v) b1 e) =
     substituteType resolved (\<lambda>v. v) (compose_bindings resolved b1 b2) e"
  "substituteField resolved (\<lambda>v. v) b2 (substituteField resolved (\<lambda>v. v) b1 f) =
     substituteField resolved (\<lambda>v. v) (compose_bindings resolved b1 b2) f"
  by (induction resolved e and resolved f rule: type_names_field_names.induct)
    (auto simp: compose_bindings_def option.map_comp map_option_eq split: option.splits)

end
