(* ===== verification/FuncLits.thy ===== *)
theory FuncLits
  imports AstWalk
begin

text \<open>
  Rewriting the outermost function literals of an expression: what \<open>expressions\<close> of
  \<open>internal/compiler/control_flow.go\<close> does with \<open>walkNode\<close>.
\<close>

section \<open>Function literals in expressions\<close>

text \<open>
  \<open>walkNode\<close> without \<open>post\<close>, as \<open>expressions\<close> uses it: the outermost function literals get new bodies. The
  code then walks on through the new bodies and lowers the literals in them again, which changes nothing:
  \<open>relowering\<close> in \<^theory_text>\<open>ControlAgain\<close>.
\<close>

type_synonym ('s, 'a) walk = "'s \<Rightarrow> 'a \<times> 's"

fun rewrite_lits :: "(nat \<Rightarrow> expr \<Rightarrow> stmt list \<Rightarrow> ('s, stmt list) walk) \<Rightarrow> expr \<Rightarrow> ('s, expr) walk"
  and rewrite_field :: "(nat \<Rightarrow> expr \<Rightarrow> stmt list \<Rightarrow> ('s, stmt list) walk) \<Rightarrow> field \<Rightarrow> ('s, field) walk"
where
  "rewrite_lits g (FuncLit p t b) = then_walk (g p t b) (\<lambda>b. return_walk (FuncLit p t b))"
| "rewrite_lits g (Ellipsis e) = then_walk (walk_opt (map_option (rewrite_lits g) e)) (\<lambda>e. return_walk (Ellipsis e))"
| "rewrite_lits g (CompositeLit t es) =
     then_walk (walk_opt (map_option (rewrite_lits g) t)) (\<lambda>t.
     then_walk (walk_seq (map (rewrite_lits g) es)) (\<lambda>es. return_walk (CompositeLit t es)))"
| "rewrite_lits g (ParenExpr e) = then_walk (rewrite_lits g e) (\<lambda>e. return_walk (ParenExpr e))"
| "rewrite_lits g (SelectorExpr e p n) = then_walk (rewrite_lits g e) (\<lambda>e. return_walk (SelectorExpr e p n))"
| "rewrite_lits g (IndexExpr e i) =
     then_walk (rewrite_lits g e) (\<lambda>e. then_walk (rewrite_lits g i) (\<lambda>i. return_walk (IndexExpr e i)))"
| "rewrite_lits g (IndexListExpr e es) =
     then_walk (rewrite_lits g e) (\<lambda>e. then_walk (walk_seq (map (rewrite_lits g) es)) (\<lambda>es. return_walk (IndexListExpr e es)))"
| "rewrite_lits g (SliceExpr e a b c) =
     then_walk (rewrite_lits g e) (\<lambda>e.
     then_walk (walk_opt (map_option (rewrite_lits g) a)) (\<lambda>a.
     then_walk (walk_opt (map_option (rewrite_lits g) b)) (\<lambda>b.
     then_walk (walk_opt (map_option (rewrite_lits g) c)) (\<lambda>c. return_walk (SliceExpr e a b c)))))"
| "rewrite_lits g (TypeAssertExpr e t) =
     then_walk (rewrite_lits g e) (\<lambda>e.
     then_walk (walk_opt (map_option (rewrite_lits g) t)) (\<lambda>t. return_walk (TypeAssertExpr e t)))"
| "rewrite_lits g (CallExpr f args v) =
     then_walk (rewrite_lits g f) (\<lambda>f.
     then_walk (walk_seq (map (rewrite_lits g) args)) (\<lambda>args. return_walk (CallExpr f args v)))"
| "rewrite_lits g (StarExpr p e) = then_walk (rewrite_lits g e) (\<lambda>e. return_walk (StarExpr p e))"
| "rewrite_lits g (UnaryExpr op e) = then_walk (rewrite_lits g e) (\<lambda>e. return_walk (UnaryExpr op e))"
| "rewrite_lits g (BinaryExpr a op b) =
     then_walk (rewrite_lits g a) (\<lambda>a. then_walk (rewrite_lits g b) (\<lambda>b. return_walk (BinaryExpr a op b)))"
| "rewrite_lits g (KeyValueExpr k v) =
     then_walk (rewrite_lits g k) (\<lambda>k. then_walk (rewrite_lits g v) (\<lambda>v. return_walk (KeyValueExpr k v)))"
| "rewrite_lits g (ArrayType l e) =
     then_walk (walk_opt (map_option (rewrite_lits g) l)) (\<lambda>l.
     then_walk (rewrite_lits g e) (\<lambda>e. return_walk (ArrayType l e)))"
| "rewrite_lits g (StructType fs) =
     then_walk (walk_seq (map (rewrite_field g) fs)) (\<lambda>fs. return_walk (StructType fs))"
| "rewrite_lits g (FuncType tp ps rs) =
     then_walk (walk_seq (map (rewrite_field g) tp)) (\<lambda>tp.
     then_walk (walk_seq (map (rewrite_field g) ps)) (\<lambda>ps.
     then_walk (walk_opt (map_option walk_seq (map_option (map (rewrite_field g)) rs))) (\<lambda>rs. return_walk (FuncType tp ps rs))))"
| "rewrite_lits g (InterfaceType fs) =
     then_walk (walk_seq (map (rewrite_field g) fs)) (\<lambda>fs. return_walk (InterfaceType fs))"
| "rewrite_lits g (MapType k v) =
     then_walk (rewrite_lits g k) (\<lambda>k. then_walk (rewrite_lits g v) (\<lambda>v. return_walk (MapType k v)))"
| "rewrite_lits g (ChanType d v) = then_walk (rewrite_lits g v) (\<lambda>v. return_walk (ChanType d v))"
| "rewrite_lits g e = return_walk e"
| "rewrite_field g (Field names t) = then_walk (rewrite_lits g t) (\<lambda>t. return_walk (Field names t))"

text \<open>The bodies of the outermost function literals.\<close>

function (sequential) lits :: "expr \<Rightarrow> (nat \<times> expr \<times> stmt list) list" and field_lits :: "field \<Rightarrow> (nat \<times> expr \<times> stmt list) list" where
  "lits (FuncLit p t b) = [(p, t, b)]"
| "lits (Ellipsis e) = concat (map lits (opt_list e))"
| "lits (CompositeLit t es) = concat (map lits (opt_list t)) @ concat (map lits es)"
| "lits (ParenExpr e) = lits e"
| "lits (SelectorExpr e p n) = lits e"
| "lits (IndexExpr e i) = lits e @ lits i"
| "lits (IndexListExpr e es) = lits e @ concat (map lits es)"
| "lits (SliceExpr e a b c) =
     lits e @ concat (map lits (opt_list a)) @ concat (map lits (opt_list b)) @ concat (map lits (opt_list c))"
| "lits (TypeAssertExpr e t) = lits e @ concat (map lits (opt_list t))"
| "lits (CallExpr f args v) = lits f @ concat (map lits args)"
| "lits (StarExpr p e) = lits e"
| "lits (UnaryExpr op e) = lits e"
| "lits (BinaryExpr a op b) = lits a @ lits b"
| "lits (KeyValueExpr k v) = lits k @ lits v"
| "lits (ArrayType l e) = concat (map lits (opt_list l)) @ lits e"
| "lits (StructType fs) = concat (map field_lits fs)"
| "lits (FuncType tp ps rs) =
     concat (map field_lits tp) @ concat (map field_lits ps) @ concat (map field_lits (concat (opt_list rs)))"
| "lits (InterfaceType fs) = concat (map field_lits fs)"
| "lits (MapType k v) = lits k @ lits v"
| "lits (ChanType d v) = lits v"
| "lits e = []"
| "field_lits (Field names t) = lits t"
  by pat_completeness auto
termination
  by (relation "measure (case_sum size size)") (auto dest!: size_list_mem opt_list_mem)

lemma then_walk_same: "m = m' \<Longrightarrow> (\<And>x. k x = k' x) \<Longrightarrow> then_walk m k = then_walk m' k'"
  by (metis ext)

lemma walk_seq_same: "(\<And>x. x \<in> set xs \<Longrightarrow> f x = h x) \<Longrightarrow> walk_seq (map f xs) = walk_seq (map h xs)"
  by (simp cong: map_cong)

lemma walk_opt_same: "(\<And>x. x \<in> set (opt_list y) \<Longrightarrow> f x = h x) \<Longrightarrow> walk_opt (map_option f y) = walk_opt (map_option h y)"
  by (cases y) (simp_all add: opt_list_def)

lemma walk_opts_same:
  "(\<And>x. x \<in> set (concat (opt_list y)) \<Longrightarrow> f x = h x) \<Longrightarrow>
     walk_opt (map_option walk_seq (map_option (map f) y)) = walk_opt (map_option walk_seq (map_option (map h) y))"
  by (cases y) (auto simp: opt_list_def cong: map_cong)

lemmas walk_same = then_walk_same walk_seq_same walk_opt_same walk_opts_same refl

lemma rewrite_lits_cong_aux:
  "(\<And>p t b. (p, t, b) \<in> set (lits e) \<Longrightarrow> g p t b = h p t b) \<Longrightarrow> rewrite_lits g e = rewrite_lits h e"
  "(\<And>p t b. (p, t, b) \<in> set (field_lits f) \<Longrightarrow> g p t b = h p t b) \<Longrightarrow> rewrite_field g f = rewrite_field h f"
proof (induction e and f rule: lits_field_lits.induct)
qed (simp_all only: rewrite_lits.simps rewrite_field.simps lits.simps field_lits.simps,
     (intro walk_same; (fastforce | force))+)

lemma rewrite_lits_cong [fundef_cong]:
  "e = e' \<Longrightarrow> s = s' \<Longrightarrow> (\<And>p t b r. (p, t, b) \<in> set (lits e') \<Longrightarrow> g p t b r = h p t b r) \<Longrightarrow>
     rewrite_lits g e s = rewrite_lits h e' s'"
  by (metis rewrite_lits_cong_aux(1) ext)

lemma in_list: "x \<in> set xs \<Longrightarrow> k < size x \<Longrightarrow> k < size_list size xs"
  using size_list_mem [of x xs] by simp

lemma in_opt: "x \<in> set (opt_list y) \<Longrightarrow> k < size x \<Longrightarrow> k < size_option size y"
  by (cases y) (auto simp: opt_list_def)

definition lits_below :: "nat \<Rightarrow> (nat \<times> expr \<times> stmt list) list \<Rightarrow> bool" where
  "lits_below k ls \<longleftrightarrow> (\<forall>l \<in> set ls. size_list size (snd (snd l)) < k)"

lemma lits_below_append [simp]: "lits_below k (xs @ ys) \<longleftrightarrow> lits_below k xs \<and> lits_below k ys"
  by (auto simp: lits_below_def)

lemma lits_below_mono: "lits_below k ls \<Longrightarrow> k \<le> m \<Longrightarrow> lits_below m ls"
  by (auto simp: lits_below_def)

lemma lits_below_list: "(\<And>x. x \<in> set xs \<Longrightarrow> lits_below (size x) (f x)) \<Longrightarrow> lits_below (size_list size xs) (concat (map f xs))"
  unfolding lits_below_def by (auto intro: in_list)

lemma lits_below_opt: "(\<And>x. x \<in> set (opt_list y) \<Longrightarrow> lits_below (size x) (f x)) \<Longrightarrow>
    lits_below (size_option size y) (concat (map f (opt_list y)))"
  unfolding lits_below_def by (auto intro: in_opt)

lemma size_opts [simp]: "size_list size (concat (opt_list ys)) \<le> size_option (size_list size) ys"
  by (cases ys) (simp_all add: opt_list_def)

lemma lits_below_base [simp]: "lits_below k []" "lits_below k [(p, t, b)] \<longleftrightarrow> size_list size b < k"
  by (simp_all add: lits_below_def)

lemma lits_below_size: "lits_below (size e) (lits e)" "lits_below (size f) (field_lits f)"
proof (induction e and f rule: lits_field_lits.induct)
qed (simp_all del: set_concat, ((intro conjI)?,
    (rule lits_below_mono, assumption, simp
     | rule lits_below_mono [OF lits_below_list] lits_below_mono [OF lits_below_opt], assumption, (simp; fail | rule le_SucI, rule trans_le_add2, rule size_opts))+)+)

lemma lits_size [ast_size]: "(p, t, b) \<in> set (lits e) \<Longrightarrow> size_list size b < size e"
  using lits_below_size(1) [of e] by (auto simp: lits_below_def)

end
