(* ===== verification/GoStrings.thy ===== *)
theory GoStrings
  imports Prelude "HOL-Library.List_Lexorder" "HOL-Library.Char_ord"
begin

text \<open>
  The functions of Go's packages \<open>strings\<close>, \<open>path/filepath\<close> (on Unix), \<open>encoding/hex\<close> and
  \<open>go/version\<close> that the modelled code calls, on byte strings. The order \<open><\<close> of Go strings is the
  lexicographic order of their bytes.
\<close>

section \<open>Package strings\<close>

fun cut_at :: "char \<Rightarrow> string \<Rightarrow> string \<times> string \<times> bool" where
  \<comment> \<open>\<open>strings.Cut(s, sep)\<close> for a separator of one byte\<close>
  "cut_at c [] = ([], [], False)"
| "cut_at c (x # xs) =
     (if x = c then ([], xs, True) else (let (a, b, ok) = cut_at c xs in (x # a, b, ok)))"

definition upper_char :: "char \<Rightarrow> char" where
  "upper_char c =
     (let n = of_char c in if 97 \<le> n \<and> n \<le> (122 :: nat) then char_of (n - 32) else c)"

definition to_upper :: "string \<Rightarrow> string" where
  "to_upper s = map upper_char s"

definition contains_any :: "string \<Rightarrow> string \<Rightarrow> bool" where
  "contains_any s chars \<longleftrightarrow> list_ex (\<lambda>c. c \<in> set chars) s"

fun contains :: "string \<Rightarrow> string \<Rightarrow> bool" where
  "contains [] sub = (sub = [])"
| "contains (c # s) sub = (has_prefix (c # s) sub \<or> contains s sub)"

definition is_space :: "char \<Rightarrow> bool" where
  "is_space c \<longleftrightarrow> c \<in> {CHR 0x20, CHR 0x09, CHR 0x0A, CHR 0x0B, CHR 0x0C, CHR 0x0D}"

definition trim_left :: "string \<Rightarrow> string" where
  "trim_left s = dropWhile is_space s"

definition trim_space :: "string \<Rightarrow> string" where
  "trim_space s = rev (trim_left (rev (trim_left s)))"

fun fields_from :: "string \<Rightarrow> string \<Rightarrow> string list" where
  "fields_from w [] = (if w = [] then [] else [rev w])"
| "fields_from w (c # cs) =
     (if is_space c then (if w = [] then fields_from [] cs else rev w # fields_from [] cs)
      else fields_from (c # w) cs)"

definition string_fields :: "string \<Rightarrow> string list" where
  "string_fields s = fields_from [] s"

lemma cut_at_found: "cut_at c s = (a, b, True) \<Longrightarrow> s = a @ c # b \<and> c \<notin> set a"
  by (induction s arbitrary: a b) (auto split: if_splits prod.splits)

lemma cut_at_missing: "cut_at c s = (a, b, False) \<Longrightarrow> s = a \<and> c \<notin> set s \<and> b = []"
  by (induction s arbitrary: a b) (auto split: if_splits prod.splits)

section \<open>Package filepath\<close>

text \<open>
  \<open>filepath.Clean\<close> on the elements of a path: empty elements and \<open>.\<close> go, \<open>..\<close> removes the element
  before it; at the start of a relative path it stays, at the root it goes. The stack holds the
  elements kept so far, last first.
\<close>

fun clean_parts :: "bool \<Rightarrow> string list \<Rightarrow> string list \<Rightarrow> string list" where
  "clean_parts rooted stack [] = rev stack"
| "clean_parts rooted stack (p # ps) =
     (if p = [] \<or> p = ''.'' then clean_parts rooted stack ps
      else if p = ''..'' then
        (case stack of
           [] \<Rightarrow> clean_parts rooted (if rooted then [] else [''..'']) ps
         | t # ts \<Rightarrow> if t = ''..'' then clean_parts rooted (''..'' # stack) ps
                    else clean_parts rooted ts ps)
      else clean_parts rooted (p # stack) ps)"

definition is_abs :: "string \<Rightarrow> bool" where
  "is_abs path \<longleftrightarrow> has_prefix path ''/''"

definition Clean :: "string \<Rightarrow> string" where
  "Clean path =
     (if path = [] then ''.''
      else if is_abs path then CHR ''/'' # join ''/'' (clean_parts True [] (split_on CHR ''/'' path))
      else (let ps = clean_parts False [] (split_on CHR ''/'' path)
            in if ps = [] then ''.'' else join ''/'' ps))"

text \<open>\<open>filepath.Join\<close> of two nonempty elements.\<close>

definition Join :: "string \<Rightarrow> string \<Rightarrow> string" where
  "Join a b = (if a = [] then (if b = [] then [] else Clean b) else
     if b = [] then Clean a else Clean (a @ ''/'' @ b))"

text \<open>\<open>filepath.Dir\<close>, \<open>filepath.Base\<close> and \<open>filepath.Ext\<close>.\<close>

definition after_last :: "char \<Rightarrow> string \<Rightarrow> string" where
  "after_last c s = rev (takeWhile (\<lambda>x. x \<noteq> c) (rev s))"

definition through_last :: "char \<Rightarrow> string \<Rightarrow> string" where
  "through_last c s = rev (dropWhile (\<lambda>x. x \<noteq> c) (rev s))"

lemma through_after_last: "through_last c s @ after_last c s = s"
  unfolding through_last_def after_last_def by (metis rev_append rev_rev_ident takeWhile_dropWhile_id)

definition Dir :: "string \<Rightarrow> string" where
  "Dir path = Clean (through_last CHR ''/'' path)"

definition Base :: "string \<Rightarrow> string" where
  "Base path =
     (if path = [] then ''.''
      else let p = rev (dropWhile (\<lambda>x. x = CHR ''/'') (rev path))
           in if p = [] then ''/'' else after_last CHR ''/'' p)"

definition Ext :: "string \<Rightarrow> string" where
  "Ext path =
     (let e = after_last CHR ''/'' path
      in if CHR ''.'' \<in> set e then CHR ''.'' # after_last CHR ''.'' e else [])"

definition trim_prefix :: "string \<Rightarrow> string \<Rightarrow> string" where
  "trim_prefix s p = (if has_prefix s p then drop (length p) s else s)"

definition trim_suffix :: "string \<Rightarrow> string \<Rightarrow> string" where
  "trim_suffix s p = (if has_suffix s p then take (length s - length p) s else s)"

text \<open>
  \<open>n, _ := strconv.Atoi(s)\<close> on 64 bits: zero for a syntax error, the nearest \<open>int\<close> for a value out
  of range.
\<close>

definition atoi :: "string \<Rightarrow> int" where
  "atoi s =
     (let neg = has_prefix s ''-'';
          d = (if neg \<or> has_prefix s ''+'' then tl s else s)
      in if d = [] \<or> \<not> list_all is_digit d then 0
         else if neg then max (- (2 ^ 63)) (- int (digits_value d))
         else min (2 ^ 63 - 1) (int (digits_value d)))"

definition IsLocal :: "string \<Rightarrow> bool" where
  "IsLocal path \<longleftrightarrow>
     \<not> is_abs path \<and> path \<noteq> [] \<and>
     (let c = Clean path in c \<noteq> ''..'' \<and> \<not> has_prefix c ''../'')"

lemma split_on_append:
  "c \<notin> set a \<Longrightarrow> split_on c (a @ c # b) = a # split_on c b"
  by (induction a) auto

lemma split_on_sep: "split_on c (a @ c # b) = split_on c a @ split_on c b"
  by (induction c a rule: split_on.induct) (auto split: list.splits)

lemma clean_parts_plain:
  "''..'' \<notin> set ps \<Longrightarrow> clean_parts rooted stack ps = rev stack @ filter (\<lambda>p. p \<noteq> [] \<and> p \<noteq> ''.'') ps"
  by (induction ps arbitrary: stack) auto

section \<open>Package hex\<close>

definition hex_value :: "char \<Rightarrow> nat option" where
  "hex_value c =
     (let n = of_char c in
      if 48 \<le> n \<and> n \<le> (57 :: nat) then Some (n - 48)
      else if 97 \<le> n \<and> n \<le> 102 then Some (n - 87)
      else if 65 \<le> n \<and> n \<le> 70 then Some (n - 55) else None)"

fun hex_decode :: "string \<Rightarrow> string option" where
  "hex_decode [] = Some []"
| "hex_decode [c] = None"
| "hex_decode (a # b # cs) =
     (case (hex_value a, hex_value b, hex_decode cs) of
        (Some x, Some y, Some r) \<Rightarrow> Some (char_of (16 * x + y) # r)
      | _ \<Rightarrow> None)"

text \<open>\<open>hex.EncodeToString\<close>, and \<open>%x\<close> of bytes.\<close>

definition hex_digit :: "nat \<Rightarrow> char" where
  "hex_digit d = (if d < 10 then char_of (48 + d) else char_of (87 + d))"

definition hex_string :: "string \<Rightarrow> string" where
  "hex_string s = concat (map (\<lambda>c. [hex_digit (of_char c div 16), hex_digit (of_char c mod 16)]) s)"

lemma of_char_hex_digit:
  "n < 16 \<Longrightarrow> (of_char (hex_digit n) :: nat) = (if n < 10 then 48 + n else 87 + n)"
  by (cases "n < 10") (simp_all add: hex_digit_def)

lemma hex_digit_inj:
  assumes "a < 16" "b < 16" "hex_digit a = hex_digit b"
  shows "a = b"
proof -
  have "(if a < 10 then 48 + a else 87 + a) = (if b < 10 then 48 + b else 87 + b)"
    using of_char_hex_digit [OF assms(1)] of_char_hex_digit [OF assms(2)] assms(3) by metis
  then show ?thesis using assms(1,2) by presburger
qed

lemma length_hex_string [simp]: "length (hex_string s) = 2 * length s"
  by (induction s) (simp_all add: hex_string_def)

lemma hex_string_inj: "hex_string a = hex_string b \<Longrightarrow> a = b"
proof (induction a arbitrary: b)
  case Nil
  then show ?case by (cases b) (simp_all add: hex_string_def)
next
  case (Cons x a)
  then obtain y b' where b: "b = y # b'" by (cases b) (simp_all add: hex_string_def)
  have lt: "(of_char c :: nat) div 16 < 16" for c :: char
    by (rule less_mult_imp_div_less) (use nat_of_char_less_256 [of c] in simp)
  from Cons.prems have d: "hex_digit (of_char x div 16) = hex_digit (of_char y div 16)"
    "hex_digit (of_char x mod 16) = hex_digit (of_char y mod 16)" and r: "hex_string a = hex_string b'"
    by (simp_all add: b hex_string_def)
  have "(of_char x :: nat) div 16 = of_char y div 16" "(of_char x :: nat) mod 16 = of_char y mod 16"
    by (rule hex_digit_inj [OF lt lt d(1)], rule hex_digit_inj [OF _ _ d(2)]) simp_all
  then have "(of_char x :: nat) = of_char y" by (metis div_mod_decomp)
  with Cons.IH [OF r] show ?case by (simp add: b)
qed

lemma of_char_upper:
  "(of_char (upper_char c) :: nat) =
     (if 97 \<le> (of_char c :: nat) \<and> (of_char c :: nat) \<le> 122 then of_char c - 32 else of_char c)"
  using nat_of_char_less_256 [of c] by (auto simp: upper_char_def Let_def)

lemma hex_value_upper: "hex_value (upper_char c) = hex_value c"
  by (auto simp: hex_value_def Let_def of_char_upper)

lemma hex_decode_upper: "hex_decode (to_upper s) = hex_decode s"
  by (induction s rule: hex_decode.induct) (simp_all add: to_upper_def hex_value_upper)

lemma hex_value_digit: "n < 16 \<Longrightarrow> hex_value (hex_digit n) = Some n"
  by (auto simp: hex_value_def Let_def of_char_hex_digit)

lemma hex_decode_hex_string: "hex_decode (hex_string d) = Some d"
proof (induction d)
  case (Cons c d)
  have "(of_char c :: nat) div 16 < 16"
    by (rule less_mult_imp_div_less) (use nat_of_char_less_256 [of c] in simp)
  then show ?case using Cons by (simp add: hex_string_def hex_value_digit)
qed (simp add: hex_string_def)

section \<open>Package version\<close>

record goVersion =
  vMajor :: string
  vMinor :: string
  vPatch :: string
  vKind :: string
  vPre :: string

definition noVersion :: goVersion where
  "noVersion = \<lparr>vMajor = [], vMinor = [], vPatch = [], vKind = [], vPre = []\<rparr>"

definition cutInt :: "string \<Rightarrow> (string \<times> string) option" where
  "cutInt x =
     (let n = takeWhile is_digit x
      in if n = [] \<or> hd n = CHR ''0'' \<and> length n \<noteq> 1 then None else Some (n, dropWhile is_digit x))"

text \<open>The numbers of a version are compared as digit strings without leading zeros.\<close>

definition int_key :: "string \<Rightarrow> nat \<times> string" where
  "int_key x = (length x, x)"

definition CmpInt :: "string \<Rightarrow> string \<Rightarrow> int" where
  "CmpInt x y =
     (if x = y then 0 else if length x < length y then -1 else if length y < length x then 1
      else if x < y then -1 else 1)"

definition is_lower :: "char \<Rightarrow> bool" where
  "is_lower c \<longleftrightarrow> 97 \<le> (of_char c :: nat) \<and> (of_char c :: nat) \<le> 122"

definition parse_version :: "string \<Rightarrow> goVersion" where
  "parse_version x =
     (case cutInt x of
        None \<Rightarrow> noVersion
      | Some (major, x1) \<Rightarrow>
          let v = noVersion\<lparr>vMajor := major\<rparr> in
          (case x1 of
             [] \<Rightarrow> v\<lparr>vMinor := ''0'', vPatch := ''0''\<rparr>
           | c # x2 \<Rightarrow>
               if c \<noteq> CHR ''.'' then noVersion
               else (case cutInt x2 of
                  None \<Rightarrow> noVersion
                | Some (minor, x3) \<Rightarrow>
                    let v = v\<lparr>vMinor := minor\<rparr> in
                    (case x3 of
                       [] \<Rightarrow> if CmpInt minor ''21'' < 0 then v\<lparr>vPatch := ''0''\<rparr> else v
                     | d # x4 \<Rightarrow>
                         if d = CHR ''.'' then
                           (case cutInt x4 of
                              Some (patch, []) \<Rightarrow> v\<lparr>vPatch := patch\<rparr>
                            | _ \<Rightarrow> noVersion)
                         else
                           let kind = takeWhile (\<lambda>c. \<not> is_digit c) x3;
                               rest = dropWhile (\<lambda>c. \<not> is_digit c) x3
                           in if kind = [] \<or> \<not> list_all is_lower kind then noVersion
                              else if rest = [] then v\<lparr>vKind := kind\<rparr>
                              else (case cutInt rest of
                                 Some (pre, []) \<Rightarrow> v\<lparr>vKind := kind, vPre := pre\<rparr>
                               | _ \<Rightarrow> noVersion)))))"

definition stripGo :: "string \<Rightarrow> string" where
  "stripGo v =
     (let v = fst (cut_at CHR ''-'' v)
      in if length v < 2 \<or> take 2 v \<noteq> ''go'' then [] else drop 2 v)"

definition version_IsValid :: "string \<Rightarrow> bool" where
  "version_IsValid x \<longleftrightarrow> parse_version (stripGo x) \<noteq> noVersion"

definition version_Lang :: "string \<Rightarrow> string" where
  "version_Lang x =
     (let v = parse_version (stripGo x);
          l = (if vMinor v = [] \<or> vMajor v = ''1'' \<and> vMinor v = ''0'' then vMajor v
               else vMajor v @ ''.'' @ vMinor v)
      in if l = [] then [] else ''go'' @ l)"

definition cmp_string :: "string \<Rightarrow> string \<Rightarrow> int" where
  "cmp_string x y = (if x = y then 0 else if x < y then -1 else 1)"

definition version_Compare :: "string \<Rightarrow> string \<Rightarrow> int" where
  "version_Compare x y =
     (let vx = parse_version (stripGo x); vy = parse_version (stripGo y) in
      if CmpInt (vMajor vx) (vMajor vy) \<noteq> 0 then CmpInt (vMajor vx) (vMajor vy)
      else if CmpInt (vMinor vx) (vMinor vy) \<noteq> 0 then CmpInt (vMinor vx) (vMinor vy)
      else if CmpInt (vPatch vx) (vPatch vy) \<noteq> 0 then CmpInt (vPatch vx) (vPatch vy)
      else if cmp_string (vKind vx) (vKind vy) \<noteq> 0 then cmp_string (vKind vx) (vKind vy)
      else CmpInt (vPre vx) (vPre vy))"

section \<open>strconv.Unquote\<close>

text \<open>
  \<open>s, _ := strconv.Unquote(t)\<close> of a string literal: the empty string when \<open>t\<close> is no quoted string.
  A rune is written as its UTF-8 bytes. Source texts are valid UTF-8, so bytes stay as they are.
\<close>

definition utf8 :: "nat \<Rightarrow> string" where
  "utf8 r = map char_of
     (if r < 0x80 then [r]
      else if r < 0x800 then [0xC0 + r div 0x40, 0x80 + r mod 0x40]
      else if r < 0x10000 then [0xE0 + r div 0x1000, 0x80 + r div 0x40 mod 0x40, 0x80 + r mod 0x40]
      else [0xF0 + r div 0x40000, 0x80 + r div 0x1000 mod 0x40, 0x80 + r div 0x40 mod 0x40, 0x80 + r mod 0x40])"

fun number_in :: "nat \<Rightarrow> string \<Rightarrow> nat option" where
  "number_in base [] = Some 0"
| "number_in base (c # cs) =
     (case hex_value c of
        None \<Rightarrow> None
      | Some d \<Rightarrow> if d \<ge> base then None else map_option ((+) (d * base ^ length cs)) (number_in base cs))"

definition simple_escape :: "char \<Rightarrow> nat option" where
  "simple_escape c =
     map_of [(CHR ''a'', 7), (CHR ''b'', 8), (CHR ''f'', 12), (CHR ''n'', 10), (CHR ''r'', 13), (CHR ''t'', 9),
       (CHR ''v'', 11), (CHR 0x5C, 92), (CHR 0x22, 34)] c"

text \<open>The number of digits of a numeric escape, its base and whether it is a rune.\<close>

definition numeric_escape :: "char \<Rightarrow> (nat \<times> nat \<times> bool) option" where
  "numeric_escape c =
     (if c = CHR ''x'' then Some (2, 16, False)
      else if c = CHR ''u'' then Some (4, 16, True)
      else if c = CHR ''U'' then Some (8, 16, True)
      else if c \<in> set ''01234567'' then Some (3, 8, False) else None)"

function unquote_chars :: "string \<Rightarrow> string option" where
  "unquote_chars [] = None"
| "unquote_chars (c # cs) =
     (if c = CHR 0x22 then (if cs = [] then Some [] else None)
      else if c = newline then None
      else if c \<noteq> CHR 0x5C then map_option ((#) c) (unquote_chars cs)
      else case cs of
             [] \<Rightarrow> None
           | e # es \<Rightarrow>
               (case simple_escape e of
                  Some r \<Rightarrow> map_option ((#) (char_of r)) (unquote_chars es)
                | None \<Rightarrow>
                    (case numeric_escape e of
                       None \<Rightarrow> None
                     | Some (n, base, rune) \<Rightarrow>
                         let ds = (if base = 8 then cs else es) in
                         if length ds < n then None
                         else case number_in base (take n ds) of
                                None \<Rightarrow> None
                              | Some v \<Rightarrow>
                                  if rune \<and> (v > 0x10FFFF \<or> 0xD800 \<le> v \<and> v < 0xE000) \<or> \<not> rune \<and> v > 255 then None
                                  else map_option ((@) (if rune then utf8 v else [char_of v]))
                                         (unquote_chars (drop n ds)))))"
  by pat_completeness auto
termination
  by (relation "measure length") (auto simp: numeric_escape_def split: if_splits)

declare unquote_chars.simps [simp del]

definition Unquote :: "string \<Rightarrow> string" where
  "Unquote t =
     (if length t < 2 \<or> hd t \<noteq> last t then []
      else if hd t = CHR 0x60 then
        (let body = butlast (tl t) in
         if CHR 0x60 \<in> set body then [] else filter (\<lambda>c. c \<noteq> CHR 0x0D) body)
      else if hd t = CHR 0x22 then (case unquote_chars (tl t) of None \<Rightarrow> [] | Some s \<Rightarrow> s)
      else [])"

end
