(* ===== verification/Imports.thy ===== *)
theory Imports
  imports GoStrings
begin

text \<open>
  The namespace imports of a program (\<open>resolveImports\<close> of \<open>internal/compiler/generate.go\<close>): the
  resolution of import paths and the search for import cycles.
\<close>

section \<open>Import paths\<close>

definition generatedModule :: string where "generatedModule = ''ghi.generated''"

definition slashed :: "string \<Rightarrow> string" where
  \<comment> \<open>\<open>strings.ReplaceAll(name, ".", "/")\<close>\<close>
  "slashed name = map (\<lambda>c. if c = CHR ''.'' then CHR ''/'' else c) name"

definition namespacePath :: "string \<Rightarrow> string" where
  "namespacePath ns = (if ns = ''main'' then generatedModule else generatedModule @ ''/'' @ slashed ns)"

text \<open>
  A program: the namespaces in \<open>p.Ordered\<close> with the (unquoted) import paths of each file, and the
  test namespaces.
\<close>

record importProgram =
  ordered :: "(string \<times> string list list) list"
  testNamespaces :: "string set"

definition known :: "importProgram \<Rightarrow> string set" where
  "known p = set (map fst (ordered p))"

text \<open>One import of namespace \<open>ns\<close>: the imported namespace, if it is one, and the rewritten path.\<close>

definition resolveSpec :: "importProgram \<Rightarrow> string \<Rightarrow> string \<Rightarrow> (string option \<times> string) result" where
  "resolveSpec p ns path =
     (if has_prefix path ''go:'' then
        (if drop 3 path = [] then Inl ''empty Go import'' else Inr (None, drop 3 path))
      else if path \<notin> known p then Inl (''unknown namespace '' @ path @ ''; use go: for Go packages'')
      else if path = ''main'' then Inl ''importing the entry namespace main is not allowed''
      else if path \<in> testNamespaces p \<and> ns \<notin> testNamespaces p
      then Inl ''production namespaces cannot import test namespaces''
      else Inr (Some path, generatedModule @ ''/'' @ slashed path))"

fun resolveSpecs :: "importProgram \<Rightarrow> string \<Rightarrow> string list \<Rightarrow> (string list \<times> string list) result" where
  "resolveSpecs p ns [] = Inr ([], [])"
| "resolveSpecs p ns (path # paths) =
     res_bind (resolveSpec p ns path) (\<lambda>(imported, rewritten).
     res_bind (resolveSpecs p ns paths) (\<lambda>(imps, rest).
       Inr ((case imported of None \<Rightarrow> imps | Some i \<Rightarrow> i # imps), rewritten # rest)))"

fun resolveNamespaces :: "importProgram \<Rightarrow> (string \<times> string list list) list \<Rightarrow> (string \<times> string list) list result" where
  "resolveNamespaces p [] = Inr []"
| "resolveNamespaces p ((ns, files) # rest) =
     res_bind (resolveSpecs p ns (concat files)) (\<lambda>(imps, paths).
     res_bind (resolveNamespaces p rest) (\<lambda>others. Inr ((ns, imps) # others)))"

section \<open>The search for cycles\<close>

text \<open>
  \<open>visit\<close>: the state of a namespace is 0 before, 1 during and 2 after its visit. The recursion is
  as deep as the longest chain of namespaces being visited; \<^const>\<open>None\<close> is a recursion deeper than
  the fuel, which \<open>visit_fuel\<close> excludes.
\<close>

type_synonym marks = "string \<Rightarrow> nat"

fun visit :: "nat \<Rightarrow> (string \<Rightarrow> string list) \<Rightarrow> marks \<Rightarrow> string \<Rightarrow> marks result option"
  and visits :: "nat \<Rightarrow> (string \<Rightarrow> string list) \<Rightarrow> marks \<Rightarrow> string list \<Rightarrow> marks result option"
where
  "visit 0 imps state name = None"
| "visit (Suc fuel) imps state name =
     (if state name = 1 then Some (Inl (''namespace import cycle involving '' @ name))
      else if state name = 2 then Some (Inr state)
      else (case visits fuel imps (state(name := 1)) (imps name) of
              Some (Inr state') \<Rightarrow> Some (Inr (state'(name := 2)))
            | r \<Rightarrow> r))"
| "visits fuel imps state [] = Some (Inr state)"
| "visits fuel imps state (d # ds) =
     (case visit fuel imps state d of
        Some (Inr state') \<Rightarrow> visits fuel imps state' ds
      | r \<Rightarrow> r)"

definition imports_of :: "(string \<times> string list) list \<Rightarrow> string \<Rightarrow> string list" where
  "imports_of graph n = (case map_of graph n of None \<Rightarrow> [] | Some ds \<Rightarrow> ds)"

definition resolveImports :: "importProgram \<Rightarrow> (string \<times> string list) list result" where
  "resolveImports p =
     res_bind (resolveNamespaces p (ordered p)) (\<lambda>graph.
       let names = map fst (ordered p)
       in (case visits (length names + 2) (imports_of graph) (\<lambda>n. 0) names of
             Some (Inr state) \<Rightarrow> Inr graph
           | Some (Inl err) \<Rightarrow> Inl err
           | None \<Rightarrow> Inl ''fuel''))"

section \<open>Correctness of the search\<close>

definition edges :: "(string \<Rightarrow> string list) \<Rightarrow> (string \<times> string) set" where
  "edges imps = {(a, b). b \<in> set (imps a)}"

text \<open>Black namespaces import only black ones, and none of them is on a cycle.\<close>

definition black_ok :: "(string \<Rightarrow> string list) \<Rightarrow> marks \<Rightarrow> bool" where
  "black_ok imps state \<longleftrightarrow>
     (\<forall>a. state a = 2 \<longrightarrow> (\<forall>b \<in> set (imps a). state b = 2)) \<and>
     (\<forall>a. state a = 2 \<longrightarrow> (a, a) \<notin> (edges imps)\<^sup>+)"

lemma black_reach:
  "(a, b) \<in> (edges imps)\<^sup>+ \<Longrightarrow> black_ok imps state \<Longrightarrow> state a = 2 \<Longrightarrow> state b = 2"
  by (induction rule: trancl_induct) (auto simp: edges_def black_ok_def)

lemma black_ok_gray:
  "black_ok imps state \<Longrightarrow> state name \<noteq> 2 \<Longrightarrow> black_ok imps (state(name := 1))"
  by (auto simp: black_ok_def)

lemma visit_sound:
  "visit fuel imps state name = Some (Inr state') \<Longrightarrow> black_ok imps state \<Longrightarrow>
     black_ok imps state' \<and> state' name = 2 \<and> (\<forall>n. state n = 2 \<longrightarrow> state' n = 2) \<and>
     (\<forall>n. state' n = 1 \<longleftrightarrow> state n = 1)"
  "visits fuel imps state names = Some (Inr state') \<Longrightarrow> black_ok imps state \<Longrightarrow>
     black_ok imps state' \<and> (\<forall>n \<in> set names. state' n = 2) \<and> (\<forall>n. state n = 2 \<longrightarrow> state' n = 2) \<and>
     (\<forall>n. state' n = 1 \<longleftrightarrow> state n = 1)"
proof (induction fuel imps state name and fuel imps state names arbitrary: state' and state'
    rule: visit_visits.induct)
  case (2 fuel imps state name)
  show ?case
  proof (cases "state name = 2")
    case True
    with 2 show ?thesis by (auto split: if_splits)
  next
    case False
    with "2.prems"(1) have "state name \<noteq> 1" by (auto split: if_splits)
    with False "2.prems"(1) obtain s where s: "visits fuel imps (state(name := 1)) (imps name) = Some (Inr s)"
      and state': "state' = s(name := 2)" by (auto split: option.splits sum.splits)
    have "black_ok imps (state(name := 1))"
      using "2.prems"(2) False by (rule black_ok_gray)
    from "2.IH" [OF \<open>state name \<noteq> 1\<close> False s this]
    have IH: "black_ok imps s" "\<forall>n \<in> set (imps name). s n = 2"
      "\<forall>n. (state(name := 1)) n = 2 \<longrightarrow> s n = 2" "\<forall>n. s n = 1 \<longleftrightarrow> (state(name := 1)) n = 1" by auto
    have gray: "s name = 1" using IH(4) by simp
    have nocycle: "(name, name) \<notin> (edges imps)\<^sup>+"
    proof
      assume "(name, name) \<in> (edges imps)\<^sup>+"
      then obtain b where "(name, b) \<in> edges imps" "b = name \<or> (b, name) \<in> (edges imps)\<^sup>+"
        by (metis tranclD rtranclD)
      then show False using IH(1,2) gray black_reach by (fastforce simp: edges_def)
    qed
    have "black_ok imps state'"
      using IH(1,2) nocycle gray unfolding black_ok_def state' by auto
    moreover have "state' name = 2 \<and> (\<forall>n. state n = 2 \<longrightarrow> state' n = 2)"
      using IH(3) by (auto simp: state')
    moreover have "\<forall>n. state' n = 1 \<longleftrightarrow> state n = 1"
      using IH(4) \<open>state name \<noteq> 1\<close> by (auto simp: state')
    ultimately show ?thesis by blast
  qed
next
  case (4 fuel imps state d ds)
  then obtain s where "visit fuel imps state d = Some (Inr s)" "visits fuel imps s ds = Some (Inr state')"
    by (auto split: option.splits sum.splits)
  with 4 show ?case by fastforce
qed auto

lemma visit_cycle:
  "visit fuel imps state name = Some (Inl err) \<Longrightarrow> black_ok imps state \<Longrightarrow>
     \<forall>g. state g = 1 \<longrightarrow> (g, name) \<in> (edges imps)\<^sup>+ \<Longrightarrow> \<exists>n. (n, n) \<in> (edges imps)\<^sup>+"
  "visits fuel imps state names = Some (Inl err) \<Longrightarrow> black_ok imps state \<Longrightarrow>
     \<forall>g. state g = 1 \<longrightarrow> (\<forall>n \<in> set names. (g, n) \<in> (edges imps)\<^sup>+) \<Longrightarrow> \<exists>n. (n, n) \<in> (edges imps)\<^sup>+"
proof (induction fuel imps state name and fuel imps state names rule: visit_visits.induct)
  case (2 fuel imps state name)
  show ?case
  proof (cases "state name = 1")
    case True
    with "2.prems"(3) show ?thesis by blast
  next
    case False
    with "2.prems"(1) have s: "state name \<noteq> 2" "visits fuel imps (state(name := 1)) (imps name) = Some (Inl err)"
      by (auto split: if_splits option.splits sum.splits)
    have b: "black_ok imps (state(name := 1))" using "2.prems"(2) s(1) by (rule black_ok_gray)
    have "(g, n) \<in> (edges imps)\<^sup>+" if "(state(name := 1)) g = 1" "n \<in> set (imps name)" for g n
    proof (cases "g = name")
      case True
      with that(2) show ?thesis by (auto simp: edges_def)
    next
      case False
      with that(1) "2.prems"(3) have "(g, name) \<in> (edges imps)\<^sup>+" by simp
      moreover have "(name, n) \<in> edges imps" using that(2) by (simp add: edges_def)
      ultimately show ?thesis by (rule trancl_into_trancl)
    qed
    then show ?thesis by (intro "2.IH" [OF False s(1,2) b]) blast
  qed
next
  case (4 fuel imps state d ds)
  show ?case
  proof (cases "visit fuel imps state d = Some (Inl err)")
    case True
    with 4 show ?thesis by auto
  next
    case False
    with "4.prems"(1) obtain s where s: "visit fuel imps state d = Some (Inr s)" "visits fuel imps s ds = Some (Inl err)"
      by (auto split: option.splits sum.splits)
    from visit_sound(1) [OF s(1) "4.prems"(2)] have "black_ok imps s" "\<forall>n. s n = 1 \<longleftrightarrow> state n = 1" by auto
    with "4.IH"(2) [OF s(1)] s "4.prems"(3) show ?thesis by auto
  qed
qed auto

text \<open>The recursion ends: each level marks another of finitely many namespaces.\<close>

lemma visit_gray:
  "visit fuel imps state name = Some (Inr state') \<Longrightarrow> state' n = 1 \<longleftrightarrow> state n = 1"
  "visits fuel imps state names = Some (Inr state') \<Longrightarrow> state' n = 1 \<longleftrightarrow> state n = 1"
  by (induction fuel imps state name and fuel imps state names arbitrary: state' and state'
      rule: visit_visits.induct)
    (fastforce split: if_splits option.splits sum.splits)+

lemma visit_fuel:
  "finite N \<Longrightarrow> name \<in> N \<Longrightarrow> \<forall>n \<in> N. set (imps n) \<subseteq> N \<Longrightarrow> card {n \<in> N. state n \<noteq> 1} < fuel \<Longrightarrow>
     visit fuel imps state name \<noteq> None"
  "finite N \<Longrightarrow> set names \<subseteq> N \<Longrightarrow> \<forall>n \<in> N. set (imps n) \<subseteq> N \<Longrightarrow> card {n \<in> N. state n \<noteq> 1} < fuel \<Longrightarrow>
     visits fuel imps state names \<noteq> None"
proof (induction fuel imps state name and fuel imps state names rule: visit_visits.induct)
  case (2 fuel imps state name)
  show ?case
  proof (cases "state name = 1 \<or> state name = 2")
    case False
    have "{n \<in> N. (state(name := 1)) n \<noteq> 1} = {n \<in> N. state n \<noteq> 1} - {name}" by auto
    moreover have "name \<in> {n \<in> N. state n \<noteq> 1}" "finite {n \<in> N. state n \<noteq> 1}" using False 2 by auto
    ultimately have "card {n \<in> N. (state(name := 1)) n \<noteq> 1} < card {n \<in> N. state n \<noteq> 1}"
      by (simp only: card_Diff1_less)
    with "2.prems"(4) have "card {n \<in> N. (state(name := 1)) n \<noteq> 1} < fuel" by linarith
    moreover have "set (imps name) \<subseteq> N" using "2.prems"(2,3) by blast
    ultimately have "visits fuel imps (state(name := 1)) (imps name) \<noteq> None"
      using "2.IH" False "2.prems"(1,3) by blast
    with False show ?thesis by (auto split: sum.splits)
  qed auto
next
  case (4 fuel imps state d ds)
  then have "visit fuel imps state d \<noteq> None" by simp
  then obtain r where r: "visit fuel imps state d = Some r" by blast
  show ?case
  proof (cases r)
    case (Inr s)
    with r have "{n \<in> N. s n \<noteq> 1} = {n \<in> N. state n \<noteq> 1}" using visit_gray(1) by blast
    with "4.IH"(2) [OF _ Inr] r 4 Inr show ?thesis by simp
  qed (simp add: r)
qed auto

text \<open>
  The search from unmarked namespaces, with the fuel of the code's model, fails exactly when some
  namespace imports itself, directly or through others.
\<close>

lemma search_iff:
  assumes "\<forall>n \<in> set names. set (imps n) \<subseteq> set names" "\<forall>n. n \<notin> set names \<longrightarrow> imps n = []"
  shows "(\<exists>s. visits (length names + 2) imps (\<lambda>n. 0) names = Some (Inr s)) \<longleftrightarrow> acyclic (edges imps)"
    and "visits (length names + 2) imps (\<lambda>n. 0) names \<noteq> None"
proof -
  let ?r = "visits (length names + 2) imps (\<lambda>n. 0) names"
  have "card {n \<in> set names. (0::nat) \<noteq> 1} < length names + 2"
    using card_length [of names] by simp
  with visit_fuel(2) [of "set names" names imps "\<lambda>n. 0"] assms(1)
  show some: "?r \<noteq> None" by simp
  have b: "black_ok imps (\<lambda>n. 0)" by (simp add: black_ok_def)
  show "(\<exists>s. ?r = Some (Inr s)) \<longleftrightarrow> acyclic (edges imps)"
  proof
    assume "\<exists>s. ?r = Some (Inr s)"
    then obtain s where s: "black_ok imps s" "\<forall>n \<in> set names. s n = 2" using visit_sound(2) b by blast
    have "(n, n) \<notin> (edges imps)\<^sup>+" for n
    proof
      assume c: "(n, n) \<in> (edges imps)\<^sup>+"
      then obtain m where "(n, m) \<in> edges imps" by (meson tranclD)
      then have "imps n \<noteq> []" by (auto simp: edges_def)
      then have "n \<in> set names" using assms(2) by blast
      with s c show False by (simp add: black_ok_def)
    qed
    then show "acyclic (edges imps)" by (simp add: acyclic_def)
  next
    assume a: "acyclic (edges imps)"
    then have "?r \<noteq> Some (Inl e)" for e
      using visit_cycle(2) [OF _ b] by (fastforce simp: acyclic_def)
    with some show "\<exists>s. ?r = Some (Inr s)" by (metis not_None_eq sum.exhaust)
  qed
qed

section \<open>Accepted programs\<close>

definition import_ok :: "importProgram \<Rightarrow> string \<Rightarrow> string \<Rightarrow> bool" where
  "import_ok p ns i \<longleftrightarrow> i \<in> known p \<and> i \<noteq> ''main'' \<and> (i \<in> testNamespaces p \<longrightarrow> ns \<in> testNamespaces p)"

lemma resolveSpec_import: "resolveSpec p ns path = Inr (Some i, path') \<Longrightarrow> import_ok p ns i"
  by (auto simp: resolveSpec_def import_ok_def split: if_splits)

lemma resolveSpecs_imports:
  "resolveSpecs p ns paths = Inr (imps, rewritten) \<Longrightarrow> i \<in> set imps \<Longrightarrow> import_ok p ns i"
proof (induction paths arbitrary: imps rewritten)
  case (Cons path paths)
  then obtain a b imps' rest where r: "resolveSpec p ns path = Inr (a, b)"
    "resolveSpecs p ns paths = Inr (imps', rest)" "imps = (case a of None \<Rightarrow> imps' | Some i \<Rightarrow> i # imps')"
    by (auto simp: res_bind_Inr_iff)
  with Cons.prems(2) Cons.IH [OF r(2)] resolveSpec_import show ?case
    by (cases a) auto
qed simp

lemma resolveNamespaces_imports:
  "resolveNamespaces p nss = Inr graph \<Longrightarrow>
     map fst graph = map fst nss \<and> (\<forall>(ns, imps) \<in> set graph. \<forall>i \<in> set imps. import_ok p ns i)"
proof (induction nss arbitrary: graph)
  case (Cons n nss)
  obtain ns files where n: "n = (ns, files)" by fastforce
  from Cons.prems obtain imps paths others where r: "resolveSpecs p ns (concat files) = Inr (imps, paths)"
    "resolveNamespaces p nss = Inr others" "graph = (ns, imps) # others"
    by (auto simp: n res_bind_Inr_iff)
  with Cons.IH [OF r(2)] resolveSpecs_imports [OF r(1)] show ?case by (simp add: n)
qed simp


definition example_imports :: importProgram where
  "example_imports =
     \<lparr>ordered = [(''app.a'', [[''app.b'', ''go:fmt'']]), (''app.b'', [[]]), (''main'', [[''app.a'']])],
      testNamespaces = {}\<rparr>"


end
