(* ===== verification/ClassModel.thy ===== *)
theory ClassModel
  imports AstWalk Imports
begin

text \<open>
  The classes of a program (\<open>internal/compiler/class_model.go\<close>, \<open>generics.go\<close> and \<open>inheritance.go\<close>):
  names, inheritance, signatures in the scope of another class, and the checks of \<open>prepareClasses\<close>.

  Go's pointers to classes and files are indices into the lists of the program. A lookup that follows
  the parents is a \<open>partial_function\<close>: \<^const>\<open>None\<close> is a lookup that does not return, as one in a
  cycle of parents. Go's parser and printer of expressions are parameters.
\<close>

section \<open>State\<close>

record fieldDecl =
  fd_name :: string
  fd_visibility :: string
  fd_type :: expr

record functionDecl =
  fn_name :: string
  fn_pos :: string
  fn_params :: "field list"
  fn_results :: "field list option"
  fn_visibility :: string
  fn_override :: bool
  fn_owner :: nat

record classDecl =
  c_name :: string
  c_line :: nat
  c_typeParams :: "field list"
  c_parentName :: string
  c_interfaceNames :: "string list"
  c_interface :: bool
  c_fields :: "fieldDecl list"
  c_methods :: "functionDecl list"
  c_constructor :: "functionDecl option"
  c_file :: nat
  c_namespace :: string
  c_parent :: "nat option"
  c_interfaces :: "nat list"

text \<open>A file with its import specifications (a name and the unquoted path) and its type declarations.\<close>

record fileTree =
  ft_path :: string
  ft_imports :: "(string option \<times> string) list"
  ft_types :: "(string \<times> expr) list"
  ft_classes :: "nat list"

record nameSpace =
  nm_name :: string
  nm_goName :: string
  nm_files :: "nat list"

record program =
  p_ordered :: "nameSpace list"
  p_files :: "fileTree list"
  p_classes :: "classDecl list"

text \<open>\<open>parser.ParseExpr\<close>, which gives a bad expression beside its error, and \<open>expressionText\<close>.\<close>

record goText =
  parse_expr :: "string \<Rightarrow> expr result"
  expressionText :: "expr \<Rightarrow> string"

definition parsed :: "goText \<Rightarrow> string \<Rightarrow> expr" where
  "parsed go s = (case parse_expr go s of Inr e \<Rightarrow> e | Inl err \<Rightarrow> BadExpr)"

abbreviation class_at :: "program \<Rightarrow> nat \<Rightarrow> classDecl" where
  "class_at p c \<equiv> p_classes p ! c"

abbreviation file_at :: "program \<Rightarrow> nat \<Rightarrow> fileTree" where
  "file_at p f \<equiv> p_files p ! f"

definition parent :: "program \<Rightarrow> nat \<Rightarrow> nat option" where
  "parent p c = (if c < length (p_classes p) then c_parent (class_at p c) else None)"

section \<open>Names\<close>

definition declarations :: "program \<Rightarrow> (nameSpace \<times> nat \<times> nat) list" where
  "declarations p =
     concat (map (\<lambda>ns. concat (map (\<lambda>f. map (\<lambda>c. (ns, f, c)) (ft_classes (file_at p f))) (nm_files ns))) (p_ordered p))"

definition class_key :: "string \<Rightarrow> string \<Rightarrow> string" where
  "class_key ns name = ns @ ''.'' @ name"

definition classes :: "program \<Rightarrow> (string \<rightharpoonup> nat)" where
  "classes p = foldl (\<lambda>m (ns, f, c). m(class_key (nm_name ns) (c_name (class_at p c)) \<mapsto> c)) Map.empty (declarations p)"

fun genericBase :: "expr \<Rightarrow> expr \<times> expr list" where
  "genericBase (IndexExpr x i) = (x, [i])"
| "genericBase (IndexListExpr x is) = (x, is)"
| "genericBase e = (e, [])"

definition genericName :: "goText \<Rightarrow> string \<Rightarrow> string" where
  "genericName go s = (case parse_expr go s of Inl err \<Rightarrow> s | Inr e \<Rightarrow> expressionText go (fst (genericBase e)))"

definition runtimeNamespace :: string where "runtimeNamespace = ''ghi.runtime''"

text \<open>The namespaces that the imports of a file name by an alias, in the order of the two loops.\<close>

definition imported_as :: "program \<Rightarrow> nat \<Rightarrow> string \<Rightarrow> nameSpace list" where
  "imported_as p f alias =
     concat (map (\<lambda>(name, path).
       filter (\<lambda>other. path = generatedModule @ ''/'' @ slashed (nm_name other)
           \<and> (case name of None \<Rightarrow> nm_goName other | Some n \<Rightarrow> n) = alias) (p_ordered p))
       (ft_imports (file_at p f)))"

definition classNamed :: "goText \<Rightarrow> program \<Rightarrow> string \<Rightarrow> nat \<Rightarrow> string \<Rightarrow> nat option" where
  "classNamed go p text f ns =
     (let name = genericName go text in
      case classes p (class_key ns name) of
        Some c \<Rightarrow> Some c
      | None \<Rightarrow>
          (case cut_at CHR ''.'' name of (alias, local, ok) \<Rightarrow>
             if \<not> ok then
               (if name = ''Exception'' \<or> name = ''GoError'' \<or> name = ''StackFrame''
                then classes p (class_key runtimeNamespace name) else None)
             else (case imported_as p f alias of
                     [] \<Rightarrow> None
                   | other # _ \<Rightarrow> classes p (class_key (nm_name other) local))))"

definition classParameterNames :: "classDecl \<Rightarrow> string list" where
  "classParameterNames c = concat (map (\<lambda>fl. case fl of Field names t \<Rightarrow> map snd names) (c_typeParams c))"

section \<open>Members\<close>

partial_function (option) class_method :: "program \<Rightarrow> nat \<Rightarrow> string \<Rightarrow> functionDecl option option" where
  "class_method p c name =
     (case find (\<lambda>m. fn_name m = name) (c_methods (class_at p c)) of
        Some m \<Rightarrow> Some (Some m)
      | None \<Rightarrow> (case parent p c of None \<Rightarrow> Some None | Some q \<Rightarrow> class_method p q name))"

partial_function (option) class_field :: "program \<Rightarrow> nat \<Rightarrow> string \<Rightarrow> fieldDecl option option" where
  "class_field p c name =
     (case find (\<lambda>f. fd_name f = name) (c_fields (class_at p c)) of
        Some f \<Rightarrow> Some (Some f)
      | None \<Rightarrow> (case parent p c of None \<Rightarrow> Some None | Some q \<Rightarrow> class_field p q name))"

partial_function (option) allFields :: "program \<Rightarrow> nat \<Rightarrow> fieldDecl list option" where
  "allFields p c =
     Option.bind (case parent p c of None \<Rightarrow> Some [] | Some q \<Rightarrow> allFields p q)
       (\<lambda>inherited. Some (inherited @ c_fields (class_at p c)))"

text \<open>A method takes the place of the first inherited one with its name, or comes last.\<close>

fun add_method :: "functionDecl list \<Rightarrow> functionDecl \<Rightarrow> functionDecl list" where
  "add_method [] m = [m]"
| "add_method (old # rest) m = (if fn_name old = fn_name m then m # rest else old # add_method rest m)"

partial_function (option) allMethods :: "program \<Rightarrow> nat \<Rightarrow> functionDecl list option" where
  "allMethods p c =
     Option.bind (case parent p c of None \<Rightarrow> Some [] | Some q \<Rightarrow> allMethods p q)
       (\<lambda>inherited. Some (foldl add_method inherited (c_methods (class_at p c))))"

definition visibilityRank :: "string \<Rightarrow> nat" where
  "visibilityRank v = (if v = ''public'' then 2 else if v = ''protected'' then 1 else 0)"

partial_function (option) derives :: "program \<Rightarrow> nat \<Rightarrow> nat \<Rightarrow> bool option" where
  \<comment> \<open>the loop of \<open>accessible\<close> over the classes from \<open>c\<close> upwards\<close>
  "derives p owner c =
     (if c = owner then Some True
      else case parent p c of None \<Rightarrow> Some False | Some q \<Rightarrow> derives p owner q)"

definition accessible :: "program \<Rightarrow> string \<Rightarrow> nat \<Rightarrow> nat option \<Rightarrow> bool option" where
  "accessible p visibility owner caller =
     (if visibility = ''public'' then Some True
      else if caller = Some owner then Some True
      else if visibility = ''protected''
      then (case caller of None \<Rightarrow> Some False | Some c \<Rightarrow> derives p owner c)
      else Some False)"

declare class_method.simps [code] class_field.simps [code] allFields.simps [code] allMethods.simps [code]
  derives.simps [code]

section \<open>Lookups below a class without a cycle of parents\<close>

text \<open>The chain of parents of the class ends.\<close>

inductive grounded :: "program \<Rightarrow> nat \<Rightarrow> bool" for p where
  root_class: "parent p c = None \<Longrightarrow> grounded p c"
| derived_class: "parent p c = Some q \<Longrightarrow> grounded p q \<Longrightarrow> grounded p c"

text \<open>\<open>ancestor p c a\<close>: \<open>a\<close> is \<open>c\<close> or one of its ancestors.\<close>

inductive ancestor :: "program \<Rightarrow> nat \<Rightarrow> nat \<Rightarrow> bool" for p where
  itself: "ancestor p c c"
| above: "parent p c = Some q \<Longrightarrow> ancestor p q a \<Longrightarrow> ancestor p c a"

lemma grounded_parent: "grounded p c \<Longrightarrow> parent p c = Some q \<Longrightarrow> grounded p q"
  by (erule grounded.cases) auto

lemma grounded_ancestor: "ancestor p c a \<Longrightarrow> grounded p c \<Longrightarrow> grounded p a"
  by (induction rule: ancestor.induct) (auto dest: grounded_parent)

lemma method_returns: "grounded p c \<Longrightarrow> \<exists>m. class_method p c name = Some m"
  by (induction rule: grounded.induct) (auto simp: class_method.simps [of p] split: option.splits)

lemma class_field_returns: "grounded p c \<Longrightarrow> \<exists>f. class_field p c name = Some f"
  by (induction rule: grounded.induct) (auto simp: class_field.simps [of p] split: option.splits)

lemma allFields_returns: "grounded p c \<Longrightarrow> \<exists>fs. allFields p c = Some fs"
proof (induction rule: grounded.induct)
  case (root_class c)
  then show ?case by (simp add: allFields.simps [of p c])
next
  case (derived_class c q)
  then show ?case by (auto simp: allFields.simps [of p c])
qed

lemma derives_iff: "grounded p c \<Longrightarrow> derives p a c = Some (ancestor p c a)"
proof (induction rule: grounded.induct)
  case (root_class c)
  then show ?case by (auto simp: derives.simps [of p] intro: itself elim: ancestor.cases)
next
  case (derived_class c q)
  then show ?case by (auto simp: derives.simps [of p a c] intro: itself above elim: ancestor.cases)
qed

lemma find_add_method:
  "distinct (map fn_name ms) \<Longrightarrow>
   find (\<lambda>x. fn_name x = n) (add_method ms m) = (if fn_name m = n then Some m else find (\<lambda>x. fn_name x = n) ms)"
  by (induction ms) (auto simp: find_None_iff)

lemma names_add_method:
  "map fn_name (add_method ms m) =
     (if fn_name m \<in> fn_name ` set ms then map fn_name ms else map fn_name ms @ [fn_name m])"
  by (induction ms) auto

lemma add_methods:
  "distinct (map fn_name ms) \<Longrightarrow> distinct (map fn_name ds) \<Longrightarrow>
   distinct (map fn_name (foldl add_method ms ds)) \<and>
   (\<forall>n. find (\<lambda>x. fn_name x = n) (foldl add_method ms ds) =
      (case find (\<lambda>x. fn_name x = n) ds of Some m \<Rightarrow> Some m | None \<Rightarrow> find (\<lambda>x. fn_name x = n) ms))"
proof (induction ds arbitrary: ms)
  case (Cons d ds)
  have d: "distinct (map fn_name (add_method ms d))" using Cons.prems(1) by (simp add: names_add_method)
  have "find (\<lambda>x. fn_name x = fn_name d) ds = None" using Cons.prems(2)
    by (simp add: find_None_iff) (metis image_eqI)
  with Cons.IH [OF d] Cons.prems show ?case by (auto simp: find_add_method split: option.splits)
qed simp

definition distinct_members :: "program \<Rightarrow> bool" where
  "distinct_members p \<longleftrightarrow> (\<forall>c. distinct (map fn_name (c_methods (class_at p c))))"

text \<open>The methods of a class are those that a lookup finds, each once.\<close>

lemma allMethods_lookups:
  assumes "grounded p c" "\<And>a. ancestor p c a \<Longrightarrow> distinct (map fn_name (c_methods (class_at p a)))"
  shows "\<exists>ms. allMethods p c = Some ms \<and> distinct (map fn_name ms) \<and>
    (\<forall>n. class_method p c n = Some (find (\<lambda>m. fn_name m = n) ms))"
  using assms
proof (induction rule: grounded.induct)
  case (root_class c)
  have "distinct (map fn_name (c_methods (class_at p c)))" by (rule root_class(2) [OF itself])
  from add_methods [OF _ this, of "[]"] root_class show ?case
    by (simp add: allMethods.simps [of p c] class_method.simps [of p c] split: option.splits)
next
  case (derived_class c q)
  have own: "distinct (map fn_name (c_methods (class_at p c)))" by (rule derived_class.prems [OF itself])
  from derived_class obtain ms where ms: "allMethods p q = Some ms" "distinct (map fn_name ms)"
    "\<forall>n. class_method p q n = Some (find (\<lambda>m. fn_name m = n) ms)" by (meson above)
  from add_methods [OF ms(2) own] derived_class(1) ms(1,3) show ?case
    by (simp add: allMethods.simps [of p c] class_method.simps [of p c] split: option.splits)
qed

end
