(* ===== verification/LowerControl.thy ===== *)
theory LowerControl
  imports FuncLits NullFlow ClassModel
begin

text \<open>
  The lowering of exceptions and jumps (\<open>internal/compiler/control_flow.go\<close>, \<open>lowerScopedDefers\<close> of
  \<open>defer_scope.go\<close>). The exception parser turns a try statement into a call of \<open>GhiTry\<close> with function
  literals; the lowering makes it a call of the runtime's \<open>Try\<close>. A return, break or continue that
  leaves one of these literals sets the variable \<open>ghi_flow\<close> to a code and returns from the literal, and
  tests behind the call take the jump up again.

  The monad is that of \<^theory_text>\<open>AstWalk\<close>; its state is the part of \<open>controlFlow\<close> that changes. The code mutates
  the trees, here they are results. A node the code makes, or parses from a text of its own, has no position (0). The file's imports,
  which \<open>runtimeSymbol\<close> may extend, are not part of the state: the symbols are a parameter.
\<close>

section \<open>State\<close>

text \<open>\<open>flowTarget\<close>: a statement that a break or continue may leave; no continue is the code 0.\<close>

record flowTarget =
  t_label :: string
  t_depth :: nat
  breakCode :: nat
  continueCode :: nat

record returnSlot =
  rs_name :: string
  rs_type :: expr
  rs_named :: bool

text \<open>The fields of \<open>controlFlow\<close> that a lowering changes; \<open>nested\<close> and \<open>defers\<close> mark nodes of the tree.\<close>

record controlFlow =
  used :: bool
  nextCode :: nat
  nextTemp :: nat
  cf_err :: "string option"
  scopedDefer :: bool

text \<open>
  The runtime's \<open>Try\<close>, \<open>RegisterDefer\<close> and \<open>RunDefers\<close> as \<open>runtimeSymbol\<close> names them in the file, the
  types that a catch may name (\<open>catch_type\<close> below), and the text of a type.
\<close>

record lowering =
  lw_try :: expr
  lw_register :: expr
  lw_run :: expr
  lw_catchable :: "expr \<Rightarrow> bool"
  lw_text :: "expr \<Rightarrow> string"

definition intValue :: "nat \<Rightarrow> expr" where
  "intValue value = BasicLit INTLIT (decimal value)"

definition flow_name :: expr where "flow_name = Ident 0 ''ghi_flow''"

definition signalSet :: "nat \<Rightarrow> stmt" where
  "signalSet value = AssignStmt [flow_name] ASSIGN [intValue value]"

definition signalTest :: "nat \<Rightarrow> stmt list \<Rightarrow> stmt" where
  "signalTest value body = IfStmt None (BinaryExpr flow_name EQL (intValue value)) body None"

text \<open>The result variables of a function (\<open>lowerFunctionControl\<close>).\<close>

fun slot_fields :: "nat \<Rightarrow> field list \<Rightarrow> returnSlot list" where
  "slot_fields k [] = []"
| "slot_fields k (Field [] t # fs) =
     \<lparr>rs_name = ''ghi_return_'' @ decimal k, rs_type = t, rs_named = False\<rparr> # slot_fields (k + 1) fs"
| "slot_fields k (Field names t # fs) =
     map (\<lambda>(p, n). \<lparr>rs_name = n, rs_type = t, rs_named = True\<rparr>) names @ slot_fields (k + length names) fs"

definition return_slots :: "expr \<Rightarrow> returnSlot list" where
  "return_slots t = (case type_results t of None \<Rightarrow> [] | Some fs \<Rightarrow> slot_fields 0 fs)"

definition slot_names :: "returnSlot list \<Rightarrow> expr list" where
  "slot_names slots = map (\<lambda>s. Ident 0 (rs_name s)) slots"

section \<open>Steps of the lowering\<close>

definition take_codes :: "nat \<Rightarrow> (controlFlow, nat) walk" where
  "take_codes k \<sigma> = (nextCode \<sigma>, \<sigma>\<lparr>nextCode := nextCode \<sigma> + k\<rparr>)"

definition fail_with :: "string \<Rightarrow> 'a \<Rightarrow> (controlFlow, 'a) walk" where
  "fail_with message x \<sigma> = (x, \<sigma>\<lparr>cf_err := Some message\<rparr>)"

definition loop_target :: "string \<Rightarrow> nat \<Rightarrow> nat \<Rightarrow> flowTarget" where
  "loop_target label d k = \<lparr>t_label = label, t_depth = d, breakCode = k, continueCode = k + 1\<rparr>"

definition switch_target :: "string \<Rightarrow> nat \<Rightarrow> nat \<Rightarrow> flowTarget" where
  "switch_target label d k = \<lparr>t_label = label, t_depth = d, breakCode = k, continueCode = 0\<rparr>"

text \<open>The innermost target of a jump.\<close>

definition target_code :: "token \<Rightarrow> flowTarget \<Rightarrow> nat" where
  "target_code tok t = (if tok = CONTINUE then continueCode t else breakCode t)"

definition find_target :: "flowTarget list \<Rightarrow> token \<Rightarrow> string option \<Rightarrow> flowTarget option" where
  "find_target targets tok l =
     find (\<lambda>t. (l = None \<or> l = Some (t_label t)) \<and> (tok = CONTINUE \<longrightarrow> continueCode t \<noteq> 0)) (rev targets)"

definition lower_branch ::
  "nat \<Rightarrow> flowTarget list \<Rightarrow> nat \<Rightarrow> token \<Rightarrow> string option \<Rightarrow> (controlFlow, stmt list) walk"
where
  "lower_branch d targets p tok l =
     (if tok = BREAK \<or> tok = CONTINUE then
        (case find_target targets tok l of
           Some t \<Rightarrow>
             return_walk (if t_depth t \<noteq> d then [signalSet (target_code tok t), ReturnStmt 0 []]
                          else [BranchStmt p tok l])
         | None \<Rightarrow>
             fail_with ((if tok = BREAK then ''break'' else ''continue'') @ '' has no matching enclosing target'') [BranchStmt p tok l])
      else return_walk [BranchStmt p tok l])"

text \<open>A return at depth \<open>d\<close> with its lowered values.\<close>

definition lower_return :: "returnSlot list \<Rightarrow> nat \<Rightarrow> nat \<Rightarrow> expr list \<Rightarrow> (controlFlow, stmt list) walk" where
  "lower_return slots d p es =
     (if d = 0 then return_walk [ReturnStmt p es]
      else if es = [] then
        (if list_all rs_named slots then return_walk [signalSet 1, ReturnStmt 0 []]
         else fail_with ''return requires a value'' [signalSet 1, ReturnStmt 0 []])
      else if slots = [] then fail_with ''return value in a function without results'' [ReturnStmt p es]
      else return_walk [AssignStmt (slot_names slots) ASSIGN es, signalSet 1, ReturnStmt 0 []])"

text \<open>The tests behind a call of \<open>Try\<close>, from the innermost target outwards.\<close>

definition target_label :: "flowTarget \<Rightarrow> string option" where
  "target_label t = (if t_label t = '''' then None else Some (t_label t))"

fun flow_tests :: "nat \<Rightarrow> bool \<Rightarrow> bool \<Rightarrow> flowTarget list \<Rightarrow> stmt list" where
  "flow_tests d emittedBreak emittedContinue [] = []"
| "flow_tests d emittedBreak emittedContinue (t # ts) =
     (if t_depth t \<noteq> d then flow_tests d emittedBreak emittedContinue ts
      else
        (if \<not> emittedBreak \<or> target_label t \<noteq> None
         then [signalTest (breakCode t) [signalSet 0, BranchStmt 0 BREAK (target_label t)]] else []) @
        (if continueCode t \<noteq> 0 \<and> (\<not> emittedContinue \<or> target_label t \<noteq> None)
         then [signalTest (continueCode t) [signalSet 0, BranchStmt 0 CONTINUE (target_label t)]] else []) @
        flow_tests d True (emittedContinue \<or> continueCode t \<noteq> 0) ts)"

definition leave_test :: "returnSlot list \<Rightarrow> nat \<Rightarrow> stmt" where
  "leave_test slots d =
     (if d > 0 then IfStmt None (BinaryExpr flow_name NEQ (intValue 0)) [ReturnStmt 0 []] None
      else signalTest 1 [ReturnStmt 0 (slot_names slots)])"

text \<open>
  The assertions of \<open>ghi_caught\<close> in a handler must name exception types; \<open>bad_catch\<close> gives the texts of those
  that do not, and the last of them makes the error.
\<close>

definition bad_catch :: "lowering \<Rightarrow> node \<Rightarrow> string list \<times> bool" where
  "bad_catch W n =
     (case n of
        NE (TypeAssertExpr (Ident p x) t) \<Rightarrow>
          (if x = ''ghi_caught'' \<and> \<not> (case t of None \<Rightarrow> False | Some e \<Rightarrow> lw_catchable W e)
           then [case t of None \<Rightarrow> [] | Some e \<Rightarrow> lw_text W e] else [], True)
      | _ \<Rightarrow> ([], True))"

definition check_catches :: "lowering \<Rightarrow> nat \<Rightarrow> stmt list \<Rightarrow> (controlFlow, unit) walk" where
  "check_catches W i b =
     (let bad = concat (map (\<lambda>s. inspect (bad_catch W) (NS s)) b)
      in if i = 1 \<and> bad \<noteq> []
         then fail_with (''catch type '' @ last bad @ '' must derive from Exception'') () else return_walk ())"

text \<open>A type that a catch may name: a class with the runtime's \<open>Exception\<close> among its ancestors.\<close>

definition catch_type :: "goText \<Rightarrow> program \<Rightarrow> nat \<Rightarrow> string \<Rightarrow> expr \<Rightarrow> bool" where
  "catch_type go p f ns t =
     (case (classNamed go p (expressionText go t) f ns, classes p (class_key runtimeNamespace ''Exception'')) of
        (Some c, Some exception) \<Rightarrow> derives p exception c = Some True
      | _ \<Rightarrow> False)"

text \<open>What the code puts before the body of a handler (1) and of a finalizer (2).\<close>

definition saved_name :: "nat \<Rightarrow> string" where
  "saved_name k = ''ghi_saved_'' @ decimal k"

definition restore_flow :: "string \<Rightarrow> stmt" where
  "restore_flow n = signalTest 0 [AssignStmt [flow_name] ASSIGN [Ident 0 n]]"

definition finalizer_prefix :: "nat \<Rightarrow> stmt list" where
  "finalizer_prefix k =
     [AssignStmt [Ident 0 (saved_name k)] DEFINE [flow_name], signalSet 0,
      DeferStmt (CallExpr (FuncLit 0 (FuncType [] [] None) [restore_flow (saved_name k)]) [] False)]"

definition literal_prefix :: "nat \<Rightarrow> (controlFlow, stmt list) walk" where
  "literal_prefix i \<sigma> =
     (if i = 1 then ([signalSet 0], \<sigma>)
      else if i = 2 then (finalizer_prefix (nextTemp \<sigma> + 1), \<sigma>\<lparr>nextTemp := nextTemp \<sigma> + 1\<rparr>)
      else ([], \<sigma>))"

definition defers_name :: expr where
  "defers_name = UnaryExpr AND (Ident 0 ''ghi_defers'')"

text \<open>\<open>lowerScopedDefers\<close>: what takes the place of a defer, and what comes before the body.\<close>

definition register_defer :: "lowering \<Rightarrow> expr \<Rightarrow> stmt" where
  "register_defer W e =
     ExprStmt (CallExpr (lw_register W) [defers_name, FuncLit 0 (FuncType [] [] None) [DeferStmt e]] False)"

definition scoped_prefix :: "lowering \<Rightarrow> stmt list" where
  "scoped_prefix W =
     [DeclStmt VAR [ValueSpec [(0, ''ghi_defers'')] (Some (ArrayType None (FuncType [] [] None))) []],
      DeferStmt (CallExpr (lw_run W) [defers_name] False)]"

definition slot_decl :: "string \<Rightarrow> expr \<Rightarrow> stmt" where
  "slot_decl n t = DeclStmt VAR [ValueSpec [(0, n)] (Some t) []]"

definition flow_prefix :: "returnSlot list \<Rightarrow> stmt list" where
  "flow_prefix slots =
     slot_decl ''ghi_flow'' (Ident 0 ''int'') #
     map (\<lambda>s. slot_decl (rs_name s) (rs_type s)) (filter (\<lambda>s. \<not> rs_named s) slots)"

definition unreachable_panic :: stmt where
  "unreachable_panic =
     ExprStmt (CallExpr (Ident 0 ''panic'') [BasicLit STRING (CHR 0x22 # ''unreachable Ghi control flow'' @ [CHR 0x22])] False)"

definition fresh_flow :: controlFlow where
  "fresh_flow = \<lparr>used = False, nextCode = 2, nextTemp = 0, cf_err = None, scopedDefer = False\<rparr>"

section \<open>The lowering\<close>

text \<open>
  \<open>block\<close> is \<open>lower_list\<close> over the statements, \<open>expressions\<close> is \<open>rewrite_lits\<close> with
  \<open>lowerFunctionControl\<close>, which has a state of its own and leaves its error in the state of the caller.
  The parameter \<open>scoped\<close> says whether the defers of the function are registered in \<open>ghi_defers\<close>: the
  code knows it when it has lowered the body and then replaces the defer statements it has collected.
\<close>

definition lower_list :: "('a \<Rightarrow> ('s, 'b list) walk) \<Rightarrow> 'a list \<Rightarrow> ('s, 'b list) walk" where
  "lower_list f xs = then_walk (walk_seq (map f xs)) (\<lambda>ys. return_walk (concat ys))"

lemma lower_list_cong [fundef_cong]:
  "xs = ys \<Longrightarrow> s = r \<Longrightarrow> (\<And>x q. x \<in> set ys \<Longrightarrow> f x q = g x q) \<Longrightarrow> lower_list f xs s = lower_list g ys r"
proof -
  assume "xs = ys" "s = r" "\<And>x q. x \<in> set ys \<Longrightarrow> f x q = g x q"
  then have "map f xs = map g ys" by (auto intro: ext)
  with \<open>s = r\<close> show ?thesis by (simp add: lower_list_def)
qed

definition lower_seq :: "('a \<Rightarrow> ('s, 'b) walk) \<Rightarrow> 'a list \<Rightarrow> ('s, 'b list) walk" where
  "lower_seq f xs = walk_seq (map f xs)"

lemma lower_seq_cong [fundef_cong]:
  "xs = ys \<Longrightarrow> s = r \<Longrightarrow> (\<And>x q. x \<in> set ys \<Longrightarrow> f x q = g x q) \<Longrightarrow> lower_seq f xs s = lower_seq g ys r"
proof -
  assume "xs = ys" "s = r" "\<And>x q. x \<in> set ys \<Longrightarrow> f x q = g x q"
  then have "map f xs = map g ys" by (auto intro: ext)
  with \<open>s = r\<close> show ?thesis by (simp add: lower_seq_def)
qed

definition lower_opt :: "('a \<Rightarrow> ('s, 'b) walk) \<Rightarrow> 'a option \<Rightarrow> ('s, 'b option) walk" where
  "lower_opt f x = walk_opt (map_option f x)"

lemma lower_opt_cong [fundef_cong]:
  "x = y \<Longrightarrow> s = r \<Longrightarrow> (\<And>z q. y = Some z \<Longrightarrow> f z q = g z q) \<Longrightarrow> lower_opt f x s = lower_opt g y r"
  by (cases y) (auto simp: lower_opt_def Let_def)

lemma then_walk_cong [fundef_cong]:
  "s = r \<Longrightarrow> m r = m' r \<Longrightarrow> (\<And>x q. k x q = k' x q) \<Longrightarrow> then_walk m k s = then_walk m' k' r"
  by (auto simp: then_walk_def split: prod.splits)

text \<open>\<open>simple\<close>: a statement of a header.\<close>

definition simple_result :: "stmt \<Rightarrow> stmt list \<Rightarrow> (controlFlow, stmt) walk" where
  "simple_result s out =
     (case out of [x] \<Rightarrow> return_walk x | _ \<Rightarrow> fail_with ''statement header requires a simple statement'' s)"

text \<open>The error of a nested function.\<close>

definition nested_result :: "stmt list \<times> string option \<Rightarrow> (controlFlow, stmt list) walk" where
  "nested_result r \<sigma> = (fst r, case snd r of None \<Rightarrow> \<sigma> | Some e \<Rightarrow> \<sigma>\<lparr>cf_err := Some e\<rparr>)"

text \<open>The body of a lowered function with its declarations.\<close>

definition function_result ::
  "lowering \<Rightarrow> returnSlot list \<Rightarrow> bool \<Rightarrow> bool \<Rightarrow> stmt list \<times> controlFlow \<Rightarrow> stmt list \<times> string option"
where
  "function_result W slots scoped terminates r =
     (let b = fst r; \<sigma> = snd r in
      if cf_err \<sigma> \<noteq> None then (b, cf_err \<sigma>)
      else
        let b1 = (if scoped then scoped_prefix W @ b else b)
        in (if used \<sigma>
            then flow_prefix slots @ b1 @ (if slots \<noteq> [] \<and> terminates then [unreachable_panic] else [])
            else b1, None))"

fun spec_values_with :: "(expr \<Rightarrow> ('s, expr) walk) \<Rightarrow> spec \<Rightarrow> ('s, spec) walk" where
  "spec_values_with f (ValueSpec names t vs) = then_walk (lower_seq f vs) (\<lambda>vs. return_walk (ValueSpec names t vs))"
| "spec_values_with f sp = return_walk sp"

lemma spec_values_with_cong [fundef_cong]:
  "sp = sq \<Longrightarrow> s = r \<Longrightarrow> (\<And>x q. x \<in> set (spec_exprs sq) \<Longrightarrow> f x q = g x q) \<Longrightarrow>
     spec_values_with f sp s = spec_values_with g sq r"
  by (cases sq) (auto intro!: then_walk_cong lower_seq_cong)

lemma enumerate_part [ast_size]: "(i, a) \<in> set (List.enumerate k xs) \<Longrightarrow> size a < size_list size xs"
  by (auto simp: in_set_enumerate_eq intro!: size_list_mem nth_mem)

function (sequential)
  lower_stmt :: "lowering \<Rightarrow> returnSlot list \<Rightarrow> bool \<Rightarrow> nat \<Rightarrow> flowTarget list \<Rightarrow> string \<Rightarrow> stmt \<Rightarrow> controlFlow \<Rightarrow>
    stmt list \<times> controlFlow"
  and lower_arg :: "lowering \<Rightarrow> returnSlot list \<Rightarrow> bool \<Rightarrow> nat \<Rightarrow> flowTarget list \<Rightarrow> nat \<Rightarrow> expr \<Rightarrow> controlFlow \<Rightarrow>
    expr \<times> controlFlow"
  and expressions :: "lowering \<Rightarrow> expr \<Rightarrow> controlFlow \<Rightarrow> expr \<times> controlFlow"
  and lowerFunctionControl :: "lowering \<Rightarrow> expr \<Rightarrow> stmt list \<Rightarrow> stmt list \<times> string option"
where
  "lower_stmt W R sc d T l (ExprStmt x) \<sigma> =
     (case x of
        CallExpr f args v \<Rightarrow>
          if callNamed x ''GhiTry'' \<noteq> None
          then then_walk (lower_seq (\<lambda>ia. lower_arg W R sc d T (fst ia) (snd ia)) (List.enumerate 0 args)) (\<lambda>args.
            return_walk (ExprStmt (CallExpr (lw_try W) args v) #
              flow_tests d False False (rev T) @ [leave_test R d])) (\<sigma>\<lparr>used := True\<rparr>)
          else then_walk (expressions W x) (\<lambda>x. return_walk [ExprStmt x]) \<sigma>
      | _ \<Rightarrow> then_walk (expressions W x) (\<lambda>x. return_walk [ExprStmt x]) \<sigma>)"
| "lower_stmt W R sc d T l (ReturnStmt p es) \<sigma> = then_walk (lower_seq (expressions W) es) (lower_return R d p) \<sigma>"
| "lower_stmt W R sc d T l (BranchStmt p tok lab) \<sigma> = lower_branch d T p tok lab \<sigma>"
| "lower_stmt W R sc d T l (BlockStmt b) \<sigma> =
     then_walk (lower_list (lower_stmt W R sc d T '''') b) (\<lambda>b. return_walk [BlockStmt b]) \<sigma>"
| "lower_stmt W R sc d T l (IfStmt i c b e) \<sigma> =
     then_walk (lower_opt (\<lambda>s. then_walk (lower_stmt W R sc d T '''' s) (simple_result s)) i) (\<lambda>i.
     then_walk (expressions W c) (\<lambda>c.
     then_walk (lower_list (lower_stmt W R sc d T '''') b) (\<lambda>b.
     then_walk (lower_opt (\<lambda>s. then_walk (lower_stmt W R sc d T '''' s) (\<lambda>out. return_walk (hd out))) e) (\<lambda>e.
       return_walk [IfStmt i c b e])))) \<sigma>"
| "lower_stmt W R sc d T l (ForStmt i c p b) \<sigma> =
     then_walk (lower_opt (\<lambda>s. then_walk (lower_stmt W R sc d T '''' s) (simple_result s)) i) (\<lambda>i.
     then_walk (lower_opt (\<lambda>s. then_walk (lower_stmt W R sc d T '''' s) (simple_result s)) p) (\<lambda>p.
     then_walk (lower_opt (expressions W) c) (\<lambda>c.
     then_walk (take_codes 2) (\<lambda>k.
     then_walk (lower_list (lower_stmt W R sc d (T @ [loop_target l d k]) '''') b) (\<lambda>b.
       return_walk [ForStmt i c p b]))))) \<sigma>"
| "lower_stmt W R sc d T l (RangeStmt k v tok x b) \<sigma> =
     then_walk (lower_opt (expressions W) k) (\<lambda>k.
     then_walk (lower_opt (expressions W) v) (\<lambda>v.
     then_walk (expressions W x) (\<lambda>x.
     then_walk (take_codes 2) (\<lambda>n.
     then_walk (lower_list (lower_stmt W R sc d (T @ [loop_target l d n]) '''') b) (\<lambda>b.
       return_walk [RangeStmt k v tok x b]))))) \<sigma>"
| "lower_stmt W R sc d T l (SwitchStmt i t b) \<sigma> =
     then_walk (lower_opt (\<lambda>s. then_walk (lower_stmt W R sc d T '''' s) (simple_result s)) i) (\<lambda>i.
     then_walk (lower_opt (expressions W) t) (\<lambda>t.
     then_walk (take_codes 1) (\<lambda>k.
     then_walk (lower_list (lower_stmt W R sc d (T @ [switch_target l d k]) '''') b) (\<lambda>b.
       return_walk [SwitchStmt i t b])))) \<sigma>"
| "lower_stmt W R sc d T l (TypeSwitchStmt i a b) \<sigma> =
     then_walk (lower_opt (\<lambda>s. then_walk (lower_stmt W R sc d T '''' s) (simple_result s)) i) (\<lambda>i.
     then_walk (then_walk (lower_stmt W R sc d T '''' a) (simple_result a)) (\<lambda>a.
     then_walk (take_codes 1) (\<lambda>k.
     then_walk (lower_list (lower_stmt W R sc d (T @ [switch_target l d k]) '''') b) (\<lambda>b.
       return_walk [TypeSwitchStmt i a b])))) \<sigma>"
| "lower_stmt W R sc d T l (SelectStmt b) \<sigma> =
     then_walk (take_codes 1) (\<lambda>k.
     then_walk (lower_list (lower_stmt W R sc d (T @ [switch_target l d k]) '''') b) (\<lambda>b.
       return_walk [SelectStmt b])) \<sigma>"
| "lower_stmt W R sc d T l (CaseClause es b) \<sigma> =
     then_walk (lower_opt (lower_seq (expressions W)) es) (\<lambda>es.
     then_walk (lower_list (lower_stmt W R sc d T '''') b) (\<lambda>b. return_walk [CaseClause es b])) \<sigma>"
| "lower_stmt W R sc d T l (CommClause c b) \<sigma> =
     then_walk (lower_opt (\<lambda>s. then_walk (lower_stmt W R sc d T '''' s) (simple_result s)) c) (\<lambda>c.
     then_walk (lower_list (lower_stmt W R sc d T '''') b) (\<lambda>b. return_walk [CommClause c b])) \<sigma>"
| "lower_stmt W R sc d T l (LabeledStmt lab s) \<sigma> =
     then_walk (lower_stmt W R sc d T lab s) (\<lambda>out.
       return_walk [LabeledStmt lab (case out of [x] \<Rightarrow> x | _ \<Rightarrow> BlockStmt out)]) \<sigma>"
| "lower_stmt W R sc d T l (AssignStmt xs tok ys) \<sigma> =
     then_walk (lower_seq (expressions W) xs) (\<lambda>xs.
     then_walk (lower_seq (expressions W) ys) (\<lambda>ys. return_walk [AssignStmt xs tok ys])) \<sigma>"
| "lower_stmt W R sc d T l (DeclStmt tok specs) \<sigma> =
     then_walk (lower_seq (spec_values_with (expressions W)) specs) (\<lambda>specs. return_walk [DeclStmt tok specs]) \<sigma>"
| "lower_stmt W R sc d T l (DeferStmt e) \<sigma> =
     then_walk (expressions W e) (\<lambda>e \<sigma>.
       ([if sc then register_defer W e else DeferStmt e], \<sigma>\<lparr>scopedDefer := scopedDefer \<sigma> \<or> d > 0\<rparr>)) \<sigma>"
| "lower_stmt W R sc d T l (GoStmt e) \<sigma> = then_walk (expressions W e) (\<lambda>e. return_walk [GoStmt e]) \<sigma>"
| "lower_stmt W R sc d T l (SendStmt c v) \<sigma> =
     then_walk (expressions W c) (\<lambda>c. then_walk (expressions W v) (\<lambda>v. return_walk [SendStmt c v])) \<sigma>"
| "lower_stmt W R sc d T l (IncDecStmt e tok) \<sigma> = then_walk (expressions W e) (\<lambda>e. return_walk [IncDecStmt e tok]) \<sigma>"
| "lower_stmt W R sc d T l s \<sigma> = ([s], \<sigma>)"
| "lower_arg W R sc d T i (FuncLit p t b) \<sigma> =
     then_walk (check_catches W i b) (\<lambda>_.
     then_walk (lower_list (lower_stmt W R sc (d + 1) T '''') b) (\<lambda>b.
     then_walk (literal_prefix i) (\<lambda>pre. return_walk (FuncLit p t (pre @ b))))) \<sigma>"
| "lower_arg W R sc d T i e \<sigma> = (e, \<sigma>)"
| "expressions W e \<sigma> = rewrite_lits (\<lambda>p t b. nested_result (lowerFunctionControl W t b)) e \<sigma>"
| "lowerFunctionControl W t b =
     (let R = return_slots t;
          r = lower_list (lower_stmt W R False 0 [] '''') b fresh_flow;
          scoped = scopedDefer (snd r)
      in function_result W R scoped (blockTerminates b)
           (if scoped then lower_list (lower_stmt W R True 0 [] '''') b fresh_flow else r))"
  by pat_completeness auto
termination
  by (relation "measure (\<lambda>x. case x of Inl (Inl (W, R, sc, d, T, l, s, \<sigma>)) \<Rightarrow> size s
      | Inl (Inr (W, R, sc, d, T, i, e, \<sigma>)) \<Rightarrow> size e | Inr (Inl (W, e, \<sigma>)) \<Rightarrow> size e | Inr (Inr (W, t, b)) \<Rightarrow> size_list size b)")
    (auto dest: ast_size simp: callNamed_def split: expr.splits)

section \<open>lowerControl\<close>

text \<open>
  The global values of a file first, then its functions, methods and constructors in their order; the
  first error ends it.
\<close>

fun lower_values :: "lowering \<Rightarrow> decl \<Rightarrow> (controlFlow, decl) walk" where
  "lower_values W (GenDecl tok specs) =
     then_walk (lower_seq (spec_values_with (expressions W)) specs) (\<lambda>specs. return_walk (GenDecl tok specs))"
| "lower_values W d = return_walk d"

definition lower_function :: "lowering \<Rightarrow> expr \<times> stmt list option \<Rightarrow> string + (expr \<times> stmt list option)" where
  "lower_function W fn =
     (case snd fn of
        None \<Rightarrow> Inr fn
      | Some b \<Rightarrow>
          (case lowerFunctionControl W (fst fn) b of
             (b1, None) \<Rightarrow> Inr (fst fn, Some b1)
           | (b1, Some err) \<Rightarrow> Inl err))"

fun lower_decl :: "lowering \<Rightarrow> decl \<Rightarrow> string + decl" where
  "lower_decl W (FuncDecl recv p name t body) =
     (case lower_function W (t, body) of Inl err \<Rightarrow> Inl err | Inr fn \<Rightarrow> Inr (FuncDecl recv p name t (snd fn)))"
| "lower_decl W d = Inr d"

fun until_error :: "('a \<Rightarrow> 'e + 'b) \<Rightarrow> 'a list \<Rightarrow> 'e + 'b list" where
  "until_error f [] = Inr []"
| "until_error f (x # xs) =
     (case f x of
        Inl err \<Rightarrow> Inl err
      | Inr y \<Rightarrow> (case until_error f xs of Inl err \<Rightarrow> Inl err | Inr ys \<Rightarrow> Inr (y # ys)))"

text \<open>A file: \<open>Unit.Native\<close>, the symbols in it, its declarations, the methods and constructors of its classes.\<close>

record controlFile =
  fl_native :: bool
  fl_lowering :: lowering
  fl_decls :: "decl list"
  fl_methods :: "(expr \<times> stmt list option) list"

definition lower_file :: "controlFile \<Rightarrow> string + controlFile" where
  "lower_file f =
     (if fl_native f then Inr f
      else
        (case lower_seq (lower_values (fl_lowering f)) (fl_decls f) fresh_flow of
           (ds, \<sigma>) \<Rightarrow>
             (case cf_err \<sigma> of
                Some err \<Rightarrow> Inl err
              | None \<Rightarrow>
                  (case until_error (lower_decl (fl_lowering f)) ds of
                     Inl err \<Rightarrow> Inl err
                   | Inr ds1 \<Rightarrow>
                       (case until_error (lower_function (fl_lowering f)) (fl_methods f) of
                          Inl err \<Rightarrow> Inl err
                        | Inr ms \<Rightarrow> Inr (f\<lparr>fl_decls := ds1, fl_methods := ms\<rparr>))))))"

definition lowerControl :: "controlFile list \<Rightarrow> string + controlFile list" where
  "lowerControl files = until_error lower_file files"

end
