(* ===== verification/ControlRuns.thy ===== *)
theory ControlRuns
  imports LowerControl
begin

text \<open>
  What the lowering of \<^theory_text>\<open>LowerControl\<close> must keep: the runs of a function. \<open>run\<close> is an interpreter of
  statements for the language before and after the lowering: try statements (calls of \<open>GhiTry\<close>), the
  runtime's \<open>Try\<close> as \<open>runtime_emit.go\<close> has it, and the statements with which the lowering steers.

  What expressions and simple statements compute is left to an environment: it sees all that has been
  evaluated so far and answers each evaluation, with an exception (0), another panic (1), or a value from
  2 on, which decides conditions, iterations and clauses. An evaluation is shown by its syntax
  without the bodies of its function literals, which are functions of their own. The number \<open>n\<close> bounds
  the iterations of a loop; a run that needs more is \<^const>\<open>None\<close>. A goto has no meaning here.

  The callback that the lowering registers for a defer is a marker: after type checking
  \<open>captureScopedDefer\<close> makes it evaluate the call's operands when it is registered, as a defer does. The
  interpreter runs it with that meaning.
\<close>

section \<open>State\<close>

datatype outcome = Norm | Throw | Fault | Ret | Brk "string option" | Cont "string option" | Fall

datatype deferred = Deferred node | Restore string | RunAll

text \<open>
  The history, latest first; the variable \<open>ghi_flow\<close> as the text of its number; the variables
  \<open>ghi_saved\<close> of the function literal; its deferred calls, latest first; the list \<open>ghi_defers\<close>.
\<close>

record run_state =
  history :: "node list"
  flow :: string
  saved :: "string \<Rightarrow> string"
  frame :: "deferred list"
  registered :: "node list"

type_synonym run_result = "(outcome \<times> run_state) option"
type_synonym environment = "node list \<Rightarrow> nat"

definition raises :: "outcome \<Rightarrow> bool" where
  "raises r \<longleftrightarrow> r = Throw \<or> r = Fault"

definition and_then :: "run_result \<Rightarrow> (run_state \<Rightarrow> run_result) \<Rightarrow> run_result" where
  "and_then r k = (case r of None \<Rightarrow> None | Some (o1, s) \<Rightarrow> if o1 = Norm then k s else Some (o1, s))"

definition ask :: "environment \<Rightarrow> node \<Rightarrow> (nat \<Rightarrow> run_state \<Rightarrow> run_result) \<Rightarrow> run_state \<Rightarrow> run_result" where
  "ask \<rho> ev k s =
     (let h = ev # history s; s1 = s\<lparr>history := h\<rparr>; a = \<rho> h
      in if a = 0 then Some (Throw, s1) else if a = 1 then Some (Fault, s1) else k (a - 2) s1)"

definition eval :: "environment \<Rightarrow> node \<Rightarrow> run_state \<Rightarrow> run_result" where
  "eval \<rho> ev = ask \<rho> ev (\<lambda>a s. Some (Norm, s))"

section \<open>Syntax that is evaluated\<close>

definition strip :: "expr \<Rightarrow> expr" where
  "strip e = fst (rewrite_lits (\<lambda>p t b u. ([], u)) e ())"

fun strip_spec :: "spec \<Rightarrow> spec" where
  "strip_spec (ValueSpec names t vs) = ValueSpec names t (map strip vs)"
| "strip_spec sp = sp"

text \<open>Simple statements, and the heads of the others.\<close>

fun strip_stmt :: "stmt \<Rightarrow> stmt" where
  "strip_stmt (ExprStmt x) = ExprStmt (strip x)"
| "strip_stmt (SendStmt c v) = SendStmt (strip c) (strip v)"
| "strip_stmt (IncDecStmt e tok) = IncDecStmt (strip e) tok"
| "strip_stmt (AssignStmt l tok r) = AssignStmt (map strip l) tok (map strip r)"
| "strip_stmt (GoStmt e) = GoStmt (strip e)"
| "strip_stmt (DeferStmt e) = DeferStmt (strip e)"
| "strip_stmt (DeclStmt tok specs) = DeclStmt tok (map strip_spec specs)"
| "strip_stmt s = EmptyStmt"

fun clause_head :: "stmt \<Rightarrow> stmt" where
  "clause_head (CaseClause l b) = CaseClause (map_option (map strip) l) []"
| "clause_head (CommClause c b) = CommClause (map_option strip_stmt c) []"
| "clause_head s = EmptyStmt"

fun clause_stmts :: "stmt \<Rightarrow> stmt list" where
  "clause_stmts (CaseClause l b) = b"
| "clause_stmts (CommClause c b) = b"
| "clause_stmts s = []"

section \<open>The statements of the lowering\<close>

datatype action = SetFlow string | SaveFlow string | DeclareFlow string | DeferRestore string | DeferRun | Register expr

fun restored :: "stmt list \<Rightarrow> string option" where
  "restored [IfStmt i c [AssignStmt l tok [Ident p n]] e] =
     (if IfStmt i c [AssignStmt l tok [Ident p n]] e = restore_flow n then Some n else None)"
| "restored b = None"

definition action_of :: "lowering \<Rightarrow> stmt \<Rightarrow> action option" where
  "action_of W s =
     (case s of
        AssignStmt l tok r \<Rightarrow>
          if l = [flow_name] \<and> tok = ASSIGN then (case r of [BasicLit k v] \<Rightarrow> Some (SetFlow v) | _ \<Rightarrow> None)
          else if r = [flow_name] \<and> tok = DEFINE then (case l of [Ident p n] \<Rightarrow> Some (SaveFlow n) | _ \<Rightarrow> None)
          else None
      | DeclStmt tok [ValueSpec [(p, n)] t []] \<Rightarrow> if p = 0 then Some (DeclareFlow n) else None
      | DeferStmt (CallExpr f args v) \<Rightarrow>
          (case f of
             FuncLit p t b \<Rightarrow> if p = 0 then map_option DeferRestore (restored b) else None
           | _ \<Rightarrow> if strip f = strip (lw_run W) then Some DeferRun else None)
      | ExprStmt (CallExpr f [x, FuncLit p t [DeferStmt e]] v) \<Rightarrow>
          if strip f = strip (lw_register W) then Some (Register e) else None
      | _ \<Rightarrow> None)"

definition deferred_call :: "expr \<Rightarrow> node" where
  "deferred_call e = NS (ExprStmt (strip e))"

definition act :: "environment \<Rightarrow> action \<Rightarrow> run_state \<Rightarrow> run_result" where
  "act \<rho> a s =
     (case a of
        SetFlow v \<Rightarrow> Some (Norm, s\<lparr>flow := v\<rparr>)
      | SaveFlow n \<Rightarrow> Some (Norm, s\<lparr>saved := (saved s)(n := flow s)\<rparr>)
      | DeclareFlow n \<Rightarrow> Some (Norm, if n = ''ghi_flow'' then s\<lparr>flow := ''0''\<rparr> else s)
      | DeferRestore n \<Rightarrow> Some (Norm, s\<lparr>frame := Restore n # frame s\<rparr>)
      | DeferRun \<Rightarrow> Some (Norm, s\<lparr>frame := RunAll # frame s\<rparr>)
      | Register e \<Rightarrow> and_then (eval \<rho> (NS (DeferStmt (strip e))) s)
          (\<lambda>s. Some (Norm, s\<lparr>registered := deferred_call e # registered s\<rparr>)))"

definition flow_test :: "expr \<Rightarrow> (bool \<times> string) option" where
  "flow_test c =
     (case c of BinaryExpr x op (BasicLit k v) \<Rightarrow> if x = flow_name then Some (op = EQL, v) else None | _ \<Rightarrow> None)"

text \<open>A call of \<open>GhiTry\<close> (\<^const>\<open>False\<close>) or of the runtime's \<open>Try\<close> with its three arguments.\<close>

fun try_call :: "lowering \<Rightarrow> expr \<Rightarrow> (bool \<times> stmt list \<times> stmt list option \<times> stmt list option) option" where
  "try_call W (CallExpr f [FuncLit p t b, h, fin] v) =
     (if callNamed (CallExpr f [] v) ''GhiTry'' \<noteq> None then Some (False, b, funcLitBody h, funcLitBody fin)
      else if strip f = strip (lw_try W) then Some (True, b, funcLitBody h, funcLitBody fin) else None)"
| "try_call W e = None"

section \<open>Exceptions and deferred calls\<close>

text \<open>
  The end of a try statement: an exception in the finalizer replaces what came before it, and so does a
  jump out of the finalizer, except that it does not stop an exception.
\<close>

definition after_finally :: "outcome \<Rightarrow> outcome \<Rightarrow> outcome" where
  "after_finally r r1 = (if r1 = Norm \<or> raises r \<and> \<not> raises r1 then r else r1)"

definition run_try ::
  "(run_state \<Rightarrow> run_result) \<Rightarrow> (run_state \<Rightarrow> run_result) option \<Rightarrow> (run_state \<Rightarrow> run_result) option \<Rightarrow> run_state \<Rightarrow> run_result"
where
  "run_try body handler finalizer s =
     (case body s of
        None \<Rightarrow> None
      | Some (r, s1) \<Rightarrow>
          (case (case handler of Some h \<Rightarrow> if r = Throw then h s1 else Some (r, s1) | None \<Rightarrow> Some (r, s1)) of
             None \<Rightarrow> None
           | Some (r2, s2) \<Rightarrow>
               (case finalizer of
                  None \<Rightarrow> Some (r2, s2)
                | Some f \<Rightarrow> (case f s2 of None \<Rightarrow> None | Some (r3, s3) \<Rightarrow> Some (after_finally r2 r3, s3)))))"

text \<open>
  A deferred call may raise, or recover (from 3 on); \<open>RunDefers\<close> runs the calls of \<open>ghi_defers\<close> with the
  panic under way.
\<close>

definition run_deferred :: "environment \<Rightarrow> node \<Rightarrow> outcome \<times> run_state \<Rightarrow> outcome \<times> run_state" where
  "run_deferred \<rho> ev x =
     (let h = ev # history (snd x); a = \<rho> h
      in (if a = 0 then Throw else if a = 1 then Fault else if a = 2 \<or> \<not> raises (fst x) then fst x else Ret,
          (snd x)\<lparr>history := h\<rparr>))"

definition run_exit :: "environment \<Rightarrow> deferred \<Rightarrow> outcome \<times> run_state \<Rightarrow> outcome \<times> run_state" where
  "run_exit \<rho> d x =
     (case d of
        Deferred ev \<Rightarrow> run_deferred \<rho> ev x
      | Restore n \<Rightarrow> (fst x, if flow (snd x) = ''0'' then (snd x)\<lparr>flow := saved (snd x) n\<rparr> else snd x)
      | RunAll \<Rightarrow> fold (run_deferred \<rho>) (registered (snd x)) x)"

text \<open>A call of a function literal: its own deferred calls and variables, and no jump leaves it.\<close>

definition run_literal :: "environment \<Rightarrow> (run_state \<Rightarrow> run_result) \<Rightarrow> run_state \<Rightarrow> run_result" where
  "run_literal \<rho> body s =
     (case body (s\<lparr>frame := []\<rparr>) of
        None \<Rightarrow> None
      | Some (r, s1) \<Rightarrow>
          (case fold (run_exit \<rho>) (frame s1) (r, s1) of
             (r2, s2) \<Rightarrow> Some (if raises r2 then r2 else Norm, s2\<lparr>frame := frame s, saved := saved s\<rparr>)))"

section \<open>Loops\<close>

definition own_jump :: "string \<Rightarrow> string option \<Rightarrow> bool" where
  "own_jump label l \<longleftrightarrow> l = None \<or> l = Some label"

text \<open>A break of the statement itself ends it; a continue of the loop itself ends the iteration.\<close>

definition leave :: "string \<Rightarrow> run_result \<Rightarrow> run_result" where
  "leave label = map_option (\<lambda>(r, s). (case r of Brk l \<Rightarrow> if own_jump label l then Norm else r | _ \<Rightarrow> r, s))"

definition next_round :: "string \<Rightarrow> run_result \<Rightarrow> run_result" where
  "next_round label = map_option (\<lambda>(r, s). (case r of Cont l \<Rightarrow> if own_jump label l then Norm else r | _ \<Rightarrow> r, s))"

primrec iterate :: "nat \<Rightarrow> (run_state \<Rightarrow> run_result) \<Rightarrow> run_state \<Rightarrow> run_result" where
  "iterate 0 round s = None"
| "iterate (Suc n) round s = and_then (round s) (iterate n round)"

primrec run_seq :: "('a \<Rightarrow> run_state \<Rightarrow> run_result) \<Rightarrow> 'a list \<Rightarrow> run_state \<Rightarrow> run_result" where
  "run_seq g [] s = Some (Norm, s)"
| "run_seq g (x # xs) s = and_then (g x s) (run_seq g xs)"

primrec run_opt :: "('a \<Rightarrow> run_state \<Rightarrow> run_result) \<Rightarrow> 'a option \<Rightarrow> run_state \<Rightarrow> run_result" where
  "run_opt g None s = Some (Norm, s)"
| "run_opt g (Some x) s = g x s"

text \<open>Clauses from the chosen one on, as long as they fall through.\<close>

primrec run_clauses :: "('a \<Rightarrow> run_state \<Rightarrow> run_result) \<Rightarrow> 'a list \<Rightarrow> run_state \<Rightarrow> run_result" where
  "run_clauses g [] s = Some (Norm, s)"
| "run_clauses g (x # xs) s =
     (case g x s of
        None \<Rightarrow> None
      | Some (r, s1) \<Rightarrow> if r = Fall then run_clauses g xs s1 else Some (r, s1))"

lemma run_seq_cong [fundef_cong]:
  "xs = ys \<Longrightarrow> s = r \<Longrightarrow> (\<And>x q. x \<in> set ys \<Longrightarrow> g x q = h x q) \<Longrightarrow> run_seq g xs s = run_seq h ys r"
proof (induction xs arbitrary: ys s r)
  case (Cons x xs)
  then show ?case by (cases ys) (auto simp: and_then_def split: option.splits)
qed simp

lemma run_opt_cong [fundef_cong]:
  "x = y \<Longrightarrow> s = r \<Longrightarrow> (\<And>z q. y = Some z \<Longrightarrow> g z q = h z q) \<Longrightarrow> run_opt g x s = run_opt h y r"
  by (cases x) auto

lemma run_clauses_cong [fundef_cong]:
  "xs = ys \<Longrightarrow> s = r \<Longrightarrow> (\<And>x q. x \<in> set ys \<Longrightarrow> g x q = h x q) \<Longrightarrow> run_clauses g xs s = run_clauses h ys r"
proof (induction xs arbitrary: ys s r)
  case (Cons x xs)
  then show ?case by (cases ys) (auto split: option.splits)
qed simp

section \<open>The interpreter\<close>

text \<open>What the result variables of the function are, the environment and the bound on iterations.\<close>

record run_context =
  rc_names :: lowering
  rc_slots :: "expr list"
  rc_env :: environment
  rc_bound :: nat

definition always_raises :: "expr \<Rightarrow> outcome option" where
  "always_raises x =
     (if callNamed x ''GhiThrow'' \<noteq> None then Some Throw else if callNamed x ''panic'' \<noteq> None then Some Fault else None)"

text \<open>A body of a try statement, or the function literal that it is.\<close>

definition run_body ::
  "run_context \<Rightarrow> bool \<Rightarrow> (stmt \<Rightarrow> run_state \<Rightarrow> run_result) \<Rightarrow> stmt list \<Rightarrow> run_state \<Rightarrow> run_result"
where
  "run_body C literal g b = (if literal then run_literal (rc_env C) (run_seq g b) else run_seq g b)"

lemma run_body_cong [fundef_cong]:
  "b = c \<Longrightarrow> (\<And>x q. x \<in> set c \<Longrightarrow> g x q = h x q) \<Longrightarrow> run_body C literal g b = run_body C literal h c"
proof -
  assume "b = c" "\<And>x q. x \<in> set c \<Longrightarrow> g x q = h x q"
  then have "run_seq g b = run_seq h c" by (intro ext run_seq_cong) auto
  then show ?thesis by (simp add: run_body_def)
qed

text \<open>A round of a loop, if its condition holds or there is a next element.\<close>

definition loop_round :: "run_context \<Rightarrow> node option \<Rightarrow> (run_state \<Rightarrow> run_result) \<Rightarrow> run_state \<Rightarrow> run_result" where
  "loop_round C condition round s =
     (case condition of
        None \<Rightarrow> round s
      | Some ev \<Rightarrow> ask (rc_env C) ev (\<lambda>a s. if a \<noteq> 0 then round s else Some (Brk None, s)) s)"

text \<open>The body and the post statement of a for loop.\<close>

definition for_round ::
  "string \<Rightarrow> (stmt \<Rightarrow> run_state \<Rightarrow> run_result) \<Rightarrow> stmt list \<Rightarrow> stmt option \<Rightarrow> run_state \<Rightarrow> run_result"
where
  "for_round label g b post s = and_then (next_round label (run_seq g b s)) (run_opt g post)"

lemma for_round_cong [fundef_cong]:
  "b = c \<Longrightarrow> post = q \<Longrightarrow> (\<And>x r. x \<in> set c \<Longrightarrow> g x r = h x r) \<Longrightarrow> (\<And>x r. q = Some x \<Longrightarrow> g x r = h x r) \<Longrightarrow>
     for_round label g b post = for_round label h c q"
proof -
  assume "b = c" "post = q" "\<And>x r. x \<in> set c \<Longrightarrow> g x r = h x r" "\<And>x r. q = Some x \<Longrightarrow> g x r = h x r"
  then have "run_seq g b = run_seq h c" "run_opt g post = run_opt h q" by (auto intro!: ext run_seq_cong run_opt_cong)
  then show ?thesis by (auto simp: for_round_def)
qed

definition simple_run :: "run_context \<Rightarrow> stmt \<Rightarrow> run_state \<Rightarrow> run_result" where
  "simple_run C s =
     (case action_of (rc_names C) s of Some a \<Rightarrow> act (rc_env C) a | None \<Rightarrow> eval (rc_env C) (NS (strip_stmt s)))"

definition push_deferred :: "expr \<Rightarrow> run_state \<Rightarrow> run_result" where
  "push_deferred e s = Some (Norm, s\<lparr>frame := Deferred (deferred_call e) # frame s\<rparr>)"

definition jump_outcome :: "token \<Rightarrow> string option \<Rightarrow> outcome option" where
  "jump_outcome tok l =
     (if tok = BREAK then Some (Brk l) else if tok = CONTINUE then Some (Cont l)
      else if tok = FALLTHROUGH then Some Fall else None)"

lemma try_call_size:
  assumes "try_call W x = Some (literal, b, h, fin)"
  shows "size_list size b < size x" "h = Some c \<Longrightarrow> size_list size c < size x" "fin = Some c \<Longrightarrow> size_list size c < size x"
  using assms funcLitBody_size
  by (auto elim!: try_call.elims split: if_splits dest!: sym [of "Some c"]; fastforce dest: funcLitBody_size)+

lemma try_stmt_size:
  assumes "try_call W x = Some (literal, b, h, fin)"
  shows "s \<in> set b \<Longrightarrow> size s < size x" "h = Some c \<Longrightarrow> s \<in> set c \<Longrightarrow> size s < size x"
    "fin = Some c \<Longrightarrow> s \<in> set c \<Longrightarrow> size s < size x"
  using try_call_size [OF assms] by (metis less_trans size_list_mem)+

lemma clause_stmts_size: "c \<in> set (drop a b) \<Longrightarrow> s \<in> set (clause_stmts c) \<Longrightarrow> size s < size_list size b"
  by (rule less_trans [of _ "size c"]) (cases c; auto dest!: in_set_dropD dest: size_list_mem)+

function (sequential) run :: "run_context \<Rightarrow> string \<Rightarrow> stmt \<Rightarrow> run_state \<Rightarrow> run_result" where
  "run C label (ExprStmt x) s =
     (case try_call (rc_names C) x of
        Some (literal, b, h, fin) \<Rightarrow>
          run_try (run_body C literal (run C '''') b)
            (map_option (run_body C literal (run C '''')) h) (map_option (run_body C literal (run C '''')) fin) s
      | None \<Rightarrow>
          (case always_raises x of
             Some r \<Rightarrow> and_then (eval (rc_env C) (NS (ExprStmt (strip x))) s) (\<lambda>s. Some (r, s))
           | None \<Rightarrow> simple_run C (ExprStmt x) s))"
| "run C label (ReturnStmt p es) s =
     (if es = [] \<or> es = rc_slots C then Some (Ret, s)
      else and_then (eval (rc_env C) (NS (AssignStmt (rc_slots C) ASSIGN (map strip es))) s) (\<lambda>s. Some (Ret, s)))"
| "run C label (BranchStmt p tok l) s = map_option (\<lambda>r. (r, s)) (jump_outcome tok l)"
| "run C label (BlockStmt b) s = run_seq (run C '''') b s"
| "run C label (IfStmt i c b e) s =
     and_then (run_opt (run C '''') i s) (\<lambda>s.
       case flow_test c of
         Some (eq, v) \<Rightarrow> if (flow s = v) = eq then run_seq (run C '''') b s else run_opt (run C '''') e s
       | None \<Rightarrow> ask (rc_env C) (NE (strip c)) (\<lambda>a s.
           if a \<noteq> 0 then run_seq (run C '''') b s else run_opt (run C '''') e s) s)"
| "run C label (ForStmt i c p b) s =
     and_then (run_opt (run C '''') i s) (\<lambda>s.
       leave label (iterate (rc_bound C) (loop_round C (map_option (\<lambda>e. NE (strip e)) c)
         (for_round label (run C '''') b p)) s))"
| "run C label (RangeStmt k v tok x b) s =
     and_then (eval (rc_env C) (NE (strip x)) s) (\<lambda>s.
       leave label (iterate (rc_bound C)
         (loop_round C (Some (NS (RangeStmt (map_option strip k) (map_option strip v) tok (strip x) [])))
           (\<lambda>s. next_round label (run_seq (run C '''') b s))) s))"
| "run C label (SwitchStmt i t b) s =
     and_then (run_opt (run C '''') i s)
       (ask (rc_env C) (NS (SwitchStmt None (map_option strip t) (map clause_head b))) (\<lambda>a s.
         leave label (run_clauses (\<lambda>c. run_seq (run C '''') (clause_stmts c)) (drop a b) s)))"
| "run C label (TypeSwitchStmt i x b) s =
     and_then (run_opt (run C '''') i s) (\<lambda>s.
     and_then (run C '''' x s)
       (ask (rc_env C) (NS (TypeSwitchStmt None EmptyStmt (map clause_head b))) (\<lambda>a s.
         leave label (run_clauses (\<lambda>c. run_seq (run C '''') (clause_stmts c)) (drop a b) s))))"
| "run C label (SelectStmt b) s =
     ask (rc_env C) (NS (SelectStmt (map clause_head b))) (\<lambda>a s.
       leave label (run_clauses (\<lambda>c. run_seq (run C '''') (clause_stmts c)) (drop a b) s)) s"
| "run C label (LabeledStmt l x) s = run C l x s"
| "run C label (DeferStmt e) s =
     (if action_of (rc_names C) (DeferStmt e) = None
      then and_then (eval (rc_env C) (NS (DeferStmt (strip e))) s) (push_deferred e)
      else simple_run C (DeferStmt e) s)"
| "run C label (CaseClause l b) s = Some (Norm, s)"
| "run C label (CommClause l b) s = Some (Norm, s)"
| "run C label EmptyStmt s = Some (Norm, s)"
| "run C label BadStmt s = Some (Norm, s)"
| "run C label x s = simple_run C x s"
  by pat_completeness auto
termination
  by (relation "measure (\<lambda>(C, label, x, s). size x)")
    (auto dest: try_stmt_size clause_stmts_size size_list_mem simp: less_Suc_eq)

section \<open>Functions\<close>

definition first_state :: run_state where
  "first_state = \<lparr>history = [], flow = ''0'', saved = (\<lambda>n. ''0''), frame = [], registered = []\<rparr>"

text \<open>How a call of a function ends: normally or by an exception or panic, with what it evaluated.\<close>

definition function_end :: "outcome \<Rightarrow> outcome" where
  "function_end r = (if raises r then r else Ret)"

definition run_function :: "lowering \<Rightarrow> expr list \<Rightarrow> environment \<Rightarrow> nat \<Rightarrow> stmt list \<Rightarrow> (outcome \<times> node list) option" where
  "run_function W slots \<rho> n b =
     (case run_seq (run \<lparr>rc_names = W, rc_slots = slots, rc_env = \<rho>, rc_bound = n\<rparr> '''') b first_state of
        None \<Rightarrow> None
      | Some (r, s) \<Rightarrow>
          (case fold (run_exit \<rho>) (frame s) (r, s) of (r1, s1) \<Rightarrow> Some (function_end r1, history s1)))"

end
