(* ===== verification/ControlKeeps.thy ===== *)
theory ControlKeeps
  imports ControlRuns
begin

text \<open>
  What the lowering of \<^theory_text>\<open>LowerControl\<close> keeps of expressions and statements, and of its own state.
\<close>

section \<open>Expressions\<close>

lemma walk_seq_unit: "(\<And>x. x \<in> set xs \<Longrightarrow> f x () = (h x, ())) \<Longrightarrow> walk_seq (map f xs) () = (map h xs, ())"
  by (induction xs) auto

lemma walk_opt_unit: "(\<And>x. y = Some x \<Longrightarrow> f x () = (h x, ())) \<Longrightarrow> walk_opt (map_option f y) () = (map_option h y, ())"
  by (cases y) auto

lemma walk_unit: "m () = (fst (m ()), ())"
  by (cases "m ()") auto

definition strip_field :: "field \<Rightarrow> field" where
  "strip_field f = fst (rewrite_field (\<lambda>p t b u. ([], u)) f ())"

lemma strip_walk:
  "rewrite_lits (\<lambda>p t b u. ([], u)) e () = (strip e, ())"
  "rewrite_field (\<lambda>p t b u. ([], u)) f () = (strip_field f, ())"
  unfolding strip_def strip_field_def by (rule walk_unit)+

lemma walk_opts_unit:
  "(\<And>x. f x () = (h x, ())) \<Longrightarrow>
     walk_opt (map_option walk_seq (map_option (map f) y)) () = (map_option (map h) y, ())"
  using walk_seq_unit [of "the y" f h] by (cases y) auto

lemma strip_simps [simp]:
  "strip BadExpr = BadExpr"
  "strip (Ident p n) = Ident p n"
  "strip (BasicLit k v) = BasicLit k v"
  "strip (FuncLit p t b) = FuncLit p t []"
  "strip (Ellipsis eo) = Ellipsis (map_option strip eo)"
  "strip (CompositeLit eo es) = CompositeLit (map_option strip eo) (map strip es)"
  "strip (ParenExpr x) = ParenExpr (strip x)"
  "strip (SelectorExpr x p n) = SelectorExpr (strip x) p n"
  "strip (IndexExpr x i) = IndexExpr (strip x) (strip i)"
  "strip (IndexListExpr x es) = IndexListExpr (strip x) (map strip es)"
  "strip (SliceExpr x ao bo co) = SliceExpr (strip x) (map_option strip ao) (map_option strip bo) (map_option strip co)"
  "strip (TypeAssertExpr x eo) = TypeAssertExpr (strip x) (map_option strip eo)"
  "strip (CallExpr x es dots) = CallExpr (strip x) (map strip es) dots"
  "strip (StarExpr p x) = StarExpr p (strip x)"
  "strip (UnaryExpr op x) = UnaryExpr op (strip x)"
  "strip (BinaryExpr x op y) = BinaryExpr (strip x) op (strip y)"
  "strip (KeyValueExpr x y) = KeyValueExpr (strip x) (strip y)"
  "strip (ArrayType eo x) = ArrayType (map_option strip eo) (strip x)"
  "strip (StructType fs) = StructType (map strip_field fs)"
  "strip (FuncType tp ps rs) = FuncType (map strip_field tp) (map strip_field ps) (map_option (map strip_field) rs)"
  "strip (InterfaceType fs) = InterfaceType (map strip_field fs)"
  "strip (MapType x y) = MapType (strip x) (strip y)"
  "strip (ChanType dir x) = ChanType dir (strip x)"
  "strip_field (Field names x) = Field names (strip x)"
  unfolding strip_def [of "_ :: expr"] strip_field_def [of "Field names x"]
  by (simp_all add: then_walk_def return_walk_def walk_seq_unit walk_opt_unit walk_opts_unit strip_walk
      del: option.map_comp)

lemma strip_shapes [simp]:
  "strip e = Ident p n \<longleftrightarrow> e = Ident p n"
  "strip e = BasicLit k v \<longleftrightarrow> e = BasicLit k v"
  by (cases e; simp)+

lemma strip_shape_funcs:
  "strip e = FuncLit p t b \<longleftrightarrow> b = [] \<and> (\<exists>c. e = FuncLit p t c)"
  "strip e = CallExpr f es v \<longleftrightarrow> (\<exists>g ds. e = CallExpr g ds v \<and> strip g = f \<and> map strip ds = es)"
  "strip e = BinaryExpr x op y \<longleftrightarrow> (\<exists>a b. e = BinaryExpr a op b \<and> strip a = x \<and> strip b = y)"
  by (cases e; auto)+

text \<open>Rewriting the bodies of literals leaves what is evaluated.\<close>

definition strips_to :: "('s, 'a) walk \<Rightarrow> ('a \<Rightarrow> 'b) \<Rightarrow> 'b \<Rightarrow> bool" where
  "strips_to m f y \<longleftrightarrow> (\<forall>s. f (fst (m s)) = y)"

lemma strips_then: "strips_to m f y \<Longrightarrow> (\<And>x. f x = y \<Longrightarrow> strips_to (k x) h z) \<Longrightarrow> strips_to (then_walk m k) h z"
  unfolding strips_to_def then_walk_def by (auto simp: Let_def split_beta)

lemma strips_return: "f x = y \<Longrightarrow> strips_to (return_walk x) f y"
  by (simp add: strips_to_def return_walk_def)

lemma strips_seq: "(\<And>x. x \<in> set xs \<Longrightarrow> strips_to (g x) f (f x)) \<Longrightarrow> strips_to (walk_seq (map g xs)) (map f) (map f xs)"
  unfolding strips_to_def by (induction xs) (auto simp: split_beta)

lemma strips_opt:
  "(\<And>x. x \<in> set (opt_list y) \<Longrightarrow> strips_to (g x) f (f x)) \<Longrightarrow>
     strips_to (walk_opt (map_option g y)) (map_option f) (map_option f y)"
  unfolding strips_to_def by (cases y) (auto simp: split_beta opt_list_def)

lemma strips_opts:
  "(\<And>x. x \<in> set (concat (opt_list y)) \<Longrightarrow> strips_to (g x) f (f x)) \<Longrightarrow>
     strips_to (walk_opt (map_option walk_seq (map_option (map g) y))) (map_option (map f)) (map_option (map f) y)"
  using strips_seq [of "the y" g f] by (cases y) (auto simp: strips_to_def split_beta opt_list_def)

lemma strips_literal: "strips_to (then_walk m (\<lambda>b. return_walk (FuncLit p t b))) strip (strip (FuncLit p t c))"
  by (simp add: strips_to_def then_walk_def return_walk_def split_beta)

lemmas strips_rules = strips_literal strips_then strips_seq strips_opt strips_opts strips_return

lemma strips_lits:
  "strips_to (rewrite_lits g e) strip (strip e)"
  "strips_to (rewrite_field g f) strip_field (strip_field f)"
proof (induction e and f rule: lits_field_lits.induct)
qed (simp_all only: rewrite_lits.simps rewrite_field.simps, (rule strips_rules | assumption | simp; fail)+)

lemma strip_rewrite [simp]: "strip (fst (rewrite_lits g e s)) = strip e"
  using strips_lits(1) [of g e] by (simp add: strips_to_def)

declare expressions.simps [simp del] lowerFunctionControl.simps [simp del] lower_arg.simps [simp del]

lemma strip_expressions [simp]: "strip (fst (expressions W e \<sigma>)) = strip e"
  by (simp add: expressions.simps)

lemma expressions_strip: "expressions W e \<sigma> = (x, \<sigma>1) \<Longrightarrow> strip x = strip e"
  using strip_expressions [of W e \<sigma>] by simp

lemma strip_twice [simp]: "strip (strip e) = strip e"
  using strip_rewrite [of _ e "()"] strip_walk(1) [of e] by (metis fst_conv)

lemma callNamed_strip [simp]: "callNamed (strip x) n = None \<longleftrightarrow> callNamed x n = None"
  by (cases x) (auto simp: callNamed_def strip_shape_funcs split: expr.splits)

lemma always_raises_strip [simp]: "always_raises (strip x) = always_raises x"
  by (simp add: always_raises_def)

lemma flow_test_strip [simp]: "flow_test (strip x) = flow_test x"
  by (cases x) (auto simp: flow_test_def flow_name_def strip_shape_funcs split: expr.splits)

section \<open>Statements of a source\<close>

text \<open>Simple statements that the lowering did not make.\<close>

definition user_stmt :: "lowering \<Rightarrow> stmt \<Rightarrow> bool" where
  "user_stmt W s =
     (case s of
        AssignStmt l tok r \<Rightarrow> l \<noteq> [flow_name] \<and> r \<noteq> [flow_name]
      | DeclStmt tok specs \<Rightarrow>
          list_all (\<lambda>sp. case sp of ValueSpec names t vs \<Rightarrow> list_all (\<lambda>(p, n). p \<noteq> 0) names | _ \<Rightarrow> True) specs
      | DeferStmt (CallExpr f args v) \<Rightarrow>
          (case f of FuncLit p t b \<Rightarrow> p \<noteq> 0 | _ \<Rightarrow> strip f \<noteq> strip (lw_run W))
      | ExprStmt (CallExpr f args v) \<Rightarrow> strip f \<noteq> strip (lw_register W) \<and> strip f \<noteq> strip (lw_try W)
      | _ \<Rightarrow> True)"

lemma user_stmt_action: "user_stmt W s \<Longrightarrow> action_of W s = None"
  by (auto simp: user_stmt_def action_of_def split: stmt.splits expr.splits list.splits spec.splits option.splits prod.splits)

lemma map_strip_flow: "map strip l = [flow_name] \<longleftrightarrow> l = [flow_name]"
  by (cases l) (auto simp: flow_name_def)

lemma user_assign: "map strip l = map strip l' \<Longrightarrow> map strip r = map strip r' \<Longrightarrow>
    user_stmt W (AssignStmt l tok r) = user_stmt W (AssignStmt l' tok r')"
  unfolding user_stmt_def stmt.case by (metis map_strip_flow)

lemma user_expr [simp]: "user_stmt W (ExprStmt (strip x)) = user_stmt W (ExprStmt x)"
  by (cases x) (simp_all add: user_stmt_def)

lemma case_literal: "(case strip f of FuncLit p t b \<Rightarrow> A p | _ \<Rightarrow> B) = (case f of FuncLit p t b \<Rightarrow> A p | _ \<Rightarrow> B)"
  by (cases f) simp_all

lemma user_defer [simp]: "user_stmt W (DeferStmt (strip x)) = user_stmt W (DeferStmt x)"
  by (cases x) (simp_all only: strip_simps user_stmt_def stmt.case expr.case case_literal strip_twice)

section \<open>The state\<close>

text \<open>An error stays, codes only grow, and so do the two flags.\<close>

definition grows :: "controlFlow \<Rightarrow> controlFlow \<Rightarrow> bool" where
  "grows \<sigma> \<sigma>' \<longleftrightarrow> (cf_err \<sigma> \<noteq> None \<longrightarrow> cf_err \<sigma>' \<noteq> None) \<and> nextCode \<sigma> \<le> nextCode \<sigma>' \<and>
     (scopedDefer \<sigma> \<longrightarrow> scopedDefer \<sigma>') \<and> (used \<sigma> \<longrightarrow> used \<sigma>')"

lemma grows_refl [simp]: "grows \<sigma> \<sigma>"
  by (simp add: grows_def)

lemma grows_transitive: "grows \<sigma> \<sigma>1 \<Longrightarrow> grows \<sigma>1 \<sigma>2 \<Longrightarrow> grows \<sigma> \<sigma>2"
  by (auto simp: grows_def)

definition growing :: "(controlFlow, 'a) walk \<Rightarrow> bool" where
  "growing m \<longleftrightarrow> (\<forall>\<sigma>. grows \<sigma> (snd (m \<sigma>)))"

named_theorems growing_rules \<open>steps of the lowering that let its state grow\<close>

lemma growing_then [growing_rules]: "growing m \<Longrightarrow> (\<And>x. growing (k x)) \<Longrightarrow> growing (then_walk m k)"
  unfolding growing_def then_walk_def by (auto simp: split_beta intro: grows_transitive)

lemma growing_return [growing_rules]: "growing (return_walk x)"
  by (simp add: growing_def return_walk_def)

lemma growing_pair [growing_rules]: "growing (Pair x)"
  by (simp add: growing_def)

lemma growing_seq: "(\<And>x. x \<in> set xs \<Longrightarrow> growing (f x)) \<Longrightarrow> growing (walk_seq (map f xs))"
proof (induction xs)
  case (Cons x xs)
  then have "growing (then_walk (f x) (\<lambda>y. then_walk (walk_seq (map f xs)) (\<lambda>ys. return_walk (y # ys))))"
    by (intro growing_rules) auto
  then show ?case by (simp add: growing_def then_walk_def return_walk_def split_beta)
qed (simp add: growing_def)

lemma growing_list [growing_rules]:
  "(\<And>x. x \<in> set xs \<Longrightarrow> growing (f x)) \<Longrightarrow> growing (lower_list f xs)"
  "(\<And>x. x \<in> set xs \<Longrightarrow> growing (g x)) \<Longrightarrow> growing (lower_seq g xs)"
  unfolding lower_list_def lower_seq_def by (intro growing_then growing_seq growing_return; assumption)+

lemma growing_opt [growing_rules]: "(\<And>x. y = Some x \<Longrightarrow> growing (f x)) \<Longrightarrow> growing (lower_opt f y)"
  by (cases y) (simp_all add: lower_opt_def growing_def split_beta)

lemma growing_walk_opt: "(\<And>x. x \<in> set (opt_list y) \<Longrightarrow> growing (f x)) \<Longrightarrow> growing (walk_opt (map_option f y))"
  by (cases y) (simp_all add: growing_def split_beta opt_list_def)

lemma growing_walk_opts:
  "(\<And>x. x \<in> set (concat (opt_list y)) \<Longrightarrow> growing (f x)) \<Longrightarrow>
     growing (walk_opt (map_option walk_seq (map_option (map f) y)))"
  using growing_seq [of "the y" f] by (cases y) (simp_all add: growing_def split_beta opt_list_def)

lemma growing_steps [growing_rules]:
  "growing (take_codes k)" "growing (fail_with message x)" "growing (literal_prefix i)" "growing (nested_result r)"
  "growing (check_catches W i b)" "growing (simple_result s out)" "growing (lower_branch d T p tok l)"
  "growing (lower_return R d p es)"
  by (auto simp: growing_def take_codes_def fail_with_def literal_prefix_def nested_result_def grows_def check_catches_def Let_def
      simple_result_def lower_branch_def lower_return_def return_walk_def split: list.splits option.splits)

lemma growing_specs [growing_rules]: "(\<And>x. growing (f x)) \<Longrightarrow> growing (spec_values_with f sp)"
  by (cases sp) (auto intro!: growing_rules)

lemma growing_lits:
  "(\<And>p t b. growing (g p t b)) \<Longrightarrow> growing (rewrite_lits g e)"
  "(\<And>p t b. growing (g p t b)) \<Longrightarrow> growing (rewrite_field g f)"
proof (induction e and f rule: lits_field_lits.induct)
qed (simp_all only: rewrite_lits.simps rewrite_field.simps,
  (rule growing_then growing_seq growing_walk_opt growing_walk_opts growing_return | assumption | simp; fail)+)

lemma growing_expressions [growing_rules]: "growing (expressions W e)"
proof -
  have "expressions W e = rewrite_lits (\<lambda>p t b. nested_result (lowerFunctionControl W t b)) e"
    by (rule ext) (rule expressions.simps)
  then show ?thesis by (simp add: growing_lits growing_steps)
qed

lemma growingD: "growing m \<Longrightarrow> grows \<sigma> (snd (m \<sigma>))"
  by (simp add: growing_def)

lemma growing_arg:
  "(\<And>p t b s d. e = FuncLit p t b \<Longrightarrow> s \<in> set b \<Longrightarrow> growing (lower_stmt W R sc d T '''' s)) \<Longrightarrow>
     growing (lower_arg W R sc d T i e)"
  by (cases e) (auto simp: growing_def lower_arg.simps intro!: growingD growing_rules)

lemma growing_stmt: "growing (lower_stmt W R sc d T l s)"
proof (induction s arbitrary: sc d T l rule: measure_induct_rule [where f = size])
  case (less s)
  have list: "growing (lower_list (lower_stmt W R sc d T '''') b)" if "size_list size b < size s" for d T b
    using less that by (intro growing_list) (meson less_trans size_list_mem)
  have opt: "growing (lower_opt (\<lambda>x. then_walk (lower_stmt W R sc d T '''' x) (k x)) i)"
    if "size_option size i < size s" "\<And>x y. growing (k x y)" for d T i and k :: "stmt \<Rightarrow> stmt list \<Rightarrow> (controlFlow, 'a) walk"
    using less that by (intro growing_opt growing_then) auto
  show ?case unfolding growing_def
  proof
    fix \<sigma>
    show "grows \<sigma> (snd (lower_stmt W R sc d T l s \<sigma>))"
    proof (cases s)
      case (ExprStmt x)
      show ?thesis
      proof (cases "callNamed x ''GhiTry''")
        case None
        then have "lower_stmt W R sc d T l s \<sigma> = then_walk (expressions W x) (\<lambda>x. return_walk [ExprStmt x]) \<sigma>"
          using ExprStmt by (cases x) simp_all
        then show ?thesis by (simp only:) (intro growingD growing_rules)
      next
        case (Some as)
        then obtain f v where x: "x = CallExpr f as v" by (auto simp: callNamed_def split: expr.splits if_splits)
        have arg: "growing (lower_arg W R sc d T (fst ia) (snd ia))" if "ia \<in> set (List.enumerate 0 as)" for ia
        proof (rule growing_arg)
          fix p t b y d
          assume "snd ia = FuncLit p t b" "y \<in> set b"
          then have "size y < size s"
            using that enumerate_part [of "fst ia" "snd ia" 0 as] size_list_mem [of y b] ExprStmt x by (cases ia) auto
          then show "growing (lower_stmt W R sc d T '''' y)" by (rule less)
        qed
        have "grows (\<sigma>\<lparr>used := True\<rparr>) (snd (lower_stmt W R sc d T l s \<sigma>))"
          using Some by (simp add: ExprStmt x) (intro growingD growing_rules arg)
        then show ?thesis by (rule grows_transitive [rotated]) (simp add: grows_def)
      qed
    next
      case (LabeledStmt lab x)
      then show ?thesis using less [of x] by simp (intro growingD growing_rules)
    next
      case (DeferStmt e)
      have "growing (\<lambda>\<sigma>. ([if sc then register_defer W e else DeferStmt e], \<sigma>\<lparr>scopedDefer := scopedDefer \<sigma> \<or> d > 0\<rparr>))" for e
        by (simp add: growing_def grows_def)
      then show ?thesis using DeferStmt by simp (intro growingD growing_rules)
    qed (simp_all, (rule growingD, (rule list opt growing_rules | simp; fail | intro growing_then less)+)+)
  qed
qed

end
