(* ===== verification/ControlSims.thy ===== *)
theory ControlSims
  imports ControlKeeps
begin

text \<open>
  The lowering of \<^theory_text>\<open>LowerControl\<close> step by step: how a run of the lowered statement follows a run of the
  source. \<open>sims\<close> relates the two results; the lowered run has the same history, and its outcome with the
  value of \<open>ghi_flow\<close> says what the outcome of the source is.
\<close>

section \<open>Bodies that a parser makes\<close>

fun runtime_symbol :: "string \<Rightarrow> expr \<Rightarrow> bool" where
  "runtime_symbol name (Ident p n) = (n = name)"
| "runtime_symbol name (SelectorExpr (Ident p a) q n) = (n = name)"
| "runtime_symbol name e = False"

definition runtime_symbols :: "lowering \<Rightarrow> bool" where
  "runtime_symbols W \<longleftrightarrow> runtime_symbol ''Try'' (lw_try W) \<and> runtime_symbol ''RegisterDefer'' (lw_register W) \<and>
     runtime_symbol ''RunDefers'' (lw_run W)"

fun is_case :: "stmt \<Rightarrow> bool" where
  "is_case (CaseClause l b) = True"
| "is_case s = False"

fun is_comm :: "stmt \<Rightarrow> bool" where
  "is_comm (CommClause c b) = True"
| "is_comm s = False"

fun simple_comm :: "stmt \<Rightarrow> bool" where
  "simple_comm (SendStmt c v) = True"
| "simple_comm (ExprStmt x) = (callNamed x ''GhiTry'' = None)"
| "simple_comm (AssignStmt l tok r) = True"
| "simple_comm s = False"

definition simple_post :: "stmt \<Rightarrow> bool" where
  "simple_post s \<longleftrightarrow> simple_comm s \<or> (case s of IncDecStmt e tok \<Rightarrow> True | _ \<Rightarrow> False)"

fun is_else :: "stmt \<Rightarrow> bool" where
  "is_else (BlockStmt b) = True"
| "is_else (IfStmt i c b e) = True"
| "is_else s = False"

text \<open>
  Statements as Ghi's parser makes them, without goto: a try has the arguments of the exception parser,
  no node looks like one that the lowering makes, and a fallthrough is in a case (\<open>fall\<close>).
\<close>

function (sequential) from_source :: "lowering \<Rightarrow> expr list \<Rightarrow> bool \<Rightarrow> stmt \<Rightarrow> bool" where
  "from_source W R fall (ExprStmt x) =
     (case callNamed x ''GhiTry'' of
        Some args \<Rightarrow>
          (case args of
             [body, h, fin] \<Rightarrow>
               funcLitBody body \<noteq> None \<and>
               list_all (\<lambda>e. case funcLitBody e of None \<Rightarrow> True | Some b \<Rightarrow> list_all (from_source W R False) b) args
           | _ \<Rightarrow> False)
      | None \<Rightarrow> user_stmt W (ExprStmt x))"
| "from_source W R fall (ReturnStmt p es) = (es = [] \<or> es \<noteq> R)"
| "from_source W R fall (BranchStmt p tok l) =
     (l \<noteq> Some '''' \<and> (tok = BREAK \<or> tok = CONTINUE \<or> tok = FALLTHROUGH \<and> fall))"
| "from_source W R fall (BlockStmt b) = list_all (from_source W R fall) b"
| "from_source W R fall (IfStmt i c b e) =
     (flow_test c = None \<and> pred_option (from_source W R fall) i \<and> list_all (from_source W R fall) b \<and>
      pred_option (\<lambda>s. is_else s \<and> from_source W R fall s) e)"
| "from_source W R fall (ForStmt i c p b) =
     (pred_option (from_source W R fall) i \<and> pred_option (\<lambda>s. simple_post s \<and> from_source W R fall s) p \<and>
      list_all (from_source W R fall) b)"
| "from_source W R fall (RangeStmt k v tok x b) = list_all (from_source W R fall) b"
| "from_source W R fall (SwitchStmt i t b) =
     (pred_option (from_source W R fall) i \<and> list_all (\<lambda>c. is_case c \<and> from_source W R fall c) b)"
| "from_source W R fall (TypeSwitchStmt i x b) =
     (pred_option (from_source W R fall) i \<and> from_source W R fall x \<and>
      list_all (\<lambda>c. is_case c \<and> from_source W R fall c) b)"
| "from_source W R fall (SelectStmt b) = list_all (\<lambda>c. is_comm c \<and> from_source W R fall c) b"
| "from_source W R fall (CaseClause l b) = list_all (from_source W R True) b"
| "from_source W R fall (CommClause c b) =
     (pred_option (\<lambda>s. simple_comm s \<and> from_source W R fall s) c \<and> list_all (from_source W R fall) b)"
| "from_source W R fall (LabeledStmt l s) = (l \<noteq> '''' \<and> from_source W R fall s)"
| "from_source W R fall s = user_stmt W s"
  by pat_completeness auto
termination
  by (relation "measure (\<lambda>(W, R, fall, s). size s)")
    (auto dest!: callNamed_size funcLitBody_size size_list_mem simp: less_Suc_eq)

section \<open>Results\<close>

text \<open>
  \<open>after sc d a c a' c'\<close>: from \<open>a\<close> the source has come to \<open>a'\<close>, from \<open>c\<close> the lowered code at depth \<open>d\<close> to
  \<open>c'\<close>, with the same history and the same calls deferred in between.
\<close>

definition after :: "bool \<Rightarrow> nat \<Rightarrow> run_state \<Rightarrow> run_state \<Rightarrow> run_state \<Rightarrow> run_state \<Rightarrow> bool" where
  "after sc d a c a' c' \<longleftrightarrow>
     history c' = history a' \<and> saved c' = saved c \<and>
     (\<exists>ds. frame a' = map Deferred ds @ frame a \<and>
       (if sc then registered c' = ds @ registered c \<and> frame c' = frame c
        else registered c' = registered c \<and> frame c' = map Deferred ds @ frame c \<and> (0 < d \<longrightarrow> ds = [])))"

type_synonym outcome_rel = "outcome \<Rightarrow> outcome \<Rightarrow> string \<Rightarrow> bool"

definition sims :: "outcome_rel \<Rightarrow> bool \<Rightarrow> nat \<Rightarrow> run_state \<Rightarrow> run_state \<Rightarrow> run_result \<Rightarrow> run_result \<Rightarrow> bool" where
  "sims Q sc d a c ra rc \<longleftrightarrow>
     (case ra of
        None \<Rightarrow> rc = None
      | Some (r, a') \<Rightarrow> \<exists>r' c'. rc = Some (r', c') \<and> after sc d a c a' c' \<and> Q r r' (flow c'))"

definition start :: "run_state \<Rightarrow> run_state \<Rightarrow> bool" where
  "start a c \<longleftrightarrow> history c = history a \<and> flow c = ''0''"

text \<open>The relations of outcomes that are used: normal ends correspond, and exceptions need no flow.\<close>

definition proper :: "outcome_rel \<Rightarrow> bool" where
  "proper Q \<longleftrightarrow> (\<forall>r r' v. Q r r' v \<longrightarrow> (r = Norm \<longleftrightarrow> r' = Norm) \<and> (r = Norm \<longrightarrow> v = ''0'')) \<and>
     Q Norm Norm ''0'' \<and> (\<forall>v. Q Throw Throw v \<and> Q Fault Fault v)"

lemma after_refl: "history c = history a \<Longrightarrow> after sc d a c a c"
  by (auto simp: after_def)

lemma after_trans:
  assumes "after sc d a c a1 c1" "after sc d a1 c1 a2 c2" shows "after sc d a c a2 c2"
proof -
  from assms obtain ds es where
    "frame a1 = map Deferred ds @ frame a" "frame a2 = map Deferred es @ frame a1"
    "if sc then registered c1 = ds @ registered c \<and> frame c1 = frame c
     else registered c1 = registered c \<and> frame c1 = map Deferred ds @ frame c \<and> (0 < d \<longrightarrow> ds = [])"
    "if sc then registered c2 = es @ registered c1 \<and> frame c2 = frame c1
     else registered c2 = registered c1 \<and> frame c2 = map Deferred es @ frame c1 \<and> (0 < d \<longrightarrow> es = [])"
    unfolding after_def by blast
  with assms show ?thesis unfolding after_def by (intro conjI exI [of _ "es @ ds"]) (auto split: if_splits)
qed

lemma sims_after: "after sc d a c a1 c1 \<Longrightarrow> sims Q sc d a1 c1 ra rc \<Longrightarrow> sims Q sc d a c ra rc"
  unfolding sims_def by (auto split: option.splits intro: after_trans)

lemma sims_Some: "after sc d a c a' c' \<Longrightarrow> Q r r' (flow c') \<Longrightarrow> sims Q sc d a c (Some (r, a')) (Some (r', c'))"
  by (simp add: sims_def)

lemma sims_mono: "sims Q sc d a c ra rc \<Longrightarrow> (\<And>r r' v. Q r r' v \<Longrightarrow> Q' r r' v) \<Longrightarrow> sims Q' sc d a c ra rc"
  unfolding sims_def by (auto split: option.splits)

lemma proper_base:
  assumes "proper Q" shows "Q Norm Norm ''0''" "Q Throw Throw v" "Q Fault Fault v"
  using assms [unfolded proper_def, THEN conjunct2] by simp_all

lemma sims_norm: "proper Q \<Longrightarrow> start a c \<Longrightarrow> sims Q sc d a c (Some (Norm, a)) (Some (Norm, c))"
  by (intro sims_Some after_refl) (simp_all add: start_def proper_base)

lemma after_start: "after sc d a c a' c' \<Longrightarrow> flow c' = ''0'' \<Longrightarrow> start a' c'"
  by (simp add: after_def start_def)

lemma properD:
  assumes "proper Q" "Q r r' v" shows "r = Norm \<longleftrightarrow> r' = Norm" "r = Norm \<Longrightarrow> v = ''0''"
  using assms(1) [unfolded proper_def, THEN conjunct1, rule_format, OF assms(2)] by simp_all

lemma simsE:
  assumes "sims Q sc d a c (Some (r, a')) rc"
  obtains r' c' where "rc = Some (r', c')" "after sc d a c a' c'" "Q r r' (flow c')"
  using assms by (auto simp: sims_def)

lemma sims_then:
  assumes "sims Q sc d a c ra rc" "proper Q"
    and "\<And>a' c'. start a' c' \<Longrightarrow> sims Q sc d a' c' (k a') (k' c')"
  shows "sims Q sc d a c (and_then ra k) (and_then rc k')"
proof (cases ra)
  case None
  with assms(1) show ?thesis by (simp add: sims_def and_then_def)
next
  case (Some x)
  obtain r a' where x: "x = (r, a')" by (rule prod.exhaust)
  note ra = Some [unfolded x]
  from assms(1) [unfolded ra] obtain r' c' where rc: "rc = Some (r', c')" "after sc d a c a' c'" "Q r r' (flow c')"
    by (rule simsE)
  note same = properD [OF assms(2) rc(3)]
  show ?thesis
  proof (cases "r = Norm")
    case True
    then have "sims Q sc d a' c' (k a') (k' c')" by (intro assms(3) after_start [OF rc(2)] same(2))
    from sims_after [OF rc(2) this] show ?thesis using True same(1) by (simp add: ra rc(1) and_then_def)
  next
    case False
    then show ?thesis using same(1) sims_Some [of sc d a c a' c' Q r r', OF rc(2,3)] by (simp add: ra rc(1) and_then_def)
  qed
qed

lemma sims_ask:
  assumes "proper Q" "start a c" "\<And>n a' c'. start a' c' \<Longrightarrow> sims Q sc d a' c' (k n a') (k' n c')"
  shows "sims Q sc d a c (ask \<rho> ev k a) (ask \<rho> ev k' c)"
proof -
  let ?a = "a\<lparr>history := ev # history a\<rparr>" and ?c = "c\<lparr>history := ev # history c\<rparr>"
  from assms(2) have h: "history c = history a" by (simp add: start_def)
  have st: "start ?a ?c" using assms(2) by (simp add: start_def)
  have af: "after sc d a c ?a ?c" using h by (auto simp: after_def)
  have thr: "sims Q sc d a c (Some (r, ?a)) (Some (r, ?c))" if "r = Throw \<or> r = Fault" for r
    using that proper_base(2,3) [OF assms(1)] by (intro sims_Some af) auto
  have "sims Q sc d a c (k n ?a) (k' n ?c)" for n
    by (rule sims_after [OF af assms(3) [OF st]])
  with thr show ?thesis using h by (simp add: ask_def Let_def)
qed

lemma sims_eval: "proper Q \<Longrightarrow> start a c \<Longrightarrow> sims Q sc d a c (eval \<rho> ev a) (eval \<rho> ev c)"
  unfolding eval_def by (rule sims_ask) (auto intro: sims_norm)

lemma sims_iterate:
  assumes "proper Q" "\<And>a c. start a c \<Longrightarrow> sims Q sc d a c (f a) (g c)" "start a c"
  shows "sims Q sc d a c (iterate n f a) (iterate n g c)"
  using assms(3)
proof (induction n arbitrary: a c)
  case (Suc n)
  then show ?case by (auto intro!: sims_then assms(1,2))
qed (simp add: sims_def)

section \<open>Targets\<close>

definition codes :: "flowTarget list \<Rightarrow> nat list" where
  "codes T = concat (map (\<lambda>t. breakCode t # (if continueCode t = 0 then [] else [continueCode t])) T)"

definition targets_ok :: "flowTarget list \<Rightarrow> nat \<Rightarrow> nat \<Rightarrow> bool" where
  "targets_ok T d k \<longleftrightarrow>
     sorted (map t_depth T) \<and> (\<forall>t \<in> set T. t_depth t \<le> d) \<and> (\<forall>n \<in> set (codes T). 2 \<le> n \<and> n < k) \<and> distinct (codes T)"

lemma targets_ok_mono: "targets_ok T d k \<Longrightarrow> d \<le> d' \<Longrightarrow> k \<le> k' \<Longrightarrow> targets_ok T d' k'"
  unfolding targets_ok_def by (metis le_trans less_le_trans)

lemma codes_append [simp]: "codes (T @ U) = codes T @ codes U"
  by (simp add: codes_def)

lemma targets_ok_snoc:
  assumes "targets_ok T d k" "t_depth t = d" "distinct (codes [t])" "\<forall>n \<in> set (codes [t]). k \<le> n \<and> n < k'" "2 \<le> k" "k \<le> k'"
  shows "targets_ok (T @ [t]) d k'"
  unfolding targets_ok_def codes_append distinct_append set_append
proof (intro conjI)
  show "sorted (map t_depth (T @ [t]))" using assms(1,2) by (auto simp: targets_ok_def sorted_append)
  show "\<forall>u \<in> set T \<union> set [t]. t_depth u \<le> d" using assms(1,2) by (auto simp: targets_ok_def)
  show "\<forall>n \<in> set (codes T) \<union> set (codes [t]). 2 \<le> n \<and> n < k'" using assms(1,4,5,6) unfolding targets_ok_def by (meson UnE le_trans less_le_trans)
  show "distinct (codes T)" "distinct (codes [t])" using assms(1,3) by (auto simp: targets_ok_def)
  show "set (codes T) \<inter> set (codes [t]) = {}" using assms(1,4) unfolding targets_ok_def by (meson disjoint_iff leD)
qed

lemma targets_ok_loop: "targets_ok T d k \<Longrightarrow> 2 \<le> k \<Longrightarrow> targets_ok (T @ [loop_target l d k]) d (k + 2)"
  by (rule targets_ok_snoc) (auto simp: codes_def loop_target_def)

lemma targets_ok_switch: "targets_ok T d k \<Longrightarrow> 2 \<le> k \<Longrightarrow> targets_ok (T @ [switch_target l d k]) d (k + 1)"
  by (rule targets_ok_snoc) (auto simp: codes_def switch_target_def)

lemma find_target_snoc: "find_target (T @ [t]) tok l =
    (if (l = None \<or> l = Some (t_label t)) \<and> (tok = CONTINUE \<longrightarrow> continueCode t \<noteq> 0) then Some t else find_target T tok l)"
  by (simp add: find_target_def)

lemma find_target_mem:
  "find_target T tok l = Some t \<Longrightarrow>
     t \<in> set T \<and> (l = None \<or> l = Some (t_label t)) \<and> (tok = CONTINUE \<longrightarrow> continueCode t \<noteq> 0)"
  unfolding find_target_def by (auto simp: find_Some_iff) (metis nth_mem set_rev length_rev)+

text \<open>The code of a jump out of a function literal.\<close>

definition jump_code :: "flowTarget list \<Rightarrow> outcome \<Rightarrow> string option" where
  "jump_code T r =
     (case r of
        Norm \<Rightarrow> Some ''0''
      | Ret \<Rightarrow> Some ''1''
      | Brk l \<Rightarrow> if l = Some '''' then None else map_option (\<lambda>t. decimal (breakCode t)) (find_target T BREAK l)
      | Cont l \<Rightarrow> if l = Some '''' then None else map_option (\<lambda>t. decimal (continueCode t)) (find_target T CONTINUE l)
      | _ \<Rightarrow> None)"

text \<open>A jump at depth \<open>d\<close>: to a target of the same depth as itself, to an outer one as a return with its code.\<close>

definition jump_rel :: "nat \<Rightarrow> flowTarget list \<Rightarrow> token \<Rightarrow> (string option \<Rightarrow> outcome) \<Rightarrow> string option \<Rightarrow> outcome \<Rightarrow> string \<Rightarrow> bool" where
  "jump_rel d T tok jump l r' v \<longleftrightarrow>
     l \<noteq> Some '''' \<and> (\<exists>t. find_target T tok l = Some t \<and>
       (if t_depth t = d then v = ''0'' \<and> (\<exists>l'. r' = jump l' \<and> l' \<noteq> Some '''' \<and> find_target T tok l' = Some t)
        else r' = Ret \<and> v = decimal (target_code tok t)))"

definition out_rel :: "bool \<Rightarrow> nat \<Rightarrow> flowTarget list \<Rightarrow> outcome_rel" where
  "out_rel fall d T r r' v \<longleftrightarrow>
     (case r of
        Norm \<Rightarrow> r' = Norm \<and> v = ''0''
      | Throw \<Rightarrow> r' = Throw
      | Fault \<Rightarrow> r' = Fault
      | Ret \<Rightarrow> r' = Ret \<and> (0 < d \<longrightarrow> v = ''1'')
      | Fall \<Rightarrow> fall \<and> r' = Fall \<and> v = ''0''
      | Brk l \<Rightarrow> jump_rel d T BREAK Brk l r' v
      | Cont l \<Rightarrow> jump_rel d T CONTINUE Cont l r' v)"

lemma out_rel_proper: "proper (out_rel fall d T)"
  unfolding proper_def out_rel_def jump_rel_def by (auto split: outcome.splits if_splits)

end
