(* ===== verification/ControlSteps.thy ===== *)
theory ControlSteps
  imports ControlSims
begin

section \<open>Jumps and the statements they leave\<close>

lemma targets_ok_fresh: "targets_ok (T @ [t]) d k \<Longrightarrow> t \<notin> set T"
  by (auto simp: targets_ok_def codes_def)

lemma own_target:
  assumes "t \<notin> set T"
  shows "find_target (T @ [t]) tok m = Some t \<longleftrightarrow> own_jump (t_label t) m \<and> (tok = CONTINUE \<longrightarrow> continueCode t \<noteq> 0)"
  using assms find_target_mem [of T tok m t] by (auto simp: find_target_snoc own_jump_def)

lemma outer_target: "find_target (T @ [t]) tok m = Some u \<Longrightarrow> u \<noteq> t \<Longrightarrow> find_target T tok m = Some u"
  by (simp add: find_target_snoc split: if_splits)

lemma jump_rel_outer:
  assumes "jump_rel d (T @ [t]) tok J m r' v" "find_target (T @ [t]) tok m \<noteq> Some t"
  shows "jump_rel d T tok J m r' v"
  using assms unfolding jump_rel_def by (metis outer_target)

lemma jump_rel_own:
  assumes "jump_rel d (T @ [t]) tok J m r' v" "find_target (T @ [t]) tok m = Some t" "t_depth t = d"
  obtains m' where "r' = J m'" "find_target (T @ [t]) tok m' = Some t" "v = ''0''"
  using assms unfolding jump_rel_def by auto

lemma jump_rel_other:
  assumes "jump_rel d (T @ [t]) tok J m r' v" "find_target (T @ [t]) tok m \<noteq> Some t"
  shows "r' = Ret \<or> (\<exists>m'. r' = J m' \<and> find_target (T @ [t]) tok m' \<noteq> Some t)"
  using assms unfolding jump_rel_def by (metis option.inject)

text \<open>The outcomes of a round: no continue of the loop itself.\<close>

definition round_rel :: "bool \<Rightarrow> nat \<Rightarrow> flowTarget list \<Rightarrow> flowTarget \<Rightarrow> outcome_rel" where
  "round_rel fall d T t r r' v \<longleftrightarrow>
     out_rel fall d (T @ [t]) r r' v \<and> (\<forall>m. r = Cont m \<longrightarrow> find_target (T @ [t]) CONTINUE m \<noteq> Some t)"

lemma round_rel_proper: "proper (round_rel fall d T t)"
proof -
  have "round_rel fall d T t r r' v \<Longrightarrow> (r = Norm \<longleftrightarrow> r' = Norm) \<and> (r = Norm \<longrightarrow> v = ''0'')" for r r' v
    unfolding round_rel_def using properD [OF out_rel_proper] by blast
  moreover have "round_rel fall d T t Norm Norm ''0''" "round_rel fall d T t Throw Throw v" "round_rel fall d T t Fault Fault v" for v
    unfolding round_rel_def using proper_base [OF out_rel_proper] by simp_all
  ultimately show ?thesis unfolding proper_def by blast
qed

definition end_round :: "string \<Rightarrow> outcome \<Rightarrow> outcome" where
  "end_round label r = (case r of Cont l \<Rightarrow> if own_jump label l then Norm else r | _ \<Rightarrow> r)"

definition end_loop :: "string \<Rightarrow> outcome \<Rightarrow> outcome" where
  "end_loop label r = (case r of Brk l \<Rightarrow> if own_jump label l then Norm else r | _ \<Rightarrow> r)"

lemma sims_map:
  assumes "sims Q sc d a c ra rc" "\<And>r r' v. Q r r' v \<Longrightarrow> Q' (f r) (f r') v"
  shows "sims Q' sc d a c (map_option (\<lambda>(r, s). (f r, s)) ra) (map_option (\<lambda>(r, s). (f r, s)) rc)"
  using assms unfolding sims_def by (auto split: option.splits)

lemma leave_map: "leave label = map_option (\<lambda>(r, s). (end_loop label r, s))"
  by (simp add: leave_def end_loop_def)

lemma next_round_map: "next_round label = map_option (\<lambda>(r, s). (end_round label r, s))"
  by (simp add: next_round_def end_round_def)

lemma out_rel_jumps:
  assumes "out_rel fall d T r r' v"
  shows "\<forall>m. r \<noteq> Cont m \<Longrightarrow> \<forall>m. r' \<noteq> Cont m" "\<forall>m. r \<noteq> Brk m \<Longrightarrow> \<forall>m. r' \<noteq> Brk m"
  using assms by (cases r; auto simp: out_rel_def jump_rel_def split: if_splits)+

lemma end_id: "\<forall>m. r \<noteq> Cont m \<Longrightarrow> end_round label r = r" "\<forall>m. r \<noteq> Brk m \<Longrightarrow> end_loop label r = r"
  by (cases r; simp add: end_round_def end_loop_def)+

lemma end_round_rel:
  assumes "out_rel fall d (T @ [t]) r r' v" "t \<notin> set T" "t_depth t = d" "continueCode t \<noteq> 0"
  shows "round_rel fall d T t (end_round (t_label t) r) (end_round (t_label t) r') v"
proof (cases "\<exists>m. r = Cont m")
  case False
  with assms(1) show ?thesis using out_rel_jumps(1) [OF assms(1)] by (simp add: end_id round_rel_def)
next
  case True
  then obtain m where Cont: "r = Cont m" by blast
  then have jump: "jump_rel d (T @ [t]) CONTINUE Cont m r' v" using assms(1) by (simp add: out_rel_def)
  show ?thesis
  proof (cases "find_target (T @ [t]) CONTINUE m = Some t")
    case True
    from jump_rel_own [OF jump True assms(3)] obtain m' where "r' = Cont m'" "find_target (T @ [t]) CONTINUE m' = Some t" "v = ''0''" .
    then show ?thesis using True Cont own_target [OF assms(2)] by (simp add: end_round_def round_rel_def out_rel_def)
  next
    case False
    then have "\<not> own_jump (t_label t) m" using own_target [OF assms(2)] assms(4) by blast
    moreover have "end_round (t_label t) r' = r'"
      using jump_rel_other [OF jump False] own_target [OF assms(2)] assms(4) by (auto simp: end_round_def)
    ultimately show ?thesis using Cont jump False by (simp add: end_round_def round_rel_def out_rel_def)
  qed
qed

lemma end_loop_rel:
  assumes "round_rel fall d T t r r' v" "t \<notin> set T" "t_depth t = d"
  shows "out_rel fall d T (end_loop (t_label t) r) (end_loop (t_label t) r') v"
proof (cases "\<exists>m. r = Brk m")
  case True
  then obtain m where Brk: "r = Brk m" by blast
  then have jump: "jump_rel d (T @ [t]) BREAK Brk m r' v" using assms(1) by (simp add: round_rel_def out_rel_def)
  show ?thesis
  proof (cases "find_target (T @ [t]) BREAK m = Some t")
    case True
    from jump_rel_own [OF jump True assms(3)] obtain m' where "r' = Brk m'" "find_target (T @ [t]) BREAK m' = Some t" "v = ''0''" .
    then show ?thesis using True Brk own_target [OF assms(2), of BREAK m] own_target [OF assms(2), of BREAK m']
      by (simp add: end_loop_def out_rel_def)
  next
    case False
    have "\<not> own_jump (t_label t) m" using own_target [OF assms(2), of BREAK m] False by simp
    moreover have "end_loop (t_label t) r' = r'"
      using jump_rel_other [OF jump False]
    proof
      assume "\<exists>m'. r' = Brk m' \<and> find_target (T @ [t]) BREAK m' \<noteq> Some t"
      then obtain m' where m': "r' = Brk m'" "find_target (T @ [t]) BREAK m' \<noteq> Some t" by blast
      then show ?thesis using own_target [OF assms(2), of BREAK m'] by (simp add: end_loop_def)
    qed (simp add: end_loop_def)
    ultimately show ?thesis using Brk jump_rel_outer [OF jump False] by (simp add: end_loop_def out_rel_def)
  qed
next
  case False
  have rel: "out_rel fall d (T @ [t]) r r' v" using assms(1) by (simp add: round_rel_def)
  have "out_rel fall d T r r' v"
  proof (cases "\<exists>m. r = Cont m")
    case True
    then obtain m where Cont: "r = Cont m" by blast
    then have "jump_rel d (T @ [t]) CONTINUE Cont m r' v" "find_target (T @ [t]) CONTINUE m \<noteq> Some t"
      using assms(1) by (simp_all add: round_rel_def out_rel_def)
    from jump_rel_outer [OF this] show ?thesis by (simp add: Cont out_rel_def)
  next
    case no: False
    show ?thesis using rel False no by (cases r) (simp_all add: out_rel_def)
  qed
  then show ?thesis using False out_rel_jumps(2) [OF rel] by (simp add: end_id)
qed

lemma switch_round:
  "out_rel fall d (T @ [t]) r r' v \<Longrightarrow> t \<notin> set T \<Longrightarrow> continueCode t = 0 \<Longrightarrow> round_rel fall d T t r r' v"
  by (auto simp: round_rel_def own_target)

section \<open>Clauses\<close>

text \<open>After the clauses of a switch no fallthrough is left.\<close>

lemma out_rel_fall: "out_rel True d T r r' v \<Longrightarrow> r \<noteq> Fall \<Longrightarrow> out_rel fall d T r r' v"
  by (auto simp: out_rel_def split: outcome.splits)

lemma out_rel_Fall: "out_rel fall d T r r' v \<Longrightarrow> r = Fall \<longleftrightarrow> r' = Fall"
  by (auto simp: out_rel_def jump_rel_def split: outcome.splits if_splits)

lemma sims_clauses:
  assumes "list_all2 (\<lambda>x y. \<forall>a c. start a c \<longrightarrow> sims (out_rel True d T) sc d a c (g x a) (h y c)) xs ys" "start a c"
  shows "sims (out_rel fall d T) sc d a c (run_clauses g xs a) (run_clauses h ys c)"
  using assms
proof (induction arbitrary: a c rule: list_all2_induct)
  case Nil
  then show ?case by (simp add: sims_norm out_rel_proper)
next
  case (Cons x xs y ys)
  then have one: "sims (out_rel True d T) sc d a c (g x a) (h y c)" by blast
  show ?case
  proof (cases "g x a")
    case None
    then show ?thesis using one by (simp add: sims_def)
  next
    case (Some z)
    obtain r a' where z: "z = (r, a')" by (rule prod.exhaust)
    from one [unfolded Some z] obtain r' c' where c': "h y c = Some (r', c')" "after sc d a c a' c'" "out_rel True d T r r' (flow c')"
      by (rule simsE)
    show ?thesis
    proof (cases "r = Fall")
      case True
      then have "r' = Fall" "flow c' = ''0''" using c'(3) by (simp_all add: out_rel_def)
      with True show ?thesis using sims_after [OF c'(2) Cons.IH [OF after_start [OF c'(2)]]] by (simp add: Some z c'(1))
    next
      case False
      then show ?thesis using out_rel_Fall [OF c'(3)] out_rel_fall [OF c'(3)] by (simp add: Some z c'(1) sims_Some [OF c'(2)])
    qed
  qed
qed

section \<open>Lists of statements\<close>

definition fine :: "bool \<Rightarrow> controlFlow \<Rightarrow> bool" where
  "fine sc \<sigma> \<longleftrightarrow> cf_err \<sigma> = None \<and> (sc \<or> \<not> scopedDefer \<sigma>)"

lemma fine_before: "grows \<sigma> \<sigma>' \<Longrightarrow> fine sc \<sigma>' \<Longrightarrow> fine sc \<sigma>"
  by (auto simp: fine_def grows_def)

definition context_of :: "lowering \<Rightarrow> returnSlot list \<Rightarrow> run_context \<Rightarrow> bool" where
  "context_of W R C \<longleftrightarrow> rc_names C = W \<and> rc_slots C = slot_names R \<and> runtime_symbols W \<and> flow_name \<notin> set (slot_names R)"

definition run_out :: "run_context \<Rightarrow> string \<Rightarrow> stmt list \<Rightarrow> run_state \<Rightarrow> run_result" where
  "run_out C label out = (case out of [x] \<Rightarrow> run C label x | _ \<Rightarrow> run_seq (run C '''') out)"

definition sim_stmt :: "lowering \<Rightarrow> returnSlot list \<Rightarrow> run_context \<Rightarrow> stmt \<Rightarrow> bool" where
  "sim_stmt W R C s \<longleftrightarrow>
     (\<forall>sc fall d T l \<sigma> out \<sigma>' a c. lower_stmt W R sc d T l s \<sigma> = (out, \<sigma>') \<longrightarrow> fine sc \<sigma>' \<longrightarrow>
        targets_ok T d (nextCode \<sigma>) \<longrightarrow> 2 \<le> nextCode \<sigma> \<longrightarrow> from_source W (slot_names R) fall s \<longrightarrow> start a c \<longrightarrow>
        sims (out_rel fall d T) sc d a c (run C l s a) (run_out C l out c))"

lemma sim_stmtD:
  "sim_stmt W R C s \<Longrightarrow> lower_stmt W R sc d T l s \<sigma> = (out, \<sigma>') \<Longrightarrow> fine sc \<sigma>' \<Longrightarrow> targets_ok T d (nextCode \<sigma>) \<Longrightarrow>
     2 \<le> nextCode \<sigma> \<Longrightarrow> from_source W (slot_names R) fall s \<Longrightarrow> start a c \<Longrightarrow>
     sims (out_rel fall d T) sc d a c (run C l s a) (run_out C l out c)"
  unfolding sim_stmt_def by blast

lemma and_then_Some [simp]: "and_then (Some (Norm, s)) k = k s" "and_then None k = None"
  by (simp_all add: and_then_def)

lemma and_then_Norm [simp]: "and_then r (\<lambda>s. Some (Norm, s)) = r"
  by (auto simp: and_then_def split: option.splits)

lemma and_then_assoc: "and_then (and_then r k) h = and_then r (\<lambda>s. and_then (k s) h)"
  by (auto simp: and_then_def split: option.splits)

lemma run_seq_append: "run_seq g (xs @ ys) s = and_then (run_seq g xs s) (run_seq g ys)"
proof (induction xs arbitrary: s)
  case (Cons x xs)
  then have "run_seq g (xs @ ys) = (\<lambda>s. and_then (run_seq g xs s) (run_seq g ys))" by (intro ext)
  then show ?case by (simp add: and_then_assoc)
qed simp

lemma run_seq_Nil: "run_seq g [] = (\<lambda>s. Some (Norm, s))"
  by (rule ext) simp

lemma run_out_seq: "run_out C '''' out s = run_seq (run C '''') out s"
  by (cases out rule: remdups_adj.cases) (simp_all add: run_out_def run_seq_Nil)

lemma then_walkE:
  assumes "then_walk m k s = (x, s')"
  obtains y s1 where "m s = (y, s1)" "k y s1 = (x, s')"
  using assms by (cases "m s") (auto simp: then_walk_def)

lemma lower_list_Nil [simp]: "lower_list f [] s = ([], s)"
  by (simp add: lower_list_def then_walk_def return_walk_def)

lemma lower_list_Cons: "lower_list f (x # xs) = then_walk (f x) (\<lambda>y. then_walk (lower_list f xs) (\<lambda>ys. return_walk (y @ ys)))"
  by (rule ext) (simp add: lower_list_def then_walk_def return_walk_def split_beta)

lemma grows_stmt: "lower_stmt W R sc d T l s \<sigma> = (out, \<sigma>') \<Longrightarrow> grows \<sigma> \<sigma>'"
  using growingD [OF growing_stmt, of \<sigma> W R sc d T l s] by simp

lemma grows_list: "lower_list (lower_stmt W R sc d T l) b \<sigma> = (out, \<sigma>') \<Longrightarrow> grows \<sigma> \<sigma>'"
  using growingD [OF growing_list(1) [of b "lower_stmt W R sc d T l"], of \<sigma>] growing_stmt by simp

lemma grows_codes: "grows \<sigma> \<sigma>' \<Longrightarrow> targets_ok T d (nextCode \<sigma>) \<Longrightarrow> targets_ok T d (nextCode \<sigma>')"
  "grows \<sigma> \<sigma>' \<Longrightarrow> 2 \<le> nextCode \<sigma> \<Longrightarrow> 2 \<le> nextCode \<sigma>'"
  by (auto simp: grows_def intro: targets_ok_mono)

lemma sims_list:
  assumes "\<And>s. s \<in> set b \<Longrightarrow> sim_stmt W R C s"
    and "lower_list (lower_stmt W R sc d T '''') b \<sigma> = (out, \<sigma>')" "fine sc \<sigma>'" "targets_ok T d (nextCode \<sigma>)"
    and "2 \<le> nextCode \<sigma>" "list_all (from_source W (slot_names R) fall) b" "start a c"
  shows "sims (out_rel fall d T) sc d a c (run_seq (run C '''') b a) (run_seq (run C '''') out c)"
  using assms
proof (induction b arbitrary: \<sigma> out a c)
  case Nil
  then show ?case by (simp add: sims_norm out_rel_proper)
next
  case (Cons s b)
  from Cons.prems(2) obtain o1 \<sigma>1 where 1: "lower_stmt W R sc d T '''' s \<sigma> = (o1, \<sigma>1)"
    and 2: "then_walk (lower_list (lower_stmt W R sc d T '''') b) (\<lambda>ys. return_walk (o1 @ ys)) \<sigma>1 = (out, \<sigma>')"
    unfolding lower_list_Cons by (rule then_walkE)
  from 2 obtain o2 where 3: "lower_list (lower_stmt W R sc d T '''') b \<sigma>1 = (o2, \<sigma>')" and out: "out = o1 @ o2"
    by (auto simp: return_walk_def elim: then_walkE)
  note g = grows_stmt [OF 1]
  have "sims (out_rel fall d T) sc d a c (run C '''' s a) (run_seq (run C '''') o1 c)"
    using sim_stmtD [OF _ 1 fine_before [OF grows_list [OF 3] Cons.prems(3)] Cons.prems(4,5) _ Cons.prems(7)] Cons.prems(1,6)
    by (simp add: run_out_seq)
  moreover have "sims (out_rel fall d T) sc d a' c' (run_seq (run C '''') b a') (run_seq (run C '''') o2 c')" if "start a' c'" for a' c'
    using Cons.IH [OF _ 3 Cons.prems(3) grows_codes(1) [OF g Cons.prems(4)] grows_codes(2) [OF g Cons.prems(5)] _ that] Cons.prems(1,6)
    by simp
  ultimately show ?case by (simp add: out run_seq_append sims_then [OF _ out_rel_proper])
qed

end
