(* ===== verification/ControlCases.thy ===== *)
theory ControlCases
  imports ControlSteps
begin

text \<open>
  The statements of \<^theory_text>\<open>LowerControl\<close> one by one, each under the assumption that its parts are followed.
\<close>

section \<open>Parts of statements\<close>

lemma grows_expressions: "expressions W e \<sigma> = (x, \<sigma>') \<Longrightarrow> grows \<sigma> \<sigma>'"
  using growingD [OF growing_expressions, of \<sigma> W e] by simp

lemma grows_exprs:
  "lower_opt (expressions W) eo \<sigma> = (x, \<sigma>') \<Longrightarrow> grows \<sigma> \<sigma>'"
  "lower_seq (expressions W) es \<sigma> = (xs, \<sigma>') \<Longrightarrow> grows \<sigma> \<sigma>'"
  by (metis growingD growing_opt growing_expressions snd_conv) (metis growingD growing_list(2) growing_expressions snd_conv)

lemma strip_opt: "lower_opt (expressions W) eo \<sigma> = (x, \<sigma>') \<Longrightarrow> map_option strip x = map_option strip eo"
  by (cases eo) (auto simp: lower_opt_def split: prod.splits dest: expressions_strip)

lemma strip_seq: "lower_seq (expressions W) es \<sigma> = (xs, \<sigma>') \<Longrightarrow> map strip xs = map strip es"
  unfolding lower_seq_def by (induction es arbitrary: xs \<sigma>) (auto split: prod.splits dest: expressions_strip)

lemma strip_opt_seq: "lower_opt (lower_seq (expressions W)) eo \<sigma> = (x, \<sigma>') \<Longrightarrow>
    map_option (map strip) x = map_option (map strip) eo"
  by (cases eo) (auto simp: lower_opt_def split: prod.splits dest: strip_seq)

lemma grows_opt_seq: "lower_opt (lower_seq (expressions W)) eo \<sigma> = (x, \<sigma>') \<Longrightarrow> grows \<sigma> \<sigma>'"
  by (metis growingD growing_opt growing_list(2) growing_expressions snd_conv)

text \<open>Statements of a header.\<close>

abbreviation lower_simple where
  "lower_simple W R sc d T s \<equiv> then_walk (lower_stmt W R sc d T '''' s) (simple_result s)"

lemma simple_single:
  assumes "lower_simple W R sc d T s \<sigma> = (s', \<sigma>')" "fine sc \<sigma>'"
  shows "lower_stmt W R sc d T '''' s \<sigma> = ([s'], \<sigma>')"
  using assms by (auto elim!: then_walkE simp: simple_result_def return_walk_def fail_with_def fine_def split: list.splits)

lemma grows_simple: "lower_simple W R sc d T s \<sigma> = (s', \<sigma>') \<Longrightarrow> grows \<sigma> \<sigma>'"
  by (metis growingD growing_then growing_stmt growing_steps(6) snd_conv)

lemma grows_simple_opt: "lower_opt (lower_simple W R sc d T) i \<sigma> = (i', \<sigma>') \<Longrightarrow> grows \<sigma> \<sigma>'"
  by (cases i) (auto simp: lower_opt_def split: prod.splits dest: grows_simple)

lemma sims_simple:
  assumes "sim_stmt W R C s" "lower_simple W R sc d T s \<sigma> = (s', \<sigma>')" "fine sc \<sigma>'" "targets_ok T d (nextCode \<sigma>)"
    "2 \<le> nextCode \<sigma>" "from_source W (slot_names R) fall s" "start a c"
  shows "sims (out_rel fall d T) sc d a c (run C '''' s a) (run C '''' s' c)"
  using sim_stmtD [OF assms(1) simple_single [OF assms(2,3)] assms(3-7)] by (simp add: run_out_def)

lemma sims_simple_opt:
  assumes "pred_option (sim_stmt W R C) i" "lower_opt (lower_simple W R sc d T) i \<sigma> = (i', \<sigma>')" "fine sc \<sigma>'"
    "targets_ok T d (nextCode \<sigma>)" "2 \<le> nextCode \<sigma>" "pred_option (from_source W (slot_names R) fall) i" "start a c"
  shows "sims (out_rel fall d T) sc d a c (run_opt (run C '''') i a) (run_opt (run C '''') i' c)"
proof (cases i)
  case None
  then show ?thesis using assms(2,7) by (simp add: lower_opt_def sims_norm out_rel_proper)
next
  case (Some s)
  then obtain s' where "i' = Some s'" "lower_simple W R sc d T s \<sigma> = (s', \<sigma>')"
    using assms(2) by (auto simp: lower_opt_def split: prod.splits)
  then show ?thesis using sims_simple [of W R C s sc d T \<sigma> s' \<sigma>'] assms Some by simp
qed

section \<open>Simple statements\<close>

lemma sims_simple_run:
  assumes "context_of W R C" "user_stmt W s" "user_stmt W s'" "strip_stmt s' = strip_stmt s" "start a c"
  shows "sims (out_rel fall d T) sc d a c (simple_run C s a) (simple_run C s' c)"
  using assms user_stmt_action [of W s] user_stmt_action [of W s'] sims_eval [OF out_rel_proper assms(5)]
  by (simp add: simple_run_def context_of_def)

lemma out_single: "run_out C l [x] = run C l x"
  by (simp add: run_out_def fun_eq_iff)

lemma sim_send: "context_of W R C \<Longrightarrow> sim_stmt W R C (SendStmt x y)"
  unfolding sim_stmt_def
  by (auto elim!: then_walkE simp: return_walk_def out_single user_stmt_def dest!: expressions_strip intro!: sims_simple_run)

lemma sim_incdec: "context_of W R C \<Longrightarrow> sim_stmt W R C (IncDecStmt x tok)"
  unfolding sim_stmt_def
  by (auto elim!: then_walkE simp: return_walk_def out_single user_stmt_def dest!: expressions_strip intro!: sims_simple_run)

lemma sim_go: "context_of W R C \<Longrightarrow> sim_stmt W R C (GoStmt x)"
  unfolding sim_stmt_def
  by (auto elim!: then_walkE simp: return_walk_def out_single user_stmt_def dest!: expressions_strip intro!: sims_simple_run)

lemma user_assign_strip: "user_stmt W (AssignStmt l tok r) \<Longrightarrow> map strip l' = map strip l \<Longrightarrow> map strip r' = map strip r \<Longrightarrow>
    user_stmt W (AssignStmt l' tok r')"
  using user_assign [of l' l r' r W tok] by simp

lemma sim_assign:
  assumes ctx: "context_of W R C"
  shows "sim_stmt W R C (AssignStmt l tok r)"
  unfolding sim_stmt_def
proof (intro allI impI)
  fix sc fall d T lab \<sigma> out \<sigma>' a c
  assume low: "lower_stmt W R sc d T lab (AssignStmt l tok r) \<sigma> = (out, \<sigma>')"
    and src: "from_source W (slot_names R) fall (AssignStmt l tok r)" and st: "start a c"
  from low obtain l' r' where out: "out = [AssignStmt l' tok r']" and strip: "map strip l' = map strip l" "map strip r' = map strip r"
    by (auto elim!: then_walkE simp: return_walk_def dest!: strip_seq)
  from src have user: "user_stmt W (AssignStmt l tok r)" by simp
  show "sims (out_rel fall d T) sc d a c (run C lab (AssignStmt l tok r) a) (run_out C lab out c)"
    using sims_simple_run [OF ctx user user_assign_strip [OF user strip] _ st] strip by (simp add: out out_single)
qed

lemma strip_specs:
  "lower_seq (spec_values_with (expressions W)) specs \<sigma> = (specs', \<sigma>') \<Longrightarrow> map strip_spec specs' = map strip_spec specs"
proof (induction specs arbitrary: specs' \<sigma>)
  case (Cons sp specs)
  have "strip_spec (fst (spec_values_with (expressions W) sp \<sigma>)) = strip_spec sp" for \<sigma>
    by (cases sp) (auto simp: then_walk_def return_walk_def split_beta intro: strip_seq [OF surjective_pairing])
  with Cons show ?case by (auto simp: lower_seq_def split: prod.splits) (metis fst_conv)
qed (simp add: lower_seq_def)

lemma user_decl: "map strip_spec specs = map strip_spec specs' \<Longrightarrow>
    user_stmt W (DeclStmt tok specs) = user_stmt W (DeclStmt tok specs')"
proof -
  have one: "(case strip_spec sp of ValueSpec names t vs \<Rightarrow> list_all (\<lambda>(p, n). p \<noteq> 0) names | _ \<Rightarrow> True) =
      (case sp of ValueSpec names t vs \<Rightarrow> list_all (\<lambda>(p, n). p \<noteq> (0 :: nat)) names | _ \<Rightarrow> True)" for sp
    by (cases sp) simp_all
  have "user_stmt W (DeclStmt tok (map strip_spec specs)) = user_stmt W (DeclStmt tok specs)" for specs
    unfolding user_stmt_def stmt.case by (induction specs) (simp_all only: list.map list.pred_inject one)
  then show "map strip_spec specs = map strip_spec specs' \<Longrightarrow> ?thesis" by metis
qed

lemma user_decl_strip: "user_stmt W (DeclStmt tok specs) \<Longrightarrow> map strip_spec specs' = map strip_spec specs \<Longrightarrow>
    user_stmt W (DeclStmt tok specs')"
  using user_decl [of specs' specs W tok] by simp

lemma sim_decl:
  assumes ctx: "context_of W R C"
  shows "sim_stmt W R C (DeclStmt tok specs)"
  unfolding sim_stmt_def
proof (intro allI impI)
  fix sc fall d T lab \<sigma> out \<sigma>' a c
  assume low: "lower_stmt W R sc d T lab (DeclStmt tok specs) \<sigma> = (out, \<sigma>')"
    and src: "from_source W (slot_names R) fall (DeclStmt tok specs)" and st: "start a c"
  from low obtain specs' where out: "out = [DeclStmt tok specs']" and strip: "map strip_spec specs' = map strip_spec specs"
    by (auto elim!: then_walkE simp: return_walk_def dest!: strip_specs)
  from src have user: "user_stmt W (DeclStmt tok specs)" by simp
  show "sims (out_rel fall d T) sc d a c (run C lab (DeclStmt tok specs) a) (run_out C lab out c)"
    using sims_simple_run [OF ctx user user_decl_strip [OF user strip] _ st] strip by (simp add: out out_single)
qed

lemma sim_nothing: "sim_stmt W R C EmptyStmt" "sim_stmt W R C BadStmt"
  unfolding sim_stmt_def by (auto simp: out_single intro: sims_norm out_rel_proper)

lemma decimal_flow [simp]: "decimal 0 = ''0''" "decimal (Suc 0) = ''1''"
  by code_simp+

lemma run_signal: "run C l (signalSet n) s = Some (Norm, s\<lparr>flow := decimal n\<rparr>)"
  by (simp add: simple_run_def action_of_def signalSet_def intValue_def act_def)

lemma and_then_other [simp]: "r \<noteq> Norm \<Longrightarrow> and_then (Some (r, s)) k = Some (r, s)"
  by (simp add: and_then_def)

lemma run_leave: "run_seq (run C '''') [signalSet n, ReturnStmt 0 []] s = Some (Ret, s\<lparr>flow := decimal n\<rparr>)"
  by (simp add: run_signal)

lemma sim_return:
  assumes ctx: "context_of W R C"
  shows "sim_stmt W R C (ReturnStmt p es)"
  unfolding sim_stmt_def
proof (intro allI impI)
  fix sc fall d T l \<sigma> out \<sigma>' a c
  assume low: "lower_stmt W R sc d T l (ReturnStmt p es) \<sigma> = (out, \<sigma>')" and fine: "fine sc \<sigma>'"
    and src: "from_source W (slot_names R) fall (ReturnStmt p es)" and st: "start a c"
  from low obtain es' \<sigma>1 where es': "lower_seq (expressions W) es \<sigma> = (es', \<sigma>1)" and ret: "lower_return R d p es' \<sigma>1 = (out, \<sigma>')"
    by (auto elim!: then_walkE)
  note strip = strip_seq [OF es']
  have slots: "rc_slots C = slot_names R" "rc_names C = W" using ctx by (simp_all add: context_of_def)
  have empty: "es' = [] \<longleftrightarrow> es = []" using strip by (cases es; cases es') auto
  have idents: "map strip xs = slot_names R \<longleftrightarrow> xs = slot_names R" for xs
    unfolding slot_names_def by (induction R arbitrary: xs) (auto simp: Cons_eq_map_conv map_eq_Cons_conv)
  have not_slots: "es \<noteq> [] \<Longrightarrow> es' \<noteq> slot_names R" using src idents [of es] idents [of es'] strip by auto
  let ?ev = "NS (AssignStmt (slot_names R) ASSIGN (map strip es))"
  have ev: "sims (out_rel fall 0 T) sc 0 a c (and_then (eval (rc_env C) ?ev a) (\<lambda>s. Some (Ret, s)))
      (and_then (eval (rc_env C) ?ev c) (\<lambda>s. Some (Ret, s)))"
    by (intro sims_then sims_eval out_rel_proper st sims_Some after_refl) (auto simp: start_def out_rel_def)
  let ?leave = "run_seq (run C '''') [signalSet 1, ReturnStmt 0 []]"
  have leave: "?leave s = Some (Ret, s\<lparr>flow := ''1''\<rparr>)" for s
    using run_leave [of C 1 s] by simp
  have lv: "sims (out_rel fall d T) sc d a' c' (Some (Ret, a')) (?leave c')" if "start a' c'" for a' c'
    unfolding leave using that by (intro sims_Some) (auto simp: start_def after_def out_rel_def)
  show "sims (out_rel fall d T) sc d a c (run C l (ReturnStmt p es) a) (run_out C l out c)"
  proof (cases "d = 0")
    case True
    then have "out = [ReturnStmt p es']" using ret by (simp add: lower_return_def return_walk_def)
    moreover have "sims (out_rel fall 0 T) sc 0 a c (Some (Ret, a)) (Some (Ret, c))"
      using st by (intro sims_Some after_refl) (simp_all add: start_def out_rel_def)
    ultimately show ?thesis using True ev empty not_slots src strip slots by (auto simp: out_single)
  next
    case False
    show ?thesis
    proof (cases "es = []")
      case True
      then have "out = [signalSet 1, ReturnStmt 0 []]"
        using ret False empty fine by (auto simp: lower_return_def return_walk_def fail_with_def fine_def split: if_splits)
      with True show ?thesis using lv [OF st] leave [of c] by (simp add: run_out_def)
    next
      case no: False
      then have R: "R \<noteq> []" and out: "out = [AssignStmt (slot_names R) ASSIGN es', signalSet 1, ReturnStmt 0 []]"
        using ret False empty fine by (auto simp: lower_return_def return_walk_def fail_with_def fine_def split: if_splits)
      have "action_of W (AssignStmt (slot_names R) ASSIGN es') = None"
        using ctx by (auto simp: action_of_def context_of_def)
      moreover have "map strip (slot_names R) = slot_names R" by (simp add: slot_names_def)
      ultimately have run: "run_out C l out c = and_then (eval (rc_env C) ?ev c) ?leave"
        by (simp add: out run_out_def simple_run_def slots strip)
      have "sims (out_rel fall d T) sc d a c (and_then (eval (rc_env C) ?ev a) (\<lambda>s. Some (Ret, s))) (and_then (eval (rc_env C) ?ev c) ?leave)"
        by (intro sims_then sims_eval out_rel_proper st lv)
      then show ?thesis using no src by (simp add: run slots)
    qed
  qed
qed

lemma sim_branch:
  assumes ctx: "context_of W R C"
  shows "sim_stmt W R C (BranchStmt p tok lab)"
  unfolding sim_stmt_def
proof (intro allI impI)
  fix sc fall d T l \<sigma> out \<sigma>' a c
  assume low: "lower_stmt W R sc d T l (BranchStmt p tok lab) \<sigma> = (out, \<sigma>')" and fine: "fine sc \<sigma>'"
    and src: "from_source W (slot_names R) fall (BranchStmt p tok lab)" and st: "start a c"
  have h: "after sc d a c a c" using st by (intro after_refl) (simp add: start_def)
  have leave: "run_out C l [signalSet n, ReturnStmt 0 []] c = Some (Ret, c\<lparr>flow := decimal n\<rparr>)" for n
    using run_leave [of C n c] by (simp add: run_out_def)
  have h': "after sc d a c a (c\<lparr>flow := v\<rparr>)" for v using h by (auto simp: after_def)
  show "sims (out_rel fall d T) sc d a c (run C l (BranchStmt p tok lab) a) (run_out C l out c)"
  proof (cases "tok = BREAK \<or> tok = CONTINUE")
    case False
    then show ?thesis using low src st h
      by (auto simp: lower_branch_def return_walk_def out_single jump_outcome_def out_rel_def start_def intro!: sims_Some)
  next
    case jump: True
    then obtain t where t: "find_target T tok lab = Some t"
      using low fine by (auto simp: lower_branch_def fail_with_def fine_def split: option.splits)
    then have out: "out = (if t_depth t \<noteq> d then [signalSet (target_code tok t), ReturnStmt 0 []] else [BranchStmt p tok lab])"
      using low jump by (auto simp: lower_branch_def return_walk_def)
    have lab: "lab \<noteq> Some ''''" using src by simp
    show ?thesis
    proof (cases "t_depth t = d")
      case True
      have "flow c = ''0''" using st by (simp add: start_def)
      with jump t True lab h show ?thesis
        by (auto simp: out out_single jump_outcome_def out_rel_def jump_rel_def intro!: sims_Some)
    next
      case False
      with jump t lab h' show ?thesis
        by (auto simp: out leave jump_outcome_def out_rel_def jump_rel_def intro!: sims_Some)
    qed
  qed
qed

lemma callNamed_args: "callNamed (CallExpr f xs v) n = None \<longleftrightarrow> callNamed (CallExpr f ys w) n = None"
  by (cases f) (simp_all add: callNamed_def)

lemma user_no_try:
  assumes "user_stmt W (ExprStmt y)" "callNamed y ''GhiTry'' = None"
  shows "try_call W y = None"
proof (cases "(W, y)" rule: try_call.cases)
  case (1 W' f p t b h fin v)
  then show ?thesis using assms callNamed_args [of f "[]" v _ "[FuncLit p t b, h, fin]" v] by (simp add: user_stmt_def)
qed simp_all

lemma sim_expr:
  assumes ctx: "context_of W R C" and no: "callNamed x ''GhiTry'' = None"
  shows "sim_stmt W R C (ExprStmt x)"
  unfolding sim_stmt_def
proof (intro allI impI)
  fix sc fall d T lab \<sigma> out \<sigma>' a c
  assume low: "lower_stmt W R sc d T lab (ExprStmt x) \<sigma> = (out, \<sigma>')"
    and src: "from_source W (slot_names R) fall (ExprStmt x)" and st: "start a c"
  have "lower_stmt W R sc d T lab (ExprStmt x) \<sigma> = then_walk (expressions W x) (\<lambda>x. return_walk [ExprStmt x]) \<sigma>"
    using no by (cases x) simp_all
  from low [unfolded this] obtain x' where out: "out = [ExprStmt x']" and strip: "strip x' = strip x"
    by (auto elim!: then_walkE simp: return_walk_def dest!: expressions_strip)
  from src no have user: "user_stmt W (ExprStmt x)" by simp
  then have user': "user_stmt W (ExprStmt x')" using user_expr [of W x] user_expr [of W x'] strip by simp
  have none: "try_call (rc_names C) x = None" "try_call (rc_names C) x' = None"
    using user_no_try user user' no callNamed_strip [of x] callNamed_strip [of x'] strip ctx by (simp_all add: context_of_def)
  have raises: "always_raises x' = always_raises x"
    using always_raises_strip [of x] always_raises_strip [of x'] strip by simp
  show "sims (out_rel fall d T) sc d a c (run C lab (ExprStmt x) a) (run_out C lab out c)"
  proof (cases "always_raises x")
    case None
    then show ?thesis using sims_simple_run [OF ctx user user' _ st] strip raises none by (simp add: out out_single)
  next
    case (Some r)
    then have "r = Throw \<or> r = Fault" by (auto simp: always_raises_def split: if_splits)
    then have "sims (out_rel fall d T) sc d a' c' (Some (r, a')) (Some (r, c'))" if "start a' c'" for a' c'
      using that proper_base [OF out_rel_proper] by (intro sims_Some after_refl) (auto simp: start_def)
    then show ?thesis using Some raises none strip
      by (simp add: out out_single) (intro sims_then sims_eval out_rel_proper st)
  qed
qed

lemma sim_defer:
  assumes ctx: "context_of W R C"
  shows "sim_stmt W R C (DeferStmt e)"
  unfolding sim_stmt_def
proof (intro allI impI)
  fix sc fall d T lab \<sigma> out \<sigma>' a c
  assume low: "lower_stmt W R sc d T lab (DeferStmt e) \<sigma> = (out, \<sigma>')" and fine: "fine sc \<sigma>'"
    and src: "from_source W (slot_names R) fall (DeferStmt e)" and st: "start a c"
  from low obtain e' \<sigma>1 where e': "expressions W e \<sigma> = (e', \<sigma>1)"
    and out: "out = [if sc then register_defer W e' else DeferStmt e']" and \<sigma>': "\<sigma>' = \<sigma>1\<lparr>scopedDefer := scopedDefer \<sigma>1 \<or> d > 0\<rparr>"
    by (auto elim!: then_walkE)
  note strip = expressions_strip [OF e']
  from src have user: "user_stmt W (DeferStmt e)" by simp
  then have user': "user_stmt W (DeferStmt e')" using user_defer [of W e] user_defer [of W e'] strip by simp
  have names: "rc_names C = W" using ctx by (simp add: context_of_def)
  have call: "deferred_call e' = deferred_call e" by (simp add: deferred_call_def strip)
  have run: "run C lab (DeferStmt e) a = and_then (eval (rc_env C) (NS (DeferStmt (strip e))) a) (push_deferred e)"
    using user_stmt_action [OF user] by (simp add: names)
  show "sims (out_rel fall d T) sc d a c (run C lab (DeferStmt e) a) (run_out C lab out c)"
  proof (cases sc)
    case False
    then have "d = 0" using fine \<sigma>' by (simp add: fine_def)
    then have "sims (out_rel fall d T) sc d a' c' (push_deferred e a') (push_deferred e' c')" if "start a' c'" for a' c'
      using that False by (auto simp: push_deferred_def start_def after_def out_rel_def call intro!: sims_Some exI [of _ "[deferred_call e]"])
    then show ?thesis using False user_stmt_action [OF user'] unfolding run
      by (simp add: out out_single names strip) (intro sims_then sims_eval out_rel_proper st)
  next
    case True
    have sym: "runtime_symbols W" using ctx by (simp add: context_of_def)
    have reg: "run C lab (register_defer W e') s = act (rc_env C) (Register e') s" for s
    proof -
      obtain p a where "lw_register W = Ident p ''RegisterDefer'' \<or> (\<exists>q. lw_register W = SelectorExpr (Ident q a) p ''RegisterDefer'')"
        using sym by (auto simp: runtime_symbols_def elim!: runtime_symbol.elims)
      then show ?thesis
        by (auto simp: register_defer_def always_raises_def callNamed_def defers_name_def simple_run_def action_of_def names)
    qed
    have "sims (out_rel fall d T) sc d a' c' (push_deferred e a') (Some (Norm, c'\<lparr>registered := deferred_call e' # registered c'\<rparr>))"
      if "start a' c'" for a' c'
      using that True by (auto simp: push_deferred_def start_def after_def out_rel_def call intro!: sims_Some exI [of _ "[deferred_call e]"])
    then show ?thesis using True unfolding run
      by (simp add: out out_single reg act_def strip) (intro sims_then sims_eval out_rel_proper st)
  qed
qed

lemma sim_block:
  assumes "\<And>s. s \<in> set b \<Longrightarrow> sim_stmt W R C s"
  shows "sim_stmt W R C (BlockStmt b)"
  unfolding sim_stmt_def
proof (intro allI impI)
  fix sc fall d T lab \<sigma> out \<sigma>' a c
  assume low: "lower_stmt W R sc d T lab (BlockStmt b) \<sigma> = (out, \<sigma>')" and fine: "fine sc \<sigma>'"
    and codes: "targets_ok T d (nextCode \<sigma>)" "2 \<le> nextCode \<sigma>"
    and src: "from_source W (slot_names R) fall (BlockStmt b)" and st: "start a c"
  from low obtain b' where "lower_list (lower_stmt W R sc d T '''') b \<sigma> = (b', \<sigma>')" "out = [BlockStmt b']"
    by (auto elim!: then_walkE simp: return_walk_def)
  then show "sims (out_rel fall d T) sc d a c (run C lab (BlockStmt b) a) (run_out C lab out c)"
    using sims_list [OF assms _ fine codes _ st] src by (simp add: out_single)
qed

lemma else_single:
  "is_else s \<Longrightarrow> lower_stmt W R sc d T l s \<sigma> = (out, \<sigma>') \<Longrightarrow> out = [hd out]"
  by (cases s) (auto elim!: then_walkE simp: return_walk_def)

lemma sim_if:
  assumes "pred_option (sim_stmt W R C) i" "\<And>s. s \<in> set b \<Longrightarrow> sim_stmt W R C s" "pred_option (sim_stmt W R C) e"
  shows "sim_stmt W R C (IfStmt i x b e)"
  unfolding sim_stmt_def
proof (intro allI impI)
  fix sc fall d T lab \<sigma> out \<sigma>' a c
  assume low: "lower_stmt W R sc d T lab (IfStmt i x b e) \<sigma> = (out, \<sigma>')" and fine: "fine sc \<sigma>'"
    and codes: "targets_ok T d (nextCode \<sigma>)" "2 \<le> nextCode \<sigma>"
    and src: "from_source W (slot_names R) fall (IfStmt i x b e)" and st: "start a c"
  from low obtain i' \<sigma>1 x' \<sigma>2 b' \<sigma>3 e' where
    i': "lower_opt (lower_simple W R sc d T) i \<sigma> = (i', \<sigma>1)" and x': "expressions W x \<sigma>1 = (x', \<sigma>2)" and
    b': "lower_list (lower_stmt W R sc d T '''') b \<sigma>2 = (b', \<sigma>3)" and
    e': "lower_opt (\<lambda>s. then_walk (lower_stmt W R sc d T '''' s) (\<lambda>out. return_walk (hd out))) e \<sigma>3 = (e', \<sigma>')" and
    out: "out = [IfStmt i' x' b' e']"
    by (auto elim!: then_walkE simp: return_walk_def)
  note g1 = grows_simple_opt [OF i'] and g2 = grows_expressions [OF x'] and g3 = grows_list [OF b']
  have g4: "grows \<sigma>3 \<sigma>'"
    using e' by (cases e) (auto elim!: then_walkE simp: lower_opt_def return_walk_def split: prod.splits dest: grows_stmt)
  have f3: "fine sc \<sigma>3" and f1: "fine sc \<sigma>1" using fine g4 g3 g2 fine_before grows_transitive by blast+
  note c1 = grows_codes(1) [OF g1 codes(1)] grows_codes(2) [OF g1 codes(2)]
  note c2 = grows_codes(1) [OF g2 c1(1)] grows_codes(2) [OF g2 c1(2)]
  note c3 = grows_codes(1) [OF g3 c2(1)] grows_codes(2) [OF g3 c2(2)]
  have test: "flow_test x = None" "flow_test x' = None" "strip x' = strip x"
    using src expressions_strip [OF x'] flow_test_strip [of x] flow_test_strip [of x'] by simp_all
  have yes: "sims (out_rel fall d T) sc d a c (run_seq (run C '''') b a) (run_seq (run C '''') b' c)" if "start a c" for a c
    using sims_list [OF assms(2) b' f3 c2 _ that] src by simp
  have no: "sims (out_rel fall d T) sc d a c (run_opt (run C '''') e a) (run_opt (run C '''') e' c)" if st: "start a c" for a c
  proof (cases e)
    case None
    then show ?thesis using e' st by (simp add: lower_opt_def sims_norm out_rel_proper)
  next
    case (Some s)
    from e' obtain o4 where o4: "lower_stmt W R sc d T '''' s \<sigma>3 = (o4, \<sigma>')" "e' = Some (hd o4)"
      by (auto elim!: then_walkE simp: Some lower_opt_def return_walk_def split: prod.splits)
    have "is_else s" using src Some by simp
    from else_single [OF this o4(1)] have single: "run_out C '''' o4 = run C '''' (hd o4)" by (metis out_single)
    have "sim_stmt W R C s" "from_source W (slot_names R) fall s" using assms(3) src by (simp_all add: Some)
    from sim_stmtD [OF this(1) o4(1) fine c3 this(2) st] show ?thesis
      by (simp only: Some o4(2) single run_opt.simps)
  qed
  have "sims (out_rel fall d T) sc d a c (run C lab (IfStmt i x b e) a) (run C lab (IfStmt i' x' b' e') c)"
    unfolding run.simps test option.case
    using src by (intro sims_then sims_simple_opt [OF assms(1) i' f1 codes _ st] out_rel_proper sims_ask) (auto intro: yes no)
  then show "sims (out_rel fall d T) sc d a c (run C lab (IfStmt i x b e) a) (run_out C lab out c)"
    by (simp add: out out_single)
qed

end
