(* ===== verification/ControlLoops.thy ===== *)
theory ControlLoops
  imports ControlCases
begin

text \<open>
  The statements of \<^theory_text>\<open>LowerControl\<close> that jumps leave: loops, switches and select.
\<close>

lemma plain_run:
  assumes "simple_post s" "from_source W R fall s" "rc_names C = W" "run C l s a = Some (r, a')"
  shows "r = Norm \<or> r = Throw \<or> r = Fault"
proof -
  have ask: "eval \<rho> ev x = Some (r, a') \<Longrightarrow> r = Norm \<or> r = Throw \<or> r = Fault" for \<rho> ev x
    by (auto simp: eval_def ask_def Let_def split: if_splits)
  show ?thesis
  proof (cases s)
    case (ExprStmt x)
    with assms(1) have no: "callNamed x ''GhiTry'' = None" by (simp add: simple_post_def)
    then have user: "user_stmt W (ExprStmt x)" using assms(2) ExprStmt by simp
    have "always_raises x = Some o1 \<Longrightarrow> o1 = Throw \<or> o1 = Fault" for o1 by (auto simp: always_raises_def split: if_splits)
    then show ?thesis
      using assms(3,4) user_no_try [OF user no] user_stmt_action [OF user] ask
      by (auto simp: ExprStmt simple_run_def and_then_def split: option.splits if_splits)
  qed (use assms user_stmt_action [of W s] ask in \<open>auto simp: simple_post_def simple_run_def\<close>)
qed

lemma sims_plain:
  assumes "sims (out_rel fall d T) sc d a c ra rc" "\<And>r a'. ra = Some (r, a') \<Longrightarrow> r = Norm \<or> r = Throw \<or> r = Fault" "proper Q"
  shows "sims Q sc d a c ra rc"
proof (cases ra)
  case None
  then show ?thesis using assms(1) by (simp add: sims_def)
next
  case (Some z)
  obtain r a' where z: "z = (r, a')" by (rule prod.exhaust)
  from assms(1) [unfolded Some z] obtain r' c' where c': "rc = Some (r', c')" "after sc d a c a' c'" "out_rel fall d T r r' (flow c')"
    by (rule simsE)
  have "Q r r' (flow c')" using assms(2) [OF Some [unfolded z]] c'(3) proper_base [OF assms(3)] by (auto simp: out_rel_def)
  then show ?thesis unfolding Some z c'(1) by (rule sims_Some [OF c'(2)])
qed

lemma sims_post:
  assumes "pred_option (sim_stmt W R C) i" "lower_opt (lower_simple W R sc d T) i \<sigma> = (i', \<sigma>')" "fine sc \<sigma>'"
    "targets_ok T d (nextCode \<sigma>)" "2 \<le> nextCode \<sigma>" "pred_option (\<lambda>s. simple_post s \<and> from_source W (slot_names R) fall s) i"
    "start a c" "context_of W R C" "proper Q"
  shows "sims Q sc d a c (run_opt (run C '''') i a) (run_opt (run C '''') i' c)"
proof (rule sims_plain [OF sims_simple_opt [OF assms(1-5) _ assms(7), of fall] _ assms(9)])
  show "pred_option (from_source W (slot_names R) fall) i" using assms(6) by (cases i) simp_all
  show "r = Norm \<or> r = Throw \<or> r = Fault" if "run_opt (run C '''') i a = Some (r, a')" for r a'
    using that assms(6,8) plain_run [of "the i" W "slot_names R" fall C "''''" a r a'] by (cases i) (auto simp: context_of_def)
qed

section \<open>Loops\<close>

lemma sims_loop:
  assumes body: "\<And>a c. start a c \<Longrightarrow> sims (out_rel fall d (T @ [t])) sc d a c (f a) (g c)"
    and post: "\<And>a c. start a c \<Longrightarrow> sims (round_rel fall d T t) sc d a c (h a) (k c)"
    and t: "t \<notin> set T" "t_depth t = d" "continueCode t \<noteq> 0" and st: "start a c"
  shows "sims (out_rel fall d T) sc d a c
    (leave (t_label t) (iterate n (loop_round C ev (\<lambda>s. and_then (next_round (t_label t) (f s)) h)) a))
    (leave (t_label t) (iterate n (loop_round C ev (\<lambda>s. and_then (next_round (t_label t) (g s)) k)) c))"
proof -
  have round: "sims (round_rel fall d T t) sc d a c (and_then (next_round (t_label t) (f a)) h) (and_then (next_round (t_label t) (g c)) k)"
    if "start a c" for a c
    unfolding next_round_map
    by (rule sims_then [OF sims_map [OF body [OF that]] round_rel_proper post]) (rule end_round_rel [OF _ t])
  have stop: "sims (round_rel fall d T t) sc d a c (Some (Brk None, a)) (Some (Brk None, c))" if "start a c" for a c
    using that t(2) by (intro sims_Some after_refl) (auto simp: start_def round_rel_def out_rel_def jump_rel_def find_target_snoc)
  have "sims (round_rel fall d T t) sc d a c (loop_round C ev (\<lambda>s. and_then (next_round (t_label t) (f s)) h) a)
      (loop_round C ev (\<lambda>s. and_then (next_round (t_label t) (g s)) k) c)" if "start a c" for a c
    unfolding loop_round_def using that
    by (cases ev) (auto intro!: sims_ask round_rel_proper round stop)
  then have "sims (round_rel fall d T t) sc d a c (iterate n (loop_round C ev (\<lambda>s. and_then (next_round (t_label t) (f s)) h)) a)
      (iterate n (loop_round C ev (\<lambda>s. and_then (next_round (t_label t) (g s)) k)) c)"
    by (rule sims_iterate [OF round_rel_proper _ st])
  then show ?thesis unfolding leave_map by (rule sims_map) (erule end_loop_rel [OF _ t(1,2)])
qed

lemma take_two: "take_codes n \<sigma> = (k, \<sigma>') \<Longrightarrow> k = nextCode \<sigma> \<and> nextCode \<sigma>' = k + n \<and> grows \<sigma> \<sigma>'"
  by (auto simp: take_codes_def grows_def)

lemma target_of [simp]: "t_label (loop_target l d k) = l" "t_depth (loop_target l d k) = d" "continueCode (loop_target l d k) = Suc k"
  "t_label (switch_target l d k) = l" "t_depth (switch_target l d k) = d" "continueCode (switch_target l d k) = 0"
  by (simp_all add: loop_target_def switch_target_def)

lemma for_round_def': "for_round l g b p = (\<lambda>s. and_then (next_round l (run_seq g b s)) (run_opt g p))"
  by (rule ext) (simp add: for_round_def)

lemma strip_condition: "map_option strip x' = map_option strip x \<Longrightarrow> map_option (\<lambda>e. NE (strip e)) x' = map_option (\<lambda>e. NE (strip e)) x"
  by (cases x; cases x') simp_all

lemma sim_for:
  assumes ctx: "context_of W R C" and sub: "pred_option (sim_stmt W R C) i" "pred_option (sim_stmt W R C) p" "\<And>s. s \<in> set b \<Longrightarrow> sim_stmt W R C s"
  shows "sim_stmt W R C (ForStmt i x p b)"
  unfolding sim_stmt_def
proof (intro allI impI)
  fix sc fall d T lab \<sigma> out \<sigma>' a c
  assume low: "lower_stmt W R sc d T lab (ForStmt i x p b) \<sigma> = (out, \<sigma>')" and fine: "fine sc \<sigma>'"
    and codes: "targets_ok T d (nextCode \<sigma>)" "2 \<le> nextCode \<sigma>"
    and src: "from_source W (slot_names R) fall (ForStmt i x p b)" and st: "start a c"
  from low obtain i' \<sigma>1 p' \<sigma>2 x' \<sigma>3 k \<sigma>4 b' where
    i': "lower_opt (lower_simple W R sc d T) i \<sigma> = (i', \<sigma>1)" and p': "lower_opt (lower_simple W R sc d T) p \<sigma>1 = (p', \<sigma>2)" and
    x': "lower_opt (expressions W) x \<sigma>2 = (x', \<sigma>3)" and k: "take_codes 2 \<sigma>3 = (k, \<sigma>4)" and
    b': "lower_list (lower_stmt W R sc d (T @ [loop_target lab d k]) '''') b \<sigma>4 = (b', \<sigma>')" and out: "out = [ForStmt i' x' p' b']"
    by (auto elim!: then_walkE simp: return_walk_def)
  let ?t = "loop_target lab d k"
  note g1 = grows_simple_opt [OF i'] and g2 = grows_simple_opt [OF p'] and g3 = grows_exprs(1) [OF x'] and g5 = grows_list [OF b']
  note k' = take_two [OF k]
  have f1: "fine sc \<sigma>1" and f2: "fine sc \<sigma>2" using fine g5 k' g3 g2 fine_before grows_transitive by blast+
  note c1 = grows_codes(1) [OF g1 codes(1)] grows_codes(2) [OF g1 codes(2)]
  note c2 = grows_codes(1) [OF g2 c1(1)] grows_codes(2) [OF g2 c1(2)]
  note c3 = grows_codes(1) [OF g3 c2(1)] grows_codes(2) [OF g3 c2(2)]
  have c4: "targets_ok (T @ [?t]) d (nextCode \<sigma>4)" "2 \<le> nextCode \<sigma>4" using targets_ok_loop [of T d k lab] c3 k' by simp_all
  have body: "sims (out_rel fall d (T @ [?t])) sc d a c (run_seq (run C '''') b a) (run_seq (run C '''') b' c)" if "start a c" for a c
    using sims_list [OF sub(3) b' fine c4 _ that] src by simp
  have post: "sims (round_rel fall d T ?t) sc d a c (run_opt (run C '''') p a) (run_opt (run C '''') p' c)" if "start a c" for a c
    by (rule sims_post [OF sub(2) p' f2 c1 _ that ctx round_rel_proper, where fall = fall]) (use src in simp)
  note loop = sims_loop [OF body post targets_ok_fresh [OF c4(1)] target_of(2), unfolded target_of, simplified]
  note cond = strip_condition [OF strip_opt [OF x']]
  have "sims (out_rel fall d T) sc d a c (run C lab (ForStmt i x p b) a) (run C lab (ForStmt i' x' p' b') c)"
    unfolding run.simps cond for_round_def'
    using src by (intro sims_then sims_simple_opt [OF sub(1) i' f1 codes _ st] out_rel_proper loop) auto
  then show "sims (out_rel fall d T) sc d a c (run C lab (ForStmt i x p b) a) (run_out C lab out c)"
    by (simp add: out out_single)
qed

lemma sim_range:
  assumes sub: "\<And>s. s \<in> set b \<Longrightarrow> sim_stmt W R C s"
  shows "sim_stmt W R C (RangeStmt key v tok x b)"
  unfolding sim_stmt_def
proof (intro allI impI)
  fix sc fall d T lab \<sigma> out \<sigma>' a c
  assume low: "lower_stmt W R sc d T lab (RangeStmt key v tok x b) \<sigma> = (out, \<sigma>')" and fine: "fine sc \<sigma>'"
    and codes: "targets_ok T d (nextCode \<sigma>)" "2 \<le> nextCode \<sigma>"
    and src: "from_source W (slot_names R) fall (RangeStmt key v tok x b)" and st: "start a c"
  from low obtain key' \<sigma>1 v' \<sigma>2 x' \<sigma>3 k \<sigma>4 b' where
    e': "lower_opt (expressions W) key \<sigma> = (key', \<sigma>1)" "lower_opt (expressions W) v \<sigma>1 = (v', \<sigma>2)" "expressions W x \<sigma>2 = (x', \<sigma>3)" and
    k: "take_codes 2 \<sigma>3 = (k, \<sigma>4)" and
    b': "lower_list (lower_stmt W R sc d (T @ [loop_target lab d k]) '''') b \<sigma>4 = (b', \<sigma>')" and out: "out = [RangeStmt key' v' tok x' b']"
    by (auto elim!: then_walkE simp: return_walk_def)
  let ?t = "loop_target lab d k"
  have g: "grows \<sigma> \<sigma>3" using grows_exprs(1) [OF e'(1)] grows_exprs(1) [OF e'(2)] grows_expressions [OF e'(3)] grows_transitive by blast
  note k' = take_two [OF k]
  have c4: "targets_ok (T @ [?t]) d (nextCode \<sigma>4)" "2 \<le> nextCode \<sigma>4"
    using targets_ok_loop [of T d k lab] grows_codes(1) [OF g codes(1)] grows_codes(2) [OF g codes(2)] k' by simp_all
  have body: "sims (out_rel fall d (T @ [?t])) sc d a c (run_seq (run C '''') b a) (run_seq (run C '''') b' c)" if "start a c" for a c
    using sims_list [OF sub b' fine c4 _ that] src by simp
  have next1: "sims (round_rel fall d T ?t) sc d a c (Some (Norm, a)) (Some (Norm, c))" if "start a c" for a c
    using that by (rule sims_norm [OF round_rel_proper])
  note loop = sims_loop [OF body next1 targets_ok_fresh [OF c4(1)] target_of(2), unfolded target_of and_then_Norm, simplified]
  have strip: "map_option strip key' = map_option strip key" "map_option strip v' = map_option strip v" "strip x' = strip x"
    using strip_opt [OF e'(1)] strip_opt [OF e'(2)] expressions_strip [OF e'(3)] by simp_all
  have "sims (out_rel fall d T) sc d a c (run C lab (RangeStmt key v tok x b) a) (run C lab (RangeStmt key' v' tok x' b') c)"
    unfolding run.simps strip by (intro sims_then sims_eval st out_rel_proper loop)
  then show "sims (out_rel fall d T) sc d a c (run C lab (RangeStmt key v tok x b) a) (run_out C lab out c)"
    by (simp add: out out_single)
qed

section \<open>Clauses\<close>

lemma strip_comm:
  assumes "simple_comm s" "lower_simple W R sc d T s \<sigma> = (s', \<sigma>')" "fine sc \<sigma>'"
  shows "strip_stmt s' = strip_stmt s"
proof (cases s)
  case (ExprStmt x)
  then have "lower_stmt W R sc d T '''' s \<sigma> = then_walk (expressions W x) (\<lambda>x. return_walk [ExprStmt x]) \<sigma>"
    using assms(1) by (cases x) simp_all
  from simple_single [OF assms(2,3), unfolded this] show ?thesis
    by (auto elim!: then_walkE simp: return_walk_def ExprStmt dest!: expressions_strip)
qed (use assms(1) simple_single [OF assms(2,3)] in
  \<open>auto elim!: then_walkE simp: return_walk_def dest!: expressions_strip strip_seq\<close>)

lemma out_rel_True: "out_rel fall d T r r' v \<Longrightarrow> out_rel True d T r r' v"
  by (auto simp: out_rel_def split: outcome.splits)

definition clause_ok :: "lowering \<Rightarrow> returnSlot list \<Rightarrow> bool \<Rightarrow> stmt \<Rightarrow> bool" where
  "clause_ok W R fall x \<longleftrightarrow> (is_case x \<or> is_comm x) \<and> from_source W (slot_names R) fall x"

lemma sims_clause:
  assumes "\<And>s. s \<in> set (clause_stmts x) \<Longrightarrow> sim_stmt W R C s" "clause_ok W R fall x"
    and low: "lower_stmt W R sc d T '''' x \<sigma> = (out, \<sigma>')" and fine: "fine sc \<sigma>'"
    and codes: "targets_ok T d (nextCode \<sigma>)" "2 \<le> nextCode \<sigma>"
  obtains y where "out = [y]" "clause_head y = clause_head x"
    "\<And>a c. start a c \<Longrightarrow>
       sims (out_rel True d T) sc d a c (run_seq (run C '''') (clause_stmts x) a) (run_seq (run C '''') (clause_stmts y) c)"
proof (cases x)
  case (CaseClause l b)
  from low obtain l' \<sigma>1 b' where l': "lower_opt (lower_seq (expressions W)) l \<sigma> = (l', \<sigma>1)"
    and b': "lower_list (lower_stmt W R sc d T '''') b \<sigma>1 = (b', \<sigma>')" and out: "out = [CaseClause l' b']"
    by (auto elim!: then_walkE simp: return_walk_def CaseClause)
  note g = grows_opt_seq [OF l']
  have "sims (out_rel True d T) sc d a c (run_seq (run C '''') b a) (run_seq (run C '''') b' c)" if "start a c" for a c
    using sims_list [OF _ b' fine grows_codes(1) [OF g codes(1)] grows_codes(2) [OF g codes(2)] _ that] assms(1,2)
    by (simp add: CaseClause clause_ok_def)
  then show thesis using that [of "CaseClause l' b'"] out strip_opt_seq [OF l'] by (simp add: CaseClause)
next
  case (CommClause s b)
  from low obtain s' \<sigma>1 b' where s': "lower_opt (lower_simple W R sc d T) s \<sigma> = (s', \<sigma>1)"
    and b': "lower_list (lower_stmt W R sc d T '''') b \<sigma>1 = (b', \<sigma>')" and out: "out = [CommClause s' b']"
    by (auto elim!: then_walkE simp: return_walk_def CommClause)
  note g = grows_simple_opt [OF s']
  have "sims (out_rel True d T) sc d a c (run_seq (run C '''') b a) (run_seq (run C '''') b' c)" if "start a c" for a c
  proof (rule sims_mono)
    show "sims (out_rel fall d T) sc d a c (run_seq (run C '''') b a) (run_seq (run C '''') b' c)"
      using sims_list [OF _ b' fine grows_codes(1) [OF g codes(1)] grows_codes(2) [OF g codes(2)] _ that] assms(1,2)
      by (simp add: CommClause clause_ok_def)
  qed (rule out_rel_True)
  moreover have "map_option strip_stmt s' = map_option strip_stmt s"
    using s' strip_comm [OF _ _ fine_before [OF grows_list [OF b'] fine]] assms(2)
    by (cases s) (auto simp: lower_opt_def CommClause clause_ok_def split: prod.splits)
  ultimately show thesis using that [of "CommClause s' b'"] out by (simp add: CommClause)
qed (use assms(2) in \<open>simp_all add: clause_ok_def\<close>)

lemma sims_clause_list:
  assumes "\<And>x s. x \<in> set b \<Longrightarrow> s \<in> set (clause_stmts x) \<Longrightarrow> sim_stmt W R C s" "list_all (clause_ok W R fall) b"
    and "lower_list (lower_stmt W R sc d T '''') b \<sigma> = (b', \<sigma>')" "fine sc \<sigma>'" "targets_ok T d (nextCode \<sigma>)" "2 \<le> nextCode \<sigma>"
  shows "map clause_head b' = map clause_head b"
    "list_all2 (\<lambda>x y. \<forall>a c. start a c \<longrightarrow>
       sims (out_rel True d T) sc d a c (run_seq (run C '''') (clause_stmts x) a) (run_seq (run C '''') (clause_stmts y) c)) b b'"
  using assms
proof (induction b arbitrary: \<sigma> b')
  case (Cons x b)
  case 1
  from 1(3) obtain o1 \<sigma>1 o2 where l1: "lower_stmt W R sc d T '''' x \<sigma> = (o1, \<sigma>1)"
    and l2: "lower_list (lower_stmt W R sc d T '''') b \<sigma>1 = (o2, \<sigma>')" and b': "b' = o1 @ o2"
    unfolding lower_list_Cons by (auto elim!: then_walkE simp: return_walk_def)
  note g = grows_stmt [OF l1]
  obtain y where "o1 = [y]" "clause_head y = clause_head x"
    by (rule sims_clause [OF _ _ l1 fine_before [OF grows_list [OF l2] 1(4)] 1(5,6), where fall = fall and C = C]) (use 1(1,2) in auto)
  moreover have "map clause_head o2 = map clause_head b"
    by (rule Cons.IH(1) [OF _ _ l2 1(4) grows_codes(1) [OF g 1(5)] grows_codes(2) [OF g 1(6)]]) (use 1(1,2) in auto)
  ultimately show ?case by (simp add: b')
next
  case (Cons x b)
  case 2
  from 2(3) obtain o1 \<sigma>1 o2 where l1: "lower_stmt W R sc d T '''' x \<sigma> = (o1, \<sigma>1)"
    and l2: "lower_list (lower_stmt W R sc d T '''') b \<sigma>1 = (o2, \<sigma>')" and b': "b' = o1 @ o2"
    unfolding lower_list_Cons by (auto elim!: then_walkE simp: return_walk_def)
  note g = grows_stmt [OF l1]
  obtain y where "o1 = [y]" "\<And>a c. start a c \<Longrightarrow>
       sims (out_rel True d T) sc d a c (run_seq (run C '''') (clause_stmts x) a) (run_seq (run C '''') (clause_stmts y) c)"
    by (rule sims_clause [OF _ _ l1 fine_before [OF grows_list [OF l2] 2(4)] 2(5,6), where fall = fall and C = C]) (use 2(1,2) in auto)
  moreover have "list_all2 (\<lambda>x y. \<forall>a c. start a c \<longrightarrow>
       sims (out_rel True d T) sc d a c (run_seq (run C '''') (clause_stmts x) a) (run_seq (run C '''') (clause_stmts y) c)) b o2"
    by (rule Cons.IH(2) [OF _ _ l2 2(4) grows_codes(1) [OF g 2(5)] grows_codes(2) [OF g 2(6)]]) (use 2(1,2) in auto)
  ultimately show ?case by (simp add: b')
qed simp_all

text \<open>The clauses of a statement that breaks leave.\<close>

lemma sims_switch:
  assumes sub: "\<And>x s. x \<in> set b \<Longrightarrow> s \<in> set (clause_stmts x) \<Longrightarrow> sim_stmt W R C s"
    and src: "list_all (clause_ok W R fall) b"
    and b': "lower_list (lower_stmt W R sc d (T @ [switch_target lab d k]) '''') b \<sigma>1 = (b', \<sigma>')" and fine: "fine sc \<sigma>'"
    and k: "take_codes 1 \<sigma> = (k, \<sigma>1)" and codes: "targets_ok T d (nextCode \<sigma>)" "2 \<le> nextCode \<sigma>" and st: "start a c"
  shows "sims (out_rel fall d T) sc d a c
    (ask \<rho> (ev (map clause_head b)) (\<lambda>n s. leave lab (run_clauses (\<lambda>x. run_seq (run C '''') (clause_stmts x)) (drop n b) s)) a)
    (ask \<rho> (ev (map clause_head b')) (\<lambda>n s. leave lab (run_clauses (\<lambda>x. run_seq (run C '''') (clause_stmts x)) (drop n b') s)) c)"
proof -
  let ?t = "switch_target lab d k"
  have c4: "targets_ok (T @ [?t]) d (nextCode \<sigma>1)" "2 \<le> nextCode \<sigma>1"
    using targets_ok_switch [of T d k lab] codes take_two [OF k] by simp_all
  have heads: "map clause_head b' = map clause_head b"
    by (rule sims_clause_list(1) [OF _ src b' fine c4]) (rule sub)
  have clauses: "list_all2 (\<lambda>x y. \<forall>a c. start a c \<longrightarrow> sims (out_rel True d (T @ [?t])) sc d a c
      (run_seq (run C '''') (clause_stmts x) a) (run_seq (run C '''') (clause_stmts y) c)) b b'"
    by (rule sims_clause_list(2) [OF _ src b' fine c4]) (rule sub)
  have "sims (out_rel fall d T) sc d a c (leave lab (run_clauses (\<lambda>x. run_seq (run C '''') (clause_stmts x)) (drop n b) a))
      (leave lab (run_clauses (\<lambda>x. run_seq (run C '''') (clause_stmts x)) (drop n b') c))" if "start a c" for a c n
  proof -
    have "sims (out_rel fall d (T @ [?t])) sc d a c (run_clauses (\<lambda>x. run_seq (run C '''') (clause_stmts x)) (drop n b) a)
        (run_clauses (\<lambda>x. run_seq (run C '''') (clause_stmts x)) (drop n b') c)"
      by (rule sims_clauses [OF list_all2_dropI [OF clauses] that])
    moreover have "out_rel fall d T (end_loop lab r) (end_loop lab r') v" if "out_rel fall d (T @ [?t]) r r' v" for r r' v
      using end_loop_rel [OF switch_round [OF that targets_ok_fresh [OF c4(1)]] targets_ok_fresh [OF c4(1)]] by simp
    ultimately show ?thesis unfolding leave_map by (rule sims_map)
  qed
  then show ?thesis unfolding heads by (rule sims_ask [OF out_rel_proper st])
qed

lemma all_clauses: "list_all (\<lambda>x. is_case x \<and> from_source W (slot_names R) fall x) b \<Longrightarrow> list_all (clause_ok W R fall) b"
  "list_all (\<lambda>x. is_comm x \<and> from_source W (slot_names R) fall x) b \<Longrightarrow> list_all (clause_ok W R fall) b"
  by (auto simp: list_all_iff clause_ok_def)

lemma sim_switch:
  assumes sub: "pred_option (sim_stmt W R C) i" "\<And>x s. x \<in> set b \<Longrightarrow> s \<in> set (clause_stmts x) \<Longrightarrow> sim_stmt W R C s"
  shows "sim_stmt W R C (SwitchStmt i t b)"
  unfolding sim_stmt_def
proof (intro allI impI)
  fix sc fall d T lab \<sigma> out \<sigma>' a c
  assume low: "lower_stmt W R sc d T lab (SwitchStmt i t b) \<sigma> = (out, \<sigma>')" and fine: "fine sc \<sigma>'"
    and codes: "targets_ok T d (nextCode \<sigma>)" "2 \<le> nextCode \<sigma>"
    and src: "from_source W (slot_names R) fall (SwitchStmt i t b)" and st: "start a c"
  from low obtain i' \<sigma>1 t' \<sigma>2 k \<sigma>3 b' where
    i': "lower_opt (lower_simple W R sc d T) i \<sigma> = (i', \<sigma>1)" and t': "lower_opt (expressions W) t \<sigma>1 = (t', \<sigma>2)" and
    k: "take_codes 1 \<sigma>2 = (k, \<sigma>3)" and
    b': "lower_list (lower_stmt W R sc d (T @ [switch_target lab d k]) '''') b \<sigma>3 = (b', \<sigma>')" and out: "out = [SwitchStmt i' t' b']"
    by (auto elim!: then_walkE simp: return_walk_def)
  note g1 = grows_simple_opt [OF i'] and g2 = grows_exprs(1) [OF t'] and g3 = grows_list [OF b']
  have f1: "fine sc \<sigma>1" using fine g3 take_two [OF k] g2 fine_before by blast
  note c1 = grows_codes(1) [OF g1 codes(1)] grows_codes(2) [OF g1 codes(2)]
  note c2 = grows_codes(1) [OF g2 c1(1)] grows_codes(2) [OF g2 c1(2)]
  have all: "list_all (clause_ok W R fall) b" using src all_clauses(1) [of W R fall b] by simp
  have "sims (out_rel fall d T) sc d a c (run C lab (SwitchStmt i t b) a) (run C lab (SwitchStmt i' t' b') c)"
    unfolding run.simps strip_opt [OF t']
  proof (rule sims_then [OF sims_simple_opt [OF sub(1) i' f1 codes _ st] out_rel_proper])
    show "pred_option (from_source W (slot_names R) fall) i" using src by simp
  qed (rule sims_switch [OF _ all b' fine k c2, where ev = "\<lambda>hs. NS (SwitchStmt None (map_option strip t) hs)"]; (rule sub(2))?)
  then show "sims (out_rel fall d T) sc d a c (run C lab (SwitchStmt i t b) a) (run_out C lab out c)"
    by (simp add: out out_single)
qed

lemma sim_type_switch:
  assumes sub: "pred_option (sim_stmt W R C) i" "sim_stmt W R C x"
    "\<And>x s. x \<in> set b \<Longrightarrow> s \<in> set (clause_stmts x) \<Longrightarrow> sim_stmt W R C s"
  shows "sim_stmt W R C (TypeSwitchStmt i x b)"
  unfolding sim_stmt_def
proof (intro allI impI)
  fix sc fall d T lab \<sigma> out \<sigma>' a c
  assume low: "lower_stmt W R sc d T lab (TypeSwitchStmt i x b) \<sigma> = (out, \<sigma>')" and fine: "fine sc \<sigma>'"
    and codes: "targets_ok T d (nextCode \<sigma>)" "2 \<le> nextCode \<sigma>"
    and src: "from_source W (slot_names R) fall (TypeSwitchStmt i x b)" and st: "start a c"
  from low obtain i' \<sigma>1 x' \<sigma>2 k \<sigma>3 b' where
    i': "lower_opt (lower_simple W R sc d T) i \<sigma> = (i', \<sigma>1)" and x': "lower_simple W R sc d T x \<sigma>1 = (x', \<sigma>2)" and
    k: "take_codes 1 \<sigma>2 = (k, \<sigma>3)" and
    b': "lower_list (lower_stmt W R sc d (T @ [switch_target lab d k]) '''') b \<sigma>3 = (b', \<sigma>')" and out: "out = [TypeSwitchStmt i' x' b']"
    unfolding lower_stmt.simps by (elim then_walkE) (auto elim!: then_walkE simp: return_walk_def then_walk_def)
  note g1 = grows_simple_opt [OF i'] and g2 = grows_simple [OF x'] and g3 = grows_list [OF b']
  have f2: "fine sc \<sigma>2" and f1: "fine sc \<sigma>1" using fine g3 take_two [OF k] g2 fine_before by blast+
  note c1 = grows_codes(1) [OF g1 codes(1)] grows_codes(2) [OF g1 codes(2)]
  note c2 = grows_codes(1) [OF g2 c1(1)] grows_codes(2) [OF g2 c1(2)]
  have all: "list_all (clause_ok W R fall) b" using src all_clauses(1) [of W R fall b] by simp
  have "sims (out_rel fall d T) sc d a c (run C lab (TypeSwitchStmt i x b) a) (run C lab (TypeSwitchStmt i' x' b') c)"
    unfolding run.simps
  proof (rule sims_then [OF sims_simple_opt [OF sub(1) i' f1 codes _ st] out_rel_proper])
    show "pred_option (from_source W (slot_names R) fall) i" using src by simp
    show "sims (out_rel fall d T) sc d a c
        (and_then (run C [] x a) (ask (rc_env C) (NS (TypeSwitchStmt None EmptyStmt (map clause_head b)))
          (\<lambda>n s. leave lab (run_clauses (\<lambda>c. run_seq (run C []) (clause_stmts c)) (drop n b) s))))
        (and_then (run C [] x' c) (ask (rc_env C) (NS (TypeSwitchStmt None EmptyStmt (map clause_head b')))
          (\<lambda>n s. leave lab (run_clauses (\<lambda>c. run_seq (run C []) (clause_stmts c)) (drop n b') s))))" if "start a c" for a c
    proof (rule sims_then [OF sims_simple [OF sub(2) x' f2 c1 _ that] out_rel_proper])
      show "from_source W (slot_names R) fall x" using src by simp
    qed (rule sims_switch [OF _ all b' fine k c2, where ev = "\<lambda>hs. NS (TypeSwitchStmt None EmptyStmt hs)"]; (rule sub(3))?)
  qed
  then show "sims (out_rel fall d T) sc d a c (run C lab (TypeSwitchStmt i x b) a) (run_out C lab out c)"
    by (simp add: out out_single)
qed

lemma sim_select:
  assumes sub: "\<And>x s. x \<in> set b \<Longrightarrow> s \<in> set (clause_stmts x) \<Longrightarrow> sim_stmt W R C s"
  shows "sim_stmt W R C (SelectStmt b)"
  unfolding sim_stmt_def
proof (intro allI impI)
  fix sc fall d T lab \<sigma> out \<sigma>' a c
  assume low: "lower_stmt W R sc d T lab (SelectStmt b) \<sigma> = (out, \<sigma>')" and fine: "fine sc \<sigma>'"
    and codes: "targets_ok T d (nextCode \<sigma>)" "2 \<le> nextCode \<sigma>"
    and src: "from_source W (slot_names R) fall (SelectStmt b)" and st: "start a c"
  from low obtain k \<sigma>3 b' where k: "take_codes 1 \<sigma> = (k, \<sigma>3)" and
    b': "lower_list (lower_stmt W R sc d (T @ [switch_target lab d k]) '''') b \<sigma>3 = (b', \<sigma>')" and out: "out = [SelectStmt b']"
    by (auto elim!: then_walkE simp: return_walk_def)
  have all: "list_all (clause_ok W R fall) b" using src all_clauses(2) [of W R fall b] by simp
  have "sims (out_rel fall d T) sc d a c (run C lab (SelectStmt b) a) (run C lab (SelectStmt b') c)"
    unfolding run.simps
    by (rule sims_switch [OF _ all b' fine k codes st, where ev = "\<lambda>hs. NS (SelectStmt hs)"]) (rule sub)
  then show "sims (out_rel fall d T) sc d a c (run C lab (SelectStmt b) a) (run_out C lab out c)"
    by (simp add: out out_single)
qed

lemma sim_labeled:
  assumes sub: "sim_stmt W R C s"
  shows "sim_stmt W R C (LabeledStmt l s)"
  unfolding sim_stmt_def
proof (intro allI impI)
  fix sc fall d T lab \<sigma> out \<sigma>' a c
  assume low: "lower_stmt W R sc d T lab (LabeledStmt l s) \<sigma> = (out, \<sigma>')" and fine: "fine sc \<sigma>'"
    and codes: "targets_ok T d (nextCode \<sigma>)" "2 \<le> nextCode \<sigma>"
    and src: "from_source W (slot_names R) fall (LabeledStmt l s)" and st: "start a c"
  from low obtain o1 where o1: "lower_stmt W R sc d T l s \<sigma> = (o1, \<sigma>')"
    and out: "out = [LabeledStmt l (case o1 of [x] \<Rightarrow> x | _ \<Rightarrow> BlockStmt o1)]"
    by (auto elim!: then_walkE simp: return_walk_def)
  have run: "run_out C lab out c = run_out C l o1 c"
    by (simp add: out out_single run_out_def split: list.splits)
  show "sims (out_rel fall d T) sc d a c (run C lab (LabeledStmt l s) a) (run_out C lab out c)"
    using sim_stmtD [OF sub o1 fine codes _ st] src by (simp add: run)
qed

lemma sim_stray: "sim_stmt W R C (CaseClause l b)" "sim_stmt W R C (CommClause x b)"
  unfolding sim_stmt_def
  by (auto elim!: then_walkE simp: return_walk_def out_single intro!: sims_norm [OF out_rel_proper])

end
