(* ===== verification/ControlTry.thy ===== *)
theory ControlTry
  imports ControlLoops
begin

text \<open>
  Try statements: the function literals of the lowered call, the call of the runtime's \<open>Try\<close> with them, and
  the tests behind it.
\<close>

section \<open>Tests of the flow\<close>

lemma run_test: "run C l (signalTest n b) s = (if flow s = decimal n then run_seq (run C '''') b s else Some (Norm, s))"
  by (simp add: signalTest_def intValue_def flow_test_def flow_name_def)

lemma run_test_jump:
  assumes "jump_outcome tok l = Some r"
  shows "run C lab (signalTest n [signalSet 0, BranchStmt 0 tok l]) s =
    Some (if flow s = decimal n then (r, s\<lparr>flow := ''0''\<rparr>) else (Norm, s))"
  using assms by (simp add: run_test run_signal run_seq_Nil)

lemma jump_outcomes [simp]: "jump_outcome BREAK l = Some (Brk l)" "jump_outcome CONTINUE l = Some (Cont l)"
  by (simp_all add: jump_outcome_def)

lemma codes_Cons: "codes (t # ts) = breakCode t # (if continueCode t = 0 then [] else [continueCode t]) @ codes ts"
  by (simp add: codes_def)

lemma codes_Nil [simp]: "codes [] = []"
  by (simp add: codes_def)

lemma set_codes: "set (codes ts) = (\<Union>t \<in> set ts. set (codes [t]))"
  by (induction ts) (auto simp: codes_Cons)

text \<open>No target of this depth: the tests do nothing.\<close>

lemma tests_skip:
  assumes "\<And>t n. t \<in> set ts \<Longrightarrow> t_depth t = d \<Longrightarrow> n \<in> set (codes [t]) \<Longrightarrow> flow s \<noteq> decimal n"
  shows "run_seq (run C '''') (flow_tests d eb ec ts) s = Some (Norm, s)"
  using assms
proof (induction ts arbitrary: eb ec)
  case (Cons t ts)
  have rest: "run_seq (run C '''') (flow_tests d eb ec ts) s = Some (Norm, s)" for eb ec by (rule Cons.IH) (use Cons.prems in auto)
  show ?case
  proof (cases "t_depth t = d")
    case True
    then have "flow s \<noteq> decimal (breakCode t)" "continueCode t \<noteq> 0 \<Longrightarrow> flow s \<noteq> decimal (continueCode t)"
      using Cons.prems [of t] by (auto simp: codes_def)
    with True rest show ?thesis by (simp add: run_seq_append run_test_jump)
  qed (simp add: rest)
qed simp

text \<open>The test of a target takes the jump up, with its label or as the innermost one.\<close>

definition jump_to :: "token \<Rightarrow> flowTarget \<Rightarrow> outcome" where
  "jump_to tok t = (if tok = CONTINUE then Cont (target_label t) else Brk (target_label t))"

definition innermost :: "token \<Rightarrow> nat \<Rightarrow> bool \<Rightarrow> bool \<Rightarrow> flowTarget list \<Rightarrow> flowTarget \<Rightarrow> bool" where
  "innermost tok d eb ec ts t \<longleftrightarrow>
     (if tok = CONTINUE then \<not> ec else \<not> eb) \<and>
     find (\<lambda>u. t_depth u = d \<and> (tok = CONTINUE \<longrightarrow> continueCode u \<noteq> 0)) ts = Some t"

lemma tests_take:
  assumes "distinct (codes ts)" "t \<in> set ts" "t_depth t = d" "tok = CONTINUE \<longrightarrow> continueCode t \<noteq> 0"
    and "target_label t \<noteq> None \<or> innermost tok d eb ec ts t" "flow s = decimal (target_code tok t)"
  shows "run_seq (run C '''') (flow_tests d eb ec ts) s = Some (jump_to tok t, s\<lparr>flow := ''0''\<rparr>)"
  using assms
proof (induction ts arbitrary: eb ec)
  case (Cons u ts)
  show ?case
  proof (cases "u = t")
    case True
    have "continueCode t \<noteq> 0 \<Longrightarrow> breakCode t \<noteq> continueCode t" using Cons.prems(1) True by (auto simp: codes_Cons)
    then show ?thesis using Cons.prems(3-6) True
      by (auto simp: innermost_def target_code_def jump_to_def run_seq_append run_test_jump split: if_splits)
  next
    case False
    then have mem: "t \<in> set ts" and dist: "distinct (codes ts)" using Cons.prems(1,2) by (auto simp: codes_Cons)
    have "target_code tok t \<in> set (codes ts)"
      using mem Cons.prems(4) by (auto simp: target_code_def codes_def intro!: bexI [of _ t])
    then have other: "target_code tok t \<noteq> breakCode u" "continueCode u \<noteq> 0 \<Longrightarrow> target_code tok t \<noteq> continueCode u"
      using Cons.prems(1) by (auto simp: codes_Cons)
    have "run_seq (run C '''') (flow_tests d eb ec ts) s = Some (jump_to tok t, s\<lparr>flow := ''0''\<rparr>)"
      if "t_depth u \<noteq> d"
      by (rule Cons.IH [OF dist mem Cons.prems(3,4) _ Cons.prems(6)]) (use Cons.prems(5) that in \<open>auto simp: innermost_def\<close>)
    moreover have "run_seq (run C '''') (flow_tests d True (ec \<or> continueCode u \<noteq> 0) ts) s = Some (jump_to tok t, s\<lparr>flow := ''0''\<rparr>)"
      if "t_depth u = d"
      by (rule Cons.IH [OF dist mem Cons.prems(3,4) _ Cons.prems(6)])
        (use Cons.prems(5) that False in \<open>auto simp: innermost_def split: if_splits\<close>)
    ultimately show ?thesis using other Cons.prems(6)
      by (cases "t_depth u = d"; cases "continueCode u = 0") (simp_all add: run_seq_append run_test_jump)
  qed
qed simp

section \<open>The end of a literal\<close>

text \<open>A literal ends normally, with the jump of the source in the flow, or with its exception.\<close>

definition lit_rel :: "flowTarget list \<Rightarrow> outcome_rel" where
  "lit_rel T r r' v \<longleftrightarrow> (if raises r then r' = r else r' = Norm \<and> jump_code T r = Some v)"

definition literal_end :: "outcome \<Rightarrow> outcome" where
  "literal_end r = (if raises r then r else Norm)"

lemma raises_simps [simp]: "raises Throw" "raises Fault" "\<not> raises Norm" "\<not> raises Ret" "\<not> raises (Brk l)" "\<not> raises (Cont l)" "\<not> raises Fall"
  by (simp_all add: raises_def)

lemma out_lit:
  assumes "out_rel False (d + 1) T r r' v" "targets_ok T d k"
  shows "lit_rel T r (literal_end r') v"
proof -
  have "t_depth t \<noteq> d + 1" if "find_target T tok l = Some t" for tok l t
    using find_target_mem [OF that] assms(2) by (auto simp: targets_ok_def)
  then show ?thesis using assms(1)
    by (cases r) (auto simp: out_rel_def lit_rel_def literal_end_def jump_rel_def jump_code_def target_code_def)
qed

text \<open>The jump codes of a target are above 1.\<close>

lemma target_codes:
  assumes "targets_ok T d k" "find_target T tok l = Some t"
  shows "2 \<le> target_code tok t" "t \<in> set T" "t_depth t \<le> d" "tok = CONTINUE \<longrightarrow> continueCode t \<noteq> 0"
proof -
  from find_target_mem [OF assms(2)] show t: "t \<in> set T" "tok = CONTINUE \<longrightarrow> continueCode t \<noteq> 0" by simp_all
  then show "t_depth t \<le> d" using assms(1) by (simp add: targets_ok_def)
  have "target_code tok t \<in> set (codes T)" using t by (auto simp: target_code_def codes_def intro!: bexI [of _ t])
  then show "2 \<le> target_code tok t" using assms(1) by (simp add: targets_ok_def)
qed

lemma find_weaker: "find P xs = Some x \<Longrightarrow> (\<And>y. Q y \<Longrightarrow> P y) \<Longrightarrow> Q x \<Longrightarrow> find Q xs = Some x"
  by (induction xs) (auto split: if_splits)

lemma found_again:
  assumes "find_target T tok l = Some t" "l \<noteq> Some []" "t_depth t = d"
  shows "find_target T tok (target_label t) = Some t" "target_label t \<noteq> None \<or> innermost tok d False False (rev T) t"
proof -
  note found = assms(1) [unfolded find_target_def]
  have l: "l = None \<or> l = target_label t" "l = None \<or> target_label t \<noteq> None" and own: "target_label t = None \<or> target_label t = Some (t_label t)"
    and cont: "tok = CONTINUE \<longrightarrow> continueCode t \<noteq> 0"
    using find_target_mem [OF assms(1)] assms(2) by (auto simp: target_label_def)
  show "find_target T tok (target_label t) = Some t"
  proof (cases l)
    case None
    show ?thesis unfolding find_target_def by (rule find_weaker [OF found]) (use None own cont in auto)
  next
    case (Some m)
    then show ?thesis using l assms(1) by simp
  qed
  have "innermost tok d False False (rev T) t" if "l = None"
    unfolding innermost_def using that cont assms(3) by (intro conjI find_weaker [OF found]) auto
  then show "target_label t \<noteq> None \<or> innermost tok d False False (rev T) t" using l(2) by blast
qed

section \<open>What follows the call\<close>

text \<open>The tests turn the end of the literals into the jump of the source.\<close>

lemma set_codes_rev [simp]: "set (codes (rev T)) = set (codes T)"
  using set_codes [of T] set_codes [of "rev T"] by simp

lemma distinct_codes_rev: "distinct (codes (rev T)) \<longleftrightarrow> distinct (codes T)"
  by (induction T) (auto simp: codes_Cons)

lemma codes_apart: "distinct (codes T) \<Longrightarrow> t \<in> set T \<Longrightarrow> u \<in> set T \<Longrightarrow> u \<noteq> t \<Longrightarrow> set (codes [t]) \<inter> set (codes [u]) = {}"
proof (induction T)
  case (Cons x T)
  have apart: "y \<in> set T \<Longrightarrow> set (codes [x]) \<inter> set (codes [y]) = {}" for y
    using Cons.prems(1) set_codes [of T] by (auto simp: codes_Cons split: if_splits)
  have "distinct (codes T)" using Cons.prems(1) by (simp add: codes_Cons)
  then show ?case using Cons apart by auto
qed simp

lemma flow_name_zero: "flow_test (BinaryExpr flow_name NEQ (intValue 0)) = Some (False, ''0'')"
  by (simp add: flow_test_def intValue_def)

lemma run_leave_test:
  assumes "rc_slots C = slot_names R"
  shows "run C l (leave_test R d) s =
    Some (if d > 0 then (if flow s = ''0'' then Norm else Ret, s) else (if flow s = ''1'' then Ret else Norm, s))"
  using assms by (simp add: leave_test_def run_test flow_name_zero)

lemma no_code_flow:
  assumes "targets_ok T d k" "t \<in> set (rev T)" "n \<in> set (codes [t])" "m < 2"
  shows "decimal m \<noteq> decimal n"
proof -
  have "n \<in> set (codes T)" using assms(2,3) set_codes [of T] by auto
  then show ?thesis using assms(1,4) by (auto simp: targets_ok_def)
qed

lemma other_code_flow:
  assumes ok: "targets_ok T d k" and t: "t \<in> set T" "tok = CONTINUE \<longrightarrow> continueCode t \<noteq> 0" and u: "u \<in> set (rev T)" "n \<in> set (codes [u])" "u \<noteq> t"
  shows "decimal (target_code tok t) \<noteq> decimal n"
proof
  assume "decimal (target_code tok t) = decimal n"
  then have n: "n \<in> set (codes [t])" using t by (auto simp: codes_def target_code_def split: if_splits)
  have "set (codes [t]) \<inter> set (codes [u]) = {}"
    by (rule codes_apart [of T]) (use ok t(1) u in \<open>auto simp: targets_ok_def\<close>)
  with n u(2) show False by auto
qed

lemma after_flow: "after sc d a c a' c' \<Longrightarrow> after sc d a c a' (c'\<lparr>flow := v\<rparr>)"
  by (cases sc) (simp_all add: after_def)

lemma sims_tests:
  assumes ctx: "context_of W R C" and ok: "targets_ok T d k"
    and lit: "sims (lit_rel T) sc d a c ra rc"
  shows "sims (out_rel fall d T) sc d a c ra
    (and_then rc (run_seq (run C '''') (flow_tests d False False (rev T) @ [leave_test R d])))"
proof (cases ra)
  case None
  then show ?thesis using lit by (simp add: sims_def and_then_def)
next
  case (Some x)
  obtain r a' where x: "x = (r, a')" by (rule prod.exhaust)
  from lit [unfolded Some x] obtain r' c' where rc: "rc = Some (r', c')" "after sc d a c a' c'" "lit_rel T r r' (flow c')"
    by (rule simsE)
  have slots: "rc_slots C = slot_names R" using ctx by (simp add: context_of_def)
  let ?tests = "\<lambda>s. run_seq (run C '''') (flow_tests d False False (rev T) @ [leave_test R d]) s"
  have skip: "?tests s = run C '''' (leave_test R d) s"
    if "\<And>t n. t \<in> set (rev T) \<Longrightarrow> t_depth t = d \<Longrightarrow> n \<in> set (codes [t]) \<Longrightarrow> flow s \<noteq> decimal n" for s
  proof -
    have "run_seq (run C []) (flow_tests d False False (rev T)) s = Some (Norm, s)" by (rule tests_skip) (rule that)
    then show ?thesis by (simp add: run_seq_append run_seq_Nil)
  qed
  have small: "?tests s = run C '''' (leave_test R d) s" if "flow s = decimal m" "m < 2" for s m
    by (rule skip) (use no_code_flow [OF ok] that in auto)
  have jump: "sims (out_rel fall d T) sc d a c (Some (J l, a')) (?tests c')"
    if t: "find_target T tok l = Some t" "l \<noteq> Some ''''" and v: "flow c' = decimal (target_code tok t)"
      and J: "tok = BREAK \<and> J = Brk \<or> tok = CONTINUE \<and> J = Cont" for tok l t J
  proof (cases "t_depth t = d")
    case True
    have "?tests c' = Some (jump_to tok t, c'\<lparr>flow := ''0''\<rparr>)"
      using tests_take [of "rev T" t d tok False False c' C] target_codes [OF ok t(1)] True found_again(2) [OF t True] v ok
      by (simp add: run_seq_append distinct_codes_rev targets_ok_def jump_to_def)
    moreover have "out_rel fall d T (J l) (jump_to tok t) ''0''"
      using J t True found_again(1) [OF t True] by (auto simp: out_rel_def jump_rel_def jump_to_def target_label_def)
    ultimately show ?thesis by (simp add: sims_Some [OF after_flow [OF rc(2)]])
  next
    case False
    have "?tests c' = run C '''' (leave_test R d) c'"
      by (rule skip) (use other_code_flow [OF ok target_codes(2,4) [OF ok t(1)]] False v in auto)
    moreover have "0 < d" using target_codes(3) [OF ok t(1)] False by simp
    moreover have "flow c' \<noteq> ''0''"
      using target_codes(1) [OF ok t(1)] v decimal_flow(1) decimal_inj [of "target_code tok t" 0] by (metis not_numeral_le_zero)
    ultimately have "?tests c' = Some (Ret, c')" by (simp add: run_leave_test [OF slots])
    moreover have "out_rel fall d T (J l) Ret (flow c')" using J t v False by (auto simp: out_rel_def jump_rel_def)
    ultimately show ?thesis using sims_Some [OF rc(2)] by simp
  qed
  have "sims (out_rel fall d T) sc d a c (Some (r, a')) (and_then (Some (r', c')) ?tests)"
  proof (cases r)
    case Norm
    then have "r' = Norm" "flow c' = decimal 0" using rc(3) by (simp_all add: lit_rel_def jump_code_def)
    moreover have "?tests c' = Some (Norm, c')" using small [of c' 0] calculation by (simp add: run_leave_test [OF slots])
    ultimately show ?thesis by (simp add: Norm sims_Some [OF rc(2)] out_rel_def)
  next
    case Ret
    then have "r' = Norm" "flow c' = decimal 1" using rc(3) by (simp_all add: lit_rel_def jump_code_def)
    moreover have "?tests c' = Some (Ret, c')" using small [of c' 1] calculation by (simp add: run_leave_test [OF slots])
    ultimately show ?thesis by (simp add: Ret sims_Some [OF rc(2)] out_rel_def)
  next
    case (Brk l)
    with rc(3) jump [of BREAK l _ Brk] show ?thesis by (auto simp: lit_rel_def jump_code_def target_code_def split: if_splits)
  next
    case (Cont l)
    with rc(3) jump [of CONTINUE l _ Cont] show ?thesis by (auto simp: lit_rel_def jump_code_def target_code_def split: if_splits)
  qed (use rc in \<open>simp_all add: lit_rel_def jump_code_def out_rel_def sims_Some\<close>)
  then show ?thesis by (simp add: Some x rc(1))
qed

section \<open>Function literals\<close>

text \<open>A literal has its own deferred calls and saved flows; its body registers its defers with the function.\<close>

lemma after_literal:
  assumes "after sc (d + 1) a (c\<lparr>frame := F, saved := S, flow := v\<rparr>) a' c'"
  shows "after sc d a c a' (c'\<lparr>frame := frame c, saved := saved c, flow := w\<rparr>)" "frame c' = F" "saved c' = S"
  using assms by (auto simp: after_def split: if_splits)

lemma run_body_False [simp]: "run_body C False g b = run_seq g b"
  by (simp add: run_body_def)

lemma run_literal_end:
  assumes "run_seq g b (c\<lparr>frame := []\<rparr>) = Some (r, c')" "frame c' = []"
  shows "run_body C True g b c = Some (literal_end r, c'\<lparr>frame := frame c, saved := saved c\<rparr>)"
  using assms by (simp add: run_body_def run_literal_def literal_end_def)

definition lowered_body :: "lowering \<Rightarrow> returnSlot list \<Rightarrow> bool \<Rightarrow> nat \<Rightarrow> flowTarget list \<Rightarrow> stmt list \<Rightarrow> stmt list \<Rightarrow> bool" where
  "lowered_body W R sc d T b b' \<longleftrightarrow>
     (\<exists>\<sigma> \<sigma>'. lower_list (lower_stmt W R sc (d + 1) T '''') b \<sigma> = (b', \<sigma>') \<and> fine sc \<sigma>' \<and>
       targets_ok T d (nextCode \<sigma>) \<and> 2 \<le> nextCode \<sigma> \<and> list_all (from_source W (slot_names R) False) b)"

lemma sims_body:
  assumes sub: "\<And>s. s \<in> set b \<Longrightarrow> sim_stmt W R C s" and low: "lowered_body W R sc d T b b'" and h: "history c = history a"
  shows "sims (\<lambda>r r' v. lit_rel T r (literal_end r') v) sc (d + 1) a (c\<lparr>frame := F, saved := S, flow := ''0''\<rparr>)
    (run_seq (run C '''') b a) (run_seq (run C '''') b' (c\<lparr>frame := F, saved := S, flow := ''0''\<rparr>))"
proof -
  from low obtain \<sigma> \<sigma>' where b': "lower_list (lower_stmt W R sc (d + 1) T '''') b \<sigma> = (b', \<sigma>')" "fine sc \<sigma>'"
    and ok: "targets_ok T d (nextCode \<sigma>)" "2 \<le> nextCode \<sigma>" and src: "list_all (from_source W (slot_names R) False) b"
    unfolding lowered_body_def by blast
  have "start a (c\<lparr>frame := F, saved := S, flow := ''0''\<rparr>)" using h by (simp add: start_def)
  from sims_list [OF sub b' targets_ok_mono [OF ok(1)] ok(2) src this] show ?thesis
    by (rule sims_mono) (auto intro: out_lit [OF _ ok(1)])
qed

lemma sims_literal:
  assumes sub: "\<And>s. s \<in> set b \<Longrightarrow> sim_stmt W R C s" and low: "lowered_body W R sc d T b b'" and h: "history c = history a"
  shows "flow c = ''0'' \<Longrightarrow> sims (lit_rel T) sc d a c (run_seq (run C '''') b a) (run_body C True (run C '''') b' c)"
    "sims (lit_rel T) sc d a c (run_seq (run C '''') b a) (run_body C True (run C '''') (signalSet 0 # b') c)"
proof -
  note body = sims_body [OF sub low h, where F = "[]" and S = "saved c"]
  have lit: "sims (lit_rel T) sc d a c (run_seq (run C '''') b a) (run_body C True (run C '''') b1 c)"
    if eq: "run_seq (run C '''') b1 (c\<lparr>frame := []\<rparr>) = run_seq (run C '''') b' (c\<lparr>frame := [], saved := saved c, flow := ''0''\<rparr>)" for b1
  proof (cases "run_seq (run C '''') b a")
    case None
    then show ?thesis using body eq by (simp add: sims_def run_body_def run_literal_def)
  next
    case (Some x)
    obtain r a' where x: "x = (r, a')" by (rule prod.exhaust)
    from body [unfolded Some x] obtain r' c' where c': "run_seq (run C '''') b1 (c\<lparr>frame := []\<rparr>) = Some (r', c')"
      "after sc (d + 1) a (c\<lparr>frame := [], saved := saved c, flow := ''0''\<rparr>) a' c'" "lit_rel T r (literal_end r') (flow c')"
      unfolding eq by (rule simsE)
    show ?thesis unfolding Some x run_literal_end [OF c'(1) after_literal(2) [OF c'(2)], simplified]
      using after_literal(1) [OF c'(2), of "flow c'"] c'(3) by (intro sims_Some) simp_all
  qed
  show "sims (lit_rel T) sc d a c (run_seq (run C '''') b a) (run_body C True (run C '''') b' c)" if "flow c = ''0''"
    by (rule lit) (use that in \<open>cases c; simp\<close>)
  show "sims (lit_rel T) sc d a c (run_seq (run C '''') b a) (run_body C True (run C '''') (signalSet 0 # b') c)"
    by (rule lit) (simp add: run_signal)
qed

text \<open>A finalizer that ends normally leaves the flow as it was, another jump replaces it.\<close>

definition fin_rel :: "flowTarget list \<Rightarrow> string \<Rightarrow> outcome_rel" where
  "fin_rel T v0 r r' v \<longleftrightarrow>
     (if raises r then r' = r else r' = Norm \<and> (if r = Norm then v = v0 else jump_code T r = Some v))"

lemma restored_restore [simp]: "restored [restore_flow n] = Some n"
  by (simp add: restore_flow_def signalTest_def)

lemma run_finalizer_prefix:
  "run_seq (run C '''') (finalizer_prefix k @ b) s =
    run_seq (run C '''') b (s\<lparr>saved := (saved s)(saved_name k := flow s), flow := ''0'', frame := Restore (saved_name k) # frame s\<rparr>)"
  by (simp add: finalizer_prefix_def run_signal simple_run_def action_of_def act_def flow_name_def)

lemma lit_fin:
  assumes "lit_rel T r r' v" "targets_ok T d k"
  shows "fin_rel T v0 r r' (if v = decimal 0 then v0 else v)"
proof (cases "raises r")
  case False
  have jump: "decimal (target_code tok t) \<noteq> decimal 0" if "find_target T tok l = Some t" for tok l t
    using target_codes(1) [OF assms(2) that] by (simp del: decimal_flow)
  show ?thesis using assms(1) False jump [of BREAK] jump [of CONTINUE] decimal_inj [of 1 0]
    by (cases r) (auto simp: lit_rel_def fin_rel_def jump_code_def target_code_def split: if_splits)
qed (use assms in \<open>simp add: lit_rel_def fin_rel_def\<close>)

lemma sims_finalizer:
  assumes sub: "\<And>s. s \<in> set b \<Longrightarrow> sim_stmt W R C s" and low: "lowered_body W R sc d T b b'" and h: "history c = history a"
  shows "sims (fin_rel T (flow c)) sc d a c (run_seq (run C '''') b a) (run_body C True (run C '''') (finalizer_prefix k @ b') c)"
proof -
  let ?S = "(saved c)(saved_name k := flow c)" and ?F = "[Restore (saved_name k)]"
  note body = sims_body [OF sub low h, where F = ?F and S = ?S]
  have run: "run_body C True (run C '''') (finalizer_prefix k @ b') c =
    (case run_seq (run C '''') b' (c\<lparr>frame := ?F, saved := ?S, flow := ''0''\<rparr>) of
        None \<Rightarrow> None
      | Some (r, s1) \<Rightarrow> (case fold (run_exit (rc_env C)) (frame s1) (r, s1) of
           (r2, s2) \<Rightarrow> Some (literal_end r2, s2\<lparr>frame := frame c, saved := saved c\<rparr>)))"
  proof -
    have eq: "c\<lparr>saved := (saved c)(saved_name k := flow c), flow := ''0'', frame := ?F\<rparr> = c\<lparr>frame := ?F, saved := ?S, flow := ''0''\<rparr>"
      by (cases c) simp
    show ?thesis unfolding run_body_def run_literal_def literal_end_def by (simp add: run_finalizer_prefix eq)
  qed
  show ?thesis
  proof (cases "run_seq (run C '''') b a")
    case None
    then show ?thesis using body by (simp add: sims_def run)
  next
    case (Some x)
    obtain r a' where x: "x = (r, a')" by (rule prod.exhaust)
    from body [unfolded Some x] obtain r' c' where c': "run_seq (run C '''') b' (c\<lparr>frame := ?F, saved := ?S, flow := ''0''\<rparr>) = Some (r', c')"
      "after sc (d + 1) a (c\<lparr>frame := ?F, saved := ?S, flow := ''0''\<rparr>) a' c'" "lit_rel T r (literal_end r') (flow c')"
      by (rule simsE)
    obtain v where v: "v = (if flow c' = ''0'' then flow c else flow c')" by simp
    have exit: "fold (run_exit (rc_env C)) (frame c') (r', c') = (r', c'\<lparr>flow := v\<rparr>)"
      by (simp add: after_literal [OF c'(2)] run_exit_def v)
    from low obtain n where "targets_ok T d n" unfolding lowered_body_def by blast
    from lit_fin [OF c'(3) this] have rel: "fin_rel T (flow c) r (literal_end r') v" by (simp add: v)
    have eq: "c'\<lparr>flow := v, frame := frame c, saved := saved c\<rparr> = c'\<lparr>frame := frame c, saved := saved c, flow := v\<rparr>"
      by (cases c') simp
    show ?thesis using after_literal(1) [OF c'(2), of v] rel by (simp add: Some x run c'(1) exit eq sims_Some)
  qed
qed

text \<open>The three parts of a try statement.\<close>

lemma after_lit_fin:
  assumes "lit_rel T r2 r2' v2" "fin_rel T v2 r3 r3' v3"
  shows "lit_rel T (after_finally r2 r3) (after_finally r2' r3') v3"
proof (cases "raises r3")
  case True
  with assms show ?thesis by (auto simp: lit_rel_def fin_rel_def after_finally_def)
next
  case False
  with assms show ?thesis by (auto simp: lit_rel_def fin_rel_def after_finally_def split: if_splits)
qed

lemma after_history: "after sc d a c a' c' \<Longrightarrow> history c' = history a'"
  by (simp add: after_def)

text \<open>A handler or finalizer may start with any flow.\<close>

definition follows ::
  "(run_state \<Rightarrow> outcome_rel) \<Rightarrow> bool \<Rightarrow> nat \<Rightarrow> (run_state \<Rightarrow> run_result) option \<Rightarrow> (run_state \<Rightarrow> run_result) option \<Rightarrow> bool"
where
  "follows Q sc d = rel_option (\<lambda>h h'. \<forall>a c. history c = history a \<longrightarrow> sims (Q c) sc d a c (h a) (h' c))"

lemma follows_None: "follows Q sc d None h' \<Longrightarrow> h' = None"
  by (cases h') (simp_all add: follows_def)

lemma follows_Some:
  assumes "follows Q sc d (Some h) h'"
  obtains g where "h' = Some g" "\<forall>a c. history c = history a \<longrightarrow> sims (Q c) sc d a c (h a) (g c)"
  using assms by (cases h') (auto simp: follows_def)

lemma sims_handler:
  assumes body: "sims (lit_rel T) sc d a c ra rc" and rel: "follows (\<lambda>c. lit_rel T) sc d H H'"
  defines "caught \<equiv> \<lambda>H r. case H of Some h \<Rightarrow> \<lambda>s. if r = Throw then h s else Some (r, s) | None \<Rightarrow> \<lambda>s. Some (r, s)"
  shows "sims (lit_rel T) sc d a c
    (case ra of None \<Rightarrow> None | Some (r, s) \<Rightarrow> caught H r s) (case rc of None \<Rightarrow> None | Some (r, s) \<Rightarrow> caught H' r s)"
proof (cases ra)
  case None
  then show ?thesis using body by (simp add: sims_def)
next
  case (Some x)
  obtain r a' where x: "x = (r, a')" by (rule prod.exhaust)
  from body [unfolded Some x] obtain r' c' where c': "rc = Some (r', c')" "after sc d a c a' c'" "lit_rel T r r' (flow c')"
    by (rule simsE)
  have throw: "r = Throw \<longleftrightarrow> r' = Throw" using c'(3) by (auto simp: lit_rel_def raises_def split: if_splits)
  have same: "sims (lit_rel T) sc d a c (Some (r, a')) (Some (r', c'))" by (rule sims_Some [where Q = "lit_rel T", OF c'(2,3)])
  show ?thesis
  proof (cases H)
    case None
    then have "H' = None" using rel follows_None by simp
    then show ?thesis using same None by (simp add: caught_def Some x c'(1))
  next
    case h: (Some h)
    from rel [unfolded h] obtain h' where h': "H' = Some h'" "\<forall>a c. history c = history a \<longrightarrow> sims (lit_rel T) sc d a c (h a) (h' c)"
      by (rule follows_Some)
    show ?thesis using same throw h'(2) sims_after [OF c'(2), of "lit_rel T" "h a'" "h' c'"] after_history [OF c'(2)]
      by (simp add: caught_def Some x c'(1) h h'(1))
  qed
qed

lemma sims_ending:
  assumes rest: "sims (lit_rel T) sc d a c ra rc"
    and fin: "\<And>a c. history c = history a \<Longrightarrow> sims (fin_rel T (flow c)) sc d a c (f a) (f' c)"
  shows "sims (lit_rel T) sc d a c
    (case ra of None \<Rightarrow> None | Some (r, s) \<Rightarrow> (case f s of None \<Rightarrow> None | Some (r1, s1) \<Rightarrow> Some (after_finally r r1, s1)))
    (case rc of None \<Rightarrow> None | Some (r, s) \<Rightarrow> (case f' s of None \<Rightarrow> None | Some (r1, s1) \<Rightarrow> Some (after_finally r r1, s1)))"
proof (cases ra)
  case None
  then show ?thesis using rest by (simp add: sims_def)
next
  case (Some x)
  obtain r a' where x: "x = (r, a')" by (rule prod.exhaust)
  from rest [unfolded Some x] obtain r' c' where c': "rc = Some (r', c')" "after sc d a c a' c'" "lit_rel T r r' (flow c')"
    by (rule simsE)
  note f = fin [OF after_history [OF c'(2)]]
  show ?thesis
  proof (cases "f a'")
    case None
    then show ?thesis using f by (simp add: Some x c'(1) sims_def)
  next
    case y: (Some y)
    obtain r1 a1 where y1: "y = (r1, a1)" by (rule prod.exhaust)
    from f [unfolded y y1] obtain r1' c1 where c1: "f' c' = Some (r1', c1)" "after sc d a' c' a1 c1" "fin_rel T (flow c') r1 r1' (flow c1)"
      by (rule simsE)
    show ?thesis using sims_Some [where Q = "lit_rel T", OF after_trans [OF c'(2) c1(2)] after_lit_fin [OF c'(3) c1(3)]]
      by (simp add: Some x c'(1) y y1 c1(1))
  qed
qed

lemma run_try_alt:
  "run_try f H F s =
    (let caught = \<lambda>r. (case H of Some h \<Rightarrow> \<lambda>s. if r = Throw then h s else Some (r, s) | None \<Rightarrow> \<lambda>s. Some (r, s));
         rest = (case f s of None \<Rightarrow> None | Some (r, s) \<Rightarrow> caught r s)
     in case F of None \<Rightarrow> rest
        | Some g \<Rightarrow> (case rest of None \<Rightarrow> None | Some (r, s) \<Rightarrow> (case g s of None \<Rightarrow> None | Some (r1, s1) \<Rightarrow> Some (after_finally r r1, s1))))"
  unfolding run_try_def Let_def by (auto split: option.splits)

lemma sims_run_try:
  assumes "sims (lit_rel T) sc d a c (f a) (f' c)"
    and "follows (\<lambda>c. lit_rel T) sc d H H'" and "follows (\<lambda>c. fin_rel T (flow c)) sc d F F'"
  shows "sims (lit_rel T) sc d a c (run_try f H F a) (run_try f' H' F' c)"
proof (cases F)
  case None
  then have "F' = None" using assms(3) follows_None by simp
  then show ?thesis using None sims_handler [OF assms(1,2)] by (simp add: run_try_alt Let_def)
next
  case (Some g)
  from assms(3) [unfolded Some] obtain g' where g': "F' = Some g'"
    "\<forall>a c. history c = history a \<longrightarrow> sims (fin_rel T (flow c)) sc d a c (g a) (g' c)" by (rule follows_Some)
  show ?thesis unfolding run_try_alt Let_def Some g'(1) option.case
    using g'(2) by (intro sims_ending [OF sims_handler [OF assms(1,2)]]) blast
qed

section \<open>The statement\<close>

lemma grows_arg: "lower_arg W R sc d T i e \<sigma> = (e', \<sigma>') \<Longrightarrow> grows \<sigma> \<sigma>'"
  using growingD [OF growing_arg [where e = e and W = W and R = R and sc = sc and d = d and T = T and i = i], of \<sigma>] growing_stmt by simp

text \<open>An argument of the call.\<close>

definition prefix_of :: "nat \<Rightarrow> stmt list \<Rightarrow> bool" where
  "prefix_of i pre \<longleftrightarrow> (if i = 1 then pre = [signalSet 0] else if i = 2 then \<exists>k. pre = finalizer_prefix k else pre = [])"

lemma lower_arg_literal:
  assumes "lower_arg W R sc d T i e \<sigma> = (e', \<sigma>')" "fine sc \<sigma>'" "targets_ok T d (nextCode \<sigma>)" "2 \<le> nextCode \<sigma>"
    and "funcLitBody e = Some b" "list_all (from_source W (slot_names R) False) b"
  obtains p t b' pre where "e' = FuncLit p t (pre @ b')" "lowered_body W R sc d T b b'" "prefix_of i pre"
proof -
  from assms(5) obtain p t where e: "e = FuncLit p t b" by (cases e) auto
  from assms(1) [unfolded e lower_arg.simps] obtain \<sigma>1 b' \<sigma>2 pre where
    chk: "check_catches W i b \<sigma> = ((), \<sigma>1)" and b': "lower_list (lower_stmt W R sc (d + 1) T '''') b \<sigma>1 = (b', \<sigma>2)"
    and pre: "literal_prefix i \<sigma>2 = (pre, \<sigma>')" and e': "e' = FuncLit p t (pre @ b')"
    by (auto elim!: then_walkE simp: return_walk_def)
  have g: "grows \<sigma> \<sigma>1" "grows \<sigma>2 \<sigma>'"
    using growingD [OF growing_steps(5), of \<sigma> W i b] growingD [OF growing_steps(3), of \<sigma>2 i] chk pre by simp_all
  have "lowered_body W R sc d T b b'"
    unfolding lowered_body_def using b' fine_before [OF g(2) assms(2)] grows_codes(1) [OF g(1) assms(3)] grows_codes(2) [OF g(1) assms(4)] assms(6)
    by blast
  moreover have "prefix_of i pre" using pre by (auto simp: literal_prefix_def prefix_of_def split: if_splits)
  ultimately show thesis using that e' by blast
qed

lemma lower_arg_other: "funcLitBody e = None \<Longrightarrow> lower_arg W R sc d T i e \<sigma> = (e, \<sigma>)"
  by (cases e) (simp_all add: lower_arg.simps)

lemma sims_arg:
  assumes low: "lower_arg W R sc d T i e \<sigma> = (e', \<sigma>')" and fine: "fine sc \<sigma>'" and codes: "targets_ok T d (nextCode \<sigma>)" "2 \<le> nextCode \<sigma>"
    and src: "case funcLitBody e of None \<Rightarrow> True | Some b \<Rightarrow> list_all (from_source W (slot_names R) False) b"
    and sub: "\<And>b s. funcLitBody e = Some b \<Longrightarrow> s \<in> set b \<Longrightarrow> sim_stmt W R C s" and i: "i = 1 \<or> i = 2"
  shows "follows (\<lambda>c. if i = 1 then lit_rel T else fin_rel T (flow c)) sc d
      (map_option (run_body C False (run C [])) (funcLitBody e)) (map_option (run_body C True (run C [])) (funcLitBody e'))"
proof (cases "funcLitBody e")
  case None
  then show ?thesis using low lower_arg_other [OF None, of W R sc d T i \<sigma>] by (simp add: follows_def)
next
  case (Some b)
  have "list_all (from_source W (slot_names R) False) b" using src Some by simp
  from lower_arg_literal [OF low fine codes Some this] obtain p t b' pre where
    e': "e' = FuncLit p t (pre @ b')" "lowered_body W R sc d T b b'" "prefix_of i pre" .
  show ?thesis using i sims_literal(2) [OF sub [OF Some] e'(2)] sims_finalizer [OF sub [OF Some] e'(2)] e'(3)
    by (auto simp: Some e'(1) prefix_of_def follows_def)
qed

lemma try_call_GhiTry:
  assumes "callNamed x ''GhiTry'' = Some [body, h, fin]" "funcLitBody body = Some b"
  shows "try_call W x = Some (False, b, funcLitBody h, funcLitBody fin)"
  using assms by (cases body) (auto simp: callNamed_def split: expr.splits if_splits)

lemma try_call_Try:
  assumes "runtime_symbols W"
  shows "try_call W (CallExpr (lw_try W) [FuncLit p t b, h, fin] v) = Some (True, b, funcLitBody h, funcLitBody fin)"
proof -
  have "callNamed (CallExpr (lw_try W) [] v) ''GhiTry'' = None"
    using assms by (auto simp: callNamed_def runtime_symbols_def split: expr.splits)
  then show ?thesis by simp
qed

lemma lower_seq_three:
  assumes "lower_seq f [x, y, z] \<sigma> = (out, \<sigma>')"
  obtains x' \<sigma>1 y' \<sigma>2 z' where "f x \<sigma> = (x', \<sigma>1)" "f y \<sigma>1 = (y', \<sigma>2)" "f z \<sigma>2 = (z', \<sigma>')" "out = [x', y', z']"
  using assms by (auto simp: lower_seq_def split: prod.splits)

lemma sim_try:
  assumes ctx: "context_of W R C" and call: "callNamed x ''GhiTry'' = Some args"
    and sub: "\<And>e b s. e \<in> set args \<Longrightarrow> funcLitBody e = Some b \<Longrightarrow> s \<in> set b \<Longrightarrow> sim_stmt W R C s"
  shows "sim_stmt W R C (ExprStmt x)"
  unfolding sim_stmt_def
proof (intro allI impI)
  fix sc fall d T lab \<sigma> out \<sigma>' a c
  assume low: "lower_stmt W R sc d T lab (ExprStmt x) \<sigma> = (out, \<sigma>')" and fine: "fine sc \<sigma>'"
    and codes: "targets_ok T d (nextCode \<sigma>)" "2 \<le> nextCode \<sigma>"
    and src: "from_source W (slot_names R) fall (ExprStmt x)" and st: "start a c"
  from src call obtain body h fin b where args: "args = [body, h, fin]" "funcLitBody body = Some b"
    and bodies: "list_all (\<lambda>e. case funcLitBody e of None \<Rightarrow> True | Some b \<Rightarrow> list_all (from_source W (slot_names R) False) b) args"
    by (auto split: list.splits)
  obtain f v where x: "x = CallExpr f args v" using call by (auto simp: callNamed_def split: expr.splits if_splits)
  let ?arg = "lower_arg W R sc d T"
  from low call obtain args' where
    args': "lower_seq (\<lambda>ia. ?arg (fst ia) (snd ia)) [(0, body), (1, h), (2, fin)] (\<sigma>\<lparr>used := True\<rparr>) = (args', \<sigma>')" and
    out: "out = ExprStmt (CallExpr (lw_try W) args' v) # flow_tests d False False (rev T) @ [leave_test R d]"
    by (auto elim!: then_walkE simp: return_walk_def x args(1) numeral_2_eq_2)
  obtain body' \<sigma>1 h' \<sigma>2 fin' where
    low1: "?arg 0 body (\<sigma>\<lparr>used := True\<rparr>) = (body', \<sigma>1)" and low2: "?arg 1 h \<sigma>1 = (h', \<sigma>2)" and
    low3: "?arg 2 fin \<sigma>2 = (fin', \<sigma>')" and args'': "args' = [body', h', fin']"
    by (rule lower_seq_three [OF args', unfolded fst_conv snd_conv])
  note g1 = grows_arg [OF low1] and g2 = grows_arg [OF low2] and g3 = grows_arg [OF low3]
  have f2: "fine sc \<sigma>2" and f1: "fine sc \<sigma>1" using fine fine_before g3 g2 by blast+
  have c0: "targets_ok T d (nextCode (\<sigma>\<lparr>used := True\<rparr>))" "2 \<le> nextCode (\<sigma>\<lparr>used := True\<rparr>)" using codes by simp_all
  note c1 = grows_codes(1) [OF g1 c0(1)] grows_codes(2) [OF g1 c0(2)]
  note c2 = grows_codes(1) [OF g2 c1(1)] grows_codes(2) [OF g2 c1(2)]
  have "list_all (from_source W (slot_names R) False) b" using bodies args by simp
  from lower_arg_literal [OF low1 f1 c0 args(2) this] obtain p t b' pre where
    lit: "body' = FuncLit p t (pre @ b')" and body'': "lowered_body W R sc d T b b'" and pre: "prefix_of 0 pre" .
  have body': "body' = FuncLit p t b'" "lowered_body W R sc d T b b'" using lit body'' pre by (simp_all add: prefix_of_def)
  have sub1: "s \<in> set b \<Longrightarrow> sim_stmt W R C s" for s using sub [of body] args by simp
  have flow: "history c = history a" "flow c = ''0''" using st by (simp_all add: start_def)
  have H: "follows (\<lambda>c. lit_rel T) sc d (map_option (run_body C False (run C '''')) (funcLitBody h))
      (map_option (run_body C True (run C '''')) (funcLitBody h'))"
    using sims_arg [OF low2 f2 c1 _ sub [of h]] bodies args by simp
  have F: "follows (\<lambda>c. fin_rel T (flow c)) sc d (map_option (run_body C False (run C '''')) (funcLitBody fin))
      (map_option (run_body C True (run C '''')) (funcLitBody fin'))"
    using sims_arg [OF low3 fine c2 _ sub [of fin]] bodies args by simp
  have names: "rc_names C = W" "runtime_symbols W" using ctx by (simp_all add: context_of_def)
  have try_run: "run C lab (ExprStmt x) a = run_try (run_body C False (run C '''') b) (map_option (run_body C False (run C '''')) (funcLitBody h))
      (map_option (run_body C False (run C '''')) (funcLitBody fin)) a"
    using try_call_GhiTry [OF call [unfolded args(1)] args(2)] by (simp add: run_body_False [abs_def])
  have Try_run: "run C l (ExprStmt (CallExpr (lw_try W) args' v)) c = run_try (run_body C True (run C '''') b')
      (map_option (run_body C True (run C '''')) (funcLitBody h')) (map_option (run_body C True (run C '''')) (funcLitBody fin')) c" for l
    using try_call_Try [OF names(2)] by (simp add: names(1) args'' body'(1))
  have "sims (lit_rel T) sc d a c (run_body C False (run C '''') b a) (run_body C True (run C '''') b' c)"
    using sims_literal(1) [OF sub1 body'(2) flow] by simp
  note lit_sims = this
  have run: "run_out C lab out c = and_then (run C [] (ExprStmt (CallExpr (lw_try W) args' v)) c)
      (run_seq (run C []) (flow_tests d False False (rev T) @ [leave_test R d]))"
    by (cases "flow_tests d False False (rev T) @ [leave_test R d]") (simp_all add: out run_out_def del: run.simps)
  from sims_tests [OF ctx codes(1) sims_run_try [where f = "run_body C False (run C []) b" and f' = "run_body C True (run C []) b'", OF lit_sims H F], of fall]
  show "sims (out_rel fall d T) sc d a c (run C lab (ExprStmt x) a) (run_out C lab out c)"
    unfolding try_run run Try_run .
qed

end
