(* ===== verification/ControlSound.thy ===== *)
theory ControlSound
  imports ControlTry
begin

text \<open>
  The lowering of a function keeps its runs: \<^theory_text>\<open>ControlTry\<close> and the theories before it put together over
  all statements, then the declarations and deferred calls of the function.
\<close>

section \<open>All statements\<close>

lemma try_part_size: "callNamed x name = Some args \<Longrightarrow> e \<in> set args \<Longrightarrow> funcLitBody e = Some b \<Longrightarrow> s \<in> set b \<Longrightarrow> size s < size x"
  using callNamed_size [of x name args] size_list_mem [of e args] funcLitBody_size [of e b] size_list_mem [of s b] by simp

lemma clause_part_size: "c \<in> set b \<Longrightarrow> s \<in> set (clause_stmts c) \<Longrightarrow> size s < size_list size b"
  using clause_stmts_size [of c 0 b s] by simp

lemma sim_all:
  assumes ctx: "context_of W R C"
  shows "sim_stmt W R C s"
proof (induction s rule: measure_induct_rule [where f = size])
  case (less s)
  have part: "size x < size s \<Longrightarrow> sim_stmt W R C x" for x by (rule less)
  have list: "x \<in> set b \<Longrightarrow> size_list size b < size s \<Longrightarrow> sim_stmt W R C x" for b x
    by (rule part) (use size_list_mem [of x b] in simp)
  have opt: "size_option size i < size s \<Longrightarrow> pred_option (sim_stmt W R C) i" for i
    using part by (cases i) simp_all
  have clauses: "size_list size b < size s \<Longrightarrow> c \<in> set b \<Longrightarrow> x \<in> set (clause_stmts c) \<Longrightarrow> sim_stmt W R C x" for b c x
    by (rule part) (use clause_part_size [of c b x] in simp)
  show ?case
  proof (cases s)
    case (ExprStmt x)
    show ?thesis
    proof (cases "callNamed x ''GhiTry''")
      case None
      then show ?thesis unfolding ExprStmt by (rule sim_expr [OF ctx])
    next
      case (Some args)
      show ?thesis unfolding ExprStmt
        by (rule sim_try [OF ctx Some], rule part) (use try_part_size [OF Some] ExprStmt in fastforce)
    qed
  next
    case (IfStmt i c b e)
    show ?thesis unfolding IfStmt by (rule sim_if [OF opt list opt]) (auto simp: IfStmt)
  next
    case (ForStmt i c p b)
    show ?thesis unfolding ForStmt by (rule sim_for [OF ctx opt opt list]) (auto simp: ForStmt)
  next
    case (RangeStmt k v tok x b)
    show ?thesis unfolding RangeStmt by (rule sim_range [OF list]) (auto simp: RangeStmt)
  next
    case (SwitchStmt i t b)
    show ?thesis unfolding SwitchStmt by (rule sim_switch [OF opt clauses]) (auto simp: SwitchStmt)
  next
    case (TypeSwitchStmt i x b)
    show ?thesis unfolding TypeSwitchStmt by (rule sim_type_switch [OF opt part clauses]) (auto simp: TypeSwitchStmt)
  next
    case (SelectStmt b)
    show ?thesis unfolding SelectStmt by (rule sim_select [OF clauses]) (auto simp: SelectStmt)
  next
    case (BlockStmt b)
    show ?thesis unfolding BlockStmt by (rule sim_block [OF list]) (auto simp: BlockStmt)
  next
    case (LabeledStmt l x)
    show ?thesis unfolding LabeledStmt by (rule sim_labeled [OF part]) (simp add: LabeledStmt)
  qed (simp_all add: sim_send sim_incdec sim_go sim_assign sim_decl sim_nothing sim_return sim_branch sim_defer sim_stray ctx)
qed

section \<open>Bodies that do not end normally\<close>

lemma after_finally_Norm: "after_finally r r1 = Norm \<longleftrightarrow> r = Norm \<and> r1 = Norm"
  by (auto simp: after_finally_def raises_def)

lemma run_try_Norm:
  assumes "run_try f H F s = Some (Norm, s')"
    and "\<And>s s'. f s \<noteq> Some (Norm, s')" "\<And>h s s'. H = Some h \<Longrightarrow> h s \<noteq> Some (Norm, s')"
  shows False
  using assms by (auto simp: run_try_def after_finally_Norm split: option.splits if_splits prod.splits)

lemma run_try_fin_Norm:
  assumes "run_try f H (Some g) s = Some (Norm, s')" and "\<And>s s'. g s \<noteq> Some (Norm, s')"
  shows False
  using assms by (auto simp: run_try_def after_finally_Norm split: option.splits)

lemma and_then_NormD:
  assumes "and_then r k = Some (Norm, s')"
  obtains s where "r = Some (Norm, s)" "k s = Some (Norm, s')"
  using assms by (auto simp: and_then_def split: option.splits if_splits)

lemma ask_NormE:
  assumes "ask \<rho> ev k s = Some (Norm, s')"
  obtains n s1 where "k n s1 = Some (Norm, s')"
  using assms by (auto simp: ask_def Let_def split: if_splits)

lemma terminates_run:
  "stmtTerminates x \<Longrightarrow> from_source (rc_names C) R fall x \<Longrightarrow> run C l x s \<noteq> Some (Norm, s')"
  "blockTerminates b \<Longrightarrow> list_all (from_source (rc_names C) R fall) b \<Longrightarrow> run_seq (run C '''') b s \<noteq> Some (Norm, s')"
proof (induction x and b arbitrary: fall l s s' and fall s s' rule: stmtTerminates_blockTerminates.induct)
  case (2 x)
  show ?case
  proof (cases "always_raises x")
    case (Some r)
    then have "callNamed x ''GhiTry'' = None" by (auto simp: always_raises_def callNamed_def split: if_splits expr.splits)
    moreover from this have "user_stmt (rc_names C) (ExprStmt x)" using 2(5) by simp
    ultimately have "try_call (rc_names C) x = None" using user_no_try by blast
    moreover have "r \<noteq> Norm" using Some by (auto simp: always_raises_def split: if_splits)
    ultimately show ?thesis using Some by (auto elim!: and_then_NormD)
  next
    case None
    then have no: "callNamed x ''GhiThrow'' = None" "callNamed x ''panic'' = None" by (simp_all add: always_raises_def split: if_splits)
    with 2(4,5) obtain body h fin b where call: "callNamed x ''GhiTry'' = Some [body, h, fin]" "funcLitBody body = Some b"
      by (auto split: option.splits list.splits)
    have bodies: "list_all (from_source (rc_names C) R False) b"
      "\<And>c. funcLitBody h = Some c \<Longrightarrow> list_all (from_source (rc_names C) R False) c"
      "\<And>c. funcLitBody fin = Some c \<Longrightarrow> list_all (from_source (rc_names C) R False) c"
      using 2(5) call by auto
    have none: "\<not> (callNamed x ''GhiThrow'' \<noteq> None \<or> callNamed x ''panic'' \<noteq> None)" using no by simp
    note part = 2(1-3) [OF none call(1) refl refl refl refl]
    have fin: "run_seq (run C []) c s \<noteq> Some (Norm, s')" if "funcLitBody fin = Some c" "blockTerminates c" for c s s'
      by (rule part(1) [OF that(1) that(2) bodies(3) [OF that(1)]])
    have body: "run_seq (run C []) b s \<noteq> Some (Norm, s')" if "blockTerminates b" for s s'
      by (rule part(2) [OF call(2) that bodies(1)])
    have handler: "run_seq (run C []) c s \<noteq> Some (Norm, s')" if "funcLitBody h = Some c" "blockTerminates c" for c s s'
      by (rule part(3) [OF that(1) that(2) bodies(2) [OF that(1)]])
    have run: "run C l (ExprStmt x) s = run_try (run_seq (run C []) b) (map_option (run_seq (run C [])) (funcLitBody h))
        (map_option (run_seq (run C [])) (funcLitBody fin)) s"
      using try_call_GhiTry [OF call, of "rc_names C"] by (simp add: run_body_False [abs_def])
    from 2(4) no call consider c where "funcLitBody fin = Some c" "blockTerminates c"
      | "blockTerminates b" "\<And>c. funcLitBody h = Some c \<Longrightarrow> blockTerminates c"
      by (auto split: option.splits)
    then show ?thesis
    proof cases
      case 1
      show ?thesis unfolding run 1(1) option.map using fin [OF 1] run_try_fin_Norm by blast
    next
      case 2
      show ?thesis unfolding run using body [OF 2(1)] handler [OF _ 2(2)] by (auto dest!: run_try_Norm)
    qed
  qed
qed (auto elim!: and_then_NormD ask_NormE split: option.splits if_splits)

section \<open>The function\<close>

lemma run_exits: "fold (run_exit \<rho>) (map Deferred ds) x = fold (run_deferred \<rho>) ds x"
  by (induction ds arbitrary: x) (simp_all add: run_exit_def)

text \<open>Deferred calls see the history and the panic under way only.\<close>

lemma run_deferred_same:
  assumes "fst y = fst x" "history (snd y) = history (snd x)"
  shows "fst (fold (run_deferred \<rho>) ds y) = fst (fold (run_deferred \<rho>) ds x) \<and>
    history (snd (fold (run_deferred \<rho>) ds y)) = history (snd (fold (run_deferred \<rho>) ds x))"
  using assms
proof (induction ds arbitrary: x y)
  case (Cons ev ds)
  have "fst (run_deferred \<rho> ev y) = fst (run_deferred \<rho> ev x)"
    "history (snd (run_deferred \<rho> ev y)) = history (snd (run_deferred \<rho> ev x))"
    using Cons.prems by (simp_all add: run_deferred_def Let_def)
  from Cons.IH [OF this] show ?case by simp
qed simp

lemma run_declared: "flow s = ''0'' \<Longrightarrow> run C l (slot_decl n t) s = Some (Norm, s)"
  by (cases s) (simp add: slot_decl_def simple_run_def action_of_def act_def)

lemma run_slots:
  "flow s = ''0'' \<Longrightarrow> run_seq (run C []) (map (\<lambda>x. slot_decl (f x) (g x)) xs) s = Some (Norm, s)"
  by (induction xs) (simp_all add: run_declared del: run.simps)

lemma run_flow_prefix: "flow s = ''0'' \<Longrightarrow> run_seq (run C []) (flow_prefix R) s = Some (Norm, s)"
  using run_slots by (simp add: flow_prefix_def run_declared del: run.simps)

lemma run_scoped_prefix:
  assumes "runtime_symbols W" "rc_names C = W"
  shows "run_seq (run C '''') (scoped_prefix W) s = Some (Norm, s\<lparr>frame := RunAll # frame s\<rparr>)"
proof -
  have "action_of W (DeferStmt (CallExpr (lw_run W) [defers_name] False)) = Some DeferRun"
    using assms(1) by (auto simp: action_of_def runtime_symbols_def split: expr.splits)
  then show ?thesis using assms(2) by (simp add: scoped_prefix_def simple_run_def action_of_def act_def split: expr.splits)
qed

text \<open>The end of a function after related runs of its body.\<close>

definition finish :: "environment \<Rightarrow> run_result \<Rightarrow> (outcome \<times> node list) option" where
  "finish \<rho> r =
     (case r of
        None \<Rightarrow> None
      | Some (r, s) \<Rightarrow> (case fold (run_exit \<rho>) (frame s) (r, s) of (r1, s1) \<Rightarrow> Some (function_end r1, history s1)))"

lemma run_function_finish:
  "run_function W slots \<rho> n b = finish \<rho> (run_seq (run \<lparr>rc_names = W, rc_slots = slots, rc_env = \<rho>, rc_bound = n\<rparr> '''') b first_state)"
  by (simp add: run_function_def finish_def)

lemma out_rel_function: "out_rel False 0 [] r r' v \<Longrightarrow> r' = r"
  by (auto simp: out_rel_def jump_rel_def find_target_def split: outcome.splits)

lemma sims_finish:
  assumes "sims (out_rel False 0 []) sc 0 a c ra rc" "frame a = []" "registered c = []" "frame c = (if sc then [RunAll] else [])"
  shows "finish \<rho> rc = finish \<rho> ra"
proof (cases ra)
  case None
  then show ?thesis using assms(1) by (simp add: sims_def)
next
  case (Some x)
  obtain r a' where x: "x = (r, a')" by (rule prod.exhaust)
  from assms(1) [unfolded Some x] obtain r' c' where rc: "rc = Some (r', c')" "after sc 0 a c a' c'" "out_rel False 0 [] r r' (flow c')"
    by (rule simsE)
  note r' = out_rel_function [OF rc(3)]
  from rc(2) obtain ds where ds: "history c' = history a'" "frame a' = map Deferred ds"
    "if sc then registered c' = ds \<and> frame c' = [RunAll] else frame c' = map Deferred ds"
    using assms(2-4) by (auto simp: after_def split: if_splits)
  have exit: "fold (run_exit \<rho>) (frame c') (r, c') = fold (run_deferred \<rho>) ds (r, c')"
    using ds(3) by (cases sc) (simp_all add: run_exits, simp add: run_exit_def)
  have "fst (fold (run_deferred \<rho>) ds (r, c')) = fst (fold (run_deferred \<rho>) ds (r, a'))"
    "history (snd (fold (run_deferred \<rho>) ds (r, c'))) = history (snd (fold (run_deferred \<rho>) ds (r, a')))"
    using run_deferred_same [of "(r, c')" "(r, a')" \<rho> ds] ds(1) by simp_all
  then show ?thesis by (simp add: finish_def Some x rc(1) r' exit ds(2) run_exits split_beta)
qed

lemma lowered_function:
  assumes low: "lowerFunctionControl W t b = (b', None)"
  obtains sc out \<sigma> where "lower_list (lower_stmt W (return_slots t) sc 0 [] '''') b fresh_flow = (out, \<sigma>)" "fine sc \<sigma>"
    "b' = (let b1 = (if sc then scoped_prefix W @ out else out)
       in if used \<sigma> then flow_prefix (return_slots t) @ b1 @ (if return_slots t \<noteq> [] \<and> blockTerminates b then [unreachable_panic] else [])
          else b1)"
proof -
  let ?low = "\<lambda>sc. lower_list (lower_stmt W (return_slots t) sc 0 [] '''') b fresh_flow"
  obtain sc where sc: "sc = scopedDefer (snd (?low False))" by simp
  have r: "function_result W (return_slots t) sc (blockTerminates b) (?low sc) = (b', None)"
    using low by (cases sc) (simp_all add: lowerFunctionControl.simps Let_def sc)
  then have "cf_err (snd (?low sc)) = None" by (auto simp: function_result_def Let_def split: if_splits)
  then have "fine sc (snd (?low sc))" using sc by (cases sc) (simp_all add: fine_def)
  with r show thesis using that [of sc "fst (?low sc)" "snd (?low sc)"] by (simp add: function_result_def Let_def fine_def split: if_splits)
qed

lemma run_lowered:
  assumes low: "lowerFunctionControl W t b = (b', None)" and ctx: "context_of W (return_slots t) C"
    and src: "list_all (from_source W (slot_names (return_slots t)) False) b"
  shows "\<exists>sc c. frame c = (if sc then [RunAll] else []) \<and> registered c = [] \<and>
    sims (out_rel False 0 []) sc 0 first_state c (run_seq (run C '''') b first_state) (run_seq (run C '''') b' first_state)"
proof -
  let ?R = "return_slots t"
  obtain sc out \<sigma> where out: "lower_list (lower_stmt W ?R sc 0 [] '''') b fresh_flow = (out, \<sigma>)" and fine: "fine sc \<sigma>"
    and b': "b' = (let b1 = (if sc then scoped_prefix W @ out else out)
       in if used \<sigma> then flow_prefix ?R @ b1 @ (if ?R \<noteq> [] \<and> blockTerminates b then [unreachable_panic] else []) else b1)"
    by (rule lowered_function [OF low])
  have names: "rc_names C = W" "runtime_symbols W" using ctx by (simp_all add: context_of_def)
  obtain c where c: "c = (if sc then first_state\<lparr>frame := [RunAll]\<rparr> else first_state)" by simp
  have st: "start first_state c" "frame c = (if sc then [RunAll] else [])" "registered c = []"
    by (simp_all add: c start_def first_state_def)
  have codes: "targets_ok [] 0 (nextCode fresh_flow)" "2 \<le> nextCode fresh_flow"
    by (simp_all add: targets_ok_def fresh_flow_def)
  have body: "sims (out_rel False 0 []) sc 0 first_state c (run_seq (run C '''') b first_state) (run_seq (run C '''') out c)"
    by (rule sims_list [OF sim_all [OF ctx] out fine codes src st(1)])
  have prefix: "run_seq (run C '''') ((if sc then scoped_prefix W @ out else out) @ p) first_state =
      and_then (run_seq (run C '''') out c) (run_seq (run C '''') p)" for p
    using run_scoped_prefix [OF names(2,1), of first_state]
    by (cases sc) (simp_all add: run_seq_append c first_state_def and_then_assoc)
  have "and_then (run_seq (run C '''') out c) (run_seq (run C '''') [unreachable_panic]) = run_seq (run C '''') out c"
    if "blockTerminates b"
  proof (cases "run_seq (run C '''') b first_state")
    case None
    then show ?thesis using body by (simp add: sims_def)
  next
    case (Some x)
    obtain r a' where x: "x = (r, a')" by (rule prod.exhaust)
    from body [unfolded Some x] obtain r' c' where c': "run_seq (run C '''') out c = Some (r', c')" "out_rel False 0 [] r r' (flow c')"
      by (rule simsE)
    have "run_seq (run C '''') b first_state \<noteq> Some (Norm, a')" by (rule terminates_run(2) [OF that]) (use src names in simp)
    then have "r' \<noteq> Norm" using Some x out_rel_function [OF c'(2)] by auto
    then show ?thesis by (simp add: c'(1))
  qed
  then have "run_seq (run C '''') b' first_state = run_seq (run C '''') out c"
    using prefix [of "[]"] prefix [of "[unreachable_panic]"] run_flow_prefix [of first_state C ?R]
    by (simp add: b' Let_def run_seq_append first_state_def run_seq_Nil)
  with body st show ?thesis by metis
qed

text \<open>
  C2: The lowering of exceptions and jumps keeps what a function does. For every body that Ghi's parser
  makes, if \<open>lowerFunctionControl\<close> reports no error, then the lowered body, run with the runtime's \<open>Try\<close>,
  evaluates the same expressions in the same order as the body with its try statements and ends in the same
  way, whatever the evaluations answer, for any bound on the iterations of loops: a return, break or
  continue out of try, catch or finally blocks at any depth reaches its target through \<open>ghi_flow\<close>, a finally
  block runs on every way out and may replace it, and deferred calls run once, latest first, when the
  function ends.
\<close>

theorem lowering_preserves:
  assumes "runtime_symbols W" "flow_name \<notin> set (slot_names (return_slots t))"
    and "list_all (from_source W (slot_names (return_slots t)) False) b"
    and "lowerFunctionControl W t b = (b', None)"
  shows "run_function W (slot_names (return_slots t)) \<rho> n b' = run_function W (slot_names (return_slots t)) \<rho> n b"
proof -
  let ?C = "\<lparr>rc_names = W, rc_slots = slot_names (return_slots t), rc_env = \<rho>, rc_bound = n\<rparr>"
  have "context_of W (return_slots t) ?C" using assms(1,2) by (simp add: context_of_def)
  from run_lowered [OF assms(4) this assms(3)] show ?thesis
    unfolding run_function_finish using sims_finish [of _ first_state] by (auto simp: first_state_def)
qed

text \<open>
  A loop that a break leaves from inside a try with a finalizer, a defer in the try, and a return of one
  value; in the environment the condition fails once.
\<close>

definition example_names :: lowering where
  "example_names = \<lparr>lw_try = Ident 0 ''Try'', lw_register = Ident 0 ''RegisterDefer'', lw_run = Ident 0 ''RunDefers'',
     lw_catchable = (\<lambda>e. True), lw_text = (\<lambda>e. [])\<rparr>"

definition example_type :: expr where
  "example_type = FuncType [] [] (Some [Field [] (Ident 1 ''int'')])"

definition example_literal :: "stmt list \<Rightarrow> expr" where
  "example_literal b = FuncLit 2 (FuncType [] [] None) b"

definition example_body :: "stmt list" where
  "example_body =
     [ForStmt None None None
       [ExprStmt (CallExpr (Ident 3 ''GhiTry'')
         [example_literal [IfStmt None (Ident 4 ''last'') [BranchStmt 5 BREAK None] None,
            DeferStmt (CallExpr (Ident 6 ''close'') [] False)],
          Ident 7 ''nil'', example_literal [ExprStmt (CallExpr (Ident 8 ''log'') [] False)]] False)],
      ReturnStmt 9 [BasicLit INTLIT ''1'']]"

definition example_answers :: environment where
  "example_answers h = (if length h = 1 then 2 else 3)"

lemma example_runs:
  "run_function example_names (slot_names (return_slots example_type)) example_answers 4 example_body =
     Some (Ret, [NS (ExprStmt (CallExpr (Ident 6 ''close'') [] False)),
       NS (AssignStmt [Ident 0 ''ghi_return_0''] ASSIGN [BasicLit INTLIT ''1'']),
       NS (ExprStmt (CallExpr (Ident 8 ''log'') [] False)), NE (Ident 4 ''last''),
       NS (ExprStmt (CallExpr (Ident 8 ''log'') [] False)),
       NS (DeferStmt (CallExpr (Ident 6 ''close'') [] False)), NE (Ident 4 ''last'')])"
  by code_simp

lemma example_source: "list_all (from_source example_names (slot_names (return_slots example_type)) False) example_body"
  by (simp add: example_body_def example_literal_def example_names_def callNamed_def user_stmt_def flow_test_def
      return_slots_def example_type_def slot_names_def)

lemma example_lowers: "snd (lowerFunctionControl example_names example_type example_body) = None"
  by code_simp

theorem lowering_preserves_witness:
  "run_function example_names (slot_names (return_slots example_type)) example_answers 4
     (fst (lowerFunctionControl example_names example_type example_body)) =
   run_function example_names (slot_names (return_slots example_type)) example_answers 4 example_body \<and>
   map_option fst (run_function example_names (slot_names (return_slots example_type)) example_answers 4 example_body) = Some Ret"
proof -
  have "runtime_symbols example_names" "flow_name \<notin> set (slot_names (return_slots example_type))" by code_simp+
  moreover have "lowerFunctionControl example_names example_type example_body =
      (fst (lowerFunctionControl example_names example_type example_body), None)"
    using example_lowers by (simp add: prod_eq_iff)
  ultimately show ?thesis using lowering_preserves [OF _ _ example_source, of "fst (lowerFunctionControl example_names example_type example_body)"]
    by (simp add: example_runs)
qed

end
