(* ===== verification/ControlForms.thy ===== *)
theory ControlForms
  imports ControlSound
begin

text \<open>
  The form of a lowered body, in which every jump has its target in the function literal it stands in, as Go
  demands, and the form of a body before the lowering.
\<close>

section \<open>Scopes\<close>

definition lit_bodies :: "expr \<Rightarrow> stmt list list" where
  "lit_bodies e = map (\<lambda>(p, t, b). b) (lits e)"

lemma lit_bodies_size: "b \<in> set (lit_bodies e) \<Longrightarrow> size_list size b < size e"
  by (auto simp: lit_bodies_def dest: lits_size)

lemma lit_stmt_size: "b \<in> set (lit_bodies e) \<Longrightarrow> s \<in> set b \<Longrightarrow> size s < size e"
  using lit_bodies_size [of b e] size_list_mem [of s b] by simp

lemma literal_stmt_size: "funcLitBody e = Some b \<Longrightarrow> e \<in> set es \<Longrightarrow> s \<in> set b \<Longrightarrow> size s < size_list size es"
  using funcLitBody_size [of e b] size_list_mem [of s b] size_list_mem [of e es] by simp

text \<open>
  \<open>jumps_ok W lit E l s\<close>: no try is left in \<open>s\<close>; a break or continue of \<open>s\<close> finds its statement, in \<open>s\<close> or in
  \<open>E\<close>, the labels of the enclosing loops (\<^const>\<open>True\<close>), switches and selects (\<^const>\<open>False\<close>) of the function literal;
  a return in a literal of \<open>Try\<close> (\<open>lit\<close>) has no values. \<open>l\<close> is the label of \<open>s\<close>. The same holds in every function
  literal in \<open>s\<close>.
\<close>

function (sequential) jumps_ok :: "lowering \<Rightarrow> bool \<Rightarrow> (string \<times> bool) list \<Rightarrow> string \<Rightarrow> stmt \<Rightarrow> bool" where
  "jumps_ok W lit E l (ExprStmt x) =
     (callNamed x ''GhiTry'' = None \<and> list_all (list_all (jumps_ok W False [] [])) (lit_bodies x) \<and>
      (case x of
         CallExpr f args v \<Rightarrow>
           strip f \<noteq> strip (lw_try W) \<or>
           list_all (\<lambda>e. case funcLitBody e of None \<Rightarrow> True | Some b \<Rightarrow> list_all (jumps_ok W True [] []) b) args
       | _ \<Rightarrow> True))"
| "jumps_ok W lit E l (ReturnStmt p es) =
     ((lit \<longrightarrow> es = []) \<and> list_all (\<lambda>e. list_all (list_all (jumps_ok W False [] [])) (lit_bodies e)) es)"
| "jumps_ok W lit E l (BranchStmt p tok m) =
     ((tok = BREAK \<longrightarrow> list_ex (\<lambda>(n, loop). m = None \<or> m = Some n) E) \<and>
      (tok = CONTINUE \<longrightarrow> list_ex (\<lambda>(n, loop). loop \<and> (m = None \<or> m = Some n)) E))"
| "jumps_ok W lit E l (BlockStmt b) = list_all (jumps_ok W lit E []) b"
| "jumps_ok W lit E l (IfStmt i c b e) =
     (pred_option (jumps_ok W lit E []) i \<and> list_all (list_all (jumps_ok W False [] [])) (lit_bodies c) \<and>
      list_all (jumps_ok W lit E []) b \<and> pred_option (jumps_ok W lit E []) e)"
| "jumps_ok W lit E l (ForStmt i c p b) =
     (pred_option (jumps_ok W lit E []) i \<and> pred_option (\<lambda>e. list_all (list_all (jumps_ok W False [] [])) (lit_bodies e)) c \<and>
      pred_option (jumps_ok W lit E []) p \<and> list_all (jumps_ok W lit (E @ [(l, True)]) []) b)"
| "jumps_ok W lit E l (RangeStmt k v tok x b) =
     (pred_option (\<lambda>e. list_all (list_all (jumps_ok W False [] [])) (lit_bodies e)) k \<and> pred_option (\<lambda>e. list_all (list_all (jumps_ok W False [] [])) (lit_bodies e)) v \<and>
      list_all (list_all (jumps_ok W False [] [])) (lit_bodies x) \<and> list_all (jumps_ok W lit (E @ [(l, True)]) []) b)"
| "jumps_ok W lit E l (SwitchStmt i t b) =
     (pred_option (jumps_ok W lit E []) i \<and> pred_option (\<lambda>e. list_all (list_all (jumps_ok W False [] [])) (lit_bodies e)) t \<and>
      list_all (jumps_ok W lit (E @ [(l, False)]) []) b)"
| "jumps_ok W lit E l (TypeSwitchStmt i x b) =
     (pred_option (jumps_ok W lit E []) i \<and> jumps_ok W lit E [] x \<and>
      list_all (jumps_ok W lit (E @ [(l, False)]) []) b)"
| "jumps_ok W lit E l (SelectStmt b) = list_all (jumps_ok W lit (E @ [(l, False)]) []) b"
| "jumps_ok W lit E l (CaseClause es b) =
     (pred_option (list_all (\<lambda>e. list_all (list_all (jumps_ok W False [] [])) (lit_bodies e))) es \<and> list_all (jumps_ok W lit E []) b)"
| "jumps_ok W lit E l (CommClause c b) = (pred_option (jumps_ok W lit E []) c \<and> list_all (jumps_ok W lit E []) b)"
| "jumps_ok W lit E l (LabeledStmt m s) = jumps_ok W lit E m s"
| "jumps_ok W lit E l (AssignStmt xs tok ys) = (list_all (\<lambda>e. list_all (list_all (jumps_ok W False [] [])) (lit_bodies e)) xs \<and> list_all (\<lambda>e. list_all (list_all (jumps_ok W False [] [])) (lit_bodies e)) ys)"
| "jumps_ok W lit E l (DeclStmt tok specs) = list_all (\<lambda>sp. list_all (\<lambda>e. list_all (list_all (jumps_ok W False [] [])) (lit_bodies e)) (spec_exprs sp)) specs"
| "jumps_ok W lit E l (DeferStmt e) = list_all (list_all (jumps_ok W False [] [])) (lit_bodies e)"
| "jumps_ok W lit E l (GoStmt e) = list_all (list_all (jumps_ok W False [] [])) (lit_bodies e)"
| "jumps_ok W lit E l (SendStmt c v) =
     (list_all (list_all (jumps_ok W False [] [])) (lit_bodies c) \<and> list_all (list_all (jumps_ok W False [] [])) (lit_bodies v))"
| "jumps_ok W lit E l (IncDecStmt e tok) = list_all (list_all (jumps_ok W False [] [])) (lit_bodies e)"
| "jumps_ok W lit E l s = True"
  by pat_completeness auto
termination
  by (relation "measure (\<lambda>(W, lit, E, l, s). size s)")
    (auto dest!: lit_stmt_size literal_stmt_size dest: ast_size size_list_mem funcLitBody_size simp: less_Suc_eq)

abbreviation lits_ok :: "lowering \<Rightarrow> expr \<Rightarrow> bool" where
  "lits_ok W e \<equiv> list_all (list_all (jumps_ok W False [] [])) (lit_bodies e)"

text \<open>
  Bodies as Ghi's parser makes them: the arguments of a try are function literals or have none in them, no
  call is one of the runtime's \<open>Try\<close> yet, and an else is a block or an if. It looks into all literals.
\<close>

function (sequential) parsed :: "lowering \<Rightarrow> stmt \<Rightarrow> bool" where
  "parsed W (ExprStmt x) =
     (case callNamed x ''GhiTry'' of
        Some args \<Rightarrow> list_all (\<lambda>e. case funcLitBody e of None \<Rightarrow> lits e = [] | Some b \<Rightarrow> list_all (parsed W) b) args
      | None \<Rightarrow>
          list_all (list_all (parsed W)) (lit_bodies x) \<and>
          (case x of CallExpr f args v \<Rightarrow> strip f \<noteq> strip (lw_try W) | _ \<Rightarrow> True))"
| "parsed W (ReturnStmt p es) = list_all (\<lambda>e. list_all (list_all (parsed W)) (lit_bodies e)) es"
| "parsed W (BlockStmt b) = list_all (parsed W) b"
| "parsed W (IfStmt i c b e) =
     (pred_option (parsed W) i \<and> list_all (list_all (parsed W)) (lit_bodies c) \<and> list_all (parsed W) b \<and>
      pred_option (\<lambda>s. is_else s \<and> parsed W s) e)"
| "parsed W (ForStmt i c p b) =
     (pred_option (parsed W) i \<and> pred_option (\<lambda>e. list_all (list_all (parsed W)) (lit_bodies e)) c \<and> pred_option (parsed W) p \<and> list_all (parsed W) b)"
| "parsed W (RangeStmt k v tok x b) =
     (pred_option (\<lambda>e. list_all (list_all (parsed W)) (lit_bodies e)) k \<and> pred_option (\<lambda>e. list_all (list_all (parsed W)) (lit_bodies e)) v \<and> list_all (list_all (parsed W)) (lit_bodies x) \<and> list_all (parsed W) b)"
| "parsed W (SwitchStmt i t b) = (pred_option (parsed W) i \<and> pred_option (\<lambda>e. list_all (list_all (parsed W)) (lit_bodies e)) t \<and> list_all (parsed W) b)"
| "parsed W (TypeSwitchStmt i x b) = (pred_option (parsed W) i \<and> parsed W x \<and> list_all (parsed W) b)"
| "parsed W (SelectStmt b) = list_all (parsed W) b"
| "parsed W (CaseClause es b) = (pred_option (list_all (\<lambda>e. list_all (list_all (parsed W)) (lit_bodies e))) es \<and> list_all (parsed W) b)"
| "parsed W (CommClause c b) = (pred_option (parsed W) c \<and> list_all (parsed W) b)"
| "parsed W (LabeledStmt m s) = parsed W s"
| "parsed W (AssignStmt xs tok ys) = (list_all (\<lambda>e. list_all (list_all (parsed W)) (lit_bodies e)) xs \<and> list_all (\<lambda>e. list_all (list_all (parsed W)) (lit_bodies e)) ys)"
| "parsed W (DeclStmt tok specs) = list_all (\<lambda>sp. list_all (\<lambda>e. list_all (list_all (parsed W)) (lit_bodies e)) (spec_exprs sp)) specs"
| "parsed W (DeferStmt e) = list_all (list_all (parsed W)) (lit_bodies e)"
| "parsed W (GoStmt e) = list_all (list_all (parsed W)) (lit_bodies e)"
| "parsed W (SendStmt c v) = (list_all (list_all (parsed W)) (lit_bodies c) \<and> list_all (list_all (parsed W)) (lit_bodies v))"
| "parsed W (IncDecStmt e tok) = list_all (list_all (parsed W)) (lit_bodies e)"
| "parsed W s = True"
  by pat_completeness auto
termination
  by (relation "measure (\<lambda>(W, s). size s)")
    (auto dest!: lit_stmt_size literal_stmt_size dest: ast_size size_list_mem funcLitBody_size simp: less_Suc_eq)

abbreviation lits_parsed :: "lowering \<Rightarrow> expr \<Rightarrow> bool" where
  "lits_parsed W e \<equiv> list_all (list_all (parsed W)) (lit_bodies e)"

lemma jumps_lit: "jumps_ok W lit E l s \<Longrightarrow> jumps_ok W False E l s"
proof (induction W lit E l s rule: jumps_ok.induct)
qed (auto simp: list_all_iff option.pred_set)

text \<open>The bodies of the literals in a rewritten expression.\<close>

lemma lit_bodies_append [simp]:
  "lit_bodies (FuncLit p t b) = [b]"
  "lit_bodies BadExpr = []"
  "lit_bodies (Ident p n) = []"
  "lit_bodies (BasicLit k v) = []"
  "lit_bodies (CallExpr f es dots) = lit_bodies f @ concat (map lit_bodies es)"
  "lit_bodies (SelectorExpr x p n) = lit_bodies x"
  "lit_bodies (UnaryExpr op x) = lit_bodies x"
  "lit_bodies (BinaryExpr x op y) = lit_bodies x @ lit_bodies y"
  by (simp_all add: lit_bodies_def [abs_def] map_concat comp_def)

end
