(* ===== verification/ControlScopes.thy ===== *)
theory ControlScopes
  imports ControlForms
begin

text \<open>
  A lowered body has the form that \<^theory_text>\<open>ControlForms\<close> describes; and what Go's rule for terminating statements
  says of it.
\<close>

section \<open>Targets\<close>

definition scopes :: "nat \<Rightarrow> flowTarget list \<Rightarrow> (string \<times> bool) list" where
  "scopes d T = map (\<lambda>t. (t_label t, continueCode t \<noteq> 0)) (filter (\<lambda>t. t_depth t = d) T)"

lemma scopes_snoc [simp]:
  "scopes d (T @ [loop_target l d k]) = scopes d T @ [(l, True)]"
  "scopes d (T @ [switch_target l d k]) = scopes d T @ [(l, False)]"
  by (simp_all add: scopes_def)

lemma scopes_deeper: "\<forall>t \<in> set T. t_depth t \<le> d \<Longrightarrow> scopes (d + 1) T = []"
  by (auto simp: scopes_def filter_empty_conv)

section \<open>Results without error\<close>

text \<open>\<open>yields m P\<close>: what \<open>m\<close> gives satisfies \<open>P\<close> if there is no error at its end.\<close>

definition yields_at :: "'a \<times> controlFlow \<Rightarrow> ('a \<Rightarrow> bool) \<Rightarrow> bool" where
  "yields_at r P \<longleftrightarrow> (cf_err (snd r) = None \<longrightarrow> P (fst r))"

definition yields :: "(controlFlow, 'a) walk \<Rightarrow> ('a \<Rightarrow> bool) \<Rightarrow> bool" where
  "yields m P \<longleftrightarrow> (\<forall>\<sigma>. yields_at (m \<sigma>) P)"

lemma yieldsD: "yields m P \<Longrightarrow> yields_at (m \<sigma>) P"
  by (simp add: yields_def)

lemma yields_True: "yields m (\<lambda>x. True)"
  by (simp add: yields_def yields_at_def)

lemma yields_mono: "yields m Q \<Longrightarrow> (\<And>x. Q x \<Longrightarrow> P x) \<Longrightarrow> yields m P"
  by (auto simp: yields_def yields_at_def)

lemma yields_return: "P x \<Longrightarrow> yields (return_walk x) P"
  by (simp add: yields_def yields_at_def return_walk_def)

lemma yields_then:
  assumes "yields m Q" "\<And>x. growing (k x)" "\<And>x. Q x \<Longrightarrow> yields (k x) P"
  shows "yields (then_walk m k) P"
  unfolding yields_def
proof
  fix \<sigma>
  obtain x \<sigma>1 where m: "m \<sigma> = (x, \<sigma>1)" by (rule prod.exhaust)
  have "grows \<sigma>1 (snd (k x \<sigma>1))" by (rule growingD [OF assms(2)])
  then show "yields_at (then_walk m k \<sigma>) P"
    using assms(1) [THEN yieldsD, of \<sigma>] assms(3) [of x] by (auto simp: m then_walk_def yields_def yields_at_def grows_def)
qed

lemma yields_list:
  assumes "\<And>x. x \<in> set xs \<Longrightarrow> yields (f x) (list_all P)" "\<And>x. growing (f x)"
  shows "yields (lower_list f xs) (list_all P)"
  using assms(1)
proof (induction xs)
  case Nil
  then show ?case by (simp add: yields_def yields_at_def)
next
  case (Cons x xs)
  show ?case unfolding lower_list_Cons
  proof (rule yields_then)
    show "yields (f x) (list_all P)" using Cons by simp
    show "yields (then_walk (lower_list f xs) (\<lambda>ys. return_walk (y @ ys))) (list_all P)" if "list_all P y" for y
      by (rule yields_then [where Q = "list_all P"]) (use Cons that in \<open>auto intro: growing_rules yields_return\<close>)
  qed (intro growing_rules assms(2))
qed

lemma yields_opt: "(\<And>x. y = Some x \<Longrightarrow> yields (f x) P) \<Longrightarrow> yields (lower_opt f y) (pred_option P)"
  by (cases y) (simp_all add: yields_def yields_at_def lower_opt_def split_beta)

lemma yields_simple_result: "yields (simple_result s out) (\<lambda>x. out = [x])"
  by (auto simp: yields_def yields_at_def simple_result_def return_walk_def fail_with_def split: list.splits)

section \<open>Expressions\<close>

definition lits_all :: "(stmt list \<Rightarrow> bool) \<Rightarrow> (nat \<times> expr \<times> stmt list) list \<Rightarrow> bool" where
  "lits_all P ls = list_all (\<lambda>(p, t, b). P b) ls"

lemma lits_all_simps [simp]:
  "lits_all P []" "lits_all P ((p, t, b) # ls) \<longleftrightarrow> P b \<and> lits_all P ls" "lits_all P (xs @ ys) \<longleftrightarrow> lits_all P xs \<and> lits_all P ys"
  by (simp_all add: lits_all_def)

lemma lits_all_bodies: "lits_all P (lits e) \<longleftrightarrow> list_all P (lit_bodies e)"
  by (auto simp: lits_all_def lit_bodies_def list_all_iff)

lemma lits_all_concat: "list_all (\<lambda>x. lits_all P (f x)) xs \<Longrightarrow> lits_all P (concat (map f xs))"
  by (induction xs) simp_all

lemma yields_walk_seq:
  assumes "\<And>x. x \<in> set xs \<Longrightarrow> yields (f x) (\<lambda>y. lits_all P (h y))" "\<And>x. x \<in> set xs \<Longrightarrow> growing (f x)"
  shows "yields (walk_seq (map f xs)) (\<lambda>ys. lits_all P (concat (map h ys)))"
  using assms
proof (induction xs)
  case Nil
  then show ?case by (simp add: yields_def yields_at_def)
next
  case (Cons x xs)
  have "walk_seq (map f (x # xs)) = then_walk (f x) (\<lambda>y. then_walk (walk_seq (map f xs)) (\<lambda>ys. return_walk (y # ys)))"
    by (rule ext) (simp add: then_walk_def return_walk_def split_beta)
  moreover have "yields (then_walk (walk_seq (map f xs)) (\<lambda>ys. return_walk (y # ys))) (\<lambda>ys. lits_all P (concat (map h ys)))"
    if "lits_all P (h y)" for y
    by (rule yields_then [where Q = "\<lambda>ys. lits_all P (concat (map h ys))"]) (use Cons that in \<open>auto intro: growing_rules yields_return\<close>)
  moreover have "growing (then_walk (walk_seq (map f xs)) (\<lambda>ys. return_walk (y # ys)))" for y
    by (intro growing_rules growing_seq Cons.prems(2)) simp
  ultimately show ?case using Cons.prems by (simp only:) (rule yields_then [where Q = "\<lambda>y. lits_all P (h y)"], simp_all)
qed

lemma yields_walk_opt:
  "(\<And>x. x \<in> set (opt_list y) \<Longrightarrow> yields (f x) (\<lambda>y. lits_all P (h y))) \<Longrightarrow>
     yields (walk_opt (map_option f y)) (\<lambda>x. lits_all P (concat (map h (opt_list x))))"
  by (cases y) (simp_all add: yields_def yields_at_def split_beta opt_list_def)

lemma yields_walk_opts:
  "(\<And>x. x \<in> set (concat (opt_list y)) \<Longrightarrow> yields (f x) (\<lambda>y. lits_all P (h y))) \<Longrightarrow>
     (\<And>x. x \<in> set (concat (opt_list y)) \<Longrightarrow> growing (f x)) \<Longrightarrow>
     yields (walk_opt (map_option walk_seq (map_option (map f) y))) (\<lambda>x. lits_all P (concat (map h (concat (opt_list x)))))"
  using yields_walk_seq [of "the y" f P h] by (cases y) (simp_all add: yields_def yields_at_def split_beta opt_list_def)

definition lits_yield :: "(nat \<Rightarrow> expr \<Rightarrow> stmt list \<Rightarrow> (controlFlow, stmt list) walk) \<Rightarrow> (stmt list \<Rightarrow> bool) \<Rightarrow>
    (nat \<times> expr \<times> stmt list) list \<Rightarrow> bool" where
  "lits_yield g P ls \<longleftrightarrow> (\<forall>(p, t, b) \<in> set ls. yields (g p t b) P)"

lemma lits_yield_simps [simp]:
  "lits_yield g P [] = True" "lits_yield g P [(p, t, b)] = yields (g p t b) P"
  "lits_yield g P (xs @ ys) \<longleftrightarrow> lits_yield g P xs \<and> lits_yield g P ys"
  "lits_yield g P (concat (map f zs)) \<longleftrightarrow> (\<forall>z \<in> set zs. lits_yield g P (f z))"
  by (fastforce simp: lits_yield_def)+

lemma yields_lits_aux:
  assumes grow: "\<And>p t b. growing (g p t b)"
  shows "lits_yield g P (lits e) \<Longrightarrow> yields (rewrite_lits g e) (\<lambda>x. lits_all P (lits x))"
    "lits_yield g P (field_lits f) \<Longrightarrow> yields (rewrite_field g f) (\<lambda>x. lits_all P (field_lits x))"
proof (induction e and f rule: lits_field_lits.induct)
  case (1 p t b)
  then show ?case by (auto intro!: yields_then [where Q = P] growing_rules yields_return)
qed (simp_all only: rewrite_lits.simps rewrite_field.simps lits.simps field_lits.simps lits_yield_simps True_implies_equals,
  ((elim conjE)?, (rule yields_then yields_walk_seq [where P = P and h = lits] yields_walk_seq [where P = P and h = field_lits]
      yields_walk_opt [where P = P and h = lits] yields_walk_opts [where P = P and h = field_lits]
      growing_then growing_seq growing_walk_opt growing_walk_opts growing_return growing_lits [OF grow] yields_return
   | assumption | (simp del: set_concat; fail))+)+)

lemma lit_bodies_flow [simp]: "lit_bodies flow_name = []" "lit_bodies (intValue n) = []"
  by (simp_all add: flow_name_def intValue_def)

lemma yields_nested:
  "(\<And>b'. snd r = None \<Longrightarrow> fst r = b' \<Longrightarrow> P b') \<Longrightarrow> yields (nested_result r) P"
  by (auto simp: yields_def yields_at_def nested_result_def split: option.splits)

definition function_ok :: "lowering \<Rightarrow> stmt list \<Rightarrow> bool" where
  "function_ok W b \<longleftrightarrow> (\<forall>t b'. lowerFunctionControl W t b = (b', None) \<longrightarrow> list_all (jumps_ok W False [] []) b')"

lemma yields_expressions:
  assumes "list_all (function_ok W) (lit_bodies e)"
  shows "yields (expressions W e) (\<lambda>x. strip x = strip e \<and> lits_ok W x)"
proof -
  let ?g = "\<lambda>p t b. nested_result (lowerFunctionControl W t b)"
  have "yields (?g p t b) (list_all (jumps_ok W False [] []))" if "function_ok W b" for p t b
    by (rule yields_nested) (use that in \<open>auto simp: function_ok_def prod_eq_iff\<close>)
  then have "lits_yield ?g (list_all (jumps_ok W False [] [])) (lits e)"
    using assms by (auto simp: lits_yield_def lit_bodies_def list_all_iff)
  from yields_lits_aux(1) [OF growing_steps(4) this] have "yields (expressions W e) (lits_ok W)"
    by (simp add: yields_def lits_all_bodies expressions.simps)
  then show ?thesis by (simp add: yields_def yields_at_def)
qed

lemma yields_seq:
  assumes "\<And>x. x \<in> set xs \<Longrightarrow> yields (g x) P" "\<And>x. growing (g x)"
  shows "yields (lower_seq g xs) (list_all P)"
  using assms(1)
proof (induction xs)
  case Nil
  then show ?case by (simp add: lower_seq_def yields_def yields_at_def)
next
  case (Cons x xs)
  have "lower_seq g (x # xs) = then_walk (g x) (\<lambda>y. then_walk (lower_seq g xs) (\<lambda>ys. return_walk (y # ys)))"
    by (rule ext) (simp add: lower_seq_def then_walk_def return_walk_def split_beta)
  moreover have "yields (then_walk (lower_seq g xs) (\<lambda>ys. return_walk (y # ys))) (list_all P)" if "P y" for y
    by (rule yields_then [where Q = "list_all P"]) (use Cons that in \<open>auto intro: growing_rules yields_return\<close>)
  ultimately show ?case using Cons by (auto intro!: yields_then [where Q = P] growing_rules assms(2))
qed

lemma yields_exprs:
  assumes "list_all (\<lambda>e. list_all (function_ok W) (lit_bodies e)) es"
  shows "yields (lower_seq (expressions W) es) (list_all (lits_ok W))"
  by (rule yields_seq [OF yields_mono [OF yields_expressions]])
    (use assms in \<open>auto simp: list_all_iff intro: growing_rules\<close>)

lemma yields_specs:
  assumes "list_all (\<lambda>sp. list_all (\<lambda>e. list_all (function_ok W) (lit_bodies e)) (spec_exprs sp)) specs"
  shows "yields (lower_seq (spec_values_with (expressions W)) specs) (list_all (\<lambda>sp. list_all (lits_ok W) (spec_exprs sp)))"
proof (rule yields_seq)
  fix sp assume sp: "sp \<in> set specs"
  show "yields (spec_values_with (expressions W) sp) (\<lambda>sp. list_all (lits_ok W) (spec_exprs sp))"
  proof (cases sp)
    case (ValueSpec names t vs)
    have "list_all (\<lambda>e. list_all (function_ok W) (lit_bodies e)) vs" using assms sp by (auto simp: list_all_iff ValueSpec)
    then show ?thesis unfolding ValueSpec spec_values_with.simps
      by (intro yields_then [OF yields_exprs] growing_return yields_return) simp_all
  qed (auto intro: yields_return)
qed (intro growing_rules)

text \<open>Several statements have no label.\<close>

definition out_ok :: "lowering \<Rightarrow> bool \<Rightarrow> (string \<times> bool) list \<Rightarrow> string \<Rightarrow> stmt list \<Rightarrow> bool" where
  "out_ok W lit E l out = (case out of [x] \<Rightarrow> jumps_ok W lit E l x | _ \<Rightarrow> list_all (jumps_ok W lit E '''') out)"

lemma out_ok_list: "out_ok W lit E '''' out = list_all (jumps_ok W lit E '''') out"
  by (cases out rule: remdups_adj.cases) (simp_all add: out_ok_def)

lemma out_ok_one [simp]: "out_ok W lit E l [x] = jumps_ok W lit E l x"
  by (simp add: out_ok_def)

lemma out_ok_more: "list_all (jumps_ok W lit E '''') (x # y # out) \<Longrightarrow> out_ok W lit E l (x # y # out)"
  by (simp add: out_ok_def)

lemma jumps_signal [simp]: "jumps_ok W lit E l (signalSet n)"
  by (simp add: signalSet_def)

lemma found_scope:
  assumes "find_target T tok m = Some t" "t_depth t = d"
  shows "list_ex (\<lambda>(n, loop). m = None \<or> m = Some n) (scopes d T)"
    "tok = CONTINUE \<Longrightarrow> list_ex (\<lambda>(n, loop). loop \<and> (m = None \<or> m = Some n)) (scopes d T)"
  using find_target_mem [OF assms(1)] assms(2) by (auto simp: list_ex_iff scopes_def)

lemma yields_branch: "yields (lower_branch d T p tok m) (out_ok W (0 < d) (scopes d T) l)"
proof -
  have "out_ok W (0 < d) (scopes d T) l [BranchStmt p tok m]" if "find_target T tok m = Some t" "t_depth t = d" for t
    using found_scope [OF that] by simp
  then show ?thesis
    by (auto simp: yields_def yields_at_def lower_branch_def return_walk_def fail_with_def intro!: out_ok_more split: option.splits)
qed

lemma slots_ok [simp]: "list_all (lits_ok W) (slot_names R)"
  by (simp add: slot_names_def list_all_iff)

lemma yields_ret: "list_all (lits_ok W) es \<Longrightarrow> yields (lower_return R d p es) (out_ok W (0 < d) E l)"
  by (auto simp: yields_def yields_at_def lower_return_def return_walk_def fail_with_def out_ok_def)

lemma tests_ok:
  assumes "set ts \<subseteq> set T"
  shows "list_all (jumps_ok W lit (scopes d T) '''') (flow_tests d eb ec ts)"
  using assms
proof (induction ts arbitrary: eb ec)
  case (Cons t ts)
  have one: "jumps_ok W lit (scopes d T) l (signalTest n [signalSet 0, BranchStmt 0 tok (target_label t)])"
    if "t_depth t = d" "tok = CONTINUE \<longrightarrow> continueCode t \<noteq> 0" for l n tok
    using that Cons.prems by (auto simp: signalTest_def list_ex_iff scopes_def target_label_def intro!: bexI [of _ t])
  with Cons show ?case by auto
qed simp

lemma jumps_restore [simp]: "jumps_ok W lit E l (restore_flow n)"
  by (simp add: restore_flow_def signalTest_def)

lemma prefix_ok: "prefix_of i pre \<Longrightarrow> list_all (jumps_ok W True E '''') pre"
  by (auto simp: prefix_of_def finalizer_prefix_def split: if_splits)

definition arg_ok :: "lowering \<Rightarrow> expr \<Rightarrow> bool" where
  "arg_ok W e = (case funcLitBody e of None \<Rightarrow> lits e = [] | Some b \<Rightarrow> list_all (jumps_ok W True [] []) b)"

lemma arg_lits: "arg_ok W e \<Longrightarrow> lits_ok W e"
  by (cases e) (auto simp: arg_ok_def lit_bodies_def list_all_iff intro: jumps_lit)

lemma jumps_expr:
  assumes "strip x' = strip x \<and> lits_ok W x'" "callNamed x ''GhiTry'' = None" "case x of CallExpr f args v \<Rightarrow> strip f \<noteq> strip (lw_try W) | _ \<Rightarrow> True"
  shows "jumps_ok W lit E l (ExprStmt x')"
proof -
  have "callNamed x' ''GhiTry'' = None" using assms(1,2) callNamed_strip [of x] callNamed_strip [of x'] by simp
  moreover have "case x' of CallExpr f args v \<Rightarrow> strip f \<noteq> strip (lw_try W) | _ \<Rightarrow> True"
    using assms(1,3) by (cases x; cases x') simp_all
  ultimately show ?thesis using assms(1) [THEN conjunct2] by (cases x') simp_all
qed

lemma yields_prefix: "yields (literal_prefix i) (prefix_of i)"
  by (auto simp: yields_def yields_at_def literal_prefix_def prefix_of_def)

lemma yields_arg:
  assumes d: "\<forall>t \<in> set T. t_depth t \<le> d" and none: "funcLitBody e = None \<Longrightarrow> lits e = []"
    and body: "\<And>b. funcLitBody e = Some b \<Longrightarrow>
      yields (lower_list (lower_stmt W R sc (d + 1) T []) b) (list_all (jumps_ok W True (scopes (d + 1) T) []))"
  shows "yields (lower_arg W R sc d T i e) (arg_ok W)"
proof (cases "funcLitBody e")
  case None
  then show ?thesis using none by (simp add: yields_def yields_at_def lower_arg_other arg_ok_def)
next
  case (Some b)
  then obtain p t where e: "e = FuncLit p t b" by (cases e) auto
  have pre: "yields (then_walk (literal_prefix i) (\<lambda>pre. return_walk (FuncLit p t (pre @ b')))) (arg_ok W)"
    if "list_all (jumps_ok W True (scopes (d + 1) T) []) b'" for b'
  proof (rule yields_then [OF yields_prefix])
    show "yields (return_walk (FuncLit p t (pre @ b'))) (arg_ok W)" if "prefix_of i pre" for pre
      using prefix_ok [OF that] \<open>list_all _ b'\<close> by (intro yields_return) (simp add: arg_ok_def scopes_deeper [OF d, simplified])
  qed (intro growing_rules)
  have "yields (then_walk (check_catches W i b) (\<lambda>_. then_walk (lower_list (lower_stmt W R sc (d + 1) T []) b)
      (\<lambda>b'. then_walk (literal_prefix i) (\<lambda>pre. return_walk (FuncLit p t (pre @ b')))))) (arg_ok W)"
    by (rule yields_then [OF yields_True], intro growing_rules growing_stmt, rule yields_then [OF body [OF Some] _ pre], intro growing_rules)
  then show ?thesis unfolding e by (simp add: lower_arg.simps yields_def)
qed

section \<open>Lowered statements\<close>

lemma yields_try:
  assumes sym: "runtime_symbols W" and call: "callNamed x ''GhiTry'' = Some args" and d: "\<forall>t \<in> set T. t_depth t \<le> d"
    and arg: "\<And>i e. e \<in> set args \<Longrightarrow> yields (lower_arg W R sc d T i e) (arg_ok W)"
  shows "yields (lower_stmt W R sc d T l (ExprStmt x)) (out_ok W (0 < d) (scopes d T) l)"
  unfolding yields_def
proof
  fix \<sigma>
  obtain f v where x: "x = CallExpr f args v" using call by (auto simp: callNamed_def split: expr.splits if_splits)
  let ?m = "lower_seq (\<lambda>ia. lower_arg W R sc d T (fst ia) (snd ia)) (List.enumerate 0 args)"
  have "yields ?m (list_all (arg_ok W))"
  proof (rule yields_seq)
    show "yields (lower_arg W R sc d T (fst ia) (snd ia)) (arg_ok W)" if "ia \<in> set (List.enumerate 0 args)" for ia
      using imageI [OF that, of snd] by (intro arg) (simp flip: set_map)
  qed (intro growing_arg growing_stmt)
  note args = this
  have tests: "list_all (jumps_ok W (0 < d) (scopes d T) '''') (flow_tests d False False (rev T))" by (rule tests_ok) simp
  have leave: "jumps_ok W (0 < d) (scopes d T) '''' (leave_test R d)" by (simp add: leave_test_def signalTest_def)
  have call_ok: "jumps_ok W (0 < d) E '''' (ExprStmt (CallExpr (lw_try W) args' v))" if "list_all (arg_ok W) args'" for args' E
  proof -
    have "list_all (lits_ok W) args'" using that arg_lits by (auto simp: list_all_iff)
    then have "lits_ok W (CallExpr (lw_try W) args' v)"
      using sym by (auto simp: list_all_iff runtime_symbols_def elim!: runtime_symbol.elims)
    moreover have "list_all (\<lambda>e. case funcLitBody e of None \<Rightarrow> True | Some b \<Rightarrow> list_all (jumps_ok W True [] []) b) args'"
      using that by (auto simp: arg_ok_def list_all_iff split: option.splits)
    ultimately show ?thesis using sym by (auto simp: callNamed_def runtime_symbols_def split: expr.splits)
  qed
  have "yields (then_walk ?m (\<lambda>args. return_walk (ExprStmt (CallExpr (lw_try W) args v) #
      flow_tests d False False (rev T) @ [leave_test R d]))) (out_ok W (0 < d) (scopes d T) l)"
  proof (rule yields_then [OF args])
    fix args' assume args': "list_all (arg_ok W) args'"
    obtain y ys where eq: "flow_tests d False False (rev T) @ [leave_test R d] = y # ys" by (meson append_is_Nil_conv list.exhaust not_Cons_self2)
    have "list_all (jumps_ok W (0 < d) (scopes d T) []) (flow_tests d False False (rev T) @ [leave_test R d])"
      using tests leave by simp
    then have "list_all (jumps_ok W (0 < d) (scopes d T) []) (ExprStmt (CallExpr (lw_try W) args' v) # y # ys)"
      using call_ok [OF args'] unfolding eq list.pred_inject by blast
    then show "yields (return_walk (ExprStmt (CallExpr (lw_try W) args' v) # flow_tests d False False (rev T) @ [leave_test R d]))
        (out_ok W (0 < d) (scopes d T) l)"
      unfolding eq by (intro yields_return out_ok_more)
  qed (intro growing_rules)
  from yieldsD [OF this, of "\<sigma>\<lparr>used := True\<rparr>"] show "yields_at (lower_stmt W R sc d T l (ExprStmt x) \<sigma>) (out_ok W (0 < d) (scopes d T) l)"
    using call by (simp add: x)
qed

lemma depth_snoc [simp]:
  "(\<forall>t \<in> set (T @ [loop_target l d k]). t_depth t \<le> d) = (\<forall>t \<in> set T. t_depth t \<le> d)"
  "(\<forall>t \<in> set (T @ [switch_target l d k]). t_depth t \<le> d) = (\<forall>t \<in> set T. t_depth t \<le> d)"
  by auto

lemma function_okI:
  assumes sym: "runtime_symbols W"
    and sub: "\<And>s R sc. s \<in> set b \<Longrightarrow> yields (lower_stmt W R sc 0 [] [] s) (list_all (jumps_ok W False [] []))"
  shows "function_ok W b"
  unfolding function_ok_def
proof (intro allI impI)
  fix t b' assume low: "lowerFunctionControl W t b = (b', None)"
  let ?R = "return_slots t"
  obtain sc out \<sigma> where out: "lower_list (lower_stmt W ?R sc 0 [] []) b fresh_flow = (out, \<sigma>)" "fine sc \<sigma>"
    and b': "b' = (let b1 = (if sc then scoped_prefix W @ out else out)
       in if used \<sigma> then flow_prefix ?R @ b1 @ (if ?R \<noteq> [] \<and> blockTerminates b then [unreachable_panic] else []) else b1)"
    by (rule lowered_function [OF low])
  have "yields (lower_list (lower_stmt W ?R sc 0 [] []) b) (list_all (jumps_ok W False [] []))"
    by (intro yields_list growing_stmt sub)
  from yieldsD [OF this, of fresh_flow] have "list_all (jumps_ok W False [] []) out"
    using out by (simp add: yields_at_def fine_def)
  moreover have "list_all (jumps_ok W False [] []) (flow_prefix ?R)"
    by (simp add: flow_prefix_def slot_decl_def list_all_iff)
  moreover have "jumps_ok W False [] [] unreachable_panic" by (simp add: unreachable_panic_def callNamed_def)
  moreover have "list_all (jumps_ok W False [] []) (scoped_prefix W)"
    using sym by (auto simp: scoped_prefix_def defers_name_def runtime_symbols_def elim!: runtime_symbol.elims)
  ultimately show "list_all (jumps_ok W False [] []) b'" by (simp add: b' Let_def)
qed

lemma yields_stmt:
  assumes sym: "runtime_symbols W"
  shows "parsed W s \<Longrightarrow> \<forall>t \<in> set T. t_depth t \<le> d \<Longrightarrow>
    yields (lower_stmt W R sc d T l s) (out_ok W (0 < d) (scopes d T) l)"
proof (induction s arbitrary: R sc d T l rule: measure_induct_rule [where f = size])
  case (less s)
  note src = less.prems(1) and deep = less.prems(2)
  have sub: "yields (lower_stmt W R' sc' d' U [] x) (list_all (jumps_ok W (0 < d') (scopes d' U) []))"
    if "size x < size s" "parsed W x" "\<forall>t \<in> set U. t_depth t \<le> d'" for x d' U R' sc'
    using less.IH [OF that, of R' sc' "[]"] unfolding out_ok_list [abs_def] .
  have list: "yields (lower_list (lower_stmt W R sc d' U []) b) (list_all (jumps_ok W (0 < d') (scopes d' U) []))"
    if "size_list size b < size s" "list_all (parsed W) b" "\<forall>t \<in> set U. t_depth t \<le> d'" for b d' U
  proof (rule yields_list)
    show "yields (lower_stmt W R sc d' U [] x) (list_all (jumps_ok W (0 < d') (scopes d' U) []))" if "x \<in> set b" for x
      by (rule sub) (use that size_list_mem [of x b] \<open>size_list size b < size s\<close> \<open>list_all _ b\<close> \<open>\<forall>t \<in> set U. _\<close> in \<open>auto simp: list_all_iff\<close>)
  qed (rule growing_stmt)
  have simple: "yields (lower_simple W R sc d T x) (jumps_ok W (0 < d) (scopes d T) [])"
    if "size x < size s" "parsed W x" for x
  proof (rule yields_then [OF sub [OF that deep]])
    show "yields (simple_result x out) (jumps_ok W (0 < d) (scopes d T) [])" if "list_all (jumps_ok W (0 < d) (scopes d T) []) out" for out
      by (rule yields_mono [OF yields_simple_result]) (use that in auto)
  qed (rule growing_steps)
  have opt: "yields (lower_opt (lower_simple W R sc d T) i) (pred_option (jumps_ok W (0 < d) (scopes d T) ''''))"
    if "size_option size i < size s" "pred_option (parsed W) i" for i
    by (rule yields_opt, rule simple) (use that in auto)
  have else_opt: "yields (lower_opt (\<lambda>s. then_walk (lower_stmt W R sc d T [] s) (\<lambda>out. return_walk (hd out))) e)
      (pred_option (jumps_ok W (0 < d) (scopes d T) []))"
    if "size_option size e < size s" "pred_option (\<lambda>s. is_else s \<and> parsed W s) e" for e
  proof (rule yields_opt)
    fix x assume e: "e = Some x"
    then have x: "size x < size s" "parsed W x" "is_else x" using that by simp_all
    have "yields (lower_stmt W R sc d T [] x) (\<lambda>out. list_all (jumps_ok W (0 < d) (scopes d T) []) out \<and> out = [hd out])"
      using sub [OF x(1,2) deep] else_single [OF x(3)] by (simp add: yields_def yields_at_def) (metis prod.collapse)
    then show "yields (then_walk (lower_stmt W R sc d T [] x) (\<lambda>out. return_walk (hd out))) (jumps_ok W (0 < d) (scopes d T) [])"
    proof (rule yields_then)
      show "yields (return_walk (hd out)) (jumps_ok W (0 < d) (scopes d T) [])"
        if "list_all (jumps_ok W (0 < d) (scopes d T) []) out \<and> out = [hd out]" for out
        using that by (intro yields_return) (metis list.pred_inject(2))
    qed (rule growing_return)
  qed
  have bare: "yields (lower_stmt W R sc d T l s) (out_ok W (0 < d) (scopes d T) l)"
    if "\<And>\<sigma>. \<exists>y. fst (lower_stmt W R sc d T l s \<sigma>) = [y] \<and> jumps_ok W (0 < d) (scopes d T) l y"
    using that by (simp add: yields_def yields_at_def) (metis out_ok_one)
  have fn: "list_all (function_ok W) (lit_bodies e)" if "size e < size s" "lits_parsed W e" for e
    unfolding list_all_iff
  proof (intro ballI function_okI [OF sym])
    fix b x R' sc' assume "b \<in> set (lit_bodies e)" "x \<in> set b"
    with that lit_stmt_size [of b e x] show "yields (lower_stmt W R' sc' 0 [] [] x) (list_all (jumps_ok W False [] []))"
      using sub [of x "[]" 0] by (auto simp: list_all_iff scopes_def)
  qed
  have ex': "yields (expressions W e) (\<lambda>x. strip x = strip e \<and> lits_ok W x)" if "size e < size s" "lits_parsed W e" for e
    by (rule yields_expressions [OF fn [OF that]])
  have ex: "yields (expressions W e) (lits_ok W)" if "size e < size s" "lits_parsed W e" for e
    by (rule yields_mono [OF ex' [OF that]]) simp
  have exo: "yields (lower_opt (expressions W) eo) (pred_option (lits_ok W))"
    if "size_option size eo < size s" "pred_option (lits_parsed W) eo" for eo
    by (rule yields_opt, rule ex) (use that in auto)
  have exs: "yields (lower_seq (expressions W) es) (list_all (lits_ok W))"
    if "size_list size es < size s" "list_all (lits_parsed W) es" for es
  proof (rule yields_exprs, unfold list_all_iff, rule ballI)
    show "\<forall>x \<in> set (lit_bodies e). function_ok W x" if "e \<in> set es" for e
      using fn [of e] that size_list_mem [of e es] \<open>size_list size es < size s\<close> \<open>list_all _ es\<close> by (auto simp: list_all_iff)
  qed
  show ?case
  proof (cases s)
    case BadStmt
    show ?thesis by (rule bare) (simp add: BadStmt)
  next
    case (ForStmt i c p b)
    have i: "yields (lower_opt (lower_simple W R sc d T) i) (pred_option (jumps_ok W (0 < d) (scopes d T) []))"  by (rule opt) (use src deep in \<open>auto simp: ForStmt\<close>)
    have c: "yields (lower_opt (expressions W) c) (pred_option (lits_ok W))"  by (rule exo) (use src deep in \<open>auto simp: ForStmt\<close>)
    have p: "yields (lower_opt (lower_simple W R sc d T) p) (pred_option (jumps_ok W (0 < d) (scopes d T) []))"  by (rule opt) (use src deep in \<open>auto simp: ForStmt\<close>)
    have b: "yields (lower_list (lower_stmt W R sc d (T @ [loop_target l d k]) []) b)
      (list_all (jumps_ok W (0 < d) (scopes d (T @ [loop_target l d k])) []))" for k by (rule list) (use src deep in \<open>auto simp: ForStmt\<close>)
    show ?thesis
      by (unfold yields_def ForStmt lower_stmt.simps, intro allI, rule yieldsD,
          (rule i c p b yields_return yields_then yields_True | (intro growing_rules growing_stmt; fail) | simp; fail)+)
  next
    case (RangeStmt k v tok x b)
    have k: "yields (lower_opt (expressions W) k) (pred_option (lits_ok W))"  by (rule exo) (use src deep in \<open>auto simp: RangeStmt\<close>)
    have v: "yields (lower_opt (expressions W) v) (pred_option (lits_ok W))"  by (rule exo) (use src deep in \<open>auto simp: RangeStmt\<close>)
    have x: "yields (expressions W x) (lits_ok W)"  by (rule ex) (use src deep in \<open>auto simp: RangeStmt\<close>)
    have b: "yields (lower_list (lower_stmt W R sc d (T @ [loop_target l d k]) []) b)
      (list_all (jumps_ok W (0 < d) (scopes d (T @ [loop_target l d k])) []))" for k by (rule list) (use src deep in \<open>auto simp: RangeStmt\<close>)
    show ?thesis
      by (unfold yields_def RangeStmt lower_stmt.simps, intro allI, rule yieldsD,
          (rule k v x b yields_return yields_then yields_True | (intro growing_rules growing_stmt; fail) | simp; fail)+)
  next
    case (SwitchStmt i t b)
    have i: "yields (lower_opt (lower_simple W R sc d T) i) (pred_option (jumps_ok W (0 < d) (scopes d T) []))"  by (rule opt) (use src deep in \<open>auto simp: SwitchStmt\<close>)
    have t: "yields (lower_opt (expressions W) t) (pred_option (lits_ok W))"  by (rule exo) (use src deep in \<open>auto simp: SwitchStmt\<close>)
    have b: "yields (lower_list (lower_stmt W R sc d (T @ [switch_target l d k]) []) b)
      (list_all (jumps_ok W (0 < d) (scopes d (T @ [switch_target l d k])) []))" for k by (rule list) (use src deep in \<open>auto simp: SwitchStmt\<close>)
    show ?thesis
      by (unfold yields_def SwitchStmt lower_stmt.simps, intro allI, rule yieldsD,
          (rule i t b yields_return yields_then yields_True | (intro growing_rules growing_stmt; fail) | simp; fail)+)
  next
    case (SelectStmt b)
    have b: "yields (lower_list (lower_stmt W R sc d (T @ [switch_target l d k]) []) b)
      (list_all (jumps_ok W (0 < d) (scopes d (T @ [switch_target l d k])) []))" for k by (rule list) (use src deep in \<open>auto simp: SelectStmt\<close>)
    show ?thesis
      by (unfold yields_def SelectStmt lower_stmt.simps, intro allI, rule yieldsD,
          (rule b yields_return yields_then yields_True | (intro growing_rules growing_stmt; fail) | simp; fail)+)
  next
    case (BlockStmt b)
    have b: "yields (lower_list (lower_stmt W R sc d T []) b) (list_all (jumps_ok W (0 < d) (scopes d T) []))"  by (rule list) (use src deep in \<open>auto simp: BlockStmt\<close>)
    show ?thesis
      by (unfold yields_def BlockStmt lower_stmt.simps, intro allI, rule yieldsD,
          (rule b yields_return yields_then yields_True | (intro growing_rules growing_stmt; fail) | simp; fail)+)
  next
    case (CommClause c b)
    have i: "yields (lower_opt (lower_simple W R sc d T) c) (pred_option (jumps_ok W (0 < d) (scopes d T) []))"  by (rule opt) (use src deep in \<open>auto simp: CommClause\<close>)
    have b: "yields (lower_list (lower_stmt W R sc d T []) b) (list_all (jumps_ok W (0 < d) (scopes d T) []))"  by (rule list) (use src deep in \<open>auto simp: CommClause\<close>)
    show ?thesis
      by (unfold yields_def CommClause lower_stmt.simps, intro allI, rule yieldsD,
          (rule i b yields_return yields_then yields_True | (intro growing_rules growing_stmt; fail) | simp; fail)+)
  next
    case (IfStmt i c b e)
    have i: "yields (lower_opt (lower_simple W R sc d T) i) (pred_option (jumps_ok W (0 < d) (scopes d T) []))"  by (rule opt) (use src deep in \<open>auto simp: IfStmt\<close>)
    have c: "yields (expressions W c) (lits_ok W)"  by (rule ex) (use src deep in \<open>auto simp: IfStmt\<close>)
    have b: "yields (lower_list (lower_stmt W R sc d T []) b) (list_all (jumps_ok W (0 < d) (scopes d T) []))"  by (rule list) (use src deep in \<open>auto simp: IfStmt\<close>)
    have e: "yields (lower_opt (\<lambda>s. then_walk (lower_stmt W R sc d T [] s) (\<lambda>out. return_walk (hd out))) e)
      (pred_option (jumps_ok W (0 < d) (scopes d T) []))"  by (rule else_opt) (use src deep in \<open>auto simp: IfStmt\<close>)
    show ?thesis
      by (unfold yields_def IfStmt lower_stmt.simps, intro allI, rule yieldsD,
          (rule i c b e yields_return yields_then yields_True | (intro growing_rules growing_stmt; fail) | simp; fail)+)
  next
    case (TypeSwitchStmt i x b)
    have i: "yields (lower_opt (lower_simple W R sc d T) i) (pred_option (jumps_ok W (0 < d) (scopes d T) []))"  by (rule opt) (use src deep in \<open>auto simp: TypeSwitchStmt\<close>)
    have x: "yields (lower_simple W R sc d T x) (jumps_ok W (0 < d) (scopes d T) [])"  by (rule simple) (use src deep in \<open>auto simp: TypeSwitchStmt\<close>)
    have b: "yields (lower_list (lower_stmt W R sc d (T @ [switch_target l d k]) []) b)
      (list_all (jumps_ok W (0 < d) (scopes d (T @ [switch_target l d k])) []))" for k by (rule list) (use src deep in \<open>auto simp: TypeSwitchStmt\<close>)
    show ?thesis
      by (unfold yields_def TypeSwitchStmt lower_stmt.simps, intro allI, rule yieldsD,
          (rule i x b yields_return yields_then yields_True | (intro growing_rules growing_stmt; fail) | simp; fail)+)
  next
    case (AssignStmt xs tok ys)
    have x: "yields (lower_seq (expressions W) xs) (list_all (lits_ok W))"  by (rule exs) (use src deep in \<open>auto simp: AssignStmt\<close>)
    have y: "yields (lower_seq (expressions W) ys) (list_all (lits_ok W))"  by (rule exs) (use src deep in \<open>auto simp: AssignStmt\<close>)
    show ?thesis
      by (unfold yields_def AssignStmt lower_stmt.simps, intro allI, rule yieldsD,
          (rule x y yields_return yields_then yields_True | (intro growing_rules growing_stmt; fail) | simp; fail)+)
  next
    case (SendStmt c v)
    have c: "yields (expressions W c) (lits_ok W)"  by (rule ex) (use src deep in \<open>auto simp: SendStmt\<close>)
    have v: "yields (expressions W v) (lits_ok W)"  by (rule ex) (use src deep in \<open>auto simp: SendStmt\<close>)
    show ?thesis
      by (unfold yields_def SendStmt lower_stmt.simps, intro allI, rule yieldsD,
          (rule c v yields_return yields_then yields_True | (intro growing_rules growing_stmt; fail) | simp; fail)+)
  next
    case (IncDecStmt e tok)
    have e: "yields (expressions W e) (lits_ok W)"  by (rule ex) (use src deep in \<open>auto simp: IncDecStmt\<close>)
    show ?thesis
      by (unfold yields_def IncDecStmt lower_stmt.simps, intro allI, rule yieldsD,
          (rule e yields_return yields_then yields_True | (intro growing_rules growing_stmt; fail) | simp; fail)+)
  next
    case (GoStmt e)
    have e: "yields (expressions W e) (lits_ok W)"  by (rule ex) (use src deep in \<open>auto simp: GoStmt\<close>)
    show ?thesis
      by (unfold yields_def GoStmt lower_stmt.simps, intro allI, rule yieldsD,
          (rule e yields_return yields_then yields_True | (intro growing_rules growing_stmt; fail) | simp; fail)+)
  next
    case (LabeledStmt m x)
    have x: "yields (lower_stmt W R sc d T m x) (out_ok W (0 < d) (scopes d T) m)"
      by (rule less.IH) (use src deep in \<open>simp_all add: LabeledStmt\<close>)
    have "lower_stmt W R sc d T l s = then_walk (lower_stmt W R sc d T m x)
        (\<lambda>out. return_walk [LabeledStmt m (case out of [x] \<Rightarrow> x | _ \<Rightarrow> BlockStmt out)])"
      by (rule ext) (simp add: LabeledStmt)
    moreover have "jumps_ok W (0 < d) (scopes d T) l (LabeledStmt m (case out of [x] \<Rightarrow> x | _ \<Rightarrow> BlockStmt out))"
      if "out_ok W (0 < d) (scopes d T) m out" for out
      using that by (auto simp: out_ok_def split: list.splits)
    ultimately show ?thesis
      by (simp only:) (rule yields_then [OF x], rule growing_return, rule yields_return, simp only: out_ok_one)
  next
    case (CaseClause es b)
    have es: "yields (lower_opt (lower_seq (expressions W)) es) (pred_option (list_all (lits_ok W)))"
      by (rule yields_opt, rule exs) (use src in \<open>auto simp: CaseClause\<close>)
    have b: "yields (lower_list (lower_stmt W R sc d T []) b) (list_all (jumps_ok W (0 < d) (scopes d T) []))"
      by (rule list) (use src deep in \<open>auto simp: CaseClause\<close>)
    show ?thesis
      by (unfold yields_def CaseClause lower_stmt.simps, intro allI, rule yieldsD,
          (rule es b yields_return yields_then yields_True | (intro growing_rules growing_stmt; fail) | simp; fail)+)
  next
    case (DeclStmt tok specs)
    have "list_all (function_ok W) (lit_bodies e)" if "sp \<in> set specs" "e \<in> set (spec_exprs sp)" for sp e
      using fn [of e] spec_exprs_size [OF that(2,1)] src that by (auto simp: DeclStmt list_all_iff)
    then have specs: "yields (lower_seq (spec_values_with (expressions W)) specs) (list_all (\<lambda>sp. list_all (lits_ok W) (spec_exprs sp)))"
      by (intro yields_specs) (auto simp: list_all_iff)
    show ?thesis
      by (unfold yields_def DeclStmt lower_stmt.simps, intro allI, rule yieldsD,
          (rule specs yields_return yields_then yields_True | (intro growing_rules growing_stmt; fail) | simp; fail)+)
  next
    case (ReturnStmt p es)
    have es: "yields (lower_seq (expressions W) es) (list_all (lits_ok W))" by (rule exs) (use src in \<open>auto simp: ReturnStmt\<close>)
    show ?thesis unfolding yields_def ReturnStmt lower_stmt.simps
      by (intro allI, rule yieldsD, rule yields_then [OF es]) (rule growing_steps, erule yields_ret)
  next
    case (BranchStmt p tok m)
    show ?thesis unfolding yields_def BranchStmt lower_stmt.simps by (intro allI, rule yieldsD, rule yields_branch)
  next
    case (DeferStmt e)
    have e: "yields (expressions W e) (lits_ok W)" by (rule ex) (use src in \<open>auto simp: DeferStmt\<close>)
    have "jumps_ok W lit E l (register_defer W e')" if "lits_ok W e'" for lit E l e'
      using sym that by (auto simp: register_defer_def defers_name_def callNamed_def runtime_symbols_def elim!: runtime_symbol.elims)
    then show ?thesis using e by (simp add: yields_def yields_at_def DeferStmt then_walk_def split_beta)
  next
    case EmptyStmt
    show ?thesis by (rule bare) (simp add: EmptyStmt)
  next
    case (ExprStmt x)
    show ?thesis
    proof (cases "callNamed x ''GhiTry''")
      case None
      have x: "yields (expressions W x) (\<lambda>y. strip y = strip x \<and> lits_ok W y)"
        by (rule ex') (use src None in \<open>auto simp: ExprStmt\<close>)
      have "lower_stmt W R sc d T l s = then_walk (expressions W x) (\<lambda>x. return_walk [ExprStmt x])"
        using None by (intro ext, cases x) (simp_all add: ExprStmt)
      moreover have "jumps_ok W (0 < d) (scopes d T) l (ExprStmt x')" if "strip x' = strip x \<and> lits_ok W x'" for x'
        by (rule jumps_expr [OF that None]) (use src ExprStmt None in simp)
      ultimately show ?thesis
        by (simp only:) (rule yields_then [OF x], rule growing_return, rule yields_return, simp only: out_ok_one)
    next
      case (Some args)
      have parsed: "case funcLitBody e of None \<Rightarrow> lits e = [] | Some b \<Rightarrow> list_all (parsed W) b" if "e \<in> set args" for e
        using src Some that by (simp add: ExprStmt list_all_iff)
      show ?thesis unfolding ExprStmt
      proof (rule yields_try [OF sym Some deep], rule yields_arg [OF deep])
        show "lits e = []" if "e \<in> set args" "funcLitBody e = None" for e using parsed [OF that(1)] that(2) by simp
        fix e b assume e: "e \<in> set args" "funcLitBody e = Some b"
        then have "size_list size b < size s"
          using callNamed_size [OF Some] size_list_mem [of e args] funcLitBody_size [OF e(2)] by (simp add: ExprStmt)
        moreover have "\<forall>t \<in> set T. t_depth t \<le> d + 1" using deep by fastforce
        ultimately show "yields (lower_list (lower_stmt W R sc (d + 1) T []) b) (list_all (jumps_ok W True (scopes (d + 1) T) []))"
          using list [of b T "d + 1"] parsed [OF e(1)] e(2) by simp
      qed
    qed
  qed
qed

lemma parsed_function_ok:
  assumes "runtime_symbols W" "list_all (parsed W) b"
  shows "function_ok W b"
proof (rule function_okI [OF assms(1)])
  show "yields (lower_stmt W R sc 0 [] [] s) (list_all (jumps_ok W False [] []))" if "s \<in> set b" for s R sc
    using yields_stmt [OF assms(1), of s "[]" 0 R sc "[]"] assms(2) that
    unfolding out_ok_list [abs_def] by (simp add: list_all_iff [of _ b] scopes_def)
qed

text \<open>
  C15: A lowered function body is well formed for Go. No try is left in it, every break and continue finds
  its statement within the function literal it stands in, those of the tests behind a call of \<open>Try\<close>
  included, and the returns in the literals of a \<open>Try\<close> have no values, at any depth of nesting and in all
  function literals of its expressions.
\<close>

theorem lowered_jumps:
  assumes "runtime_symbols W" "list_all (parsed W) b" "lowerFunctionControl W t b = (b', None)"
  shows "list_all (jumps_ok W False [] []) b'"
  using parsed_function_ok [OF assms(1,2)] assms(3) by (simp add: function_ok_def)

lemma example_parsed: "list_all (parsed example_names) example_body"
  by (simp add: example_body_def example_literal_def example_names_def callNamed_def)

theorem lowered_jumps_witness:
  "list_all (jumps_ok example_names False [] []) (fst (lowerFunctionControl example_names example_type example_body)) \<and>
   length (fst (lowerFunctionControl example_names example_type example_body)) = 7"
proof
  have "runtime_symbols example_names" by code_simp
  moreover have "lowerFunctionControl example_names example_type example_body =
      (fst (lowerFunctionControl example_names example_type example_body), None)"
    using example_lowers by (simp add: prod_eq_iff)
  ultimately show "list_all (jumps_ok example_names False [] []) (fst (lowerFunctionControl example_names example_type example_body))"
    by (rule lowered_jumps [OF _ example_parsed])
  show "length (fst (lowerFunctionControl example_names example_type example_body)) = 7" by code_simp
qed

section \<open>Terminating statements\<close>

text \<open>A break of the statement with label \<open>l\<close>; \<open>own\<close>: one without label leaves it.\<close>

function (sequential) breaks :: "string \<Rightarrow> bool \<Rightarrow> stmt \<Rightarrow> bool" where
  "breaks l own (BranchStmt p tok m) = (tok = BREAK \<and> (case m of None \<Rightarrow> own | Some n \<Rightarrow> n = l))"
| "breaks l own (ExprStmt x) =
     (case callNamed x ''GhiTry'' of
        Some args \<Rightarrow> list_ex (\<lambda>e. case funcLitBody e of None \<Rightarrow> False | Some b \<Rightarrow> list_ex (breaks l own) b) args
      | None \<Rightarrow> False)"
| "breaks l own (BlockStmt b) = list_ex (breaks l own) b"
| "breaks l own (IfStmt i c b e) =
     (list_ex (breaks l own) b \<or> (case e of None \<Rightarrow> False | Some s \<Rightarrow> breaks l own s))"
| "breaks l own (ForStmt i c p b) = list_ex (breaks l False) b"
| "breaks l own (RangeStmt k v tok x b) = list_ex (breaks l False) b"
| "breaks l own (SwitchStmt i t b) = list_ex (breaks l False) b"
| "breaks l own (TypeSwitchStmt i x b) = list_ex (breaks l False) b"
| "breaks l own (SelectStmt b) = list_ex (breaks l False) b"
| "breaks l own (CaseClause es b) = list_ex (breaks l own) b"
| "breaks l own (CommClause c b) = list_ex (breaks l own) b"
| "breaks l own (LabeledStmt m s) = breaks l own s"
| "breaks l own s = False"
  by pat_completeness auto
termination
  by (relation "measure (\<lambda>(l, own, s). size s)")
    (auto dest!: callNamed_size funcLitBody_size size_list_mem simp: less_Suc_eq)

text \<open>Go's terminating statements; of a try as \<open>blockTerminates\<close> has it.\<close>

fun ends_fallthrough :: "stmt list \<Rightarrow> bool" where
  "ends_fallthrough [BranchStmt p tok m] = (tok = FALLTHROUGH)"
| "ends_fallthrough (s # b) = ends_fallthrough b"
| "ends_fallthrough [] = False"

definition has_default :: "stmt list \<Rightarrow> bool" where
  "has_default b = list_ex (\<lambda>c. case c of CaseClause None l \<Rightarrow> True | _ \<Rightarrow> False) b"

lemma clause_stmts_less: "c \<in> set b \<Longrightarrow> size_list size (clause_stmts c) < size_list size b"
  using size_list_mem [of c b] by (cases c) auto

function (sequential) go_terminates :: "string \<Rightarrow> stmt \<Rightarrow> bool" and go_ends :: "stmt list \<Rightarrow> bool" where
  "go_terminates l (ReturnStmt p es) = True"
| "go_terminates l (BranchStmt p tok m) = (tok = GOTO)"
| "go_terminates l (ExprStmt x) = stmtTerminates (ExprStmt x)"
| "go_terminates l (BlockStmt b) = go_ends b"
| "go_terminates l (IfStmt i c b (Some e)) = (go_ends b \<and> go_terminates '''' e)"
| "go_terminates l (ForStmt i c p b) = (c = None \<and> \<not> list_ex (breaks l True) b)"
| "go_terminates l (SwitchStmt i t b) =
     (\<not> list_ex (breaks l True) b \<and> has_default b \<and>
      list_all (\<lambda>c. go_ends (clause_stmts c) \<or> ends_fallthrough (clause_stmts c)) b)"
| "go_terminates l (TypeSwitchStmt i x b) =
     (\<not> list_ex (breaks l True) b \<and> has_default b \<and> list_all (\<lambda>c. go_ends (clause_stmts c)) b)"
| "go_terminates l (SelectStmt b) = (\<not> list_ex (breaks l True) b \<and> list_all (\<lambda>c. go_ends (clause_stmts c)) b)"
| "go_terminates l (LabeledStmt m s) = go_terminates m s"
| "go_terminates l s = False"
| "go_ends [] = False"
| "go_ends [s] = go_terminates '''' s"
| "go_ends (s # b) = go_ends b"
  by pat_completeness auto
termination
  by (relation "measure (\<lambda>x. case x of Inl (l, s) \<Rightarrow> size s | Inr b \<Rightarrow> size_list size b)")
    (auto dest: clause_stmts_less)

definition endless_body :: "stmt list" where
  "endless_body =
     [ForStmt None None None
       [ExprStmt (CallExpr (Ident 3 ''GhiTry'')
         [example_literal [ReturnStmt 5 [BasicLit INTLIT ''1'']], Ident 7 ''nil'',
          example_literal [ExprStmt (CallExpr (Ident 8 ''log'') [] False)]] False)]]"


end
