(* ===== verification/ControlAgain.thy ===== *)
theory ControlAgain
  imports ControlScopes
begin

text \<open>
  Lowering a lowered body again changes nothing: \<open>expressions\<close> of \<open>control_flow.go\<close> walks on through the
  bodies it has lowered and visits the function literals in them a second time.
\<close>

section \<open>Steps that keep what they are given\<close>

definition stays :: "(controlFlow, 'a) walk \<Rightarrow> 'a \<Rightarrow> bool" where
  "stays m x \<longleftrightarrow> (\<forall>\<sigma>. \<exists>k. m \<sigma> = (x, \<sigma>\<lparr>nextCode := k\<rparr>))"

lemma same_code: "\<sigma> = \<sigma>\<lparr>nextCode := nextCode \<sigma>\<rparr>"
  by simp

lemma stays_return: "stays (return_walk x) x"
  unfolding stays_def return_walk_def using same_code by blast

lemma stays_Pair: "stays (Pair x) x"
  unfolding stays_def using same_code by blast

lemma stays_then: "stays m x \<Longrightarrow> stays (k x) y \<Longrightarrow> stays (then_walk m k) y"
  unfolding stays_def
proof
  fix \<sigma> assume m: "\<forall>\<sigma>. \<exists>k. m \<sigma> = (x, \<sigma>\<lparr>nextCode := k\<rparr>)" and k: "\<forall>\<sigma>. \<exists>j. k x \<sigma> = (y, \<sigma>\<lparr>nextCode := j\<rparr>)"
  from m obtain i where "m \<sigma> = (x, \<sigma>\<lparr>nextCode := i\<rparr>)" by blast
  moreover from k obtain j where "k x (\<sigma>\<lparr>nextCode := i\<rparr>) = (y, \<sigma>\<lparr>nextCode := i\<rparr>\<lparr>nextCode := j\<rparr>)" by blast
  ultimately show "\<exists>j. then_walk m k \<sigma> = (y, \<sigma>\<lparr>nextCode := j\<rparr>)" by (auto simp: then_walk_def)
qed

lemma stays_take: "(\<And>n. stays (k n) y) \<Longrightarrow> stays (then_walk (take_codes c) k) y"
  unfolding stays_def
proof
  fix \<sigma> assume "\<And>n. \<forall>\<sigma>. \<exists>j. k n \<sigma> = (y, \<sigma>\<lparr>nextCode := j\<rparr>)"
  then obtain j where "k (nextCode \<sigma>) (\<sigma>\<lparr>nextCode := nextCode \<sigma> + c\<rparr>) = (y, \<sigma>\<lparr>nextCode := nextCode \<sigma> + c\<rparr>\<lparr>nextCode := j\<rparr>)" by blast
  then show "\<exists>j. then_walk (take_codes c) k \<sigma> = (y, \<sigma>\<lparr>nextCode := j\<rparr>)" by (auto simp: then_walk_def take_codes_def)
qed

lemma stays_list:
  assumes "\<And>x. x \<in> set xs \<Longrightarrow> stays (f x) [x]"
  shows "stays (lower_list f xs) xs"
  using assms
proof (induction xs)
  case Nil
  then show ?case unfolding stays_def lower_list_Nil using same_code by blast
next
  case (Cons x xs)
  have "stays (then_walk (lower_list f xs) (\<lambda>ys. return_walk ([x] @ ys))) ([x] @ xs)"
    by (rule stays_then [OF Cons.IH stays_return]) (use Cons.prems in simp)
  moreover have "stays (f x) [x]" using Cons.prems by simp
  ultimately show ?case unfolding lower_list_Cons
    using stays_then [of "f x" "[x]" "\<lambda>y. then_walk (lower_list f xs) (\<lambda>ys. return_walk (y @ ys))"] by simp
qed

lemma stays_seq:
  assumes "\<And>x. x \<in> set xs \<Longrightarrow> stays (f x) x"
  shows "stays (lower_seq f xs) xs"
  using assms
proof (induction xs)
  case Nil
  have "lower_seq f [] = return_walk []" by (intro ext) (simp add: lower_seq_def return_walk_def)
  then show ?case by (simp add: stays_return)
next
  case (Cons x xs)
  have "lower_seq f (x # xs) = then_walk (f x) (\<lambda>y. then_walk (lower_seq f xs) (\<lambda>ys. return_walk (y # ys)))"
    by (rule ext) (simp add: lower_seq_def then_walk_def return_walk_def split_beta)
  moreover have "stays (then_walk (lower_seq f xs) (\<lambda>ys. return_walk (x # ys))) (x # xs)"
    by (rule stays_then [OF Cons.IH stays_return]) (use Cons.prems in simp)
  moreover have "stays (f x) x" using Cons.prems by simp
  ultimately show ?case using stays_then [of "f x" x "\<lambda>y. then_walk (lower_seq f xs) (\<lambda>ys. return_walk (y # ys))"] by simp
qed

lemma stays_opt: "(\<And>x. y = Some x \<Longrightarrow> stays (f x) x) \<Longrightarrow> stays (lower_opt f y) y"
proof (cases y)
  case None
  have "lower_opt f None = return_walk None" by (intro ext) (simp add: lower_opt_def return_walk_def)
  then show ?thesis by (simp add: None stays_return)
next
  case (Some x)
  assume "\<And>x. y = Some x \<Longrightarrow> stays (f x) x"
  with Some show ?thesis unfolding stays_def lower_opt_def
    by (simp add: split_beta) (metis fst_conv snd_conv)
qed

section \<open>Expressions\<close>

lemma walk_seq_return: "(\<And>x. x \<in> set xs \<Longrightarrow> f x = return_walk x) \<Longrightarrow> walk_seq (map f xs) = return_walk xs"
  by (induction xs) (auto simp: return_walk_def intro!: ext)

lemma walk_opt_return: "(\<And>x. x \<in> set (opt_list y) \<Longrightarrow> f x = return_walk x) \<Longrightarrow> walk_opt (map_option f y) = return_walk y"
  by (cases y) (auto simp: return_walk_def opt_list_def intro!: ext)

lemma walk_opts_return:
  "(\<And>x. x \<in> set (concat (opt_list y)) \<Longrightarrow> f x = return_walk x) \<Longrightarrow>
     walk_opt (map_option walk_seq (map_option (map f) y)) = return_walk y"
  using walk_seq_return [of "the y" f] by (cases y) (auto simp: return_walk_def opt_list_def intro!: ext)

lemma then_return: "then_walk (return_walk x) k = k x"
  by (rule ext) (simp add: then_walk_def return_walk_def)

lemma rewrite_same:
  fixes g :: "nat \<Rightarrow> expr \<Rightarrow> stmt list \<Rightarrow> ('s, stmt list) walk"
  assumes g: "\<And>p t b. g p t b = return_walk b"
  shows "rewrite_lits g e = return_walk e" "rewrite_field g f = return_walk f"
proof (induction e and f rule: lits_field_lits.induct)
qed (simp_all add: g then_return walk_seq_return walk_opt_return walk_opts_return del: option.map_comp set_concat)

lemma expressions_same:
  assumes "list_all (\<lambda>b. \<forall>t. lowerFunctionControl W t b = (b, None)) (lit_bodies e)"
  shows "stays (expressions W e) e"
proof -
  have "nested_result (lowerFunctionControl W t b) = return_walk b" if "(p, t, b) \<in> set (lits e)" for p t b
    using assms that by (intro ext) (force simp: lit_bodies_def list_all_iff nested_result_def return_walk_def)
  then have "rewrite_lits (\<lambda>p t b. nested_result (lowerFunctionControl W t b)) e = rewrite_lits (\<lambda>p t b. return_walk b) e"
    by (rule rewrite_lits_cong_aux(1))
  then have "expressions W e = return_walk e" by (intro ext) (simp add: expressions.simps rewrite_same(1))
  then show ?thesis by (simp add: stays_return)
qed

section \<open>Statements and functions\<close>

lemma stays_simple: "stays m [s] \<Longrightarrow> stays (then_walk m (simple_result s)) s"
  by (rule stays_then [where x = "[s]"]) (simp_all add: simple_result_def [abs_def] stays_return)

lemma find_again:
  assumes "list_ex (\<lambda>(n, loop). (tok = CONTINUE \<longrightarrow> loop) \<and> (m = None \<or> m = Some n)) (scopes 0 T)"
  obtains t where "find_target T tok m = Some t"
proof -
  from assms obtain t where "t \<in> set T" "m = None \<or> m = Some (t_label t)" "tok = CONTINUE \<longrightarrow> continueCode t \<noteq> 0"
    by (auto simp: list_ex_iff scopes_def)
  then have "find_target T tok m \<noteq> None" unfolding find_target_def find_None_iff by auto
  then show thesis using that by blast
qed

lemma stays_branch:
  assumes "jumps_ok W lit (scopes 0 T) l (BranchStmt p tok m)" "\<forall>t \<in> set T. t_depth t = 0"
  shows "stays (lower_branch 0 T p tok m) [BranchStmt p tok m]"
proof (cases "tok = BREAK \<or> tok = CONTINUE")
  case False
  then have "lower_branch 0 T p tok m = return_walk [BranchStmt p tok m]" by (intro ext) (auto simp: lower_branch_def)
  then show ?thesis by (simp add: stays_return)
next
  case True
  then obtain t where t: "find_target T tok m = Some t"
    using assms(1) find_again [of tok m T] by (auto simp: list_ex_iff)
  then have "t_depth t = 0" using assms(2) find_target_mem by blast
  then have "lower_branch 0 T p tok m = return_walk [BranchStmt p tok m]" using t True by (intro ext) (auto simp: lower_branch_def)
  then show ?thesis by (simp add: stays_return)
qed

lemma function_same:
  assumes "\<And>s R. s \<in> set b \<Longrightarrow> stays (lower_stmt W R False 0 [] [] s) [s]"
  shows "lowerFunctionControl W t b = (b, None)"
proof -
  have "stays (lower_list (lower_stmt W (return_slots t) False 0 [] []) b) b"
    by (rule stays_list) (rule assms)
  then obtain k where "lower_list (lower_stmt W (return_slots t) False 0 [] []) b fresh_flow = (b, fresh_flow\<lparr>nextCode := k\<rparr>)"
    unfolding stays_def by blast
  then show ?thesis by (simp add: lowerFunctionControl.simps Let_def function_result_def fresh_flow_def)
qed

lemma relower_stmt:
  "jumps_ok W lit (scopes 0 T) l s \<Longrightarrow> \<forall>t \<in> set T. t_depth t = 0 \<Longrightarrow> stays (lower_stmt W R False 0 T l s) [s]"
proof (induction s arbitrary: R lit T l rule: measure_induct_rule [where f = size])
  case (less s)
  note src = less.prems(1) and flat = less.prems(2)
  have sub: "stays (lower_stmt W R False 0 U m x) [x]"
    if "size x < size s" "jumps_ok W lit (scopes 0 U) m x" "\<forall>t \<in> set U. t_depth t = 0" for x m U
    using less.IH [OF that] .
  have list: "stays (lower_list (lower_stmt W R False 0 U '''') b) b"
    if "size_list size b < size s" "list_all (jumps_ok W lit (scopes 0 U) '''') b" "\<forall>t \<in> set U. t_depth t = 0" for b U
    by (rule stays_list, rule sub) (use that size_list_mem [of _ b] in \<open>fastforce simp: list_all_iff\<close>)+
  have opt: "stays (lower_opt (\<lambda>s. then_walk (lower_stmt W R False 0 T '''' s) (simple_result s)) i) i"
    if "size_option size i < size s" "pred_option (jumps_ok W lit (scopes 0 T) '''') i" for i
    by (rule stays_opt, rule stays_simple, rule sub) (use that flat in auto)
  have fn: "\<forall>t. lowerFunctionControl W t b = (b, None)" if "b \<in> set (lit_bodies e)" "size e < size s" "lits_ok W e" for b e
  proof (intro allI function_same)
    fix x R' assume "x \<in> set b"
    with that lit_stmt_size [of b e x] show "stays (lower_stmt W R' False 0 [] '''' x) [x]"
      using less.IH [of x False "[]" "''''" R'] by (auto simp: list_all_iff scopes_def)
  qed
  have ex: "stays (expressions W e) e" if "size e < size s" "lits_ok W e" for e
    by (rule expressions_same) (use fn that in \<open>auto simp: list_all_iff\<close>)
  have exo: "stays (lower_opt (expressions W) eo) eo" if "size_option size eo < size s" "pred_option (lits_ok W) eo" for eo
    by (rule stays_opt, rule ex) (use that in auto)
  have exs: "stays (lower_seq (expressions W) es) es" if "size_list size es < size s" "list_all (lits_ok W) es" for es
    by (rule stays_seq, rule ex) (use that size_list_mem [of _ es] in \<open>fastforce simp: list_all_iff\<close>)+
  show ?case
  proof (cases s)
    case BadStmt
    have "lower_stmt W R False 0 T l s = return_walk [s]" by (rule ext) (simp add: BadStmt return_walk_def)
    then show ?thesis by (simp add: stays_return)
  next
    case (ForStmt i c p b)
    have i: "stays (lower_opt (\<lambda>s. then_walk (lower_stmt W R False 0 T [] s) (simple_result s)) i) i"  by (rule opt) (use src flat in \<open>auto simp: ForStmt\<close>)
    have c: "stays (lower_opt (expressions W) c) c"  by (rule exo) (use src flat in \<open>auto simp: ForStmt\<close>)
    have p: "stays (lower_opt (\<lambda>s. then_walk (lower_stmt W R False 0 T [] s) (simple_result s)) p) p"  by (rule opt) (use src flat in \<open>auto simp: ForStmt\<close>)
    have b: "stays (lower_list (lower_stmt W R False 0 (T @ [loop_target l 0 k]) []) b) b" for k by (rule list) (use src flat in \<open>auto simp: ForStmt\<close>)
    show ?thesis
      by (unfold stays_def ForStmt lower_stmt.simps, fold stays_def, (rule stays_return stays_take stays_then i c p b)+)
  next
    case (RangeStmt k v tok x b)
    have k: "stays (lower_opt (expressions W) k) k"  by (rule exo) (use src flat in \<open>auto simp: RangeStmt\<close>)
    have v: "stays (lower_opt (expressions W) v) v"  by (rule exo) (use src flat in \<open>auto simp: RangeStmt\<close>)
    have x: "stays (expressions W x) x"  by (rule ex) (use src flat in \<open>auto simp: RangeStmt\<close>)
    have b: "stays (lower_list (lower_stmt W R False 0 (T @ [loop_target l 0 k]) []) b) b" for k by (rule list) (use src flat in \<open>auto simp: RangeStmt\<close>)
    show ?thesis
      by (unfold stays_def RangeStmt lower_stmt.simps, fold stays_def, (rule stays_return stays_take stays_then k v x b)+)
  next
    case (SwitchStmt i t b)
    have i: "stays (lower_opt (\<lambda>s. then_walk (lower_stmt W R False 0 T [] s) (simple_result s)) i) i"  by (rule opt) (use src flat in \<open>auto simp: SwitchStmt\<close>)
    have t: "stays (lower_opt (expressions W) t) t"  by (rule exo) (use src flat in \<open>auto simp: SwitchStmt\<close>)
    have b: "stays (lower_list (lower_stmt W R False 0 (T @ [switch_target l 0 k]) []) b) b" for k by (rule list) (use src flat in \<open>auto simp: SwitchStmt\<close>)
    show ?thesis
      by (unfold stays_def SwitchStmt lower_stmt.simps, fold stays_def, (rule stays_return stays_take stays_then i t b)+)
  next
    case (SelectStmt b)
    have b: "stays (lower_list (lower_stmt W R False 0 (T @ [switch_target l 0 k]) []) b) b" for k by (rule list) (use src flat in \<open>auto simp: SelectStmt\<close>)
    show ?thesis
      by (unfold stays_def SelectStmt lower_stmt.simps, fold stays_def, (rule stays_return stays_take stays_then b)+)
  next
    case (BlockStmt b)
    have b: "stays (lower_list (lower_stmt W R False 0 T []) b) b"  by (rule list) (use src flat in \<open>auto simp: BlockStmt\<close>)
    show ?thesis
      by (unfold stays_def BlockStmt lower_stmt.simps, fold stays_def, (rule stays_return stays_take stays_then b)+)
  next
    case (CommClause c b)
    have i: "stays (lower_opt (\<lambda>s. then_walk (lower_stmt W R False 0 T [] s) (simple_result s)) c) c"  by (rule opt) (use src flat in \<open>auto simp: CommClause\<close>)
    have b: "stays (lower_list (lower_stmt W R False 0 T []) b) b"  by (rule list) (use src flat in \<open>auto simp: CommClause\<close>)
    show ?thesis
      by (unfold stays_def CommClause lower_stmt.simps, fold stays_def, (rule stays_return stays_take stays_then i b)+)
  next
    case (TypeSwitchStmt i x b)
    have i: "stays (lower_opt (\<lambda>s. then_walk (lower_stmt W R False 0 T [] s) (simple_result s)) i) i"  by (rule opt) (use src flat in \<open>auto simp: TypeSwitchStmt\<close>)
    have x: "stays (then_walk (lower_stmt W R False 0 T [] x) (simple_result x)) x"  by (rule stays_simple, rule sub) (use src flat in \<open>auto simp: TypeSwitchStmt\<close>)
    have b: "stays (lower_list (lower_stmt W R False 0 (T @ [switch_target l 0 k]) []) b) b" for k by (rule list) (use src flat in \<open>auto simp: TypeSwitchStmt\<close>)
    show ?thesis
      by (unfold stays_def TypeSwitchStmt lower_stmt.simps, fold stays_def, (rule stays_return stays_take i x b stays_then)+)
  next
    case (AssignStmt xs tok ys)
    have x: "stays (lower_seq (expressions W) xs) xs"  by (rule exs) (use src flat in \<open>auto simp: AssignStmt\<close>)
    have y: "stays (lower_seq (expressions W) ys) ys"  by (rule exs) (use src flat in \<open>auto simp: AssignStmt\<close>)
    show ?thesis
      by (unfold stays_def AssignStmt lower_stmt.simps, fold stays_def, (rule stays_return stays_take stays_then x y)+)
  next
    case (SendStmt c v)
    have c: "stays (expressions W c) c"  by (rule ex) (use src flat in \<open>auto simp: SendStmt\<close>)
    have v: "stays (expressions W v) v"  by (rule ex) (use src flat in \<open>auto simp: SendStmt\<close>)
    show ?thesis
      by (unfold stays_def SendStmt lower_stmt.simps, fold stays_def, (rule stays_return stays_take stays_then c v)+)
  next
    case (IncDecStmt e tok)
    have e: "stays (expressions W e) e"  by (rule ex) (use src flat in \<open>auto simp: IncDecStmt\<close>)
    show ?thesis
      by (unfold stays_def IncDecStmt lower_stmt.simps, fold stays_def, (rule stays_return stays_take stays_then e)+)
  next
    case (GoStmt e)
    have e: "stays (expressions W e) e"  by (rule ex) (use src flat in \<open>auto simp: GoStmt\<close>)
    show ?thesis
      by (unfold stays_def GoStmt lower_stmt.simps, fold stays_def, (rule stays_return stays_take stays_then e)+)
  next
    case (IfStmt i c b e)
    have i: "stays (lower_opt (\<lambda>s. then_walk (lower_stmt W R False 0 T [] s) (simple_result s)) i) i"
      by (rule opt) (use src flat in \<open>auto simp: IfStmt\<close>)
    have c: "stays (expressions W c) c" by (rule ex) (use src in \<open>auto simp: IfStmt\<close>)
    have b: "stays (lower_list (lower_stmt W R False 0 T []) b) b" by (rule list) (use src flat in \<open>auto simp: IfStmt\<close>)
    have e: "stays (lower_opt (\<lambda>s. then_walk (lower_stmt W R False 0 T [] s) (\<lambda>out. return_walk (hd out))) e) e"
    proof (rule stays_opt)
      fix x assume "e = Some x"
      then have "stays (lower_stmt W R False 0 T [] x) [x]" by (intro sub) (use src flat in \<open>auto simp: IfStmt\<close>)
      then show "stays (then_walk (lower_stmt W R False 0 T [] x) (\<lambda>out. return_walk (hd out))) x"
        by (rule stays_then) (simp add: stays_return)
    qed
    show ?thesis
      by (unfold stays_def IfStmt lower_stmt.simps, fold stays_def, (rule stays_return i c b e stays_then)+)
  next
    case (CaseClause es b)
    have es: "stays (lower_opt (lower_seq (expressions W)) es) es"
      by (rule stays_opt, rule exs) (use src in \<open>auto simp: CaseClause\<close>)
    have b: "stays (lower_list (lower_stmt W R False 0 T []) b) b" by (rule list) (use src flat in \<open>auto simp: CaseClause\<close>)
    show ?thesis
      by (unfold stays_def CaseClause lower_stmt.simps, fold stays_def, (rule stays_return es b stays_then)+)
  next
    case (DeclStmt tok specs)
    have "stays (spec_values_with (expressions W) sp) sp" if "sp \<in> set specs" for sp
    proof (cases sp)
      case (ValueSpec names t vs)
      have "size_list size vs < size s" using size_list_mem [OF that] by (simp add: DeclStmt ValueSpec)
      then have "stays (lower_seq (expressions W) vs) vs" by (rule exs) (use src that in \<open>auto simp: DeclStmt ValueSpec list_all_iff\<close>)
      then show ?thesis unfolding ValueSpec spec_values_with.simps by (rule stays_then) (rule stays_return)
    qed (simp_all add: stays_return)
    then have specs: "stays (lower_seq (spec_values_with (expressions W)) specs) specs" by (rule stays_seq)
    show ?thesis
      by (unfold stays_def DeclStmt lower_stmt.simps, fold stays_def, (rule stays_return specs stays_then)+)
  next
    case (ReturnStmt p es)
    have es: "stays (lower_seq (expressions W) es) es" by (rule exs) (use src in \<open>auto simp: ReturnStmt\<close>)
    have "lower_return R 0 p es = return_walk [ReturnStmt p es]" by (rule ext) (simp add: lower_return_def)
    then show ?thesis
      by (unfold stays_def ReturnStmt lower_stmt.simps, fold stays_def, intro stays_then [OF es]) (simp add: stays_return)
  next
    case (BranchStmt p tok m)
    show ?thesis unfolding stays_def BranchStmt lower_stmt.simps
      by (fold stays_def, rule stays_branch [OF _ flat]) (use src in \<open>simp only: BranchStmt\<close>)
  next
    case (LabeledStmt m x)
    have x: "stays (lower_stmt W R False 0 T m x) [x]" by (rule sub) (use src flat in \<open>auto simp: LabeledStmt\<close>)
    show ?thesis unfolding stays_def LabeledStmt lower_stmt.simps
      by (fold stays_def, rule stays_then [OF x]) (simp add: stays_return)
  next
    case (DeferStmt e)
    have e: "stays (expressions W e) e" by (rule ex) (use src in \<open>auto simp: DeferStmt\<close>)
    show ?thesis
      by (unfold stays_def DeferStmt lower_stmt.simps, fold stays_def, intro stays_then [OF e]) (simp add: stays_Pair)
  next
    case EmptyStmt
    have "lower_stmt W R False 0 T l s = return_walk [s]" by (rule ext) (simp add: EmptyStmt return_walk_def)
    then show ?thesis by (simp add: stays_return)
  next
    case (ExprStmt x)
    have no: "callNamed x ''GhiTry'' = None" using src by (simp add: ExprStmt)
    have "lower_stmt W R False 0 T l s = then_walk (expressions W x) (\<lambda>x. return_walk [ExprStmt x])"
      using no by (intro ext, cases x) (simp_all add: ExprStmt)
    moreover have "stays (expressions W x) x" by (rule ex) (use src in \<open>auto simp: ExprStmt\<close>)
    ultimately show ?thesis by (simp only:) (rule stays_then, assumption, simp add: ExprStmt stays_return)
  qed
qed

text \<open>
  C16: Lowering is idempotent: a lowered body, lowered again as a function of any type, stays as it is, with no
  error. So the second visit of the literals in a lowered body changes nothing.
\<close>

theorem relowering:
  assumes "runtime_symbols W" "list_all (parsed W) b" "lowerFunctionControl W t b = (b', None)"
  shows "lowerFunctionControl W u b' = (b', None)"
proof (rule function_same)
  have ok: "list_all (jumps_ok W False [] []) b'"
    using parsed_function_ok [OF assms(1,2)] assms(3) by (simp add: function_ok_def)
  show "stays (lower_stmt W R False 0 [] [] s) [s]" if "s \<in> set b'" for s R
    by (rule relower_stmt [where lit = False]) (use ok that in \<open>auto simp: list_all_iff scopes_def\<close>)
qed

theorem relowering_witness:
  "lowerFunctionControl example_names (Ident 0 []) (fst (lowerFunctionControl example_names example_type example_body)) =
     (fst (lowerFunctionControl example_names example_type example_body), None)"
proof (rule relowering)
  show "runtime_symbols example_names" by code_simp
  show "list_all (parsed example_names) example_body" by (rule example_parsed)
  show "lowerFunctionControl example_names example_type example_body =
      (fst (lowerFunctionControl example_names example_type example_body), None)"
    using example_lowers by (simp add: prod_eq_iff)
qed

end
