(* ===== verification/Signatures.thy ===== *)
theory Signatures
  imports ClassModel
begin

text \<open>
  Signatures in the scope of another class (\<open>importAlias\<close>, \<open>classSymbol\<close>, \<open>typeText\<close>, \<open>parameters\<close>,
  \<open>results\<close> and \<open>signature\<close> of \<open>internal/compiler/class_model.go\<close>, \<open>ancestorArguments\<close> of
  \<open>inheritance.go\<close>). Naming a type of another namespace may add an import to the file, so the program
  is passed along.
\<close>

section \<open>Imports\<close>

definition suggestion :: "string \<Rightarrow> (string option \<times> string) \<Rightarrow> string" where
  "suggestion suggested spec = (case fst spec of Some n \<Rightarrow> n | None \<Rightarrow> suggested)"

definition importAlias :: "nat \<Rightarrow> string \<Rightarrow> string \<Rightarrow> program \<Rightarrow> string \<times> program" where
  "importAlias to path suggested p =
     (let specs = ft_imports (file_at p to) in
      case find (\<lambda>spec. snd spec = path) specs of
        Some spec \<Rightarrow> (suggestion suggested spec, p)
      | None \<Rightarrow>
          (let alias = ''ghi_dependency_'' @ decimal (length specs)
           in (alias, p\<lparr>p_files := (p_files p)[to := (file_at p to)\<lparr>ft_imports := specs @ [(Some alias, path)]\<rparr>]\<rparr>)))"

definition go_name :: "program \<Rightarrow> string \<Rightarrow> string" where
  "go_name p ns = (case find (\<lambda>n. nm_name n = ns) (p_ordered p) of Some n \<Rightarrow> nm_goName n | None \<Rightarrow> [])"

definition classSymbol :: "nat \<Rightarrow> string \<Rightarrow> nat \<Rightarrow> string \<Rightarrow> program \<Rightarrow> string \<times> program" where
  "classSymbol c name to ns p =
     (if c_namespace (class_at p c) = ns then (name, p)
      else
        let owner = c_namespace (class_at p c);
            (alias, p') = importAlias to (generatedModule @ ''/'' @ slashed owner) (go_name p owner) p
        in (alias @ ''.'' @ name, p'))"

section \<open>Types in another scope\<close>

text \<open>The name by which a file imports a path.\<close>

definition import_name :: "string option \<times> string \<Rightarrow> string" where
  "import_name spec = suggestion (after_last CHR ''/'' (snd spec)) spec"

definition declares_type :: "program \<Rightarrow> string \<Rightarrow> string \<Rightarrow> bool" where
  "declares_type p ns name =
     list_ex (\<lambda>n. nm_name n = ns \<and> list_ex (\<lambda>f. list_ex (\<lambda>d. fst d = name) (ft_types (file_at p f))) (nm_files n)) (p_ordered p)"

definition type_transform :: "goText \<Rightarrow> nat \<Rightarrow> nat \<Rightarrow> string \<Rightarrow> program transform" where
  "type_transform go owner to ns node p =
     (let o_ns = c_namespace (class_at p owner) in
      case node of
        NE (SelectorExpr (Ident q x) r n) \<Rightarrow>
          (case find (\<lambda>spec. import_name spec = x) (ft_imports (file_at p (c_file (class_at p owner)))) of
             None \<Rightarrow> (node, p)
           | Some spec \<Rightarrow>
               (let (alias, p') = importAlias to (snd spec) (import_name spec) p
                in (NE (SelectorExpr (Ident 0 alias) r n), p')))
      | NE (Ident q n) \<Rightarrow>
          if n \<in> set (classParameterNames (class_at p owner)) then (node, p)
          else
            (case classes p (class_key o_ns n) of
               Some c \<Rightarrow>
                 if c_namespace (class_at p c) \<noteq> ns
                 then (let (symbol, p') = classSymbol c (c_name (class_at p c)) to ns p in (NE (parsed go symbol), p'))
                 else if o_ns \<noteq> ns \<and> declares_type p o_ns n
                 then (let (symbol, p') = classSymbol owner n to ns p in (NE (parsed go symbol), p'))
                 else (node, p)
             | None \<Rightarrow>
                 if o_ns \<noteq> ns \<and> declares_type p o_ns n
                 then (let (symbol, p') = classSymbol owner n to ns p in (NE (parsed go symbol), p'))
                 else (node, p))
      | _ \<Rightarrow> (node, p))"

text \<open>\<open>typeText\<close> up to the context of a descendant: the tree in the scope of \<open>to\<close> and \<open>ns\<close>.\<close>

definition relocateType :: "goText \<Rightarrow> expr \<Rightarrow> nat \<Rightarrow> nat \<Rightarrow> string \<Rightarrow> program \<Rightarrow> expr \<times> program" where
  "relocateType go typ owner to ns p =
     walk_expr (type_transform go owner to ns) (parsed go (expressionText go typ)) p"

definition clone :: "goText \<Rightarrow> expr \<Rightarrow> expr" where
  "clone go e = parsed go (expressionText go e)"

definition bind_names :: "string list \<Rightarrow> expr list \<Rightarrow> (string \<rightharpoonup> expr)" where
  \<comment> \<open>the loop that binds the parameters of a class; a later name of two that are equal counts\<close>
  "bind_names names args = map_of (rev (zip names args))"

text \<open>Expressions that Go's \<open>ParseExpr\<close> makes have no resolved names.\<close>

definition substituteParsed :: "goText \<Rightarrow> (string \<rightharpoonup> expr) \<Rightarrow> expr \<Rightarrow> expr" where
  "substituteParsed go = substituteType (\<lambda>pos. False) (clone go)"

text \<open>The arguments of an edge, expressed in the scope of the child.\<close>

primrec relocateArguments ::
  "goText \<Rightarrow> nat \<Rightarrow> nat \<Rightarrow> (string \<rightharpoonup> expr) \<Rightarrow> expr list \<Rightarrow> program \<Rightarrow> expr list \<times> program"
where
  "relocateArguments go q child bindings [] p = ([], p)"
| "relocateArguments go q child bindings (arg # args) p =
     (let (e, p1) = relocateType go arg q (c_file (class_at p child)) (c_namespace (class_at p child)) p;
          (rest, p2) = relocateArguments go q child bindings args p1
      in (substituteParsed go bindings (clone go e) # rest, p2))"

partial_function (option) ancestorArguments ::
  "goText \<Rightarrow> nat \<Rightarrow> nat \<Rightarrow> program \<Rightarrow> (expr list \<times> program) option"
where
  "ancestorArguments go child anc p =
     (if child = anc then Some (map (Ident 0) (classParameterNames (class_at p child)), p)
      else
        case parent p child of
          None \<Rightarrow> Some ([], p)
        | Some q \<Rightarrow>
            Option.bind (ancestorArguments go q anc p) (\<lambda>(inherited, p1).
              let direct = snd (genericBase (parsed go (c_parentName (class_at p1 child))));
                  bindings = bind_names (classParameterNames (class_at p1 q)) direct
              in Some (relocateArguments go q child bindings inherited p1)))"

declare ancestorArguments.simps [code]

definition typeText :: "goText \<Rightarrow> expr \<Rightarrow> nat \<Rightarrow> nat \<Rightarrow> string \<Rightarrow> nat option \<Rightarrow> program \<Rightarrow> (string \<times> program) option" where
  "typeText go typ owner to ns context p =
     (let (node, p1) = relocateType go typ owner to ns p in
      case context of
        None \<Rightarrow> Some (expressionText go node, p1)
      | Some d \<Rightarrow>
          if d = owner then Some (expressionText go node, p1)
          else
            case parent p1 d of
              None \<Rightarrow> Some (expressionText go node, p1)
            | Some q \<Rightarrow>
                Option.bind (derives p1 owner q) (\<lambda>inherits.
                  if \<not> inherits then Some (expressionText go node, p1)
                  else
                    Option.bind (ancestorArguments go d owner p1) (\<lambda>(args, p2).
                      Some (expressionText go (substituteParsed go
                        (bind_names (classParameterNames (class_at p2 owner)) args) node), p2))))"

section \<open>Signatures\<close>

definition named_this :: "field \<Rightarrow> bool" where
  "named_this f = (case f of Field ((q, n) # _) t \<Rightarrow> n = ''this'' | _ \<Rightarrow> False)"

fun field_type :: "field \<Rightarrow> expr" where
  "field_type (Field names t) = t"

primrec typeTexts ::
  "goText \<Rightarrow> expr list \<Rightarrow> nat \<Rightarrow> nat \<Rightarrow> string \<Rightarrow> nat option \<Rightarrow> program \<Rightarrow> (string list \<times> program) option"
where
  "typeTexts go [] owner to ns context p = Some ([], p)"
| "typeTexts go (t # ts) owner to ns context p =
     Option.bind (typeText go t owner to ns context p) (\<lambda>(s, p1).
     Option.bind (typeTexts go ts owner to ns context p1) (\<lambda>(rest, p2). Some (s # rest, p2)))"

definition param_types :: "functionDecl \<Rightarrow> expr list" where
  "param_types f = map field_type (filter (\<lambda>fl. \<not> named_this fl) (fn_params f))"

text \<open>A field of the results counts once for each of its names, and once without a name.\<close>

definition result_types :: "functionDecl \<Rightarrow> expr list" where
  "result_types f =
     concat (map (\<lambda>fl. case fl of Field names t \<Rightarrow> replicate (max 1 (length names)) t)
       (concat (opt_list (fn_results f))))"

definition signature :: "goText \<Rightarrow> functionDecl \<Rightarrow> nat \<Rightarrow> program \<Rightarrow> (string \<times> program) option" where
  "signature go f at p =
     (let to = c_file (class_at p at); ns = c_namespace (class_at p at) in
      Option.bind (typeTexts go (param_types f) (fn_owner f) to ns (Some at) p) (\<lambda>(parts, p1).
      Option.bind (typeTexts go (result_types f) (fn_owner f) to ns (Some at) p1) (\<lambda>(results, p2).
        Some (join '','' parts @ ''->'' @ join '','' results, p2))))"

section \<open>Signatures return and leave the classes\<close>

definition same_classes :: "program \<Rightarrow> program \<Rightarrow> bool" where
  "same_classes p p' \<longleftrightarrow> p_classes p' = p_classes p"

lemma same_classes_parent: "same_classes p p' \<Longrightarrow> parent p' = parent p"
  by (simp add: same_classes_def parent_def fun_eq_iff)

lemma same_classes_refl [simp]: "same_classes p p"
  by (simp add: same_classes_def)

lemma same_classes_trans: "same_classes p p1 \<Longrightarrow> same_classes p1 p2 \<Longrightarrow> same_classes p p2"
  by (simp add: same_classes_def)

lemma grounded_parents: "parent p' = parent p \<Longrightarrow> grounded p c \<Longrightarrow> grounded p' c"
  by (rotate_tac, induction rule: grounded.induct) (auto intro: grounded.intros)

lemma importAlias_classes [simp]: "p_classes (snd (importAlias to path s p)) = p_classes p"
  by (simp add: importAlias_def Let_def split: option.splits)

lemma classSymbol_classes [simp]: "p_classes (snd (classSymbol c name to ns p)) = p_classes p"
  by (simp add: classSymbol_def Let_def split_beta)

lemma type_transform_classes: "p_classes (snd (type_transform go owner to ns node p)) = p_classes p"
  by (simp add: type_transform_def Let_def split_beta split: node.splits expr.splits option.splits)

lemma relocateType_classes [simp]: "p_classes (snd (relocateType go t owner to ns p)) = p_classes p"
proof -
  have "keeps (\<lambda>s. p_classes s = p_classes p) (type_transform go owner to ns n)" for n
    by (simp add: keeps_def type_transform_classes)
  from walk_keeps(1) [OF this] show ?thesis by (simp add: keeps_def relocateType_def)
qed

lemma relocateArguments_classes [simp]: "p_classes (snd (relocateArguments go q child bindings args p)) = p_classes p"
  by (induction args arbitrary: p) (simp_all add: Let_def split_beta)

lemma ancestorArguments_returns:
  "grounded p c \<Longrightarrow> \<exists>args p'. ancestorArguments go c a p = Some (args, p') \<and> same_classes p p'"
proof (induction rule: grounded.induct)
  case (root_class c)
  then show ?case by (simp add: ancestorArguments.simps [of go c])
next
  case (derived_class c q)
  then obtain args p1 where IH: "ancestorArguments go q a p = Some (args, p1)" "same_classes p p1" by blast
  note unfold_once = ancestorArguments.simps [of go c a p]
  show ?case
  proof (cases "c = a")
    case True
    with unfold_once show ?thesis by simp
  next
    case False
    let ?bs = "bind_names (classParameterNames (class_at p1 q)) (snd (genericBase (parsed go (c_parentName (class_at p1 c)))))"
    obtain es p2 where rel: "relocateArguments go q c ?bs args p1 = (es, p2)" by fastforce
    with relocateArguments_classes [of go q c ?bs args p1] IH(2) have "same_classes p p2" by (simp add: same_classes_def)
    moreover from unfold_once False derived_class(1) IH(1) rel have "ancestorArguments go c a p = Some (es, p2)" by simp
    ultimately show ?thesis by blast
  qed
qed

lemma typeText_returns:
  assumes "grounded p d"
  shows "\<exists>s p'. typeText go t owner to ns (Some d) p = Some (s, p') \<and> same_classes p p'"
proof -
  obtain node p1 where r: "relocateType go t owner to ns p = (node, p1)" by fastforce
  have same: "same_classes p p1" using relocateType_classes [of go t owner to ns p] r by (simp add: same_classes_def)
  have g1: "grounded p1 d" by (rule grounded_parents [OF same_classes_parent [OF same] assms])
  from ancestorArguments_returns [OF g1] obtain args p2 where
    a: "ancestorArguments go d owner p1 = Some (args, p2)" "same_classes p1 p2" by blast
  show ?thesis
  proof (cases "parent p1 d")
    case None
    with r same show ?thesis by (auto simp: typeText_def)
  next
    case (Some q)
    with derives_iff [OF grounded_parent [OF g1 Some]] r same a show ?thesis
      by (auto simp: typeText_def same_classes_def)
  qed
qed

lemma typeTexts_returns:
  "grounded p d \<Longrightarrow> \<exists>s p'. typeTexts go ts owner to ns (Some d) p = Some (s, p') \<and> same_classes p p'"
proof (induction ts arbitrary: p)
  case (Cons t ts)
  from typeText_returns [OF Cons.prems] obtain s p1 where
    s: "typeText go t owner to ns (Some d) p = Some (s, p1)" "same_classes p p1" by blast
  from Cons.IH [OF grounded_parents [OF same_classes_parent [OF s(2)] Cons.prems]] s show ?case
    by (auto intro: same_classes_trans)
qed simp

lemma signature_returns:
  assumes "grounded p c"
  shows "\<exists>s p'. signature go f c p = Some (s, p') \<and> same_classes p p'"
proof -
  let ?to = "c_file (class_at p c)" and ?ns = "c_namespace (class_at p c)"
  from typeTexts_returns [OF assms] obtain s1 p1 where
    1: "typeTexts go (param_types f) (fn_owner f) ?to ?ns (Some c) p = Some (s1, p1)" "same_classes p p1" by blast
  from typeTexts_returns [OF grounded_parents [OF same_classes_parent [OF 1(2)] assms]] obtain s2 p2 where
    2: "typeTexts go (result_types f) (fn_owner f) ?to ?ns (Some c) p1 = Some (s2, p2)" "same_classes p1 p2" by blast
  from 1 2 show ?thesis by (auto simp: signature_def Let_def intro: same_classes_trans)
qed

end
