(* ===== verification/ClassCheck.thy ===== *)
theory ClassCheck
  imports Signatures
begin

text \<open>
  The checks of the classes of a program (\<open>prepareClasses\<close> of \<open>internal/compiler/class_model.go\<close>):
  parents and interfaces are resolved, cycles rejected, overrides and interface implementations
  checked and constructors added. The code ranges twice over a Go map of the classes; the two orders
  are arguments.
\<close>

section \<open>Parents and interfaces\<close>

definition update_class :: "nat \<Rightarrow> (classDecl \<Rightarrow> classDecl) \<Rightarrow> program \<Rightarrow> program" where
  "update_class c g p = p\<lparr>p_classes := (p_classes p)[c := g (class_at p c)]\<rparr>"

definition class_error :: "program \<Rightarrow> nat \<Rightarrow> nat \<Rightarrow> string \<Rightarrow> string" where
  "class_error p f c message = ft_path (file_at p f) @ '':'' @ decimal (c_line (class_at p c)) @ '': '' @ message"

definition resolve_parent :: "goText \<Rightarrow> string \<Rightarrow> nat \<Rightarrow> nat \<Rightarrow> program \<Rightarrow> program result" where
  "resolve_parent go ns f c p =
     (let text = c_parentName (class_at p c) in
      if text = [] then Inr p
      else
        let unknown = Inl (class_error p f c (''class '' @ c_name (class_at p c) @ '': unknown parent class '' @ text)) in
        case classNamed go p text f ns of
          None \<Rightarrow> unknown
        | Some q \<Rightarrow>
            if c_interface (class_at p q) then unknown
            else
              (case parse_expr go text of
                 Inl err \<Rightarrow> Inl (class_error p f c (''invalid parent type: '' @ err))
               | Inr e \<Rightarrow>
                   if length (snd (genericBase e)) \<noteq> length (classParameterNames (class_at p q))
                   then Inl (class_error p f c (''parent '' @ c_name (class_at p q) @ '' expects ''
                     @ decimal (length (classParameterNames (class_at p q))) @ '' type arguments, got '' @ decimal (length (snd (genericBase e)))))
                   else Inr (update_class c (\<lambda>d. d\<lparr>c_parent := Some q\<rparr>) p)))"

fun resolve_interfaces :: "goText \<Rightarrow> string \<Rightarrow> nat \<Rightarrow> nat \<Rightarrow> string list \<Rightarrow> program \<Rightarrow> program result" where
  "resolve_interfaces go ns f c [] p = Inr p"
| "resolve_interfaces go ns f c (name # names) p =
     (let unknown = Inl (class_error p f c (''class '' @ c_name (class_at p c) @ '': unknown interface '' @ name)) in
      case classNamed go p name f ns of
        None \<Rightarrow> unknown
      | Some i \<Rightarrow>
          if \<not> c_interface (class_at p i) then unknown
          else resolve_interfaces go ns f c names (update_class c (\<lambda>d. d\<lparr>c_interfaces := c_interfaces d @ [i]\<rparr>) p))"

definition resolve_class :: "goText \<Rightarrow> nameSpace \<times> nat \<times> nat \<Rightarrow> string list \<Rightarrow> program \<Rightarrow> program result" where
  "resolve_class go d seen p =
     (case d of (n, f, c) \<Rightarrow>
        let key = class_key (nm_name n) (c_name (class_at p c)) in
        if key \<in> set seen then Inl (class_error p f c (''duplicate class '' @ key))
        else
          (case resolve_parent go (nm_name n) f c p of
             Inl e \<Rightarrow> Inl e
           | Inr p1 \<Rightarrow> resolve_interfaces go (nm_name n) f c (c_interfaceNames (class_at p1 c)) p1))"

fun resolve_classes :: "goText \<Rightarrow> (nameSpace \<times> nat \<times> nat) list \<Rightarrow> string list \<Rightarrow> program \<Rightarrow> program result" where
  "resolve_classes go [] seen p = Inr p"
| "resolve_classes go (d # ds) seen p =
     (case resolve_class go d seen p of
        Inl e \<Rightarrow> Inl e
      | Inr p1 \<Rightarrow> resolve_classes go ds (class_key (nm_name (fst d)) (c_name (class_at p (snd (snd d)))) # seen) p1)"

section \<open>Cycles\<close>

lemma parent_index: "parent p a = Some q \<Longrightarrow> a < length (p_classes p)"
  by (simp add: parent_def split: if_splits)

function in_cycle :: "program \<Rightarrow> nat list \<Rightarrow> nat \<Rightarrow> bool" where
  "in_cycle p seen a =
     (if a \<in> set seen then True
      else case parent p a of None \<Rightarrow> False | Some q \<Rightarrow> in_cycle p (a # seen) q)"
  by pat_completeness auto
termination
  by (relation "measure (\<lambda>(p, seen, a). card ({..< length (p_classes p)} - set seen))")
    (auto intro!: psubset_card_mono dest!: parent_index)

declare in_cycle.simps [simp del]

section \<open>Overrides and interfaces\<close>

text \<open>\<^const>\<open>None\<close> is a run that does not return, an error ends the checks.\<close>

type_synonym check = "program result option"

definition then_check :: "check \<Rightarrow> (program \<Rightarrow> check) \<Rightarrow> check" where
  "then_check m k = Option.bind m (\<lambda>r. case r of Inl e \<Rightarrow> Some (Inl e) | Inr p \<Rightarrow> k p)"

primrec check_each :: "('a \<Rightarrow> program \<Rightarrow> check) \<Rightarrow> 'a list \<Rightarrow> program \<Rightarrow> check" where
  "check_each f [] p = Some (Inr p)"
| "check_each f (x # xs) p = then_check (f x p) (check_each f xs)"

definition base_method :: "program \<Rightarrow> nat \<Rightarrow> string \<Rightarrow> functionDecl option option" where
  "base_method p c name = (case parent p c of None \<Rightarrow> Some None | Some q \<Rightarrow> class_method p q name)"

definition same_signature :: "goText \<Rightarrow> functionDecl \<Rightarrow> functionDecl \<Rightarrow> nat \<Rightarrow> program \<Rightarrow> (bool \<times> program) option" where
  "same_signature go m b c p =
     Option.bind (signature go m c p) (\<lambda>(s1, p1).
     Option.bind (signature go b c p1) (\<lambda>(s2, p2). Some (s1 = s2, p2)))"

definition method_error :: "program \<Rightarrow> nat \<Rightarrow> functionDecl \<Rightarrow> string \<Rightarrow> string" where
  "method_error p c m message = fn_pos m @ '': '' @ c_name (class_at p c) @ ''.'' @ fn_name m @ '': '' @ message"

definition check_method :: "goText \<Rightarrow> nat \<Rightarrow> functionDecl \<Rightarrow> program \<Rightarrow> check" where
  "check_method go c m p =
     Option.bind (base_method p c (fn_name m)) (\<lambda>base.
       if fn_override m \<and> (case base of None \<Rightarrow> True | Some b \<Rightarrow> fn_visibility b = ''private'')
       then Some (Inl (method_error p c m ''override requires an accessible parent method''))
       else
         case base of
           None \<Rightarrow> Some (Inr p)
         | Some b \<Rightarrow>
             if \<not> fn_override m then Some (Inl (method_error p c m ''overriding a parent method requires override''))
             else
               Option.bind (same_signature go m b c p) (\<lambda>(same, p1).
                 if \<not> same then Some (Inl (method_error p c m ''incompatible override signature''))
                 else if visibilityRank (fn_visibility m) < visibilityRank (fn_visibility b)
                 then Some (Inl (method_error p c m ''override reduces visibility''))
                 else Some (Inr p1)))"

definition check_requirement :: "goText \<Rightarrow> nat \<Rightarrow> nat \<Rightarrow> functionDecl \<Rightarrow> program \<Rightarrow> check" where
  "check_requirement go c i req p =
     (let missing = Inl (class_error p (c_file (class_at p c)) c (''class '' @ c_name (class_at p c)
            @ '' does not implement '' @ c_name (class_at p i) @ ''.'' @ fn_name req)) in
      Option.bind (class_method p c (fn_name req)) (\<lambda>found.
        case found of
          None \<Rightarrow> Some missing
        | Some m \<Rightarrow>
            if fn_visibility m \<noteq> ''public'' then Some missing
            else if c_typeParams (class_at p i) \<noteq> [] then Some (Inr p)
            else
              Option.bind (same_signature go m req c p) (\<lambda>(same, p1).
                if \<not> same then Some missing else Some (Inr p1))))"

definition emptyConstructor :: "nat \<Rightarrow> functionDecl" where
  "emptyConstructor c =
     \<lparr>fn_name = ''constructor'', fn_pos = [], fn_params = [], fn_results = None, fn_visibility = ''private'',
      fn_override = False, fn_owner = c\<rparr>"

definition add_constructor :: "nat \<Rightarrow> program \<Rightarrow> program" where
  "add_constructor c p =
     (if \<not> c_interface (class_at p c) \<and> c_constructor (class_at p c) = None
      then update_class c (\<lambda>d. d\<lparr>c_constructor := Some (emptyConstructor c)\<rparr>) p else p)"

definition check_class :: "goText \<Rightarrow> nat \<Rightarrow> program \<Rightarrow> check" where
  "check_class go c p =
     then_check (check_each (check_method go c) (c_methods (class_at p c)) p) (\<lambda>p1.
     then_check (check_each (\<lambda>i p. check_each (check_requirement go c i) (c_methods (class_at p i)) p)
         (c_interfaces (class_at p1 c)) p1) (\<lambda>p2.
       Some (Inr (add_constructor c p2))))"

definition prepareClasses :: "goText \<Rightarrow> nat list \<Rightarrow> nat list \<Rightarrow> program \<Rightarrow> check" where
  "prepareClasses go order1 order2 p =
     (case resolve_classes go (declarations p) [] p of
        Inl e \<Rightarrow> Some (Inl e)
      | Inr p1 \<Rightarrow>
          (case find (in_cycle p1 []) order1 of
             Some c \<Rightarrow> Some (Inl (class_error p1 (c_file (class_at p1 c)) c (''inheritance cycle at '' @ c_name (class_at p1 c))))
           | None \<Rightarrow> check_each (check_class go) order2 p1))"

section \<open>The classes during the checks\<close>

text \<open>The checks change imports and constructors only.\<close>

definition bare :: "classDecl \<Rightarrow> classDecl" where
  "bare c = c\<lparr>c_constructor := None\<rparr>"

definition alike :: "program \<Rightarrow> program \<Rightarrow> bool" where
  "alike p p' \<longleftrightarrow> length (p_classes p') = length (p_classes p) \<and> (\<forall>c. bare (class_at p' c) = bare (class_at p c))"

lemma alike_refl: "alike p p"
  by (simp add: alike_def)

lemma alike_trans: "alike p p1 \<Longrightarrow> alike p1 p2 \<Longrightarrow> alike p p2"
  by (simp add: alike_def)

lemma alike_sym: "alike p p' \<Longrightarrow> alike p' p"
  by (simp add: alike_def)

lemma same_classes_alike: "same_classes p p' \<Longrightarrow> alike p p'"
  by (simp add: same_classes_def alike_def)

lemma bare_eq:
  assumes "bare c = bare d"
  shows "c_parent c = c_parent d" "c_methods c = c_methods d" "c_interfaces c = c_interfaces d"
    "c_typeParams c = c_typeParams d" "c_interface c = c_interface d"
  using arg_cong [OF assms, of c_parent] arg_cong [OF assms, of c_methods] arg_cong [OF assms, of c_interfaces]
    arg_cong [OF assms, of c_typeParams] arg_cong [OF assms, of c_interface]
  by (simp_all add: bare_def)

lemma alike_class:
  assumes "alike p p'"
  shows "parent p' = parent p" "c_methods (class_at p' c) = c_methods (class_at p c)"
    "c_interfaces (class_at p' c) = c_interfaces (class_at p c)"
    "c_typeParams (class_at p' c) = c_typeParams (class_at p c)"
proof -
  have bare: "bare (class_at p' c) = bare (class_at p c)" for c using assms by (simp add: alike_def)
  show "c_methods (class_at p' c) = c_methods (class_at p c)" "c_interfaces (class_at p' c) = c_interfaces (class_at p c)"
    "c_typeParams (class_at p' c) = c_typeParams (class_at p c)" by (rule bare_eq [OF bare])+
  show "parent p' = parent p" using assms bare_eq(1) [OF bare] by (simp add: alike_def parent_def fun_eq_iff)
qed

lemma alike_update: "(\<And>d. bare (g d) = bare d) \<Longrightarrow> alike p (update_class c g p)"
  by (cases "c < length (p_classes p)")
    (auto simp: alike_def update_class_def nth_list_update list_update_beyond)

lemma method_alike: "grounded p c \<Longrightarrow> alike p p' \<Longrightarrow> class_method p' c name = class_method p c name"
proof (induction rule: grounded.induct)
  case (root_class c)
  then show ?case
    by (simp add: class_method.simps [of p c] class_method.simps [of p' c] alike_class [OF root_class(2)] split: option.splits)
next
  case (derived_class c q)
  then show ?case
    by (simp add: class_method.simps [of p c] class_method.simps [of p' c] alike_class [OF derived_class.prems] split: option.splits)
qed

section \<open>What the checks establish\<close>

definition compatible :: "goText \<Rightarrow> program \<Rightarrow> nat \<Rightarrow> functionDecl \<Rightarrow> functionDecl \<Rightarrow> bool" where
  \<comment> \<open>the two signatures have the same text in the scope of the class\<close>
  "compatible go p c m b \<longleftrightarrow>
     (\<exists>p1 p2 p3 s. alike p p1 \<and> signature go m c p1 = Some (s, p2) \<and> signature go b c p2 = Some (s, p3))"

definition method_ok :: "goText \<Rightarrow> program \<Rightarrow> nat \<Rightarrow> functionDecl \<Rightarrow> bool" where
  "method_ok go p c m \<longleftrightarrow>
     (\<forall>b. base_method p c (fn_name m) = Some (Some b) \<longrightarrow>
        fn_override m \<and> fn_visibility b \<noteq> ''private'' \<and>
        visibilityRank (fn_visibility b) \<le> visibilityRank (fn_visibility m) \<and> compatible go p c m b)
     \<and> (base_method p c (fn_name m) = Some None \<longrightarrow> \<not> fn_override m)"

definition requirement_ok :: "goText \<Rightarrow> program \<Rightarrow> nat \<Rightarrow> nat \<Rightarrow> functionDecl \<Rightarrow> bool" where
  "requirement_ok go p c i req \<longleftrightarrow>
     (\<exists>m. class_method p c (fn_name req) = Some (Some m) \<and> fn_visibility m = ''public''
        \<and> (c_typeParams (class_at p i) = [] \<longrightarrow> compatible go p c m req))"

definition class_ok :: "goText \<Rightarrow> program \<Rightarrow> nat \<Rightarrow> bool" where
  "class_ok go p c \<longleftrightarrow>
     (\<forall>m \<in> set (c_methods (class_at p c)). method_ok go p c m) \<and>
     (\<forall>i \<in> set (c_interfaces (class_at p c)). \<forall>req \<in> set (c_methods (class_at p i)). requirement_ok go p c i req)"

text \<open>
  \<open>establishes p m Q\<close>: on every program like \<open>p\<close> the check returns, and when it accepts, the program
  is still like \<open>p\<close> and \<open>Q\<close> holds.
\<close>

definition establishes :: "program \<Rightarrow> (program \<Rightarrow> check) \<Rightarrow> bool \<Rightarrow> bool" where
  "establishes p m Q \<longleftrightarrow>
     (\<forall>p1. alike p p1 \<longrightarrow> (\<exists>r. m p1 = Some r \<and> (\<forall>p2. r = Inr p2 \<longrightarrow> alike p p2 \<and> Q)))"

lemma establishesI:
  "(\<And>p1. alike p p1 \<Longrightarrow> \<exists>r. m p1 = Some r \<and> (\<forall>p2. r = Inr p2 \<longrightarrow> alike p p2 \<and> Q)) \<Longrightarrow> establishes p m Q"
  by (simp add: establishes_def)

lemma establishes_then:
  assumes "establishes p m Q" "establishes p k R"
  shows "establishes p (\<lambda>p1. then_check (m p1) k) (Q \<and> R)"
proof (rule establishesI)
  fix p1 assume "alike p p1"
  with assms(1) obtain r where r: "m p1 = Some r" "\<forall>p2. r = Inr p2 \<longrightarrow> alike p p2 \<and> Q" by (auto simp: establishes_def)
  with assms(2) show "\<exists>r. then_check (m p1) k = Some r \<and> (\<forall>p2. r = Inr p2 \<longrightarrow> alike p p2 \<and> Q \<and> R)"
    by (cases r) (auto simp: then_check_def establishes_def)
qed

lemma establishes_each:
  "(\<And>x. x \<in> set xs \<Longrightarrow> establishes p (f x) (Q x)) \<Longrightarrow> establishes p (check_each f xs) (\<forall>x \<in> set xs. Q x)"
proof (induction xs)
  case (Cons x xs)
  have "establishes p (f x) (Q x)" "establishes p (check_each f xs) (\<forall>x \<in> set xs. Q x)" by (simp_all add: Cons)
  from establishes_then [OF this] show ?case by simp
qed (simp add: establishes_def)

lemma same_signature_returns:
  assumes "grounded p c" "alike p p1"
  obtains same p2 where "same_signature go m b c p1 = Some (same, p2)" "alike p p2" "same \<longrightarrow> compatible go p c m b"
proof -
  have g1: "grounded p1 c" by (rule grounded_parents [OF alike_class(1) [OF assms(2)] assms(1)])
  from signature_returns [OF this] obtain s1 p2 where 1: "signature go m c p1 = Some (s1, p2)" "same_classes p1 p2" by blast
  from signature_returns [OF grounded_parents [OF same_classes_parent [OF 1(2)] g1]]
  obtain s2 p3 where 2: "signature go b c p2 = Some (s2, p3)" "same_classes p2 p3" by blast
  show thesis
  proof (rule that)
    show "same_signature go m b c p1 = Some (s1 = s2, p3)" using 1 2 by (simp add: same_signature_def)
    show "alike p p3" using assms(2) 1(2) 2(2) by (meson alike_trans same_classes_alike)
    show "s1 = s2 \<longrightarrow> compatible go p c m b" using assms(2) 1(1) 2(1) by (auto simp: compatible_def)
  qed
qed

lemma base_method_returns: "grounded p c \<Longrightarrow> \<exists>b. base_method p c name = Some b"
  by (auto simp: base_method_def split: option.splits dest: grounded_parent intro: method_returns)

lemma base_method_alike: "grounded p c \<Longrightarrow> alike p p1 \<Longrightarrow> base_method p1 c name = base_method p c name"
  by (auto simp: base_method_def alike_class(1) [of p p1] intro: method_alike grounded_parent split: option.splits)

lemma check_method_establishes:
  assumes "grounded p c"
  shows "establishes p (check_method go c m) (method_ok go p c m)"
proof (rule establishesI)
  fix p1 assume p1: "alike p p1"
  obtain b where b: "base_method p c (fn_name m) = Some b" using base_method_returns [OF assms] by blast
  note b1 = base_method_alike [OF assms p1, of "fn_name m", unfolded b]
  show "\<exists>r. check_method go c m p1 = Some r \<and> (\<forall>p2. r = Inr p2 \<longrightarrow> alike p p2 \<and> method_ok go p c m)"
  proof (cases b)
    case None
    with b b1 p1 show ?thesis by (auto simp: check_method_def method_ok_def)
  next
    case (Some base)
    obtain same p2 where s: "same_signature go m base c p1 = Some (same, p2)" "alike p p2" "same \<longrightarrow> compatible go p c m base"
      by (rule same_signature_returns [OF assms p1])
    from Some b b1 s show ?thesis by (auto simp: check_method_def method_ok_def)
  qed
qed

lemma check_requirement_establishes:
  assumes "grounded p c"
  shows "establishes p (check_requirement go c i req) (requirement_ok go p c i req)"
proof (rule establishesI)
  fix p1 assume p1: "alike p p1"
  obtain b where b: "class_method p c (fn_name req) = Some b" using method_returns [OF assms] by blast
  note b1 = method_alike [OF assms p1, of "fn_name req", unfolded b]
  show "\<exists>r. check_requirement go c i req p1 = Some r \<and> (\<forall>p2. r = Inr p2 \<longrightarrow> alike p p2 \<and> requirement_ok go p c i req)"
  proof (cases b)
    case None
    with b1 show ?thesis by (simp add: check_requirement_def Let_def)
  next
    case (Some m)
    obtain same p2 where s: "same_signature go m req c p1 = Some (same, p2)" "alike p p2" "same \<longrightarrow> compatible go p c m req"
      by (rule same_signature_returns [OF assms p1])
    from Some b b1 s p1 show ?thesis
      by (auto simp: check_requirement_def requirement_ok_def Let_def alike_class [OF p1])
  qed
qed

lemma check_class_establishes:
  assumes "grounded p c"
  shows "establishes p (check_class go c) (class_ok go p c)"
proof (rule establishesI)
  fix p1 assume p1: "alike p p1"
  let ?ms = "c_methods (class_at p c)" and ?is = "c_interfaces (class_at p c)"
  have step: "establishes p (check_each (check_method go c) ?ms) (\<forall>m \<in> set ?ms. method_ok go p c m)"
    by (rule establishes_each, rule check_method_establishes [OF assms])
  have reqs: "establishes p (\<lambda>p1. check_each (check_requirement go c i) (c_methods (class_at p1 i)) p1)
      (\<forall>req \<in> set (c_methods (class_at p i)). requirement_ok go p c i req)" for i
    using establishes_each [of "c_methods (class_at p i)" p "check_requirement go c i", OF check_requirement_establishes [OF assms]]
    by (simp add: establishes_def alike_class [of p])
  have ifaces: "establishes p (\<lambda>p1. check_each (\<lambda>i p. check_each (check_requirement go c i) (c_methods (class_at p i)) p)
      (c_interfaces (class_at p1 c)) p1) (\<forall>i \<in> set ?is. \<forall>req \<in> set (c_methods (class_at p i)). requirement_ok go p c i req)"
    using establishes_each [of ?is p "\<lambda>i p. check_each (check_requirement go c i) (c_methods (class_at p i)) p", OF reqs]
    by (simp add: establishes_def alike_class [of p])
  have "alike p2 (add_constructor c p2)" for p2
    by (auto simp: add_constructor_def bare_def intro: alike_update alike_refl)
  then have last: "establishes p (\<lambda>p2. Some (Inr (add_constructor c p2))) True"
    by (auto simp: establishes_def intro: alike_trans)
  from establishes_then [OF step establishes_then [OF ifaces last]] p1
  show "\<exists>r. check_class go c p1 = Some r \<and> (\<forall>p2. r = Inr p2 \<longrightarrow> alike p p2 \<and> class_ok go p c)"
    by (simp add: establishes_def check_class_def class_ok_def alike_class [of p])
qed

section \<open>Resolved programs\<close>

text \<open>The parser leaves parents and interfaces open.\<close>

definition unresolved :: "program \<Rightarrow> bool" where
  "unresolved p \<longleftrightarrow> list_all (\<lambda>c. c_parent c = None) (p_classes p)"

definition same_names :: "program \<Rightarrow> program \<Rightarrow> bool" where
  "same_names p p' \<longleftrightarrow> p_ordered p' = p_ordered p \<and> p_files p' = p_files p \<and> (\<forall>c. c_name (class_at p' c) = c_name (class_at p c))"

lemma same_names_refl: "same_names p p"
  by (simp add: same_names_def)

lemma same_names_classes: "same_names p p' \<Longrightarrow> classes p' = classes p"
  by (simp add: same_names_def classes_def declarations_def)

lemma same_names_update:
  "same_names p p' \<Longrightarrow> (\<And>d. c_name (g d) = c_name d) \<Longrightarrow> same_names p (update_class c g p')"
  by (cases "c < length (p_classes p')") (auto simp: same_names_def update_class_def nth_list_update list_update_beyond)

lemma classNamed_class: "classNamed go p text f ns = Some q \<Longrightarrow> q \<in> ran (classes p)"
  by (auto simp: classNamed_def Let_def split: option.splits prod.splits if_splits list.splits intro: ranI)

text \<open>A program with some parents resolved, each to a class of the program.\<close>

definition resolving :: "program \<Rightarrow> program \<Rightarrow> bool" where
  "resolving p p' \<longleftrightarrow> same_names p p' \<and> (\<forall>c q. parent p' c = Some q \<longrightarrow> q \<in> ran (classes p))"

lemma resolving_update:
  assumes "resolving p p'" "\<And>d. c_name (g d) = c_name d"
    and "\<And>d q. c_parent (g d) = Some q \<Longrightarrow> c_parent d = Some q \<or> q \<in> ran (classes p)"
  shows "resolving p (update_class c g p')"
proof -
  have "q \<in> ran (classes p)" if "parent (update_class c g p') e = Some q" for e q
  proof (cases "e = c \<and> c < length (p_classes p')")
    case True
    with that have "c_parent (g (class_at p' c)) = Some q" by (simp add: parent_def update_class_def)
    with assms(3) assms(1) True show ?thesis by (auto simp: resolving_def parent_def split: if_splits)
  next
    case False
    with that have "parent p' e = Some q"
      by (auto simp: parent_def update_class_def nth_list_update list_update_beyond split: if_splits)
    with assms(1) show ?thesis by (simp add: resolving_def)
  qed
  with assms(1,2) show ?thesis by (auto simp: resolving_def intro: same_names_update)
qed

lemma resolve_parent_resolving:
  assumes "resolving p p1" "resolve_parent go ns f c p1 = Inr p2"
  shows "resolving p p2"
proof (cases "c_parentName (class_at p1 c) = []")
  case True
  with assms show ?thesis by (simp add: resolve_parent_def)
next
  case False
  with assms(2) obtain q where q: "classNamed go p1 (c_parentName (class_at p1 c)) f ns = Some q"
    and p2: "p2 = update_class c (\<lambda>d. d\<lparr>c_parent := Some q\<rparr>) p1"
    by (auto simp: resolve_parent_def Let_def split: option.splits if_splits sum.splits)
  from classNamed_class [OF q] assms(1) have "q \<in> ran (classes p)"
    by (simp add: resolving_def same_names_classes [of p p1])
  then show ?thesis unfolding p2 by (intro resolving_update [OF assms(1)]) auto
qed

lemma resolve_interfaces_resolving:
  "resolving p p1 \<Longrightarrow> resolve_interfaces go ns f c names p1 = Inr p2 \<Longrightarrow> resolving p p2"
proof (induction names arbitrary: p1)
  case (Cons name names)
  then obtain i where i: "resolve_interfaces go ns f c names
      (update_class c (\<lambda>d. d\<lparr>c_interfaces := c_interfaces d @ [i]\<rparr>) p1) = Inr p2"
    by (auto simp: Let_def split: option.splits if_splits)
  show ?case by (rule Cons.IH [OF _ i], rule resolving_update [OF Cons.prems(1)]) auto
qed simp

lemma resolve_classes_resolving:
  "resolving p p1 \<Longrightarrow> resolve_classes go ds seen p1 = Inr p2 \<Longrightarrow> resolving p p2"
proof (induction ds arbitrary: seen p1)
  case (Cons d ds)
  obtain n f c where d: "d = (n, f, c)" by (cases d)
  from Cons.prems(2) d obtain p3 where p3: "resolve_class go d seen p1 = Inr p3"
    and rest: "resolve_classes go ds (class_key (nm_name n) (c_name (class_at p1 c)) # seen) p3 = Inr p2"
    by (auto split: sum.splits)
  from p3 d obtain p4 where "resolve_parent go (nm_name n) f c p1 = Inr p4"
    "resolve_interfaces go (nm_name n) f c (c_interfaceNames (class_at p4 c)) p4 = Inr p3"
    by (auto simp: resolve_class_def Let_def split: if_splits sum.splits)
  then have "resolving p p3" using Cons.prems(1) resolve_parent_resolving resolve_interfaces_resolving by blast
  with rest Cons.IH show ?case by blast
qed simp

lemma in_cycle_grounded: "\<not> in_cycle p seen a \<Longrightarrow> grounded p a"
proof (induction p seen a rule: in_cycle.induct)
  case (1 p seen a)
  from 1(2) have a: "a \<notin> set seen" by (subst (asm) in_cycle.simps) auto
  show ?case
  proof (cases "parent p a")
    case (Some q)
    with 1(2) a have "\<not> in_cycle p (a # seen) q" by (subst (asm) in_cycle.simps) simp
    with 1(1) [OF a Some] Some show ?thesis by (blast intro: derived_class)
  qed (rule root_class)
qed

lemma class_ok_alike:
  assumes "grounded p c" "alike p p'" "class_ok go p c"
  shows "class_ok go p' c"
proof -
  have comp: "compatible go p c m b \<Longrightarrow> compatible go p' c m b" for m b
    unfolding compatible_def by (meson assms(2) alike_sym alike_trans)
  note same = alike_class [OF assms(2)] method_alike [OF assms(1,2)] base_method_alike [OF assms(1,2)]
  from assms(3) comp show ?thesis
    by (auto simp: class_ok_def method_ok_def requirement_ok_def same) blast+
qed

text \<open>An accepted program: its classes have ends of parents and passed their checks.\<close>

definition prepared :: "goText \<Rightarrow> program \<Rightarrow> nat set \<Rightarrow> bool" where
  "prepared go p cs \<longleftrightarrow>
     (\<forall>c \<in> cs. grounded p c \<and> class_ok go p c \<and> (\<forall>q. parent p c = Some q \<longrightarrow> q \<in> cs))"

lemma prepareClasses_prepared:
  assumes "unresolved p" "set order1 = ran (classes p)" "set order2 = ran (classes p)"
  shows "\<exists>r. prepareClasses go order1 order2 p = Some r \<and> (\<forall>p'. r = Inr p' \<longrightarrow> prepared go p' (ran (classes p)))"
proof (cases "resolve_classes go (declarations p) [] p")
  case (Inl e)
  then show ?thesis by (simp add: prepareClasses_def)
next
  case (Inr p1)
  have "parent p c = None" for c using assms(1) by (auto simp: unresolved_def parent_def list_all_length)
  then have "resolving p p" by (simp add: resolving_def same_names_refl)
  from resolve_classes_resolving [OF this Inr] have res: "resolving p p1" .
  show ?thesis
  proof (cases "find (in_cycle p1 []) order1")
    case (Some c)
    with Inr show ?thesis by (simp add: prepareClasses_def)
  next
    case None
    then have gr: "grounded p1 c" if "c \<in> ran (classes p)" for c
      using that assms(2) by (auto simp: find_None_iff intro: in_cycle_grounded)
    have "establishes p1 (check_each (check_class go) order2) (\<forall>c \<in> set order2. class_ok go p1 c)"
      using gr assms(3) by (intro establishes_each check_class_establishes) simp
    then obtain r where r: "check_each (check_class go) order2 p1 = Some r"
      "\<forall>p'. r = Inr p' \<longrightarrow> alike p1 p' \<and> (\<forall>c \<in> ran (classes p). class_ok go p1 c)"
      using alike_refl [of p1] assms(3) unfolding establishes_def by blast
    have "prepared go p' (ran (classes p))" if "r = Inr p'" for p'
    proof -
      from r(2) that have p': "alike p1 p'" and ok: "\<forall>c \<in> ran (classes p). class_ok go p1 c" by auto
      note par = alike_class(1) [OF p']
      from gr ok res show ?thesis
        by (auto simp: prepared_def par resolving_def intro: grounded_parents [OF par] class_ok_alike [OF _ p'])
    qed
    with r(1) Inr None show ?thesis by (simp add: prepareClasses_def)
  qed
qed

lemma prepared_method:
  assumes "ancestor p c a" "prepared go p cs" "c \<in> cs" "class_method p a name = Some (Some m)"
  shows "\<exists>m'. class_method p c name = Some (Some m') \<and> visibilityRank (fn_visibility m) \<le> visibilityRank (fn_visibility m')
    \<and> (m' = m \<or> fn_override m' \<and> fn_visibility m \<noteq> ''private'')"
  using assms
proof (induction rule: ancestor.induct)
  case (above c q a)
  from above.prems have c: "class_ok go p c" and q: "q \<in> cs" using above.hyps(1) by (auto simp: prepared_def)
  from above.IH [OF above.prems(1) q above.prems(3)] obtain b where
    b: "class_method p q name = Some (Some b)" "visibilityRank (fn_visibility m) \<le> visibilityRank (fn_visibility b)"
      "b = m \<or> fn_override b \<and> fn_visibility m \<noteq> ''private''" by blast
  show ?case
  proof (cases "find (\<lambda>m. fn_name m = name) (c_methods (class_at p c))")
    case None
    with b above.hyps(1) show ?thesis by (simp add: class_method.simps [of p c])
  next
    case (Some m')
    then have m': "m' \<in> set (c_methods (class_at p c))" "fn_name m' = name" by (auto simp: find_Some_iff)
    with c have "method_ok go p c m'" by (simp add: class_ok_def)
    with m'(2) b above.hyps(1) Some show ?thesis
      by (auto simp: method_ok_def base_method_def class_method.simps [of p c])
  qed
qed auto

section \<open>Two classes\<close>

text \<open>A class \<open>m.B\<close> that extends \<open>m.A\<close> and overrides its method; types are single names.\<close>

definition w_go :: goText where
  "w_go = \<lparr>parse_expr = (\<lambda>s. Inr (Ident 0 s)), expressionText = (\<lambda>e. case e of Ident q n \<Rightarrow> n | _ \<Rightarrow> [])\<rparr>"

definition w_run :: "bool \<Rightarrow> nat \<Rightarrow> functionDecl" where
  "w_run over owner =
     \<lparr>fn_name = ''run'', fn_pos = ''m.ghi:2'', fn_params = [Field [(0, ''x'')] (Ident 0 ''int'')], fn_results = None,
      fn_visibility = (if over then ''public'' else ''protected''), fn_override = over, fn_owner = owner\<rparr>"

definition w_class :: "string \<Rightarrow> string \<Rightarrow> functionDecl \<Rightarrow> classDecl" where
  "w_class name base m =
     \<lparr>c_name = name, c_line = 1, c_typeParams = [], c_parentName = base, c_interfaceNames = [], c_interface = False,
      c_fields = [], c_methods = [m], c_constructor = None, c_file = 0, c_namespace = ''m'', c_parent = None, c_interfaces = []\<rparr>"

definition w_program :: program where
  "w_program =
     \<lparr>p_ordered = [\<lparr>nm_name = ''m'', nm_goName = ''m'', nm_files = [0]\<rparr>],
      p_files = [\<lparr>ft_path = ''m.ghi'', ft_imports = [], ft_types = [], ft_classes = [0, 1]\<rparr>],
      p_classes = [w_class ''A'' [] (w_run False 0), w_class ''B'' ''A'' (w_run True 1)]\<rparr>"

definition w_prepared :: program where
  "w_prepared = w_program\<lparr>p_classes :=
     [(w_class ''A'' [] (w_run False 0))\<lparr>c_constructor := Some (emptyConstructor 0)\<rparr>,
      (w_class ''B'' ''A'' (w_run True 1))\<lparr>c_parent := Some 0, c_constructor := Some (emptyConstructor 1)\<rparr>]\<rparr>"

lemma w_classes: "set [1, 0] = ran (classes w_program)"
proof -
  have "classes w_program = [''m.A'' \<mapsto> 0, ''m.B'' \<mapsto> 1]"
    by (simp add: classes_def declarations_def w_program_def class_key_def w_class_def)
  then show ?thesis by simp
qed

lemma w_unresolved: "unresolved w_program"
  by (simp add: unresolved_def w_program_def w_class_def)

lemma w_accepted: "prepareClasses w_go [1, 0] [1, 0] w_program = Some (Inr w_prepared)"
  by code_simp

section \<open>Accepted programs\<close>

text \<open>
  C9: \<open>prepareClasses\<close> returns for every program, whatever the order in which it ranges over the
  classes, and in an accepted program the parents of every class end: no class is its own ancestor.
\<close>

theorem prepareClasses_returns:
  assumes "unresolved p" "set order1 = ran (classes p)" "set order2 = ran (classes p)"
  shows "\<exists>r. prepareClasses go order1 order2 p = Some r \<and>
    (\<forall>p' c. r = Inr p' \<longrightarrow> c \<in> ran (classes p) \<longrightarrow> grounded p' c)"
  using prepareClasses_prepared [OF assms, of go] by (auto simp: prepared_def)

theorem prepareClasses_returns_witness: "grounded w_prepared 1"
  using prepareClasses_returns [OF w_unresolved w_classes w_classes, of w_go, unfolded w_accepted]
  by (auto simp flip: w_classes)



text \<open>
  C37: The methods emitted for a class of an accepted program are exactly those that its lookups find,
  each name once, when no class declares two methods of one name.
\<close>

theorem prepareClasses_methods:
  assumes "unresolved p" "set order1 = ran (classes p)" "set order2 = ran (classes p)"
    and "prepareClasses go order1 order2 p = Some (Inr p')" "c \<in> ran (classes p)"
    and "\<And>a. ancestor p' c a \<Longrightarrow> distinct (map fn_name (c_methods (class_at p' a)))"
  shows "\<exists>ms. allMethods p' c = Some ms \<and> distinct (map fn_name ms) \<and>
    (\<forall>n. class_method p' c n = Some (find (\<lambda>m. fn_name m = n) ms))"
proof -
  from prepareClasses_prepared [OF assms(1-3), of go] assms(4,5) have "grounded p' c" by (fastforce simp: prepared_def)
  then show ?thesis by (rule allMethods_lookups) (rule assms(6))
qed

theorem prepareClasses_methods_witness:
  "\<exists>ms. allMethods w_prepared 1 = Some ms \<and> distinct (map fn_name ms) \<and>
    class_method w_prepared 1 ''run'' = Some (find (\<lambda>m. fn_name m = ''run'') ms)"
proof -
  have one: "1 \<in> ran (classes w_program)" by (simp flip: w_classes)
  have "distinct (map fn_name (c_methods (class_at w_prepared a)))" if "ancestor w_prepared 1 a" for a
  proof -
    have "a \<in> {0, 1}" if "ancestor w_prepared c a" "c \<in> {0, 1}" for c using that
      by (induction rule: ancestor.induct) (auto simp: parent_def w_prepared_def w_program_def w_class_def split: if_splits)
    from this [OF that] show ?thesis by (auto simp: w_prepared_def w_class_def)
  qed
  from prepareClasses_methods [OF w_unresolved w_classes w_classes w_accepted one this] show ?thesis by blast
qed

end
