(* ===== verification/ConstructorFlow.thy ===== *)
theory ConstructorFlow
  imports GoAst
begin

text \<open>
  The definite-initialization check of constructors (\<open>internal/compiler/construction.go\<close> and
  \<open>construction_flow.go\<close>). The check follows every path of a constructor body with the set of
  fields that are certainly assigned on it. A path ends in an exit: the set and how it leaves.

  \<open>c.err\<close> keeps the first rejection only; the functions here return all rejections in the order
  in which the code makes them, and \<open>check_error\<close> takes the first. The Go maps of initialized
  fields hold no false values, so a map is the set of its keys. The code shares a map between an
  exit and the state it came from only where it does not write to it again (each branch works on
  a clone), so sets passed by value are the same.
\<close>

section \<open>State\<close>

type_synonym initializedFields = "string set"

definition intersectFields :: "initializedFields \<Rightarrow> initializedFields \<Rightarrow> initializedFields" where
  "intersectFields a b = a \<inter> b"

abbreviation (input) "constructorThrow \<equiv> (-1 :: token)"

record constructorExit =
  x_state :: initializedFields
  x_flow :: token

abbreviation exit :: "initializedFields \<Rightarrow> token \<Rightarrow> constructorExit" where
  "exit s f \<equiv> \<lparr>x_state = s, x_flow = f\<rparr>"

text \<open>A rejection: the position of the node and the message.\<close>

type_synonym rejection = "nat \<times> string"

text \<open>
  What the check knows of the class: whether it has a field of a name (\<open>c.class.field\<close>) and the
  required names, with \<open>@parent\<close> for the call of the parent constructor.
\<close>

record constructorCheck =
  cc_name :: string
  cc_pos :: nat
  cc_field :: "string \<Rightarrow> bool"
  cc_required :: "string list"

definition check_error :: "rejection list \<Rightarrow> rejection option" where
  "check_error rs = (case rs of [] \<Rightarrow> None | r # _ \<Rightarrow> Some r)"

section \<open>Reads\<close>

fun thisField :: "expr \<Rightarrow> string option" where
  "thisField (SelectorExpr (Ident p x) q name) = (if x = ''this'' then Some name else None)"
| "thisField _ = None"

definition read_visit :: "constructorCheck \<Rightarrow> initializedFields \<Rightarrow> node \<Rightarrow> rejection list \<times> bool" where
  "read_visit c state n =
     (case n of
        NE (SelectorExpr (Ident p x) q name) \<Rightarrow>
          if x = ''this'' then
            ((if \<not> cc_field c name
              then [(p, ''virtual methods cannot be called or captured during construction'')] else [])
             @ (if name \<in> set (cc_required c) \<and> name \<notin> state
                then [(p, ''field '' @ name @ '' is read before initialization'')] else []), False)
          else if x = ''parent'' then
            ([(p, ''parent methods cannot be called during construction'')], False)
          else ([], True)
      | NE (Ident p x) \<Rightarrow>
          ((if x = ''this''
            then [(p, ''this cannot escape during construction; pass initialized fields instead'')]
            else []), True)
      | _ \<Rightarrow> ([], True))"

definition read :: "constructorCheck \<Rightarrow> expr \<Rightarrow> initializedFields \<Rightarrow> rejection list" where
  "read c e state = inspect (read_visit c state) (NE e)"

definition read_opt :: "constructorCheck \<Rightarrow> expr option \<Rightarrow> initializedFields \<Rightarrow> rejection list" where
  "read_opt c e state = (case e of None \<Rightarrow> [] | Some x \<Rightarrow> read c x state)"

definition reads :: "constructorCheck \<Rightarrow> expr list \<Rightarrow> initializedFields \<Rightarrow> rejection list" where
  "reads c es state = concat (map (\<lambda>e. read c e state) es)"

text \<open>The default case of \<open>step\<close>: every outermost expression below the statement is a read.\<close>

definition read_stmt :: "constructorCheck \<Rightarrow> stmt \<Rightarrow> initializedFields \<Rightarrow> rejection list" where
  "read_stmt c s state =
     inspect (\<lambda>n. case n of NE e \<Rightarrow> (read c e state, False) | _ \<Rightarrow> ([], True)) (NS s)"

section \<open>Paths\<close>

fun merge_insert :: "constructorExit \<Rightarrow> constructorExit list \<Rightarrow> constructorExit list" where
  "merge_insert e [] = [e]"
| "merge_insert e (p # ps) =
     (if x_flow p = x_flow e
      then p\<lparr>x_state := intersectFields (x_state p) (x_state e)\<rparr> # ps
      else p # merge_insert e ps)"

definition mergeConstructorExits :: "constructorExit list \<Rightarrow> constructorExit list" where
  "mergeConstructorExits exits = foldl (\<lambda>result e. merge_insert e result) [] exits"

text \<open>The assignment targets: a plain assignment to a field of this initializes it.\<close>

fun assign_targets ::
  "constructorCheck \<Rightarrow> token \<Rightarrow> expr list \<Rightarrow> initializedFields \<Rightarrow> initializedFields \<times> rejection list" where
  "assign_targets c tok [] state = (state, [])"
| "assign_targets c tok (l # ls) state =
     (case thisField l of
        Some name \<Rightarrow>
          if tok = ASSIGN then assign_targets c tok ls (insert name state)
          else (let (state', m) = assign_targets c tok ls state in (state', read c l state @ m))
      | None \<Rightarrow>
          (let (state', m) = assign_targets c tok ls state in (state', read c l state @ m)))"

text \<open>A loop that appends the exits of each element to the output.\<close>

definition flat :: "('a \<Rightarrow> 'b list \<times> 'm list) \<Rightarrow> 'a list \<Rightarrow> 'b list \<times> 'm list" where
  "flat f xs = (concat (map (fst \<circ> f) xs), concat (map (snd \<circ> f) xs))"

lemma flat_cong [fundef_cong]:
  "xs = ys \<Longrightarrow> (\<And>x. x \<in> set ys \<Longrightarrow> f x = g x) \<Longrightarrow> flat f xs = flat g ys"
  by (simp add: flat_def cong: map_cong)

definition endless :: "expr option \<Rightarrow> bool" where
  "endless cond = (case cond of None \<Rightarrow> True | Some (Ident p n) \<Rightarrow> n = ''true'' | _ \<Rightarrow> False)"

text \<open>How the exits of a case clause leave the switch, and which fall into the next clause.\<close>

definition clause_out :: "constructorExit list \<Rightarrow> constructorExit list" where
  "clause_out exits =
     map (\<lambda>e. if x_flow e = BREAK then e\<lparr>x_flow := ILLEGAL\<rparr> else e)
       (filter (\<lambda>e. x_flow e \<noteq> FALLTHROUGH) exits)"

definition clause_fallen :: "constructorExit list \<Rightarrow> constructorExit list" where
  "clause_fallen exits =
     map (\<lambda>e. e\<lparr>x_flow := ILLEGAL\<rparr>) (filter (\<lambda>e. x_flow e = FALLTHROUGH) exits)"

definition has_default :: "stmt list \<Rightarrow> bool" where
  "has_default body = list_ex (\<lambda>s. case s of CaseClause None b \<Rightarrow> True | _ \<Rightarrow> False) body"

definition panicked :: "rejection list" where
  \<comment> \<open>a failed type assertion or index of the code, on a tree that the parser does not build\<close>
  "panicked = [(0, ''panic'')]"

function (sequential)
  paths :: "constructorCheck \<Rightarrow> stmt list \<Rightarrow> constructorExit list \<Rightarrow> constructorExit list \<times> rejection list"
  and step :: "constructorCheck \<Rightarrow> stmt \<Rightarrow> initializedFields \<Rightarrow> constructorExit list \<times> rejection list"
  and step_opt :: "constructorCheck \<Rightarrow> stmt option \<Rightarrow> initializedFields \<Rightarrow> constructorExit list \<times> rejection list"
  and clauses :: "constructorCheck \<Rightarrow> stmt list \<Rightarrow> initializedFields \<Rightarrow> constructorExit list \<Rightarrow> constructorExit list \<times> rejection list"
  and tryPaths :: "constructorCheck \<Rightarrow> expr list \<Rightarrow> initializedFields \<Rightarrow> constructorExit list \<times> rejection list"
where
  "paths c [] exits = (exits, [])"
| "paths c (s # ss) exits =
     (let (next, m1) = flat (\<lambda>e. if x_flow e \<noteq> ILLEGAL then ([e], []) else step c s (x_state e)) exits;
          (out, m2) = paths c ss (mergeConstructorExits next)
      in (out, m1 @ m2))"
| "step_opt c None state = ([exit state ILLEGAL], [])"
| "step_opt c (Some s) state = step c s state"
| "step c (AssignStmt lhs tok rhs) state =
     (let (state', m) = assign_targets c tok lhs state
      in ([exit state' ILLEGAL], reads c rhs state @ m))"
| "step c (ExprStmt x) state =
     (if callNamed x ''parent'' \<noteq> None then ([exit (insert ''@parent'' state) ILLEGAL], read c x state)
      else (case callNamed x ''GhiTry'' of
              Some args \<Rightarrow> tryPaths c args state
            | None \<Rightarrow>
                if callNamed x ''GhiThrow'' \<noteq> None then ([exit state constructorThrow], read c x state)
                else ([exit state ILLEGAL], read c x state)))"
| "step c (ReturnStmt p es) state = ([exit state RETURN], reads c es state)"
| "step c (BranchStmt p tok label) state =
     ([exit state tok],
      if label \<noteq> None \<or> tok = GOTO
      then [(p, ''labelled jumps are not supported during construction'')] else [])"
| "step c (BlockStmt b) state = paths c b [exit state ILLEGAL]"
| "step c (IfStmt init cond body els) state =
     (let (entries, m0) = step_opt c init state;
          (output, m1) = flat (\<lambda>entry.
             if x_flow entry \<noteq> ILLEGAL then ([entry], [])
             else
               let (a, ma) = paths c body [exit (x_state entry) ILLEGAL];
                   (b, mb) = step_opt c els (x_state entry)
               in (a @ b, read c cond (x_state entry) @ ma @ mb)) entries
      in (mergeConstructorExits output, m0 @ m1))"
| "step c (ForStmt init cond post body) state =
     (let (entries, m0) = step_opt c init state;
          (output, m1) = flat (\<lambda>entry.
             if x_flow entry \<noteq> ILLEGAL then ([entry], [])
             else
               let (ex, mb) = paths c body [exit (x_state entry) ILLEGAL];
                   (out, mp) = flat (\<lambda>e.
                      if x_flow e = BREAK then ([e\<lparr>x_flow := ILLEGAL\<rparr>], [])
                      else if x_flow e = ILLEGAL \<or> x_flow e = CONTINUE
                      then ([], snd (step_opt c post (x_state e)))
                      else ([e], [])) ex
               in ((if endless cond then [] else [exit (x_state entry) ILLEGAL]) @ out,
                   read_opt c cond (x_state entry) @ mb @ mp)) entries
      in (mergeConstructorExits output, m0 @ m1))"
| "step c (RangeStmt key val tok x body) state =
     (let (ex, mb) = paths c body [exit state ILLEGAL]
      in (mergeConstructorExits
            (exit state ILLEGAL # filter (\<lambda>e. x_flow e = RETURN \<or> x_flow e = constructorThrow) ex),
          read c x state @ mb))"
| "step c (SwitchStmt init tag body) state =
     (let (entries, m0) = step_opt c init state;
          (output, m1) = flat (\<lambda>entry.
             if x_flow entry \<noteq> ILLEGAL then ([entry], [])
             else
               let (out, m) = clauses c body (x_state entry) []
               in (out @ (if has_default body then [] else [entry]),
                   read_opt c tag (x_state entry) @ m)) entries
      in (mergeConstructorExits output, m0 @ m1))"
| "step c (DeclStmt tok specs) state =
     ([exit state ILLEGAL],
      concat (map (\<lambda>sp. case sp of ValueSpec ns t vs \<Rightarrow> reads c vs state | _ \<Rightarrow> []) specs))"
| "step c s state = ([exit state ILLEGAL], read_stmt c s state)"
| "clauses c [] state fallen = ([], [])"
| "clauses c (CaseClause l b # rest) state fallen =
     (let (ex, mb) = paths c b (mergeConstructorExits (exit state ILLEGAL # fallen));
          (out, m) = clauses c rest state (clause_fallen ex)
      in (clause_out ex @ out, reads c (concat (opt_list l)) state @ mb @ m))"
| "clauses c (s # rest) state fallen = ([], panicked)"
| "tryPaths c (body # handler # finalizer # rest) state =
     (case funcLitBody body of
        None \<Rightarrow> ([], panicked)
      | Some b \<Rightarrow>
          let (ex, m1) = paths c b [exit state ILLEGAL];
              (exits, m2) =
                (case funcLitBody handler of
                   Some h \<Rightarrow>
                     (let (hx, mh) = paths c h [exit state ILLEGAL]
                      in (mergeConstructorExits (filter (\<lambda>e. x_flow e \<noteq> constructorThrow) ex @ hx), mh))
                 | None \<Rightarrow>
                     (if funcLitBody finalizer \<noteq> None
                      then (ex @ [exit state constructorThrow], []) else (ex, [])))
          in (case funcLitBody finalizer of
                None \<Rightarrow> (exits, m1 @ m2)
              | Some fin \<Rightarrow>
                  let (output, m3) = flat (\<lambda>pending.
                         let (fx, mf) = paths c fin [exit (x_state pending) ILLEGAL]
                         in (map (\<lambda>e. if x_flow e = ILLEGAL then e\<lparr>x_flow := x_flow pending\<rparr> else e) fx, mf))
                         exits
                  in (mergeConstructorExits output, m1 @ m2 @ m3)))"
| "tryPaths c args state = ([], panicked)"
  by pat_completeness auto

termination
  by (lexicographic_order simp: ast_size)

section \<open>The check of a class\<close>

text \<open>
  \<open>complete\<close> reports the required fields that an exit leaves unassigned. The code ranges over a
  Go map; the order of \<open>cc_required\<close> stands for the order of that range.
\<close>

definition complete :: "constructorCheck \<Rightarrow> initializedFields \<Rightarrow> rejection list" where
  "complete c state =
     concat (map (\<lambda>name.
       if name \<in> state then []
       else if name = ''@parent''
       then [(cc_pos c, ''parent constructor must run on every normal exit'')]
       else [(cc_pos c, ''nonnullable field '' @ name @ '' is not initialized on every normal exit'')])
       (cc_required c))"

definition validateConstructor :: "constructorCheck \<Rightarrow> stmt list \<Rightarrow> rejection option" where
  "validateConstructor c body =
     (let (exits, ms) = paths c body [exit {} ILLEGAL]
      in check_error (ms @ concat (map (\<lambda>e.
           if x_flow e = ILLEGAL \<or> x_flow e = RETURN then complete c (x_state e) else []) exits)))"

end
