(* ===== verification/ConstructorRuns.thy ===== *)
theory ConstructorRuns
  imports ConstructorFlow
begin

text \<open>
  What the constructor check is about: \<open>exec\<close> runs a constructor body: a run carries the set of
  fields assigned so far, chooses any branch of a condition and any number of iterations of a
  loop, may throw while it evaluates an expression, and ends \<open>Bad\<close> when it evaluates an expression
  that mentions a required field not yet assigned. It is the behaviour the check approximates; it
  is no part of the compiler. \<open>structured_body\<close> names the bodies for which the check is sound.
\<close>

section \<open>Runs of a constructor body\<close>

datatype outcome = Bad | Done initializedFields token

definition this_fields :: "node \<Rightarrow> string list" where
  "this_fields n =
     inspect (\<lambda>m. (case m of NE e \<Rightarrow> opt_list (thisField e) | _ \<Rightarrow> [], True)) n"

definition missing :: "constructorCheck \<Rightarrow> initializedFields \<Rightarrow> node list \<Rightarrow> bool" where
  "missing c st ns \<longleftrightarrow>
     (\<exists>n \<in> set ns. \<exists>f \<in> set (this_fields n). f \<in> set (cc_required c) \<and> f \<notin> st)"

definition assigned :: "token \<Rightarrow> expr list \<Rightarrow> string set" where
  "assigned tok lhs = (if tok = ASSIGN then {f. \<exists>l \<in> set lhs. thisField l = Some f} else {})"

text \<open>The operands that an assignment evaluates before it assigns.\<close>

definition operands :: "expr list \<Rightarrow> token \<Rightarrow> expr list \<Rightarrow> node list" where
  "operands lhs tok rhs =
     exprs_nodes rhs @ exprs_nodes (filter (\<lambda>l. \<not> (tok = ASSIGN \<and> thisField l \<noteq> None)) lhs)"

definition spec_values :: "spec list \<Rightarrow> node list" where
  "spec_values specs = concat (map (\<lambda>sp. case sp of ValueSpec ns t vs \<Rightarrow> exprs_nodes vs | _ \<Rightarrow> []) specs)"

definition candidates :: "stmt list \<Rightarrow> node list" where
  "candidates body =
     concat (map (\<lambda>s. case s of CaseClause (Some l) b \<Rightarrow> exprs_nodes l | _ \<Rightarrow> []) body)"

text \<open>How a run ends, \<^const>\<open>None\<close> for a bad one.\<close>

definition flow :: "outcome \<Rightarrow> token option" where
  "flow r = (case r of Bad \<Rightarrow> None | Done st f \<Rightarrow> Some f)"

definition unbreak :: "outcome \<Rightarrow> outcome" where
  "unbreak r = (case r of Done st f \<Rightarrow> if f = BREAK then Done st ILLEGAL else r | Bad \<Rightarrow> Bad)"

definition resume :: "token \<Rightarrow> outcome \<Rightarrow> outcome" where
  \<comment> \<open>a finalizer that completes lets the pending end go on\<close>
  "resume f r = (case r of Done st g \<Rightarrow> if g = ILLEGAL then Done st f else r | Bad \<Rightarrow> Bad)"

fun simple_stmt :: "stmt \<Rightarrow> bool" where
  "simple_stmt BadStmt = True"
| "simple_stmt EmptyStmt = True"
| "simple_stmt (SendStmt a b) = True"
| "simple_stmt (IncDecStmt e t) = True"
| "simple_stmt (GoStmt e) = True"
| "simple_stmt (DeferStmt e) = True"
| "simple_stmt _ = False"

inductive
  exec :: "constructorCheck \<Rightarrow> stmt \<Rightarrow> initializedFields \<Rightarrow> outcome \<Rightarrow> bool"
  and execs :: "constructorCheck \<Rightarrow> stmt list \<Rightarrow> initializedFields \<Rightarrow> outcome \<Rightarrow> bool"
  and exec_opt :: "constructorCheck \<Rightarrow> stmt option \<Rightarrow> initializedFields \<Rightarrow> outcome \<Rightarrow> bool"
  and exec_for :: "constructorCheck \<Rightarrow> expr option \<Rightarrow> stmt option \<Rightarrow> stmt list \<Rightarrow> initializedFields \<Rightarrow> outcome \<Rightarrow> bool"
  and exec_range :: "constructorCheck \<Rightarrow> stmt list \<Rightarrow> initializedFields \<Rightarrow> outcome \<Rightarrow> bool"
  and exec_clauses :: "constructorCheck \<Rightarrow> stmt list \<Rightarrow> initializedFields \<Rightarrow> outcome \<Rightarrow> bool"
  for c
where
  execs_nil: "execs c [] st (Done st ILLEGAL)"
| execs_stop: "exec c s st r \<Longrightarrow> flow r \<noteq> Some ILLEGAL \<Longrightarrow> execs c (s # ss) st r"
| execs_cons: "exec c s st (Done st1 ILLEGAL) \<Longrightarrow> execs c ss st1 r \<Longrightarrow> execs c (s # ss) st r"
| opt_none: "exec_opt c None st (Done st ILLEGAL)"
| opt_some: "exec c s st r \<Longrightarrow> exec_opt c (Some s) st r"
| assign_bad: "missing c st (operands lhs tok rhs) \<Longrightarrow> exec c (AssignStmt lhs tok rhs) st Bad"
| assign_throw: "done \<subseteq> assigned tok lhs \<Longrightarrow>
    exec c (AssignStmt lhs tok rhs) st (Done (st \<union> done) constructorThrow)"
| assign_done: "exec c (AssignStmt lhs tok rhs) st (Done (st \<union> assigned tok lhs) ILLEGAL)"
| expr_bad: "callNamed x ''GhiTry'' = None \<Longrightarrow> missing c st [NE x] \<Longrightarrow> exec c (ExprStmt x) st Bad"
| expr_throw: "callNamed x ''GhiTry'' = None \<Longrightarrow> exec c (ExprStmt x) st (Done st constructorThrow)"
| expr_parent: "callNamed x ''parent'' \<noteq> None \<Longrightarrow>
    exec c (ExprStmt x) st (Done (insert ''@parent'' st) ILLEGAL)"
| expr_done: "callNamed x ''parent'' = None \<Longrightarrow> callNamed x ''GhiTry'' = None \<Longrightarrow>
    callNamed x ''GhiThrow'' = None \<Longrightarrow> exec c (ExprStmt x) st (Done st ILLEGAL)"
| simple_bad: "simple_stmt s \<Longrightarrow> missing c st [NS s] \<Longrightarrow> exec c s st Bad"
| simple_throw: "simple_stmt s \<Longrightarrow> exec c s st (Done st constructorThrow)"
| simple_done: "simple_stmt s \<Longrightarrow> exec c s st (Done st ILLEGAL)"
| decl_bad: "missing c st (spec_values specs) \<Longrightarrow> exec c (DeclStmt tok specs) st Bad"
| decl_throw: "exec c (DeclStmt tok specs) st (Done st constructorThrow)"
| decl_done: "exec c (DeclStmt tok specs) st (Done st ILLEGAL)"
| return_bad: "missing c st (exprs_nodes es) \<Longrightarrow> exec c (ReturnStmt p es) st Bad"
| return_throw: "exec c (ReturnStmt p es) st (Done st constructorThrow)"
| return_done: "exec c (ReturnStmt p es) st (Done st RETURN)"
| branch: "tok \<in> {BREAK, CONTINUE, FALLTHROUGH} \<Longrightarrow> exec c (BranchStmt p tok None) st (Done st tok)"
| block: "execs c b st r \<Longrightarrow> exec c (BlockStmt b) st r"
| labeled: "exec c s st r \<Longrightarrow> exec c (LabeledStmt l s) st r"
| if_init: "exec_opt c init st r \<Longrightarrow> flow r \<noteq> Some ILLEGAL \<Longrightarrow> exec c (IfStmt init cond body els) st r"
| if_bad: "exec_opt c init st (Done st1 ILLEGAL) \<Longrightarrow> missing c st1 [NE cond] \<Longrightarrow>
    exec c (IfStmt init cond body els) st Bad"
| if_throw: "exec_opt c init st (Done st1 ILLEGAL) \<Longrightarrow>
    exec c (IfStmt init cond body els) st (Done st1 constructorThrow)"
| if_true: "exec_opt c init st (Done st1 ILLEGAL) \<Longrightarrow> execs c body st1 r \<Longrightarrow>
    exec c (IfStmt init cond body els) st r"
| if_false: "exec_opt c init st (Done st1 ILLEGAL) \<Longrightarrow> exec_opt c els st1 r \<Longrightarrow>
    exec c (IfStmt init cond body els) st r"
| for_init: "exec_opt c init st r \<Longrightarrow> flow r \<noteq> Some ILLEGAL \<Longrightarrow> exec c (ForStmt init cond post body) st r"
| for_loop: "exec_opt c init st (Done st1 ILLEGAL) \<Longrightarrow> exec_for c cond post body st1 r \<Longrightarrow>
    exec c (ForStmt init cond post body) st r"
| loop_bad: "missing c st (exprs_nodes (opt_list cond)) \<Longrightarrow> exec_for c cond post body st Bad"
| loop_throw: "exec_for c cond post body st (Done st constructorThrow)"
| loop_end: "\<not> endless cond \<Longrightarrow> exec_for c cond post body st (Done st ILLEGAL)"
| loop_break: "execs c body st (Done st1 BREAK) \<Longrightarrow> exec_for c cond post body st (Done st1 ILLEGAL)"
| loop_out: "execs c body st r \<Longrightarrow> flow r \<in> {None, Some RETURN, Some constructorThrow} \<Longrightarrow> exec_for c cond post body st r"
| loop_post: "execs c body st (Done st1 f) \<Longrightarrow> f \<in> {ILLEGAL, CONTINUE} \<Longrightarrow> exec_opt c post st1 r \<Longrightarrow>
    flow r \<in> {None, Some constructorThrow} \<Longrightarrow> exec_for c cond post body st r"
| loop_next: "execs c body st (Done st1 f) \<Longrightarrow> f \<in> {ILLEGAL, CONTINUE} \<Longrightarrow>
    exec_opt c post st1 (Done st2 ILLEGAL) \<Longrightarrow> exec_for c cond post body st2 r \<Longrightarrow>
    exec_for c cond post body st r"
| range_bad: "missing c st [NE x] \<Longrightarrow> exec c (RangeStmt key val tok x body) st Bad"
| range_throw: "exec c (RangeStmt key val tok x body) st (Done st constructorThrow)"
| range_loop: "exec_range c body st r \<Longrightarrow> exec c (RangeStmt key val tok x body) st r"
| range_end: "exec_range c body st (Done st ILLEGAL)"
| range_break: "execs c body st (Done st1 BREAK) \<Longrightarrow> exec_range c body st (Done st1 ILLEGAL)"
| range_out: "execs c body st r \<Longrightarrow> flow r \<in> {None, Some RETURN, Some constructorThrow} \<Longrightarrow> exec_range c body st r"
| range_next: "execs c body st (Done st1 f) \<Longrightarrow> f \<in> {ILLEGAL, CONTINUE} \<Longrightarrow> exec_range c body st1 r \<Longrightarrow>
    exec_range c body st r"
| switch_init: "exec_opt c init st r \<Longrightarrow> flow r \<noteq> Some ILLEGAL \<Longrightarrow> exec c (SwitchStmt init tag body) st r"
| switch_bad: "exec_opt c init st (Done st1 ILLEGAL) \<Longrightarrow>
    missing c st1 (exprs_nodes (opt_list tag) @ candidates body) \<Longrightarrow> exec c (SwitchStmt init tag body) st Bad"
| switch_throw: "exec_opt c init st (Done st1 ILLEGAL) \<Longrightarrow>
    exec c (SwitchStmt init tag body) st (Done st1 constructorThrow)"
| switch_none: "exec_opt c init st (Done st1 ILLEGAL) \<Longrightarrow> \<not> has_default body \<Longrightarrow>
    exec c (SwitchStmt init tag body) st (Done st1 ILLEGAL)"
| switch_clause: "exec_opt c init st (Done st1 ILLEGAL) \<Longrightarrow> body = before @ chosen \<Longrightarrow>
    exec_clauses c chosen st1 r \<Longrightarrow> exec c (SwitchStmt init tag body) st (unbreak r)"
| clause_end: "execs c b st r \<Longrightarrow> flow r \<noteq> Some FALLTHROUGH \<Longrightarrow>
    exec_clauses c (CaseClause l b # rest) st r"
| clause_fall: "execs c b st (Done st1 FALLTHROUGH) \<Longrightarrow> exec_clauses c rest st1 r \<Longrightarrow>
    exec_clauses c (CaseClause l b # rest) st r"
| type_switch_none: "exec_opt c init st (Done st1 ILLEGAL) \<Longrightarrow> exec c a st1 (Done st2 ILLEGAL) \<Longrightarrow>
    \<not> has_default body \<Longrightarrow> exec c (TypeSwitchStmt init a body) st (Done st2 ILLEGAL)"
| type_switch_clause: "exec_opt c init st (Done st1 ILLEGAL) \<Longrightarrow> exec c a st1 (Done st2 ILLEGAL) \<Longrightarrow>
    CaseClause l b \<in> set body \<Longrightarrow> execs c b st2 r \<Longrightarrow>
    exec c (TypeSwitchStmt init a body) st (unbreak r)"
| try_done: "callNamed x ''GhiTry'' = Some (body # handler # finalizer # rest) \<Longrightarrow>
    funcLitBody body = Some b \<Longrightarrow> execs c b st r \<Longrightarrow>
    flow r \<noteq> Some constructorThrow \<or> funcLitBody handler = None \<Longrightarrow>
    funcLitBody finalizer = None \<or> r = Bad \<Longrightarrow> exec c (ExprStmt x) st r"
| try_caught: "callNamed x ''GhiTry'' = Some (body # handler # finalizer # rest) \<Longrightarrow>
    funcLitBody body = Some b \<Longrightarrow> execs c b st (Done st1 constructorThrow) \<Longrightarrow>
    funcLitBody handler = Some h \<Longrightarrow> execs c h st1 r \<Longrightarrow>
    funcLitBody finalizer = None \<or> r = Bad \<Longrightarrow> exec c (ExprStmt x) st r"
| try_finally: "callNamed x ''GhiTry'' = Some (body # handler # finalizer # rest) \<Longrightarrow>
    funcLitBody body = Some b \<Longrightarrow> execs c b st (Done st1 f) \<Longrightarrow>
    f \<noteq> constructorThrow \<or> funcLitBody handler = None \<Longrightarrow>
    funcLitBody finalizer = Some fin \<Longrightarrow> execs c fin st1 r \<Longrightarrow>
    exec c (ExprStmt x) st (resume f r)"
| try_caught_finally: "callNamed x ''GhiTry'' = Some (body # handler # finalizer # rest) \<Longrightarrow>
    funcLitBody body = Some b \<Longrightarrow> execs c b st (Done st1 constructorThrow) \<Longrightarrow>
    funcLitBody handler = Some h \<Longrightarrow> execs c h st1 (Done st2 f) \<Longrightarrow>
    funcLitBody finalizer = Some fin \<Longrightarrow> execs c fin st2 r \<Longrightarrow>
    exec c (ExprStmt x) st (resume f r)"

section \<open>The programs for which the check is sound\<close>

text \<open>
  The handlers of a try statement end by throwing the exception again when no catch clause matches
  it; \<open>normalizeExceptions\<close> builds them so.
\<close>

fun rethrows :: "stmt option \<Rightarrow> bool" where
  "rethrows (Some (IfStmt (Some (AssignStmt l tok r)) cond body els)) = (tok = DEFINE \<and> rethrows els)"
| "rethrows (Some (BlockStmt [ExprStmt x])) = (callNamed x ''GhiThrow'' \<noteq> None)"
| "rethrows _ = False"

definition node_ok :: "node \<Rightarrow> bool" where
  "node_ok n =
     (case n of
        NS (LabeledStmt l s) \<Rightarrow> False
      | NS (TypeSwitchStmt i a b) \<Rightarrow> False
      | NS (SelectStmt b) \<Rightarrow> False
      | NS (AssignStmt lhs tok rhs) \<Rightarrow>
          tok \<noteq> ASSIGN \<or> length lhs \<le> 1 \<or>
          list_all (\<lambda>l. thisField l \<noteq> None \<or> this_fields (NE l) = []) lhs
      | NE (CallExpr (Ident p name) (body # handler # fin # rest) v) \<Rightarrow>
          name \<noteq> ''GhiTry'' \<or> funcLitBody fin = None \<or>
          (case funcLitBody handler of Some [h] \<Rightarrow> rethrows (Some h) | Some _ \<Rightarrow> False | None \<Rightarrow> True)
      | _ \<Rightarrow> True)"

definition structured :: "node \<Rightarrow> bool" where
  "structured n \<longleftrightarrow> list_all id (inspect (\<lambda>m. ([node_ok m], True)) n)"

definition structured_body :: "stmt list \<Rightarrow> bool" where
  "structured_body b \<longleftrightarrow> (\<forall>s \<in> set b. structured (NS s))"

end
