(* ===== verification/ConstructorSound.thy ===== *)
theory ConstructorSound
  imports ConstructorRuns
begin

text \<open>
  The constructor check is sound: a body it accepts has no bad run, and every run that ends
  normally or by a return has assigned all required fields. The proof goes by induction over the
  runs; \<open>covered\<close> says that the exits of the check contain one that approximates an end of a run.
\<close>

section \<open>Runs only add fields\<close>

definition grows :: "initializedFields \<Rightarrow> outcome \<Rightarrow> bool" where
  "grows st r \<longleftrightarrow> (case r of Bad \<Rightarrow> True | Done st' f \<Rightarrow> st \<subseteq> st')"

lemma grows_simps [simp]:
  "grows st Bad" "grows st (Done st' f) \<longleftrightarrow> st \<subseteq> st'"
  "grows st (unbreak r) = grows st r" "grows st (resume f r) = grows st r"
  by (auto simp: grows_def unbreak_def resume_def split: outcome.splits)

lemma grows_trans: "st \<subseteq> st1 \<Longrightarrow> grows st1 r \<Longrightarrow> grows st r"
  by (auto simp: grows_def split: outcome.splits)

lemma exec_grows:
  "exec c s st r \<Longrightarrow> grows st r"
  "execs c ss st r \<Longrightarrow> grows st r"
  "exec_opt c os st r \<Longrightarrow> grows st r"
  "exec_for c cond post body st r \<Longrightarrow> grows st r"
  "exec_range c body st r \<Longrightarrow> grows st r"
  "exec_clauses c cls st r \<Longrightarrow> grows st r"
  by (induction rule: exec_execs_exec_opt_exec_for_exec_range_exec_clauses.inducts)
    (auto elim: grows_trans intro: subset_insertI)

section \<open>Reads\<close>

lemma this_fields_simps:
  "this_fields n = (case n of NE e \<Rightarrow> opt_list (thisField e) | _ \<Rightarrow> []) @
     concat (map this_fields (children n))"
  unfolding this_fields_def by (subst inspect_descend) auto

lemma read_visit_fields:
  "inspect (read_visit c state) n = [] \<Longrightarrow> f \<in> set (this_fields n) \<Longrightarrow>
     f \<in> set (cc_required c) \<Longrightarrow> f \<in> state"
proof (induction "node_size n" arbitrary: n rule: less_induct)
  case less
  have descend: ?case if v: "read_visit c state n = ([], True)"
    and t: "(case n of NE e \<Rightarrow> opt_list (thisField e) | _ \<Rightarrow> []) = []"
  proof -
    from less.prems(2) t obtain m where m: "m \<in> set (children n)" "f \<in> set (this_fields m)"
      by (subst (asm) this_fields_simps) auto
    moreover from less.prems(1) v m(1) have "inspect (read_visit c state) m = []"
      by (subst (asm) inspect_descend) auto
    ultimately show ?thesis
      using less.hyps [of m] less.prems(3) children_smaller by blast
  qed
  show ?case
  proof (cases "\<exists>p q name. n = NE (SelectorExpr (Ident p ''this'') q name)")
    case True
    then obtain p q name where n: "n = NE (SelectorExpr (Ident p ''this'') q name)" by blast
    have "inspect (read_visit c state) n = fst (read_visit c state n)"
      by (subst inspect.simps) (simp add: n read_visit_def)
    moreover have "this_fields n = [name]"
      by (simp add: n this_fields_simps [of "NE _"] opt_list_def)
    ultimately show ?thesis using less.prems by (auto simp: n read_visit_def split: if_splits)
  next
    case False
    then have t: "(case n of NE e \<Rightarrow> opt_list (thisField e) | _ \<Rightarrow> []) = []"
      by (auto simp: opt_list_def split: node.splits option.splits elim!: thisField.elims split: if_splits)
    from less.prems(1) have "fst (read_visit c state n) = []"
      by (subst (asm) inspect.simps) (auto split: prod.splits if_splits)
    with False have "read_visit c state n = ([], True)"
      by (auto simp: read_visit_def split: node.splits expr.splits if_splits)
    from descend [OF this t] show ?thesis .
  qed
qed

lemma missing_append [simp]: "missing c st (a @ b) \<longleftrightarrow> missing c st a \<or> missing c st b"
  by (auto simp: missing_def)

lemma missing_Nil [simp]: "\<not> missing c st []"
  by (simp add: missing_def)

lemma read_no_missing: "read c e a = [] \<Longrightarrow> a \<subseteq> st \<Longrightarrow> \<not> missing c st [NE e]"
  unfolding missing_def read_def using read_visit_fields by fastforce

lemma reads_no_missing: "reads c es a = [] \<Longrightarrow> a \<subseteq> st \<Longrightarrow> \<not> missing c st (exprs_nodes es)"
  unfolding missing_def reads_def exprs_nodes_def read_def using read_visit_fields by fastforce

lemma read_opt_no_missing:
  "read_opt c e a = [] \<Longrightarrow> a \<subseteq> st \<Longrightarrow> \<not> missing c st (exprs_nodes (opt_list e))"
  using read_no_missing by (fastforce simp: read_opt_def opt_list_def exprs_nodes_def split: option.splits)

lemma read_stmt_no_missing:
  assumes "simple_stmt s" "read_stmt c s a = []" "a \<subseteq> st"
  shows "\<not> missing c st [NS s]"
proof -
  let ?g = "\<lambda>n. case n of NE e \<Rightarrow> (read c e a, False) | _ \<Rightarrow> ([], True)"
  have ch: "\<forall>n \<in> set (children (NS s)). \<exists>e. n = NE e"
    using assms(1) by (cases s) auto
  have "\<forall>e. NE e \<in> set (children (NS s)) \<longrightarrow> read c e a = []"
  proof (intro allI impI)
    fix e assume "NE e \<in> set (children (NS s))"
    then have "inspect ?g (NE e) = []"
      using assms(2) unfolding read_stmt_def by (subst (asm) inspect_descend) auto
    then show "read c e a = []" by (subst (asm) inspect_stop) auto
  qed
  then have "\<forall>n \<in> set (children (NS s)). \<not> missing c st [n]"
    using ch by (metis read_no_missing [OF _ assms(3)])
  then show ?thesis by (auto simp: missing_def this_fields_simps [of "NS s"])
qed

section \<open>Exits cover runs\<close>

definition covered :: "constructorExit list \<Rightarrow> token \<Rightarrow> initializedFields \<Rightarrow> bool" where
  "covered exits f st \<longleftrightarrow> (\<exists>e \<in> set exits. x_flow e = f \<and> x_state e \<subseteq> st)"

definition good :: "constructorExit list \<Rightarrow> outcome \<Rightarrow> bool" where
  "good exits r \<longleftrightarrow>
     (case r of Bad \<Rightarrow> False | Done st f \<Rightarrow> f \<noteq> constructorThrow \<longrightarrow> covered exits f st)"

lemma good_simps [simp]:
  "\<not> good exits Bad"
  "good exits (Done st f) \<longleftrightarrow> f = constructorThrow \<or> covered exits f st"
  by (auto simp: good_def)

lemma covered_simps [simp]:
  "\<not> covered [] f st"
  "covered (e # es) f st \<longleftrightarrow> (x_flow e = f \<and> x_state e \<subseteq> st) \<or> covered es f st"
  "covered (es @ es') f st \<longleftrightarrow> covered es f st \<or> covered es' f st"
  by (auto simp: covered_def)

lemma covered_mono: "covered es f st \<Longrightarrow> set es \<subseteq> set es' \<Longrightarrow> covered es' f st"
  by (auto simp: covered_def)

lemma covered_more: "covered es f st \<Longrightarrow> st \<subseteq> st' \<Longrightarrow> covered es f st'"
  by (auto simp: covered_def)

lemma good_mono: "good es r \<Longrightarrow> set es \<subseteq> set es' \<Longrightarrow> good es' r"
  by (auto simp: good_def covered_mono split: outcome.splits)

lemma covered_merge_insert [simp]:
  "covered (e # es) f st \<Longrightarrow> covered (merge_insert e es) f st"
  by (induction es) (auto simp: intersectFields_def)

lemma covered_foldl_merge:
  "covered (acc @ es) f st \<Longrightarrow> covered (foldl (\<lambda>result e. merge_insert e result) acc es) f st"
  by (induction es arbitrary: acc) (auto intro: covered_merge_insert)

lemma covered_merge: "covered es f st \<Longrightarrow> covered (mergeConstructorExits es) f st"
  unfolding mergeConstructorExits_def using covered_foldl_merge [of "[]"] by simp

lemma good_merge: "good es r \<Longrightarrow> good (mergeConstructorExits es) r"
  by (auto simp: good_def covered_merge split: outcome.splits)

lemma flat_ok: "flat g xs = (out, []) \<Longrightarrow> x \<in> set xs \<Longrightarrow> \<exists>ys. g x = (ys, []) \<and> set ys \<subseteq> set out"
  unfolding flat_def by (cases "g x") fastforce

text \<open>A loop over the exits of an initialization keeps the exits that leave and continues the others.\<close>

lemma flat_leaves:
  assumes "flat (\<lambda>e. if x_flow e \<noteq> ILLEGAL then ([e], []) else g e) es = (out, [])"
    and "covered es f st" "f \<noteq> ILLEGAL"
  shows "covered out f st"
  using assms(2,3) flat_ok [OF assms(1)] by (fastforce simp: covered_def)

lemma flat_enters:
  assumes "flat (\<lambda>e. if x_flow e \<noteq> ILLEGAL then ([e], []) else g e) es = (out, [])"
    and "covered es ILLEGAL st"
  obtains e ys where "x_flow e = ILLEGAL" "x_state e \<subseteq> st" "g e = (ys, [])" "set ys \<subseteq> set out"
proof -
  from assms(2) obtain e where e: "e \<in> set es" "x_flow e = ILLEGAL" "x_state e \<subseteq> st"
    by (auto simp: covered_def)
  with flat_ok [OF assms(1) e(1)] that show thesis by auto
qed

lemma paths_leaves:
  "paths c ss es = (out, ms) \<Longrightarrow> covered es f st \<Longrightarrow> f \<noteq> ILLEGAL \<Longrightarrow> covered out f st"
proof (induction ss arbitrary: es out ms)
  case (Cons s ss)
  let ?g = "\<lambda>e. if x_flow e \<noteq> ILLEGAL then ([e], []) else step c s (x_state e)"
  have "covered (fst (flat ?g es)) f st"
    using Cons.prems(2,3) by (fastforce simp: covered_def flat_def)
  then have "covered (mergeConstructorExits (fst (flat ?g es))) f st" by (rule covered_merge)
  with Cons show ?case by (auto simp: Let_def split: prod.splits)
qed simp

lemma clauses_suffix:
  "clauses c (before @ chosen) a fallen = (out, []) \<Longrightarrow>
     \<exists>fallen' out'. clauses c chosen a fallen' = (out', []) \<and> set out' \<subseteq> set out"
proof (induction before arbitrary: fallen out)
  case (Cons s before)
  show ?case
  proof (cases "\<exists>l b. s = CaseClause l b")
    case True
    then obtain l b where s: "s = CaseClause l b" by blast
    from Cons.prems obtain fallen1 out1 where
      "clauses c (before @ chosen) a fallen1 = (out1, [])" "set out1 \<subseteq> set out"
      by (auto simp: s Let_def split: prod.splits)
    with Cons.IH show ?thesis by fast
  next
    case False
    then have "clauses c ((s # before) @ chosen) a fallen = ([], panicked)" by (cases s) auto
    with Cons.prems show ?thesis by (simp add: panicked_def)
  qed
qed auto

section \<open>Checkable bodies\<close>

lemma structured_simps:
  "structured n \<longleftrightarrow> node_ok n \<and> (\<forall>m \<in> set (children n). structured m)"
  unfolding structured_def by (subst inspect_descend) (auto simp: list_all_iff)

lemma structured_expr: "structured (NE e) \<longleftrightarrow> node_ok (NE e) \<and> (\<forall>m \<in> set (expr_children e). structured m)"
  by (subst structured_simps) simp

lemma structured_stmt: "structured (NS s) \<longleftrightarrow> node_ok (NS s) \<and> (\<forall>m \<in> set (stmt_children s). structured m)"
  by (subst structured_simps) simp

lemma structured_body_Cons [simp]:
  "structured_body (s # ss) \<longleftrightarrow> structured (NS s) \<and> structured_body ss"
  "structured_body []"
  "structured_body (ss @ ss') \<longleftrightarrow> structured_body ss \<and> structured_body ss'"
  by (auto simp: structured_body_def)

lemma structured_nodes [simp]:
  "(\<forall>m \<in> set (stmts_nodes b). structured m) \<longleftrightarrow> structured_body b"
  by (auto simp: stmts_nodes_def structured_body_def)

lemma structured_opt [simp]:
  "structured_body (opt_list os) \<longleftrightarrow> (\<forall>s. os = Some s \<longrightarrow> structured (NS s))"
  by (auto simp: opt_list_def split: option.splits)

lemma structured_parts:
  "structured (NS (IfStmt init cond body els)) \<Longrightarrow>
     structured_body (opt_list init) \<and> structured_body body \<and> structured_body (opt_list els)"
  "structured (NS (ForStmt init co post body)) \<Longrightarrow>
     structured_body (opt_list init) \<and> structured_body body \<and> structured_body (opt_list post)"
  "structured (NS (RangeStmt k v tok x body)) \<Longrightarrow> structured_body body"
  "structured (NS (SwitchStmt init tag body)) \<Longrightarrow> structured_body (opt_list init) \<and> structured_body body"
  "structured (NS (CaseClause l body)) \<Longrightarrow> structured_body body"
  "structured (NS (BlockStmt body)) \<Longrightarrow> structured_body body"
  "structured (NS (ExprStmt x)) \<Longrightarrow> structured (NE x)"
  "\<not> structured (NS (LabeledStmt lab s))"
  "\<not> structured (NS (TypeSwitchStmt init s body))"
  by (auto simp del: structured_opt simp: structured_stmt ball_Un node_ok_def)

lemma structured_try:
  assumes "structured (NE x)" "callNamed x ''GhiTry'' = Some (body # handler # fin # rest)"
  shows "funcLitBody body = Some b \<Longrightarrow> structured_body b"
    and "funcLitBody handler = Some b \<Longrightarrow> structured_body b"
    and "funcLitBody fin = Some b \<Longrightarrow> structured_body b"
    and "funcLitBody fin \<noteq> None \<Longrightarrow> funcLitBody handler = Some b \<Longrightarrow>
      \<exists>h. b = [h] \<and> rethrows (Some h)"
proof -
  from assms obtain p v where x: "x = CallExpr (Ident p ''GhiTry'') (body # handler # fin # rest) v"
    by (auto simp: callNamed_def split: expr.splits if_splits)
  have lit: "structured (NE l) \<Longrightarrow> funcLitBody l = Some b \<Longrightarrow> structured_body b" for l
    by (cases l) (auto simp: structured_expr [of "FuncLit _ _ _"] ball_Un)
  from assms(1) have s: "structured (NE body)" "structured (NE handler)" "structured (NE fin)"
    by (simp_all add: x structured_expr [of "CallExpr _ _ _"] exprs_nodes_def)
  show "funcLitBody body = Some b \<Longrightarrow> structured_body b"
    and "funcLitBody handler = Some b \<Longrightarrow> structured_body b"
    and "funcLitBody fin = Some b \<Longrightarrow> structured_body b"
    using s lit by blast+
  show "funcLitBody fin \<noteq> None \<Longrightarrow> funcLitBody handler = Some b \<Longrightarrow>
      \<exists>h. b = [h] \<and> rethrows (Some h)"
    using assms(1) by (auto simp: x structured_expr [of "CallExpr _ _ _"] node_ok_def split: list.splits)
qed

lemma assign_targets_state: "fst (assign_targets c tok lhs a) = a \<union> assigned tok lhs"
  by (induction lhs arbitrary: a)
    (auto simp: assigned_def Let_def split_beta split: option.splits)

lemma rethrows_throws:
  "rethrows os \<Longrightarrow> step_opt c os a = (ex, []) \<Longrightarrow> covered ex constructorThrow a"
proof (induction os arbitrary: ex rule: rethrows.induct)
  case (1 l tok r cond body els)
  then have tok: "tok \<noteq> ASSIGN" "rethrows els" by auto
  then have a: "fst (assign_targets c tok l a) = a" by (simp add: assign_targets_state assigned_def)
  obtain ms where i: "step c (AssignStmt l tok r) a = ([exit a ILLEGAL], ms)"
    using a by (simp add: split_beta)
  obtain b mb where b: "step_opt c els a = (b, mb)" by fastforce
  from "1.prems"(2) have "mb = [] \<and> (\<exists>xs. ex = mergeConstructorExits (xs @ b))"
    by (simp only: step_opt.simps step.simps i b Let_def split_beta flat_def) (auto simp: a b)
  with "1.IH" [OF tok(2)] b show ?case by (auto intro: covered_merge)
next
  case (2 x)
  then have "callNamed x ''parent'' = None" "callNamed x ''GhiTry'' = None"
    by (auto simp: callNamed_def split: expr.splits if_splits)
  with 2 show ?case
    by (auto simp: flat_def covered_merge split: option.splits)
qed auto

lemma assign_targets_reads:
  "assign_targets c tok lhs a = (a', []) \<Longrightarrow> l \<in> set lhs \<Longrightarrow> \<not> (tok = ASSIGN \<and> thisField l \<noteq> None) \<Longrightarrow>
     tok \<noteq> ASSIGN \<or> length lhs \<le> 1 \<or> this_fields (NE l) = [] \<Longrightarrow> a \<subseteq> st \<Longrightarrow> \<not> missing c st [NE l]"
proof (induction lhs arbitrary: a)
  case (Cons k ks)
  show ?case
  proof (cases "this_fields (NE l) = []")
    case True
    then show ?thesis by (simp add: missing_def)
  next
    case False
    note r = read_no_missing [where a = a, OF _ Cons.prems(5)]
    from False Cons show ?thesis
      by (auto simp: Let_def split: option.splits prod.splits if_splits dest: r)
  qed
qed simp

lemma assign_ok:
  assumes "structured (NS (AssignStmt lhs tok rhs))" "step c (AssignStmt lhs tok rhs) a = (ex, [])" "a \<subseteq> st"
  shows "\<not> missing c st (operands lhs tok rhs)" "ex = [exit (a \<union> assigned tok lhs) ILLEGAL]"
proof -
  from assms(2) obtain a' where t: "assign_targets c tok lhs a = (a', [])" and r: "reads c rhs a = []"
    and ex: "ex = [exit a' ILLEGAL]" by (auto simp: Let_def split: prod.splits)
  from ex t show "ex = [exit (a \<union> assigned tok lhs) ILLEGAL]" using assign_targets_state [of c tok lhs a] by simp
  have n: "node_ok (NS (AssignStmt lhs tok rhs))" using assms(1) by (simp add: structured_stmt)
  have "\<not> missing c st [NE l]" if "l \<in> set lhs" "\<not> (tok = ASSIGN \<and> thisField l \<noteq> None)" for l
    using n assign_targets_reads [OF t that _ assms(3)] that by (auto simp: node_ok_def list_all_iff)
  then show "\<not> missing c st (operands lhs tok rhs)"
    using reads_no_missing [OF r assms(3)]
    by (fastforce simp: operands_def missing_def exprs_nodes_def)
qed

section \<open>Soundness\<close>

text \<open>What the check of a statement or a part of one says of its runs.\<close>

definition loop_exits :: "constructorExit list \<Rightarrow> constructorExit list" where
  "loop_exits ex =
     map (\<lambda>e. if x_flow e = BREAK then e\<lparr>x_flow := ILLEGAL\<rparr> else e)
       (filter (\<lambda>e. x_flow e \<noteq> ILLEGAL \<and> x_flow e \<noteq> CONTINUE) ex)"

definition sound_stmt :: "constructorCheck \<Rightarrow> stmt \<Rightarrow> initializedFields \<Rightarrow> outcome \<Rightarrow> bool" where
  "sound_stmt c s st r \<longleftrightarrow>
     (\<forall>a ex. step c s a = (ex, []) \<longrightarrow> structured (NS s) \<longrightarrow> a \<subseteq> st \<longrightarrow> good ex r)"

definition sound_body :: "constructorCheck \<Rightarrow> stmt list \<Rightarrow> initializedFields \<Rightarrow> outcome \<Rightarrow> bool" where
  "sound_body c ss st r \<longleftrightarrow>
     (\<forall>es ex. paths c ss es = (ex, []) \<longrightarrow> structured_body ss \<longrightarrow> covered es ILLEGAL st \<longrightarrow> good ex r)"

definition sound_opt :: "constructorCheck \<Rightarrow> stmt option \<Rightarrow> initializedFields \<Rightarrow> outcome \<Rightarrow> bool" where
  "sound_opt c os st r \<longleftrightarrow>
     (\<forall>a ex. step_opt c os a = (ex, []) \<longrightarrow> structured_body (opt_list os) \<longrightarrow> a \<subseteq> st \<longrightarrow> good ex r)"

definition sound_for ::
  "constructorCheck \<Rightarrow> expr option \<Rightarrow> stmt option \<Rightarrow> stmt list \<Rightarrow> initializedFields \<Rightarrow> outcome \<Rightarrow> bool" where
  "sound_for c cond post body st r \<longleftrightarrow>
     (\<forall>a ex. read_opt c cond a = [] \<longrightarrow> paths c body [exit a ILLEGAL] = (ex, []) \<longrightarrow>
        (\<forall>e \<in> set ex. x_flow e = ILLEGAL \<or> x_flow e = CONTINUE \<longrightarrow>
           snd (step_opt c post (x_state e)) = []) \<longrightarrow>
        structured_body body \<longrightarrow> structured_body (opt_list post) \<longrightarrow> a \<subseteq> st \<longrightarrow>
        good ((if endless cond then [] else [exit a ILLEGAL]) @ loop_exits ex) r)"

definition sound_range :: "constructorCheck \<Rightarrow> stmt list \<Rightarrow> initializedFields \<Rightarrow> outcome \<Rightarrow> bool" where
  "sound_range c body st r \<longleftrightarrow>
     (\<forall>a ex. paths c body [exit a ILLEGAL] = (ex, []) \<longrightarrow> structured_body body \<longrightarrow> a \<subseteq> st \<longrightarrow>
        good (exit a ILLEGAL # filter (\<lambda>e. x_flow e = RETURN \<or> x_flow e = constructorThrow) ex) r)"

definition sound_clauses :: "constructorCheck \<Rightarrow> stmt list \<Rightarrow> initializedFields \<Rightarrow> outcome \<Rightarrow> bool" where
  "sound_clauses c cls st r \<longleftrightarrow>
     (\<forall>a fallen ex. clauses c cls a fallen = (ex, []) \<longrightarrow> structured_body cls \<longrightarrow>
        covered (exit a ILLEGAL # fallen) ILLEGAL st \<longrightarrow> good ex (unbreak r))"

lemma sound_bodyD:
  "sound_body c ss st r \<Longrightarrow> paths c ss [exit a ILLEGAL] = (ex, []) \<Longrightarrow> structured_body ss \<Longrightarrow> a \<subseteq> st \<Longrightarrow>
     good ex r"
  by (simp add: sound_body_def)

lemma sound_optD:
  "sound_opt c os st r \<Longrightarrow> step_opt c os a = (ex, []) \<Longrightarrow> structured_body (opt_list os) \<Longrightarrow> a \<subseteq> st \<Longrightarrow>
     good ex r"
  by (simp add: sound_opt_def)

lemma sound_seq_stop:
  assumes "sound_stmt c s st r" "flow r \<noteq> Some ILLEGAL"
  shows "sound_body c (s # ss) st r"
  unfolding sound_body_def
proof (intro allI impI)
  fix es ex
  let ?g = "\<lambda>e. if x_flow e \<noteq> ILLEGAL then ([e], []) else step c s (x_state e)"
  assume p: "paths c (s # ss) es = (ex, [])" and st: "structured_body (s # ss)"
    and cov: "covered es ILLEGAL st"
  from p obtain next1 where f: "flat ?g es = (next1, [])"
    and q: "paths c ss (mergeConstructorExits next1) = (ex, [])"
    by (auto simp: Let_def split: prod.splits)
  from f cov obtain e :: constructorExit and ys where e: "x_state e \<subseteq> st" "step c s (x_state e) = (ys, [])" "set ys \<subseteq> set next1"
    by (rule flat_enters)
  with assms(1) st have g: "good ys r" by (auto simp: sound_stmt_def)
  show "good ex r"
  proof (cases r)
    case (Done st' g)
    show ?thesis
    proof (cases "g = constructorThrow")
      case False
      with Done \<open>good ys r\<close> e(3) have "covered next1 g st'" by (auto intro: covered_mono)
      with paths_leaves [OF q covered_merge] Done assms(2) show ?thesis by (simp add: flow_def)
    qed (simp add: Done)
  qed (use g in simp)
qed

lemma sound_seq_cons:
  assumes "sound_stmt c s st (Done st1 ILLEGAL)" "sound_body c ss st1 r"
  shows "sound_body c (s # ss) st r"
  unfolding sound_body_def
proof (intro allI impI)
  fix es ex
  let ?g = "\<lambda>e. if x_flow e \<noteq> ILLEGAL then ([e], []) else step c s (x_state e)"
  assume p: "paths c (s # ss) es = (ex, [])" and st: "structured_body (s # ss)"
    and cov: "covered es ILLEGAL st"
  from p obtain next1 where f: "flat ?g es = (next1, [])"
    and q: "paths c ss (mergeConstructorExits next1) = (ex, [])"
    by (auto simp: Let_def split: prod.splits)
  from f cov obtain e :: constructorExit and ys where e: "x_state e \<subseteq> st" "step c s (x_state e) = (ys, [])" "set ys \<subseteq> set next1"
    by (rule flat_enters)
  with assms(1) st have "covered ys ILLEGAL st1" by (fastforce simp: sound_stmt_def)
  then have "covered (mergeConstructorExits next1) ILLEGAL st1" using e(3) by (metis covered_mono covered_merge)
  with assms(2) q st show "good ex r" by (auto simp: sound_body_def)
qed

text \<open>A statement with an initialization: the run of the initialization leaves or enters the rest.\<close>

lemma entries_leave:
  assumes "sound_opt c init st r" "flow r \<noteq> Some ILLEGAL" "step_opt c init a = (entries, [])"
    "structured_body (opt_list init)" "a \<subseteq> st"
    "flat (\<lambda>e. if x_flow e \<noteq> ILLEGAL then ([e], []) else g e) entries = (out, [])"
  shows "good (mergeConstructorExits out) r"
proof -
  have "good entries r" using assms(1,3-5) by (rule sound_optD)
  then have "good out r" using flat_leaves [OF assms(6)] assms(2)
    by (cases r) (auto simp: flow_def)
  then show ?thesis by (rule good_merge)
qed

lemma entries_enter:
  assumes "sound_opt c init st (Done st1 ILLEGAL)" "step_opt c init a = (entries, [])"
    "structured_body (opt_list init)" "a \<subseteq> st"
    "flat (\<lambda>e. if x_flow e \<noteq> ILLEGAL then ([e], []) else g e) entries = (out, [])"
    "\<And>e ys. x_flow e = ILLEGAL \<Longrightarrow> x_state e \<subseteq> st1 \<Longrightarrow> g e = (ys, []) \<Longrightarrow> good ys r"
  shows "good (mergeConstructorExits out) r"
proof -
  have "covered entries ILLEGAL st1" using sound_optD [OF assms(1-4)] by simp
  from flat_enters [OF assms(5) this] obtain e :: constructorExit and ys where
    "x_flow e = ILLEGAL" "x_state e \<subseteq> st1" "g e = (ys, [])" "set ys \<subseteq> set out" by metis
  with assms(6) have "good ys r" "set ys \<subseteq> set out" by auto
  then show ?thesis by (intro good_merge) (rule good_mono)
qed

lemma sound_throw [simp]:
  "sound_stmt c s st (Done st' constructorThrow)"
  "sound_opt c os st (Done st' constructorThrow)"
  "sound_for c cond post body st (Done st' constructorThrow)"
  by (simp_all add: sound_stmt_def sound_opt_def sound_for_def)

subsection \<open>Statements without parts\<close>

lemma sound_assign_bad:
  "missing c st (operands lhs tok rhs) \<Longrightarrow> sound_stmt c (AssignStmt lhs tok rhs) st Bad"
  unfolding sound_stmt_def using assign_ok(1) by blast

lemma sound_assign_done:
  "sound_stmt c (AssignStmt lhs tok rhs) st (Done (st \<union> assigned tok lhs) ILLEGAL)"
  unfolding sound_stmt_def
proof (intro allI impI)
  fix a ex
  assume "step c (AssignStmt lhs tok rhs) a = (ex, [])" "structured (NS (AssignStmt lhs tok rhs))" "a \<subseteq> st"
  from assign_ok(2) [OF this(2,1,3)] \<open>a \<subseteq> st\<close>
  show "good ex (Done (st \<union> assigned tok lhs) ILLEGAL)" by auto
qed

lemma sound_expr:
  "callNamed x ''GhiTry'' = None \<Longrightarrow> missing c st [NE x] \<Longrightarrow> sound_stmt c (ExprStmt x) st Bad"
  "callNamed x ''parent'' \<noteq> None \<Longrightarrow>
    sound_stmt c (ExprStmt x) st (Done (insert ''@parent'' st) ILLEGAL)"
  "callNamed x ''parent'' = None \<Longrightarrow> callNamed x ''GhiTry'' = None \<Longrightarrow>
    callNamed x ''GhiThrow'' = None \<Longrightarrow> sound_stmt c (ExprStmt x) st (Done st ILLEGAL)"
  by (auto simp: sound_stmt_def split: if_splits dest: read_no_missing)

lemma simple_step: "simple_stmt s \<Longrightarrow> step c s a = ([exit a ILLEGAL], read_stmt c s a)"
  by (cases s) auto

lemma sound_simple:
  "simple_stmt s \<Longrightarrow> missing c st [NS s] \<Longrightarrow> sound_stmt c s st Bad"
  "simple_stmt s \<Longrightarrow> sound_stmt c s st (Done st ILLEGAL)"
  using read_stmt_no_missing by (auto simp: sound_stmt_def simple_step)

lemma sound_decl:
  "missing c st (spec_values specs) \<Longrightarrow> sound_stmt c (DeclStmt tok specs) st Bad"
  "sound_stmt c (DeclStmt tok specs) st (Done st ILLEGAL)"
proof -
  have "\<not> missing c st (spec_values specs)"
    if "concat (map (\<lambda>sp. case sp of ValueSpec ns t vs \<Rightarrow> reads c vs a | _ \<Rightarrow> []) specs) = []"
      "a \<subseteq> st" for a
    using that by (induction specs)
      (auto simp: spec_values_def dest: reads_no_missing split: spec.splits)
  then show "missing c st (spec_values specs) \<Longrightarrow> sound_stmt c (DeclStmt tok specs) st Bad"
    by (auto simp: sound_stmt_def)
qed (simp add: sound_stmt_def)

lemma sound_return:
  "missing c st (exprs_nodes es) \<Longrightarrow> sound_stmt c (ReturnStmt p es) st Bad"
  "sound_stmt c (ReturnStmt p es) st (Done st RETURN)"
  using reads_no_missing by (auto simp: sound_stmt_def)

lemma sound_branch: "sound_stmt c (BranchStmt p tok None) st (Done st tok)"
  by (simp add: sound_stmt_def)

lemma sound_block: "sound_body c b st r \<Longrightarrow> sound_stmt c (BlockStmt b) st r"
  unfolding sound_stmt_def using structured_parts(6) by (auto dest: sound_bodyD)

lemma sound_opt_some: "sound_stmt c s st r \<Longrightarrow> sound_opt c (Some s) st r"
  by (simp add: sound_opt_def sound_stmt_def)

subsection \<open>Conditionals\<close>

lemma entries_step:
  assumes "(let (entries, m0) = step_opt c init a; (output, m1) = flat g entries
    in (mergeConstructorExits output, m0 @ m1)) = (ex, [])"
  obtains entries out where "step_opt c init a = (entries, [])" "flat g entries = (out, [])"
    "ex = mergeConstructorExits out"
  using assms by (auto split: prod.splits)

lemma sound_entries_leave:
  assumes "(let (entries, m0) = step_opt c init a;
           (output, m1) = flat (\<lambda>e. if x_flow e \<noteq> ILLEGAL then ([e], []) else g e) entries
       in (mergeConstructorExits output, m0 @ m1)) = (ex, [])"
    and "sound_opt c init st r" "flow r \<noteq> Some ILLEGAL" "structured_body (opt_list init)" "a \<subseteq> st"
  shows "good ex r"
  using assms(1) by (rule entries_step) (auto intro: entries_leave [OF assms(2,3) _ assms(4,5)])

lemma sound_entries_enter:
  assumes "(let (entries, m0) = step_opt c init a;
           (output, m1) = flat (\<lambda>e. if x_flow e \<noteq> ILLEGAL then ([e], []) else g e) entries
       in (mergeConstructorExits output, m0 @ m1)) = (ex, [])"
    and "sound_opt c init st (Done st1 ILLEGAL)" "structured_body (opt_list init)" "a \<subseteq> st"
    and "\<And>e ys. x_flow e = ILLEGAL \<Longrightarrow> x_state e \<subseteq> st1 \<Longrightarrow> g e = (ys, []) \<Longrightarrow> good ys r"
  shows "good ex r"
  using assms(1) by (rule entries_step) (auto intro: entries_enter [OF assms(2) _ assms(3,4) _ assms(5)])

lemma sound_if_init:
  assumes "sound_opt c init st r" "flow r \<noteq> Some ILLEGAL"
  shows "sound_stmt c (IfStmt init cond body els) st r"
  unfolding sound_stmt_def step.simps
  by (intro allI impI, erule sound_entries_leave [OF _ assms]) (auto dest: structured_parts(1))

lemma sound_if:
  assumes "sound_opt c init st (Done st1 ILLEGAL)"
    and "(r = Bad \<and> missing c st1 [NE cond]) \<or> sound_body c body st1 r \<or> sound_opt c els st1 r"
  shows "sound_stmt c (IfStmt init cond body els) st r"
  unfolding sound_stmt_def step.simps
proof (intro allI impI, erule sound_entries_enter [OF _ assms(1)], goal_cases)
  case (3 a ex en ys)
  then have parts: "structured_body body" "structured_body (opt_list els)"
    using structured_parts(1) by blast+
  from 3 obtain p q where pq: "paths c body [exit (x_state en) ILLEGAL] = (p, [])"
    "step_opt c els (x_state en) = (q, [])" "read c cond (x_state en) = []" "ys = p @ q"
    by (auto simp: Let_def split: prod.splits)
  note en = 3(4)
  from assms(2) show "good ys r"
  proof (elim disjE)
    assume "r = Bad \<and> missing c st1 [NE cond]"
    with read_no_missing [OF pq(3) en] show ?thesis by simp
  next
    assume "sound_body c body st1 r"
    from sound_bodyD [OF this pq(1) parts(1) en] show ?thesis by (auto simp: pq(4) intro: good_mono)
  next
    assume "sound_opt c els st1 r"
    from sound_optD [OF this pq(2) parts(2) en] show ?thesis by (auto simp: pq(4) intro: good_mono)
  qed
qed (auto dest: structured_parts(1))

subsection \<open>Loops\<close>

lemma loop_exits_covered:
  assumes "covered ex f st" "f \<noteq> ILLEGAL" "f \<noteq> CONTINUE"
  shows "covered (loop_exits ex) (if f = BREAK then ILLEGAL else f) st"
proof -
  from assms(1) obtain e :: constructorExit where e: "e \<in> set ex" "x_flow e = f" "x_state e \<subseteq> st"
    by (auto simp: covered_def)
  with assms(2,3) have m: "(if x_flow e = BREAK then e\<lparr>x_flow := ILLEGAL\<rparr> else e) \<in> set (loop_exits ex)"
    unfolding loop_exits_def set_map set_filter by (intro imageI) simp
  from e show ?thesis unfolding covered_def by (intro bexI [OF _ m]) simp
qed

lemma sound_for_init:
  assumes "sound_opt c init st r" "flow r \<noteq> Some ILLEGAL"
  shows "sound_stmt c (ForStmt init cond post body) st r"
  unfolding sound_stmt_def step.simps
  by (intro allI impI, erule sound_entries_leave [OF _ assms]) (auto dest: structured_parts(2))

lemma loop_flat:
  fixes ex :: "constructorExit list"
  defines "g h \<equiv> (\<lambda>e. if x_flow e = BREAK then ([e\<lparr>x_flow := ILLEGAL\<rparr>], [])
       else if x_flow e = ILLEGAL \<or> x_flow e = CONTINUE then ([], h e) else ([e], []))"
  assumes "flat (g h) ex = (out, [])"
  shows "out = loop_exits ex"
    and "e \<in> set ex \<Longrightarrow> x_flow e = ILLEGAL \<or> x_flow e = CONTINUE \<Longrightarrow> h e = []"
proof -
  have "fst (flat (g h) ex) = loop_exits ex"
    by (induction ex) (simp_all add: flat_def loop_exits_def g_def)
  with assms(2) show "out = loop_exits ex" by simp
  assume "e \<in> set ex" "x_flow e = ILLEGAL \<or> x_flow e = CONTINUE"
  with flat_ok [OF assms(2) this(1)] show "h e = []" by (auto simp: g_def)
qed

lemma sound_for_loop:
  assumes "sound_opt c init st (Done st1 ILLEGAL)" "sound_for c cond post body st1 r"
  shows "sound_stmt c (ForStmt init cond post body) st r"
  unfolding sound_stmt_def step.simps
proof (intro allI impI, erule sound_entries_enter [OF _ assms(1)], goal_cases)
  case (3 a ex en ys)
  then have parts: "structured_body body" "structured_body (opt_list post)"
    using structured_parts(2) by blast+
  obtain p mp where p: "paths c body [exit (x_state en) ILLEGAL] = (p, mp)" by fastforce
  obtain q mq where q: "flat (\<lambda>e. if x_flow e = BREAK then ([e\<lparr>x_flow := ILLEGAL\<rparr>], [])
       else if x_flow e = ILLEGAL \<or> x_flow e = CONTINUE then ([], snd (step_opt c post (x_state e)))
       else ([e], [])) p = (q, mq)" by fastforce
  from 3(5) have m: "read_opt c cond (x_state en) = []" "mp = []" "mq = []"
    "ys = (if endless cond then [] else [exit (x_state en) ILLEGAL]) @ q"
    by (simp_all add: p q)
  note posts = loop_flat [OF q [unfolded m]]
  show ?case unfolding m posts(1)
    using assms(2) m(1) p [unfolded m] parts 3(4) posts(2) unfolding sound_for_def by blast
qed (auto dest: structured_parts(2))

lemma sound_for_exit:
  assumes "sound_body c body st r" "flow r \<in> {None, Some RETURN, Some constructorThrow, Some BREAK}"
  shows "sound_for c cond post body st (unbreak r)"
  unfolding sound_for_def
proof (intro allI impI)
  fix a ex
  assume "paths c body [exit a ILLEGAL] = (ex, [])" "structured_body body" "a \<subseteq> st"
  with assms(1) have "good ex r" by (auto dest: sound_bodyD)
  with assms(2) show "good ((if endless cond then [] else [exit a ILLEGAL]) @ loop_exits ex) (unbreak r)"
    using loop_exits_covered [of ex RETURN] loop_exits_covered [of ex BREAK]
    by (cases r) (auto simp: unbreak_def flow_def)
qed

lemma sound_for_next:
  assumes "sound_body c body st (Done st1 f)" "f \<in> {ILLEGAL, CONTINUE}" "st \<subseteq> st2"
    and "sound_for c cond post body st2 r"
  shows "sound_for c cond post body st r"
  using assms(3,4) unfolding sound_for_def by blast

lemma sound_for_post:
  assumes "sound_body c body st (Done st1 f)" "f \<in> {ILLEGAL, CONTINUE}" "sound_opt c post st1 Bad"
  shows "sound_for c cond post body st Bad"
  unfolding sound_for_def
proof (intro allI impI)
  fix a ex
  assume p: "paths c body [exit a ILLEGAL] = (ex, [])" "structured_body body" "a \<subseteq> st"
    and h: "\<forall>e\<in>set ex. x_flow e = ILLEGAL \<or> x_flow e = CONTINUE \<longrightarrow> snd (step_opt c post (x_state e)) = []"
    and s: "structured_body (opt_list post)"
  from sound_bodyD [OF assms(1) p] assms(2) have "covered ex f st1" by auto
  then obtain e :: constructorExit where "e \<in> set ex" "x_flow e = f" "x_state e \<subseteq> st1" by (auto simp: covered_def)
  with h assms(2) have "snd (step_opt c post (x_state e)) = []" by auto
  then obtain pe where "step_opt c post (x_state e) = (pe, [])" by (metis prod.collapse)
  from sound_optD [OF assms(3) this s \<open>x_state e \<subseteq> st1\<close>]
  show "good ((if endless cond then [] else [exit a ILLEGAL]) @ loop_exits ex) Bad" by simp
qed

lemma sound_range_exit:
  assumes "sound_body c body st r" "flow r \<in> {None, Some RETURN, Some constructorThrow}"
  shows "sound_range c body st r"
  unfolding sound_range_def
proof (intro allI impI)
  fix a ex
  assume "paths c body [exit a ILLEGAL] = (ex, [])" "structured_body body" "a \<subseteq> st"
  with assms(1) have "good ex r" by (auto dest: sound_bodyD)
  with assms(2) show "good (exit a ILLEGAL # filter (\<lambda>e. x_flow e = RETURN \<or> x_flow e = constructorThrow) ex) r"
    by (cases r) (auto simp: flow_def covered_def)
qed

lemma sound_range_stmt:
  "missing c st [NE x] \<Longrightarrow> sound_stmt c (RangeStmt k v tok x body) st Bad"
  "sound_range c body st r \<Longrightarrow> sound_stmt c (RangeStmt k v tok x body) st r"
  unfolding sound_stmt_def sound_range_def step.simps using structured_parts(3)
  by (auto split: prod.splits dest: read_no_missing intro!: good_merge)

subsection \<open>Switches\<close>

lemma sound_switch_init:
  assumes "sound_opt c init st r" "flow r \<noteq> Some ILLEGAL"
  shows "sound_stmt c (SwitchStmt init tag body) st r"
  unfolding sound_stmt_def step.simps
  by (intro allI impI, erule sound_entries_leave [OF _ assms]) (auto dest: structured_parts(4))

lemma clauses_candidates:
  "clauses c body a fallen = (ex, []) \<Longrightarrow> a \<subseteq> st \<Longrightarrow> \<not> missing c st (candidates body)"
proof (induction body arbitrary: fallen ex)
  case (Cons s body)
  show ?case
  proof (cases "\<exists>l b. s = CaseClause l b")
    case True
    then obtain l b where s: "s = CaseClause l b" by blast
    from Cons.prems(1) obtain fallen' ex' where "clauses c body a fallen' = (ex', [])"
      and r: "reads c (concat (opt_list l)) a = []"
      by (auto simp: s Let_def split: prod.splits)
    with Cons.IH Cons.prems(2) have "\<not> missing c st (candidates body)" by blast
    with reads_no_missing [OF r Cons.prems(2)] show ?thesis
      by (auto simp: s candidates_def opt_list_def split: option.splits)
  next
    case False
    then have "clauses c (s # body) a fallen = ([], panicked)" by (cases s) auto
    with Cons.prems show ?thesis by (simp add: panicked_def)
  qed
qed (simp add: candidates_def)

lemma sound_switch:
  assumes "sound_opt c init st (Done st1 ILLEGAL)"
    and "(r = Bad \<and> missing c st1 (exprs_nodes (opt_list tag) @ candidates body)) \<or>
      (r = Done st1 ILLEGAL \<and> \<not> has_default body) \<or>
      (\<exists>before chosen r'. body = before @ chosen \<and> sound_clauses c chosen st1 r' \<and> r = unbreak r')"
  shows "sound_stmt c (SwitchStmt init tag body) st r"
  unfolding sound_stmt_def step.simps
proof (intro allI impI, erule sound_entries_enter [OF _ assms(1)], goal_cases)
  case (3 a ex en ys)
  obtain out m where cl: "clauses c body (x_state en) [] = (out, m)" by fastforce
  from 3(5) have m: "read_opt c tag (x_state en) = []" "m = []"
    "ys = out @ (if has_default body then [] else [en])" by (simp_all add: cl)
  note en = 3(4) and cl = cl [unfolded m]
  from 3(1) have st: "structured_body body" using structured_parts(4) by blast
  from assms(2) show ?case
  proof (elim disjE exE conjE)
    assume "missing c st1 (exprs_nodes (opt_list tag) @ candidates body)"
    with read_opt_no_missing [OF m(1) en] clauses_candidates [OF cl en] show ?thesis by simp
  next
    assume "r = Done st1 ILLEGAL" "\<not> has_default body"
    then show ?thesis using en 3(3) by (simp add: m(3))
  next
    fix before chosen r'
    assume r: "body = before @ chosen" "sound_clauses c chosen st1 r'" "r = unbreak r'"
    from clauses_suffix [OF cl [unfolded r(1)]] obtain fallen out' where
      f: "clauses c chosen (x_state en) fallen = (out', [])" "set out' \<subseteq> set out" by blast
    with r(1,2) st en have "good out' (unbreak r')" by (auto simp: sound_clauses_def)
    then show ?thesis unfolding m(3) r(3) by (rule good_mono) (use f(2) in auto)
  qed
qed (auto dest: structured_parts(4))

lemma sound_clause_end:
  assumes "sound_body c b st r" "flow r \<noteq> Some FALLTHROUGH"
  shows "sound_clauses c (CaseClause l b # rest) st r"
  unfolding sound_clauses_def
proof (intro allI impI)
  fix a fallen ex
  assume cl: "clauses c (CaseClause l b # rest) a fallen = (ex, [])"
    and st: "structured_body (CaseClause l b # rest)" and cov: "covered (exit a ILLEGAL # fallen) ILLEGAL st"
  from cl obtain px out where p: "paths c b (mergeConstructorExits (exit a ILLEGAL # fallen)) = (px, [])"
    and ex: "ex = clause_out px @ out" by (auto simp: Let_def split: prod.splits)
  from st have "structured_body b" using structured_parts(5) by auto
  with assms(1) p covered_merge [OF cov] have g: "good px r" by (auto simp: sound_body_def)
  show "good ex (unbreak r)"
  proof (cases r)
    case (Done st' f)
    show ?thesis
    proof (cases "f = constructorThrow")
      case False
      with g Done obtain e :: constructorExit where e: "e \<in> set px" "x_flow e = f" "x_state e \<subseteq> st'"
        by (auto simp: covered_def)
      with assms(2) Done
      have m: "(if x_flow e = BREAK then e\<lparr>x_flow := ILLEGAL\<rparr> else e) \<in> set ex"
        unfolding ex clause_out_def set_append set_map set_filter
        by (intro UnI1 imageI) (simp add: flow_def)
      have "covered ex (if f = BREAK then ILLEGAL else f) st'"
        unfolding covered_def using e by (intro bexI [OF _ m]) simp
      then show ?thesis using Done by (simp add: unbreak_def split: if_splits)
    qed (simp add: Done unbreak_def)
  qed (use g in simp)
qed

lemma sound_clause_fall:
  assumes "sound_body c b st (Done st1 FALLTHROUGH)" "sound_clauses c rest st1 r"
  shows "sound_clauses c (CaseClause l b # rest) st r"
  unfolding sound_clauses_def
proof (intro allI impI)
  fix a fallen ex
  assume cl: "clauses c (CaseClause l b # rest) a fallen = (ex, [])"
    and st: "structured_body (CaseClause l b # rest)" and cov: "covered (exit a ILLEGAL # fallen) ILLEGAL st"
  from cl obtain px out where p: "paths c b (mergeConstructorExits (exit a ILLEGAL # fallen)) = (px, [])"
    and r: "clauses c rest a (clause_fallen px) = (out, [])" and ex: "ex = clause_out px @ out"
    by (auto simp: Let_def split: prod.splits)
  from st have "structured_body b" using structured_parts(5) by auto
  with assms(1) p covered_merge [OF cov] have "covered px FALLTHROUGH st1"
    by (fastforce simp: sound_body_def)
  then have "covered (clause_fallen px) ILLEGAL st1"
    unfolding covered_def clause_fallen_def by auto
  with assms(2) r st have "good out (unbreak r)" by (auto simp: sound_clauses_def)
  then show "good ex (unbreak r)" unfolding ex by (rule good_mono) simp
qed

subsection \<open>Try statements\<close>

lemma tryPaths_parts:
  assumes "tryPaths c (body # handler # finalizer # rest) a = (ex, [])" "funcLitBody body = Some b"
  obtains bx exits where "paths c b [exit a ILLEGAL] = (bx, [])"
    "\<And>h. funcLitBody handler = Some h \<Longrightarrow> \<exists>hx. paths c h [exit a ILLEGAL] = (hx, []) \<and>
       exits = mergeConstructorExits (filter (\<lambda>e. x_flow e \<noteq> constructorThrow) bx @ hx)"
    "funcLitBody handler = None \<Longrightarrow>
       exits = bx @ (if funcLitBody finalizer = None then [] else [exit a constructorThrow])"
    "funcLitBody finalizer = None \<Longrightarrow> ex = exits"
    "\<And>fin p. funcLitBody finalizer = Some fin \<Longrightarrow> p \<in> set exits \<Longrightarrow>
       \<exists>fx. paths c fin [exit (x_state p) ILLEGAL] = (fx, []) \<and>
         (\<forall>e \<in> set (map (\<lambda>e. if x_flow e = ILLEGAL then e\<lparr>x_flow := x_flow p\<rparr> else e) fx).
            covered ex (x_flow e) (x_state e))"
proof -
  let ?H = "case funcLitBody handler of
      Some h \<Rightarrow> (let (hx, mh) = paths c h [exit a ILLEGAL]
        in (mergeConstructorExits (filter (\<lambda>e. x_flow e \<noteq> constructorThrow) (fst (paths c b [exit a ILLEGAL])) @ hx), mh))
    | None \<Rightarrow> (if funcLitBody finalizer \<noteq> None
        then (fst (paths c b [exit a ILLEGAL]) @ [exit a constructorThrow], []) else (fst (paths c b [exit a ILLEGAL]), []))"
  let ?g = "\<lambda>fin pending. let (fx, mf) = paths c fin [exit (x_state pending) ILLEGAL]
     in (map (\<lambda>e. if x_flow e = ILLEGAL then e\<lparr>x_flow := x_flow pending\<rparr> else e) fx, mf)"
  obtain bx m1 where b: "paths c b [exit a ILLEGAL] = (bx, m1)" by fastforce
  obtain exits m2 where h: "?H = (exits, m2)" by fastforce
  have m: "m1 = []" "m2 = []"
    using assms h by (auto simp: b Let_def split: option.splits prod.splits)
  show thesis
  proof (rule that [of bx exits])
    show "paths c b [exit a ILLEGAL] = (bx, [])" using b m by simp
    show "\<exists>hx. paths c h [exit a ILLEGAL] = (hx, []) \<and>
       exits = mergeConstructorExits (filter (\<lambda>e. x_flow e \<noteq> constructorThrow) bx @ hx)"
      if "funcLitBody handler = Some h" for h
      using h m that by (auto simp: b split: prod.splits)
    show "exits = bx @ (if funcLitBody finalizer = None then [] else [exit a constructorThrow])"
      if "funcLitBody handler = None"
      using h that by (auto simp: b split: if_splits)
    show "ex = exits" if "funcLitBody finalizer = None"
      using assms h that by (simp add: b Let_def split: option.splits prod.splits)
    fix fin and p :: constructorExit
    assume fin: "funcLitBody finalizer = Some fin" and p: "p \<in> set exits"
    have "\<exists>out. flat (?g fin) exits = (out, []) \<and> ex = mergeConstructorExits out"
      using assms h fin by (simp add: b Let_def split: option.splits prod.splits)
    then obtain out where o: "flat (?g fin) exits = (out, [])" "ex = mergeConstructorExits out" by blast
    from flat_ok [OF o(1) p] obtain ys where y: "?g fin p = (ys, [])" "set ys \<subseteq> set out" by blast
    have "\<forall>e \<in> set ys. covered ex (x_flow e) (x_state e)"
      unfolding o(2) using y(2) by (intro ballI covered_merge) (auto simp: covered_def)
    then show "\<exists>fx. paths c fin [exit (x_state p) ILLEGAL] = (fx, []) \<and>
         (\<forall>e \<in> set (map (\<lambda>e. if x_flow e = ILLEGAL then e\<lparr>x_flow := x_flow p\<rparr> else e) fx).
            covered ex (x_flow e) (x_state e))"
      using y(1) by (auto split: prod.splits)
  qed
qed

lemma resume_good:
  assumes "funcLitBody finalizer = Some fin" "structured_body fin" "sound_body c fin st1 r"
    and "x_state p \<subseteq> st1" "paths c fin [exit (x_state p) ILLEGAL] = (fx, [])"
    and "\<forall>e \<in> set (map (\<lambda>e. if x_flow e = ILLEGAL then e\<lparr>x_flow := x_flow p\<rparr> else e) fx).
            covered ex (x_flow e) (x_state e)"
  shows "good ex (resume (x_flow p) r)"
proof (cases r)
  case Bad
  with sound_bodyD [OF assms(3,5,2,4)] show ?thesis by simp
next
  case (Done st2 g)
  show ?thesis
  proof (cases "g = constructorThrow")
    case False
    with sound_bodyD [OF assms(3,5,2,4)] Done obtain e :: constructorExit
      where e: "e \<in> set fx" "x_flow e = g" "x_state e \<subseteq> st2" by (auto simp: covered_def)
    have "covered ex (if g = ILLEGAL then x_flow p else g) (x_state e)"
      using assms(6) [unfolded set_map Set.ball_simps(9), rule_format, OF e(1)] e(2)
      by (simp split: if_splits)
    with e(3) Done show ?thesis by (auto simp: resume_def split: if_splits dest: covered_more)
  qed (simp add: Done resume_def)
qed

lemma sound_try:
  assumes "callNamed x ''GhiTry'' = Some (body # handler # finalizer # rest)" "funcLitBody body = Some b"
    and "\<And>bx exits ex a. structured (NE x) \<Longrightarrow> a \<subseteq> st \<Longrightarrow> paths c b [exit a ILLEGAL] = (bx, []) \<Longrightarrow>
      (\<And>h. funcLitBody handler = Some h \<Longrightarrow> \<exists>hx. paths c h [exit a ILLEGAL] = (hx, []) \<and>
         exits = mergeConstructorExits (filter (\<lambda>e. x_flow e \<noteq> constructorThrow) bx @ hx)) \<Longrightarrow>
      (funcLitBody handler = None \<Longrightarrow>
         exits = bx @ (if funcLitBody finalizer = None then [] else [exit a constructorThrow])) \<Longrightarrow>
      (funcLitBody finalizer = None \<Longrightarrow> ex = exits) \<Longrightarrow>
      (\<And>fin p st1 r. funcLitBody finalizer = Some fin \<Longrightarrow> p \<in> set exits \<Longrightarrow> x_state p \<subseteq> st1 \<Longrightarrow>
         sound_body c fin st1 r \<Longrightarrow> good ex (resume (x_flow p) r)) \<Longrightarrow> good ex r"
  shows "sound_stmt c (ExprStmt x) st r"
  unfolding sound_stmt_def
proof (intro allI impI)
  fix a ex
  assume s: "step c (ExprStmt x) a = (ex, [])" and st: "structured (NS (ExprStmt x))" and a: "a \<subseteq> st"
  from st have sx: "structured (NE x)" by (rule structured_parts(7))
  from assms(1) have "callNamed x ''parent'' = None"
    by (auto simp: callNamed_def split: expr.splits if_splits)
  with s assms(1) have t: "tryPaths c (body # handler # finalizer # rest) a = (ex, [])"
    by (simp del: tryPaths.simps split: if_splits)
  from t assms(2) show "good ex r"
  proof (rule tryPaths_parts)
    fix bx exits
    assume p: "paths c b [exit a ILLEGAL] = (bx, [])"
    and h: "\<And>h. funcLitBody handler = Some h \<Longrightarrow> \<exists>hx. paths c h [exit a ILLEGAL] = (hx, []) \<and>
       exits = mergeConstructorExits (filter (\<lambda>e. x_flow e \<noteq> constructorThrow) bx @ hx)"
    and n: "funcLitBody handler = None \<Longrightarrow>
       exits = bx @ (if funcLitBody finalizer = None then [] else [exit a constructorThrow])"
    and f: "funcLitBody finalizer = None \<Longrightarrow> ex = exits"
    and g: "\<And>fin p. funcLitBody finalizer = Some fin \<Longrightarrow> p \<in> set exits \<Longrightarrow>
       \<exists>fx. paths c fin [exit (x_state p) ILLEGAL] = (fx, []) \<and>
         (\<forall>e \<in> set (map (\<lambda>e. if x_flow e = ILLEGAL then e\<lparr>x_flow := x_flow p\<rparr> else e) fx).
            covered ex (x_flow e) (x_state e))"
    have fin: "good ex (resume (x_flow p) r)" if "funcLitBody finalizer = Some fin" "p \<in> set exits"
      "x_state p \<subseteq> st1" "sound_body c fin st1 r" for fin p st1 r
      using g [OF that(1,2)] resume_good [OF that(1) structured_try(3) [OF sx assms(1) that(1)] that(4,3)]
      by blast
    show "good ex r" by (rule assms(3) [OF sx a p h n f fin])
  qed
qed

lemma sound_try_done:
  assumes "callNamed x ''GhiTry'' = Some (body # handler # finalizer # rest)" "funcLitBody body = Some b"
    "sound_body c b st r" "flow r \<noteq> Some constructorThrow \<or> funcLitBody handler = None"
    "funcLitBody finalizer = None \<or> r = Bad"
  shows "sound_stmt c (ExprStmt x) st r"
proof (rule sound_try [OF assms(1,2)], goal_cases)
  case (1 bx exits ex a)
  have g: "good bx r"
    using sound_bodyD [OF assms(3) 1(3) structured_try(1) [OF 1(1) assms(1,2)] 1(2)] .
  show ?case
  proof (cases r)
    case (Done st1 f)
    have ex: "ex = exits" using 1(6) assms(5) Done by simp
    show ?thesis
    proof (cases "funcLitBody handler")
      case None
      then show ?thesis using 1(5) g by (auto simp: ex intro: good_mono)
    next
      case (Some h)
      with assms(4) Done have "f \<noteq> constructorThrow" by (simp add: flow_def)
      with g Done have "covered (filter (\<lambda>e. x_flow e \<noteq> constructorThrow) bx) f st1"
        by (auto simp: covered_def)
      with 1(4) [OF Some] Done show ?thesis by (auto simp: ex intro!: covered_merge)
    qed
  qed (use g in simp)
qed

lemma handler_covers:
  assumes "structured (NE x)" "callNamed x ''GhiTry'' = Some (body # handler # finalizer # rest)"
    and "funcLitBody handler = Some h" "sound_body c h st1 r" "a \<subseteq> st1"
    and "\<exists>hx. paths c h [exit a ILLEGAL] = (hx, []) \<and>
         exits = mergeConstructorExits (filter (\<lambda>e. x_flow e \<noteq> constructorThrow) bx @ hx)"
  shows "good exits r"
    and "funcLitBody finalizer \<noteq> None \<Longrightarrow> covered exits constructorThrow a"
proof -
  from assms(6) obtain hx where h: "paths c h [exit a ILLEGAL] = (hx, [])"
    and exits: "exits = mergeConstructorExits (filter (\<lambda>e. x_flow e \<noteq> constructorThrow) bx @ hx)" by blast
  have "good hx r"
    using sound_bodyD [OF assms(4) h structured_try(2) [OF assms(1-3)] assms(5)] .
  then show "good exits r" unfolding exits by (intro good_merge) (rule good_mono, auto)
  assume "funcLitBody finalizer \<noteq> None"
  from structured_try(4) [OF assms(1,2) this assms(3)] obtain s where s: "h = [s]" "rethrows (Some s)"
    by blast
  from h obtain sx where "step c s a = (sx, [])" "hx = mergeConstructorExits sx"
    by (auto simp: s(1) flat_def Let_def split: prod.splits)
  with rethrows_throws [OF s(2)] have "covered hx constructorThrow a" by (auto intro: covered_merge)
  then show "covered exits constructorThrow a" unfolding exits by (intro covered_merge) simp
qed

lemma sound_try_caught:
  assumes "callNamed x ''GhiTry'' = Some (body # handler # finalizer # rest)" "funcLitBody body = Some b"
    "st \<subseteq> st1" "funcLitBody handler = Some h" "sound_body c h st1 r" "funcLitBody finalizer = None \<or> r = Bad"
  shows "sound_stmt c (ExprStmt x) st r"
proof (rule sound_try [OF assms(1,2)], goal_cases)
  case (1 bx exits ex a)
  from 1(2) assms(3) have "a \<subseteq> st1" by simp
  from handler_covers(1) [OF 1(1) assms(1,4,5) this 1(4) [OF assms(4)]] 1(6) assms(6)
  show ?case by auto
qed

lemma sound_try_finally:
  assumes "callNamed x ''GhiTry'' = Some (body # handler # finalizer # rest)" "funcLitBody body = Some b"
    "sound_body c b st (Done st1 f)" "st \<subseteq> st1" "f \<noteq> constructorThrow \<or> funcLitBody handler = None"
    "funcLitBody finalizer = Some fin" "sound_body c fin st1 r"
  shows "sound_stmt c (ExprStmt x) st (resume f r)"
proof (rule sound_try [OF assms(1,2)], goal_cases)
  case (1 bx exits ex a)
  have g: "good bx (Done st1 f)"
    using sound_bodyD [OF assms(3) 1(3) structured_try(1) [OF 1(1) assms(1,2)] 1(2)] .
  have "covered exits f st1"
  proof (cases "funcLitBody handler")
    case None
    then show ?thesis using 1(2,5) g assms(4,6) by auto
  next
    case (Some h)
    with assms(5) have "f \<noteq> constructorThrow" by simp
    with g have "covered (filter (\<lambda>e. x_flow e \<noteq> constructorThrow) bx) f st1"
      by (auto simp: covered_def)
    with 1(4) [OF Some] show ?thesis by (auto intro!: covered_merge)
  qed
  then show ?case using 1(7) [OF assms(6) _ _ assms(7)] by (auto simp: covered_def)
qed

lemma sound_try_caught_finally:
  assumes "callNamed x ''GhiTry'' = Some (body # handler # finalizer # rest)" "funcLitBody body = Some b"
    "st \<subseteq> st1" "funcLitBody handler = Some h" "sound_body c h st1 (Done st2 f)" "st1 \<subseteq> st2"
    "funcLitBody finalizer = Some fin" "sound_body c fin st2 r"
  shows "sound_stmt c (ExprStmt x) st (resume f r)"
proof (rule sound_try [OF assms(1,2)], goal_cases)
  case (1 bx exits ex a)
  from 1(2) assms(3,6) have a: "a \<subseteq> st1" "a \<subseteq> st2" by auto
  note cov = handler_covers [OF 1(1) assms(1,4,5) a(1) 1(4) [OF assms(4)]]
  have "covered exits f st2"
    using cov assms(7) a(2) by (cases "f = constructorThrow") (auto dest: covered_more)
  then show ?case using 1(7) [OF assms(7) _ _ assms(8)] by (auto simp: covered_def)
qed

subsection \<open>All runs\<close>

lemma exec_sound:
  "exec c s st r \<Longrightarrow> sound_stmt c s st r"
  "execs c ss st r \<Longrightarrow> sound_body c ss st r"
  "exec_opt c os st r \<Longrightarrow> sound_opt c os st r"
  "exec_for c cond post body st r \<Longrightarrow> sound_for c cond post body st r"
  "exec_range c body st r \<Longrightarrow> sound_range c body st r"
  "exec_clauses c cls st r \<Longrightarrow> sound_clauses c cls st r"
proof (induction rule: exec_execs_exec_opt_exec_for_exec_range_exec_clauses.inducts)
  case (loop_bad st cond post body)
  then show ?case using read_opt_no_missing by (auto simp: sound_for_def)
next
  case (loop_break body st st1 cond post)
  then show ?case using sound_for_exit [of c body st "Done st1 BREAK"]
    by (simp add: flow_def unbreak_def)
next
  case (loop_out body st r cond post)
  then have "sound_for c cond post body st (unbreak r)" by (intro sound_for_exit) auto
  moreover have "unbreak r = r" using loop_out(3) by (cases r) (auto simp: unbreak_def flow_def)
  ultimately show ?case by simp
next
  case (loop_post body st st1 f post r cond)
  then show ?case using sound_for_post
    by (cases r) (auto simp: flow_def)
next
  case (loop_next body st st1 f post st2 cond r)
  then have "st \<subseteq> st2" using exec_grows(2,3) by fastforce
  with loop_next show ?case by (blast intro: sound_for_next)
next
  case (range_break body st st1)
  then show ?case using exec_grows(2) by (fastforce simp: sound_range_def)
next
  case (range_next body st st1 f r)
  then have "st \<subseteq> st1" using exec_grows(2) by fastforce
  with range_next show ?case unfolding sound_range_def by blast
next
  case (try_caught x body handler finalizer rest b st st1 h r)
  then show ?case using exec_grows(2) sound_try_caught by fastforce
next
  case (try_finally x body handler finalizer rest b st st1 f fin r)
  then show ?case using exec_grows(2) sound_try_finally by fastforce
next
  case (try_caught_finally x body handler finalizer rest b st st1 h st2 f fin r)
  then have "st \<subseteq> st1" "st1 \<subseteq> st2" using exec_grows(2) by fastforce+
  with try_caught_finally show ?case by (blast intro: sound_try_caught_finally)
qed (blast intro: sound_seq_stop sound_seq_cons sound_opt_some sound_assign_bad sound_assign_done
  sound_expr sound_simple sound_decl sound_return sound_branch sound_block sound_if_init sound_if
  sound_for_init sound_for_loop sound_range_exit sound_range_stmt sound_switch_init sound_switch
  sound_clause_end sound_clause_fall sound_try_done sound_throw
  | simp add: sound_body_def sound_opt_def sound_for_def sound_range_def sound_stmt_def structured_parts)+

section \<open>Properties of the check\<close>

lemma no_rejections: "check_error rs = None \<longleftrightarrow> rs = []"
  by (simp add: check_error_def split: list.splits)

lemma complete_Nil: "complete c s = [] \<longleftrightarrow> set (cc_required c) \<subseteq> s"
proof -
  have "(if a then [] else if b then [p] else [q]) = [] \<longleftrightarrow> a" for a b and p q :: rejection
    by simp
  then show ?thesis unfolding complete_def concat_eq_Nil_conv set_map ball_simps
    by (simp only: subset_eq)
qed

lemma accepted_runs:
  assumes "validateConstructor c body = None" "structured_body body" "execs c body {} r"
  shows "\<exists>st f. r = Done st f \<and> (f \<in> {ILLEGAL, RETURN} \<longrightarrow> set (cc_required c) \<subseteq> st)"
proof -
  obtain ex m where p: "paths c body [exit {} ILLEGAL] = (ex, m)" by fastforce
  have rs: "m @ concat (map (\<lambda>e. if x_flow e = ILLEGAL \<or> x_flow e = RETURN
      then complete c (x_state e) else []) ex) = []"
    using assms(1) by (simp only: validateConstructor_def p Let_def prod.case no_rejections)
  then have m: "m = []" by simp
  have compl: "set (cc_required c) \<subseteq> x_state e"
    if "e \<in> set ex" "x_flow e = ILLEGAL \<or> x_flow e = RETURN" for e :: constructorExit
    using rs that unfolding complete_Nil [symmetric] by auto
  have "good ex r"
    using sound_bodyD [OF exec_sound(2) [OF assms(3)] p [unfolded m] assms(2)] by simp
  then obtain st f where r: "r = Done st f" and cov: "f = constructorThrow \<or> covered ex f st"
    by (cases r) auto
  have "set (cc_required c) \<subseteq> st" if "f \<in> {ILLEGAL, RETURN}"
  proof -
    from cov that obtain e :: constructorExit where "e \<in> set ex" "x_flow e = f" "x_state e \<subseteq> st"
      by (auto simp: covered_def)
    with compl that show ?thesis by blast
  qed
  with r show ?thesis by blast
qed


text \<open>Examples: a class with the required fields \<open>x\<close> and \<open>m\<close>.\<close>

definition example_check :: "string list \<Rightarrow> constructorCheck" where
  "example_check required =
     \<lparr>cc_name = ''Box'', cc_pos = 0, cc_field = (\<lambda>f. f \<in> set required), cc_required = required\<rparr>"

definition set_field :: "string \<Rightarrow> string \<Rightarrow> stmt" where
  "set_field f v = AssignStmt [SelectorExpr (Ident 1 ''this'') 2 f] ASSIGN [Ident 3 v]"

lemma execs_single: "exec c s st (Done st1 f) \<Longrightarrow> execs c [s] st (Done st1 f)"
  by (cases "f = ILLEGAL") (auto simp: flow_def intro: execs_stop execs_cons execs_nil)

lemma exec_set_field: "exec c (set_field f v) st (Done (insert f st) ILLEGAL)"
  using assign_done [of c "[SelectorExpr (Ident 1 ''this'') 2 f]" ASSIGN "[Ident 3 v]" st]
  by (simp add: set_field_def assigned_def)

definition example_branches :: "stmt list" where
  "example_branches =
     [IfStmt None (Ident 4 ''ok'') [set_field ''x'' ''a''] (Some (BlockStmt [set_field ''x'' ''b'']))]"


text \<open>
  C17: the check misses an early return inside a type switch. It accepts the constructor of a class
  with a required field \<open>x\<close> that returns from a type switch before it assigns \<open>x\<close>, and this
  constructor has a run that returns with \<open>x\<close> unassigned.
\<close>

definition example_type_switch :: "stmt list" where
  "example_type_switch =
     [TypeSwitchStmt None (ExprStmt (TypeAssertExpr (Ident 4 ''v'') None))
        [CaseClause (Some [Ident 5 ''int'']) [ReturnStmt 6 []]],
      set_field ''x'' ''a'']"

theorem constructor_type_switch_return:
  "validateConstructor (example_check [''x'']) example_type_switch = None \<and>
   execs (example_check [''x'']) example_type_switch {} (Done {} RETURN) \<and>
   \<not> set (cc_required (example_check [''x''])) \<subseteq> {}"
proof (intro conjI)
  show "validateConstructor (example_check [''x'']) example_type_switch = None"
    by code_simp
  let ?c = "example_check [''x'']"
  have "exec ?c (TypeSwitchStmt None (ExprStmt (TypeAssertExpr (Ident 4 ''v'') None))
      [CaseClause (Some [Ident 5 ''int'']) [ReturnStmt 6 []]]) {} (unbreak (Done {} RETURN))"
    by (rule type_switch_clause)
      (auto simp: callNamed_def intro: opt_none expr_done execs_single return_done)
  then show "execs ?c example_type_switch {} (Done {} RETURN)"
    unfolding example_type_switch_def
    by (intro execs_stop) (auto simp: unbreak_def flow_def)
qed (simp add: example_check_def)

text \<open>
  C18: an assignment with several targets is checked as if its targets were assigned one after the
  other. The check accepts \<open>this.x, m[this.x] = a, b\<close> although Go evaluates the index \<open>this.x\<close>
  before it assigns \<open>x\<close>: there is a run that reads the unassigned field.
\<close>

definition example_swap :: "stmt list" where
  "example_swap =
     [AssignStmt [SelectorExpr (Ident 1 ''this'') 2 ''x'',
        IndexExpr (Ident 3 ''m'') (SelectorExpr (Ident 4 ''this'') 5 ''x'')]
        ASSIGN [Ident 6 ''a'', Ident 7 ''b'']]"

theorem constructor_parallel_assignment:
  "validateConstructor (example_check [''x'']) example_swap = None \<and>
   execs (example_check [''x'']) example_swap {} Bad"
proof
  show "validateConstructor (example_check [''x'']) example_swap = None"
    by code_simp
  have "missing (example_check [''x'']) {} (operands
     [SelectorExpr (Ident 1 ''this'') 2 ''x'',
        IndexExpr (Ident 3 ''m'') (SelectorExpr (Ident 4 ''this'') 5 ''x'')] ASSIGN
     [Ident 6 ''a'', Ident 7 ''b''])"
    by code_simp
  then show "execs (example_check [''x'']) example_swap {} Bad"
    unfolding example_swap_def by (intro execs_stop assign_bad) (auto simp: flow_def)
qed

end
