(* ===== verification/Construction.thy ===== *)
theory Construction
  imports ClassCheck ConstructorSound
begin

text \<open>
  Which fields a constructor must initialize, and the check of all constructors of a program
  (\<open>sourceNeedsInitialization\<close> and \<open>validateConstruction\<close> of \<open>internal/compiler/construction.go\<close>,
  \<open>mentionsTypeParameter\<close> of \<open>generics.go\<close>).
\<close>

section \<open>Types that have no zero value\<close>

text \<open>The declaration of a type in a namespace: the first one, with its file.\<close>

definition type_declaration :: "program \<Rightarrow> nameSpace \<Rightarrow> string \<Rightarrow> (nat \<times> expr) option" where
  "type_declaration p ns name =
     (case find (\<lambda>(f, d). fst d = name) (concat (map (\<lambda>f. map (Pair f) (ft_types (file_at p f))) (nm_files ns))) of
        None \<Rightarrow> None
      | Some (f, d) \<Rightarrow> Some (f, snd d))"

text \<open>The first namespace that an import of the file names by an alias.\<close>

definition selected_namespace :: "program \<Rightarrow> nat \<Rightarrow> string \<Rightarrow> nameSpace option" where
  "selected_namespace p f alias =
     find (\<lambda>x. True) (concat (map (\<lambda>(name, path).
       filter (\<lambda>target. namespacePath (nm_name target) = path
           \<and> (case name of None \<Rightarrow> nm_goName target | Some n \<Rightarrow> n) = alias) (p_ordered p))
       (ft_imports (file_at p f))))"

text \<open>What the type switch of \<open>sourceNeedsInitialization\<close> does with an expression.\<close>

datatype typeShape =
    Direct bool
  | Inner expr
  | Members "field list"
  | Named nat string
  | Selected string string

fun type_shape :: "expr \<Rightarrow> typeShape" where
  "type_shape (IndexExpr x i) = Direct True"
| "type_shape (IndexListExpr x is) = Direct True"
| "type_shape (ParenExpr x) = Inner x"
| "type_shape (ArrayType None e) = Direct False"
| "type_shape (ArrayType (Some l) e) =
     (if (case l of BasicLit t v \<Rightarrow> v = ''0'' | _ \<Rightarrow> False) then Direct False else Inner e)"
| "type_shape (StructType fs) = Members fs"
| "type_shape (Ident q n) = Named q n"
| "type_shape (SelectorExpr (Ident q alias) r n) = Selected alias n"
| "type_shape e = Direct False"

lemma type_shape_size [ast_size]:
  "type_shape e = Inner x \<Longrightarrow> size x < size e" "type_shape e = Members fs \<Longrightarrow> size_list size fs < size e"
  by (cases e rule: type_shape.cases; auto split: if_splits)+

lemma field_type_size: "2 * size (field_type fl) < Suc (2 * size fl + n)"
  by (cases fl) simp

text \<open>
  \<open>sourceNeedsInitialization\<close> with the keys seen so far. A name is unfolded at most once; the fuel
  counts the unfoldings that are left, and \<^const>\<open>None\<close> is a search deeper than that.
\<close>

definition is_class :: "goText \<Rightarrow> program \<Rightarrow> expr \<Rightarrow> nat \<Rightarrow> nameSpace \<Rightarrow> bool" where
  "is_class go p e f ns \<longleftrightarrow> classNamed go p (expressionText go e) f (nm_name ns) \<noteq> None"

function (sequential)
  needs :: "goText \<Rightarrow> program \<Rightarrow> nat \<Rightarrow> expr \<Rightarrow> nat \<Rightarrow> nameSpace \<Rightarrow> string list \<Rightarrow> (bool \<times> string list) option"
  and needs_fields :: "goText \<Rightarrow> program \<Rightarrow> nat \<Rightarrow> field list \<Rightarrow> nat \<Rightarrow> nameSpace \<Rightarrow> string list \<Rightarrow> (bool \<times> string list) option"
  and needs_name :: "goText \<Rightarrow> program \<Rightarrow> nat \<Rightarrow> nat \<Rightarrow> string \<Rightarrow> nat \<Rightarrow> nameSpace \<Rightarrow> string list \<Rightarrow> (bool \<times> string list) option"
where
  "needs go p k e f ns seen =
     (if is_class go p e f ns then Some (True, seen)
      else
        case type_shape e of
          Direct b \<Rightarrow> Some (b, seen)
        | Inner x \<Rightarrow> needs go p k x f ns seen
        | Members fs \<Rightarrow> needs_fields go p k fs f ns seen
        | Named q n \<Rightarrow> needs_name go p k q n f ns seen
        | Selected alias n \<Rightarrow>
            (case selected_namespace p f alias of
               None \<Rightarrow> Some (False, seen)
             | Some target \<Rightarrow> needs_name go p k 0 n (hd (nm_files target)) target seen))"
| "needs_fields go p k [] f ns seen = Some (False, seen)"
| "needs_fields go p k (fl # fs) f ns seen =
     (case needs go p k (field_type fl) f ns seen of
        None \<Rightarrow> None
      | Some (True, seen') \<Rightarrow> Some (True, seen')
      | Some (False, seen') \<Rightarrow> needs_fields go p k fs f ns seen')"
| "needs_name go p k q n f ns seen =
     (if is_class go p (Ident q n) f ns then Some (True, seen)
      else
        let key = class_key (nm_name ns) n in
        if key \<in> set seen then Some (False, seen)
        else
          case type_declaration p ns n of
            None \<Rightarrow> Some (False, key # seen)
          | Some (source, d) \<Rightarrow>
              (case k of 0 \<Rightarrow> None | Suc k' \<Rightarrow> needs go p k' d source ns (key # seen)))"
  by pat_completeness auto
termination
  by (relation "measures
      [\<lambda>x. case x of Inl (go, p, k, e, f, ns, seen) \<Rightarrow> k | Inr (Inl (go, p, k, fs, f, ns, seen)) \<Rightarrow> k
         | Inr (Inr (go, p, k, q, n, f, ns, seen)) \<Rightarrow> k,
       \<lambda>x. case x of Inl (go, p, k, e, f, ns, seen) \<Rightarrow> Suc (2 * size e)
         | Inr (Inl (go, p, k, fs, f, ns, seen)) \<Rightarrow> 2 * size_list size fs
         | Inr (Inr (go, p, k, q, n, f, ns, seen)) \<Rightarrow> 0]") (auto simp: field_type_size dest: type_shape_size)

declare needs.simps [simp del] needs_name.simps [simp del]

text \<open>The names that can be unfolded: those of the declared types.\<close>

definition declared_types :: "program \<Rightarrow> nat" where
  "declared_types p =
     length (concat (map (\<lambda>ns. concat (map (\<lambda>f. ft_types (file_at p f)) (nm_files ns))) (p_ordered p)))"

definition sourceNeedsInitialization :: "goText \<Rightarrow> program \<Rightarrow> expr \<Rightarrow> nat \<Rightarrow> nameSpace \<Rightarrow> bool option" where
  "sourceNeedsInitialization go p e f ns = map_option fst (needs go p (Suc (declared_types p)) e f ns [])"

section \<open>The check of a program\<close>

fun mentionsTypeParameter :: "string list \<Rightarrow> expr \<Rightarrow> bool" where
  "mentionsTypeParameter params (Ident q n) = (n \<in> set params)"
| "mentionsTypeParameter params (ParenExpr x) = mentionsTypeParameter params x"
| "mentionsTypeParameter params (ArrayType l e) = (l \<noteq> None \<and> mentionsTypeParameter params e)"
| "mentionsTypeParameter params (StructType fs) =
     list_ex (\<lambda>fl. case fl of Field names t \<Rightarrow> mentionsTypeParameter params t) fs"
| "mentionsTypeParameter params e = False"

definition calls_parent :: "stmt list \<Rightarrow> bool" where
  "calls_parent body = list_ex (\<lambda>s. case s of ExprStmt x \<Rightarrow> callNamed x ''parent'' \<noteq> None | _ \<Rightarrow> False) body"

text \<open>
  The required names of a class: fields whose type has no zero value. The order of the list stands for
  that of the ranges over the Go map.
\<close>

definition required_field :: "goText \<Rightarrow> program \<Rightarrow> nameSpace \<Rightarrow> nat \<Rightarrow> nat \<Rightarrow> fieldDecl \<Rightarrow> bool" where
  "required_field go p ns f c fd \<longleftrightarrow>
     sourceNeedsInitialization go p (fd_type fd) f ns = Some True
     \<or> mentionsTypeParameter (classParameterNames (class_at p c)) (fd_type fd)"

definition required :: "goText \<Rightarrow> program \<Rightarrow> nameSpace \<Rightarrow> nat \<Rightarrow> nat \<Rightarrow> stmt list \<Rightarrow> string list" where
  "required go p ns f c body =
     remdups ((if c_parent (class_at p c) \<noteq> None \<and> calls_parent body then [''@parent''] else [])
       @ map fd_name (filter (required_field go p ns f c) (c_fields (class_at p c))))"

definition constructor_check :: "goText \<Rightarrow> program \<Rightarrow> nameSpace \<Rightarrow> nat \<Rightarrow> nat \<Rightarrow> stmt list \<Rightarrow> constructorCheck" where
  "constructor_check go p ns f c body =
     \<lparr>cc_name = c_name (class_at p c), cc_pos = 0,
      cc_field = (\<lambda>name. case class_field p c name of Some (Some fd) \<Rightarrow> True | _ \<Rightarrow> False),
      cc_required = required go p ns f c body\<rparr>"

text \<open>\<open>body c\<close> is the body of the constructor of \<open>c\<close>; the first rejection ends the check.\<close>

fun validate_classes :: "goText \<Rightarrow> program \<Rightarrow> (nat \<Rightarrow> stmt list) \<Rightarrow> (nameSpace \<times> nat \<times> nat) list \<Rightarrow> rejection option" where
  "validate_classes go p body [] = None"
| "validate_classes go p body ((ns, f, c) # ds) =
     (if c_interface (class_at p c) then validate_classes go p body ds
      else
        case validateConstructor (constructor_check go p ns f c (body c)) (body c) of
          Some r \<Rightarrow> Some r
        | None \<Rightarrow> validate_classes go p body ds)"

definition validateConstruction :: "goText \<Rightarrow> program \<Rightarrow> (nat \<Rightarrow> stmt list) \<Rightarrow> rejection option" where
  "validateConstruction go p body = validate_classes go p body (declarations p)"

section \<open>What the search decides\<close>

text \<open>
  The types that have no zero value: classes, parameterized types, and types that hold one of them as
  an array element or a field, through any chain of named types.
\<close>

inductive no_zero :: "goText \<Rightarrow> program \<Rightarrow> expr \<Rightarrow> nat \<Rightarrow> nameSpace \<Rightarrow> bool" for go p where
  class_type: "is_class go p e f ns \<Longrightarrow> no_zero go p e f ns"
| direct_type: "type_shape e = Direct True \<Longrightarrow> no_zero go p e f ns"
| inner_type: "type_shape e = Inner x \<Longrightarrow> no_zero go p x f ns \<Longrightarrow> no_zero go p e f ns"
| member_type: "type_shape e = Members fs \<Longrightarrow> fl \<in> set fs \<Longrightarrow> no_zero go p (field_type fl) f ns \<Longrightarrow> no_zero go p e f ns"
| named_type: "type_shape e = Named q n \<Longrightarrow> type_declaration p ns n = Some (source, d) \<Longrightarrow>
    no_zero go p d source ns \<Longrightarrow> no_zero go p e f ns"
| selected_type: "type_shape e = Selected alias n \<Longrightarrow> selected_namespace p f alias = Some target \<Longrightarrow>
    no_zero go p (Ident 0 n) (hd (nm_files target)) target \<Longrightarrow> no_zero go p e f ns"

text \<open>A type whose names are all among the keys \<open>S\<close> and that is no reason for a True on its way.\<close>

function (sequential)
  settled :: "goText \<Rightarrow> program \<Rightarrow> string set \<Rightarrow> expr \<Rightarrow> nat \<Rightarrow> nameSpace \<Rightarrow> bool"
where
  "settled go p S e f ns \<longleftrightarrow>
     \<not> is_class go p e f ns \<and>
     (case type_shape e of
        Direct b \<Rightarrow> \<not> b
      | Inner x \<Rightarrow> settled go p S x f ns
      | Members fs \<Rightarrow> (\<forall>fl \<in> set fs. settled go p S (field_type fl) f ns)
      | Named q n \<Rightarrow> class_key (nm_name ns) n \<in> S
      | Selected alias n \<Rightarrow>
          (case selected_namespace p f alias of
             None \<Rightarrow> True
           | Some target \<Rightarrow> \<not> is_class go p (Ident 0 n) (hd (nm_files target)) target \<and> class_key (nm_name target) n \<in> S))"
  by pat_completeness auto
termination
proof (relation "measure (\<lambda>(go, p, S, e, f, ns). size e)")
  fix fs :: "field list" and fl e
  assume "type_shape e = Members fs" "fl \<in> set fs"
  then have "size_list size fs < size e" "size fl < size_list size fs" by (simp_all add: ast_size)
  with field_type_size [of fl 0] show "((go, p, S, field_type fl, f, ns), go, p, S, e, f, ns)
      \<in> measure (\<lambda>(go, p, S, e, f, ns). size e)" for go p S f and ns :: nameSpace by simp
qed (auto simp: ast_size)

declare settled.simps [simp del]

lemma settled_mono: "settled go p S e f ns \<Longrightarrow> S \<subseteq> S' \<Longrightarrow> settled go p S' e f ns"
proof (induction go p S e f ns rule: settled.induct)
  case (1 go p S e f ns)
  then show ?case
    by (subst settled.simps, subst (asm) (3) settled.simps) (auto split: typeShape.splits option.splits)
qed

section \<open>Keys\<close>

text \<open>An identifier has no dot, and the namespaces of a program have different names, so a key has one meaning.\<close>

definition dotless :: "string \<Rightarrow> bool" where
  "dotless n \<longleftrightarrow> CHR ''.'' \<notin> set n"

function (sequential) plain_type :: "expr \<Rightarrow> bool" where
  "plain_type e =
     (case type_shape e of
        Direct b \<Rightarrow> True
      | Inner x \<Rightarrow> plain_type x
      | Members fs \<Rightarrow> list_all (\<lambda>fl. plain_type (field_type fl)) fs
      | Named q n \<Rightarrow> dotless n
      | Selected alias n \<Rightarrow> dotless n)"
  by pat_completeness auto
termination
proof (relation "measure size")
  fix fs :: "field list" and fl e
  assume "type_shape e = Members fs" "fl \<in> set fs"
  then have "size_list size fs < size e" "size fl < size_list size fs" by (simp_all add: ast_size)
  with field_type_size [of fl 0] show "(field_type fl, e) \<in> measure size" by simp
qed (auto simp: ast_size)

declare plain_type.simps [simp del]

definition plain_program :: "program \<Rightarrow> bool" where
  "plain_program p \<longleftrightarrow> distinct (map nm_name (p_ordered p)) \<and>
     list_all (\<lambda>f. list_all (\<lambda>d. plain_type (snd d)) (ft_types f)) (p_files p) \<and>
     list_all (\<lambda>ns. nm_files ns \<noteq> [] \<and> list_all (\<lambda>f. f < length (p_files p)) (nm_files ns)) (p_ordered p)"

lemma after_key: "dotless n \<Longrightarrow> takeWhile (\<lambda>c. c \<noteq> CHR ''.'') (rev (class_key ns n)) = rev n"
  unfolding class_key_def by (simp, subst takeWhile_append2) (auto simp: dotless_def)

lemma class_key_inj:
  assumes "class_key ns n = class_key ns' n'" "dotless n" "dotless n'"
  shows "ns = ns' \<and> n = n'"
proof -
  from after_key [OF assms(2), of ns] after_key [OF assms(3), of ns'] assms(1) have "n = n'" by simp
  with assms(1) show ?thesis by (simp add: class_key_def)
qed

lemma same_namespace:
  "plain_program p \<Longrightarrow> ns \<in> set (p_ordered p) \<Longrightarrow> ns' \<in> set (p_ordered p) \<Longrightarrow> nm_name ns = nm_name ns' \<Longrightarrow> ns = ns'"
  by (auto simp: plain_program_def distinct_map inj_on_def)

lemma find_mem: "find P xs = Some x \<Longrightarrow> x \<in> set xs \<and> P x"
  by (auto simp: find_Some_iff)

lemma declaration_plain:
  assumes "plain_program p" "ns \<in> set (p_ordered p)" "type_declaration p ns n = Some (source, d)"
  shows "plain_type d"
proof -
  let ?ds = "concat (map (\<lambda>f. map (Pair f) (ft_types (file_at p f))) (nm_files ns))"
  from assms(3) obtain dd where dd: "find (\<lambda>(f, d). fst d = n) ?ds = Some (source, dd)" and d: "d = snd dd"
    unfolding type_declaration_def by (auto split: option.splits)
  from find_mem [OF dd] have "source \<in> set (nm_files ns)" "dd \<in> set (ft_types (file_at p source))" by auto
  with assms(1,2) have "source < length (p_files p)" "dd \<in> set (ft_types (file_at p source))"
    by (auto simp: plain_program_def list_all_iff)
  with assms(1) d show ?thesis by (auto simp: plain_program_def list_all_iff)
qed

lemma selected_ordered:
  assumes "selected_namespace p f alias = Some target"
  shows "target \<in> set (p_ordered p)"
  using find_mem [OF assms [unfolded selected_namespace_def]] by auto

section \<open>The search is right\<close>

text \<open>The declarations of the keys in \<open>N\<close> are settled by the keys in \<open>S\<close>.\<close>

definition settles :: "goText \<Rightarrow> program \<Rightarrow> string set \<Rightarrow> string set \<Rightarrow> bool" where
  "settles go p N S \<longleftrightarrow>
     (\<forall>ns n source d. ns \<in> set (p_ordered p) \<longrightarrow> dotless n \<longrightarrow> class_key (nm_name ns) n \<in> N \<longrightarrow>
        type_declaration p ns n = Some (source, d) \<longrightarrow> settled go p S d source ns)"

lemma settles_union: "settles go p N S \<Longrightarrow> settles go p M S \<Longrightarrow> settles go p (N \<union> M) S"
  by (auto simp: settles_def)

lemma settles_mono: "settles go p N S \<Longrightarrow> S \<subseteq> S' \<Longrightarrow> settles go p N S'"
  unfolding settles_def by (meson settled_mono)

definition answers :: "goText \<Rightarrow> program \<Rightarrow> string list \<Rightarrow> bool \<times> string list \<Rightarrow> bool \<Rightarrow> (string set \<Rightarrow> bool) \<Rightarrow> bool" where
  "answers go p seen r yes no \<longleftrightarrow>
     (fst r \<longrightarrow> yes) \<and> set seen \<subseteq> set (snd r) \<and>
     (\<not> fst r \<longrightarrow> no (set (snd r)) \<and> settles go p (set (snd r) - set seen) (set (snd r)))"

lemma one_meaning:
  assumes "plain_program p" "ns \<in> set (p_ordered p)" "dotless n"
    and "class_key (nm_name ns') n' = class_key (nm_name ns) n" "ns' \<in> set (p_ordered p)" "dotless n'"
  shows "ns' = ns \<and> n' = n"
  using class_key_inj [OF assms(4,6,3)] same_namespace [OF assms(1,5,2)] by simp

lemma settles_key:
  assumes "plain_program p" "ns \<in> set (p_ordered p)" "dotless n"
    and "\<And>source d. type_declaration p ns n = Some (source, d) \<Longrightarrow> settled go p S d source ns"
  shows "settles go p {class_key (nm_name ns) n} S"
  unfolding settles_def using one_meaning [OF assms(1-3)] assms(4) by blast

lemma settles_new_key:
  assumes "settles go p {k} S" "settles go p (S - insert k M) S"
  shows "settles go p (S - M) S"
  using settles_union [OF assms] by (auto simp: settles_def)

lemma answers_then:
  assumes "answers go p seen (False, seen1) y1 n1" "answers go p seen1 r y2 n2"
    and "\<And>S S'. n1 S \<Longrightarrow> S \<subseteq> S' \<Longrightarrow> n1 S'"
  shows "answers go p seen r (y1 \<or> y2) (\<lambda>S. n1 S \<and> n2 S)"
proof -
  have "settles go p (set (snd r) - set seen) (set (snd r))" if "\<not> fst r"
  proof -
    from assms(1,2) that have "settles go p (set seen1 - set seen) (set (snd r))" "settles go p (set (snd r) - set seen1) (set (snd r))"
      by (auto simp: answers_def intro: settles_mono)
    from settles_union [OF this] show ?thesis by (auto simp: settles_def)
  qed
  with assms show ?thesis by (auto simp: answers_def)
qed

lemma search_sound:
  shows "plain_program p \<Longrightarrow> needs go p k e f ns seen = Some r \<Longrightarrow> ns \<in> set (p_ordered p) \<Longrightarrow> plain_type e \<Longrightarrow>
      answers go p seen r (no_zero go p e f ns) (\<lambda>S. settled go p S e f ns)"
    and "plain_program p \<Longrightarrow> needs_fields go p k fs f ns seen = Some r \<Longrightarrow> ns \<in> set (p_ordered p) \<Longrightarrow> \<forall>fl \<in> set fs. plain_type (field_type fl) \<Longrightarrow>
      answers go p seen r (\<exists>fl \<in> set fs. no_zero go p (field_type fl) f ns) (\<lambda>S. \<forall>fl \<in> set fs. settled go p S (field_type fl) f ns)"
    and "plain_program p \<Longrightarrow> needs_name go p k q n f ns seen = Some r \<Longrightarrow> ns \<in> set (p_ordered p) \<Longrightarrow> dotless n \<Longrightarrow>
      answers go p seen r (no_zero go p (Ident q n) f ns) (\<lambda>S. settled go p S (Ident q n) f ns)"
proof (induction go p k e f ns seen and go p k fs f ns seen and go p k q n f ns seen arbitrary: r and r and r
    rule: needs_needs_fields_needs_name.induct)
  case (1 go p k e f ns seen)
  show ?case
  proof (cases "is_class go p e f ns")
    case True
    with 1(6) show ?thesis by (auto simp: needs.simps [of go p k e] answers_def intro: class_type)
  next
    case False
    note eq = 1(6) [unfolded needs.simps [of go p k e], simplified False, simplified]
    note plain = 1(8) [unfolded plain_type.simps [of e]]
    note settled_eq = settled.simps [of go p _ e f ns]
    show ?thesis
    proof (cases "type_shape e")
      case (Direct b)
      with eq False show ?thesis by (auto simp: answers_def settled_eq settles_def intro: direct_type)
    next
      case (Inner x)
      with 1(1) [OF False Inner 1(5) _ 1(7)] eq plain False show ?thesis
        by (auto simp: answers_def settled_eq intro: inner_type)
    next
      case (Members fs)
      with 1(2) [OF False Members 1(5) _ 1(7)] eq plain False show ?thesis
        by (auto simp: answers_def settled_eq list_all_iff intro: member_type)
    next
      case (Named q n)
      then have e: "e = Ident q n" by (cases e rule: type_shape.cases) (auto split: if_splits)
      with 1(3) [OF False Named 1(5) _ 1(7)] eq plain Named show ?thesis by simp
    next
      case (Selected al n)
      show ?thesis
      proof (cases "selected_namespace p f al")
        case None
        with Selected eq False show ?thesis by (auto simp: answers_def settled_eq settles_def)
      next
        case (Some target)
        with 1(4) [OF False Selected Some 1(5) _ selected_ordered [OF Some]] eq plain Selected False
        show ?thesis
          by (auto simp: answers_def settled_eq settled.simps [of go p _ "Ident 0 n"] intro: selected_type)
      qed
    qed
  qed
next
  case (2 go p k f ns seen)
  then show ?case by (auto simp: answers_def settles_def)
next
  case (3 go p k fl fs f ns seen)
  from 3(4) obtain b seen1 where first: "needs go p k (field_type fl) f ns seen = Some (b, seen1)"
    and rest: "if b then r = (True, seen1) else needs_fields go p k fs f ns seen1 = Some r"
    by (auto split: option.splits prod.splits bool.splits)
  from 3(1) [OF 3(3) first 3(5)] 3(6)
  have ans: "answers go p seen (b, seen1) (no_zero go p (field_type fl) f ns) (\<lambda>S. settled go p S (field_type fl) f ns)" by simp
  show ?case
  proof (cases b)
    case True
    with ans rest show ?thesis by (auto simp: answers_def)
  next
    case False
    with rest 3(2) [OF first] 3(3,5,6)
    have "answers go p seen1 r (\<exists>fl \<in> set fs. no_zero go p (field_type fl) f ns)
      (\<lambda>S. \<forall>fl \<in> set fs. settled go p S (field_type fl) f ns)" by auto
    moreover from ans False have "answers go p seen (False, seen1) (no_zero go p (field_type fl) f ns)
      (\<lambda>S. settled go p S (field_type fl) f ns)" by simp
    ultimately show ?thesis using answers_then [OF _ _ settled_mono] by fastforce
  qed
next
  case (4 go p k q n f ns seen)
  let ?key = "class_key (nm_name ns) n"
  note new_key = settles_key [OF 4(2,4,5), of go]
  show ?case
  proof (cases "is_class go p (Ident q n) f ns")
    case True
    with 4(3) show ?thesis by (auto simp: needs_name.simps answers_def settles_def intro: class_type)
  next
    case False
    note eq = 4(3) [unfolded needs_name.simps [of go p k q n f ns seen] Let_def]
    show ?thesis
    proof (cases "?key \<in> set seen")
      case True
      with eq False show ?thesis by (auto simp: answers_def settled.simps [of go p _ "Ident q n"] settles_def)
    next
      case new: False
      show ?thesis
      proof (cases "type_declaration p ns n")
        case None
        then have "settles go p {?key} (insert ?key (set seen))" by (intro new_key) simp
        with None eq False new show ?thesis
          by (auto simp: answers_def settled.simps [of go p _ "Ident q n"] settles_def)
      next
        case (Some dd)
        obtain source d where dd: "dd = (source, d)" by (cases dd)
        from eq False new Some dd obtain k' where k: "k = Suc k'" and rec: "needs go p k' d source ns (?key # seen) = Some r"
          by (auto split: nat.splits)
        have ans: "answers go p (?key # seen) r (no_zero go p d source ns) (\<lambda>S. settled go p S d source ns)"
          using 4(1) [OF False refl new Some dd [symmetric] k 4(2) rec 4(4)] declaration_plain [OF 4(2,4) Some [unfolded dd]] by simp
        show ?thesis
        proof (cases "fst r")
          case True
          with ans Some dd show ?thesis by (auto simp: answers_def intro: named_type [where e = "Ident q n"])
        next
          case no: False
          with ans have S: "settled go p (set (snd r)) d source ns" "insert ?key (set seen) \<subseteq> set (snd r)"
            "settles go p (set (snd r) - insert ?key (set seen)) (set (snd r))" by (auto simp: answers_def)
          have "settles go p {?key} (set (snd r))" using S(1) Some dd by (intro new_key) simp
          from settles_new_key [OF this S(3)] no S(2) False show ?thesis
            by (auto simp: answers_def settled.simps [of go p _ "Ident q n"])
        qed
      qed
    qed
  qed
qed

lemma settled_zero:
  "no_zero go p e f ns \<Longrightarrow> plain_program p \<Longrightarrow> ns \<in> set (p_ordered p) \<Longrightarrow> plain_type e \<Longrightarrow>
     settles go p S S \<Longrightarrow> \<not> settled go p S e f ns"
proof (induction rule: no_zero.induct)
  case (class_type e f ns)
  then show ?case by (simp add: settled.simps)
next
  case (direct_type e f ns)
  then show ?case by (simp add: settled.simps)
next
  case (inner_type e x f ns)
  then show ?case by (simp add: settled.simps [of go p S e] plain_type.simps [of e])
next
  case (member_type e fs fl f ns)
  then show ?case by (auto simp: settled.simps [of go p S e] plain_type.simps [of e] list_all_iff)
next
  case (named_type e q n ns source d f)
  from named_type.prems(3) named_type.hyps(1) have "dotless n" by (simp add: plain_type.simps)
  with named_type.prems(2,4) named_type.hyps(2)
  have "class_key (nm_name ns) n \<in> S \<Longrightarrow> settled go p S d source ns" by (auto simp: settles_def)
  with named_type.IH [OF named_type.prems(1,2) declaration_plain [OF named_type.prems(1,2) named_type.hyps(2)] named_type.prems(4)]
    named_type.hyps(1)
  show ?case by (auto simp: settled.simps [of go p S e])
next
  case (selected_type e al n f target ns)
  from selected_type.prems(3) selected_type.hyps(1) have "plain_type (Ident 0 n)" by (simp add: plain_type.simps)
  from selected_type.IH [OF selected_type.prems(1) selected_ordered [OF selected_type.hyps(2)] this selected_type.prems(4)]
    selected_type.hyps
  show ?case by (auto simp: settled.simps [of go p S e] settled.simps [of go p S "Ident 0 n"])
qed

section \<open>The search returns\<close>

definition declared_keys :: "program \<Rightarrow> string set" where
  "declared_keys p = {class_key (nm_name ns) n | ns n. ns \<in> set (p_ordered p) \<and> type_declaration p ns n \<noteq> None}"

lemma needs_grows:
  "needs go p k e f ns seen = Some r \<Longrightarrow> set seen \<subseteq> set (snd r)"
  "needs_fields go p k fs f ns seen = Some r \<Longrightarrow> set seen \<subseteq> set (snd r)"
  "needs_name go p k q n f ns seen = Some r \<Longrightarrow> set seen \<subseteq> set (snd r)"
proof (induction go p k e f ns seen and go p k fs f ns seen and go p k q n f ns seen arbitrary: r and r and r
    rule: needs_needs_fields_needs_name.induct)
  case (1 go p k e f ns seen)
  note eq = 1(5) [unfolded needs.simps [of go p k e f ns seen]]
  show ?case
  proof (cases "is_class go p e f ns")
    case True
    with eq show ?thesis by auto
  next
    case False
    note IH = 1(1-4) [OF False]
    show ?thesis
    proof (cases "type_shape e")
      case (Selected al n)
      with eq False IH(4) [OF Selected] show ?thesis by (cases "selected_namespace p f al") auto
    qed (use eq False IH in auto)
  qed
next
  case (3 go p k fl fs f ns seen)
  from 3(3) obtain b seen1 where first: "needs go p k (field_type fl) f ns seen = Some (b, seen1)"
    by (auto split: option.splits)
  have "set seen \<subseteq> set seen1" using 3(1) [OF first] by simp
  moreover have "set seen1 \<subseteq> set (snd r)" using 3(2) [OF first] 3(3) first by (cases b) auto
  ultimately show ?case by blast
next
  case (4 go p k q n f ns seen)
  note eq = 4(2) [unfolded needs_name.simps [of go p k q n f ns seen] Let_def]
  show ?case
  proof (cases "is_class go p (Ident q n) f ns \<or> class_key (nm_name ns) n \<in> set seen \<or> type_declaration p ns n = None")
    case True
    with eq show ?thesis by (auto split: if_splits)
  next
    case False
    with eq obtain source d k' where "type_declaration p ns n = Some (source, d)" "k = Suc k'"
      "needs go p k' d source ns (class_key (nm_name ns) n # seen) = Some r"
      by (auto split: nat.splits)
    with 4(1) [OF _ refl _ _ refl] False show ?thesis by auto
  qed
qed simp

lemma declared_keys_bound: "finite (declared_keys p) \<and> card (declared_keys p) \<le> declared_types p"
proof -
  let ?ks = "concat (map (\<lambda>ns. concat (map (\<lambda>f. map (\<lambda>d. class_key (nm_name ns) (fst d)) (ft_types (file_at p f))) (nm_files ns))) (p_ordered p))"
  have key_listed: "class_key (nm_name ns) n \<in> set ?ks"
    if ns: "ns \<in> set (p_ordered p)" "type_declaration p ns n = Some (f, e)" for ns n f e
  proof -
    from ns(2) obtain d where found: "find (\<lambda>(f, d). fst d = n) (concat (map (\<lambda>f. map (Pair f) (ft_types (file_at p f))) (nm_files ns))) = Some (f, d)"
      unfolding type_declaration_def by (auto split: option.splits)
    from find_mem [OF found] have "f \<in> set (nm_files ns)" "d \<in> set (ft_types (file_at p f))" "fst d = n" by auto
    with ns(1) show ?thesis by auto
  qed
  have sub: "declared_keys p \<subseteq> set ?ks" 
  proof (rule subsetI)
    fix key assume "key \<in> declared_keys p"
    then obtain ns n f e where "key = class_key (nm_name ns) n" "ns \<in> set (p_ordered p)" "type_declaration p ns n = Some (f, e)"
      by (auto simp: declared_keys_def)
    then show "key \<in> set ?ks" using key_listed by (simp only:)
  qed
  have "length ?ks = declared_types p"
    by (simp add: declared_types_def length_concat comp_def)
  with card_length [of ?ks] card_mono [OF finite_set sub] finite_subset [OF sub finite_set] show ?thesis by linarith
qed

lemma unseen_smaller: "set seen \<subseteq> set seen' \<Longrightarrow> card (declared_keys p - set seen') \<le> card (declared_keys p - set seen)"
  using declared_keys_bound [of p] by (intro card_mono) auto

lemma needs_returns:
  "card (declared_keys p - set seen) < k \<Longrightarrow> ns \<in> set (p_ordered p) \<Longrightarrow> \<exists>r. needs go p k e f ns seen = Some r"
  "card (declared_keys p - set seen) < k \<Longrightarrow> ns \<in> set (p_ordered p) \<Longrightarrow> \<exists>r. needs_fields go p k fs f ns seen = Some r"
  "card (declared_keys p - set seen) < k \<Longrightarrow> ns \<in> set (p_ordered p) \<Longrightarrow> \<exists>r. needs_name go p k q n f ns seen = Some r"
proof (induction go p k e f ns seen and go p k fs f ns seen and go p k q n f ns seen
    rule: needs_needs_fields_needs_name.induct)
  case (1 go p k e f ns seen)
  show ?case
  proof (cases "is_class go p e f ns")
    case True
    then show ?thesis by (auto simp: needs.simps [of go p k e f ns seen])
  next
    case False
    note IH = 1(1-4) [OF False]
    show ?thesis
    proof (cases "type_shape e")
      case (Selected al n)
      show ?thesis
      proof (cases "selected_namespace p f al")
        case (Some target)
        with IH(4) [OF Selected Some 1(5) selected_ordered [OF Some]] Selected False show ?thesis
          by (auto simp: needs.simps [of go p k e f ns seen])
      qed (use Selected False in \<open>auto simp: needs.simps [of go p k e f ns seen]\<close>)
    qed (use False IH 1(5,6) in \<open>auto simp: needs.simps [of go p k e f ns seen]\<close>)
  qed
next
  case (3 go p k fl fs f ns seen)
  from 3(1) [OF 3(3,4)] obtain b seen1 where first: "needs go p k (field_type fl) f ns seen = Some (b, seen1)" by fastforce
  from unseen_smaller [of seen seen1 p] needs_grows(1) [OF first] 3(3) have "card (declared_keys p - set seen1) < k" by simp
  with 3(2) [OF first] 3(4) first show ?case by (cases b) auto
next
  case (4 go p k q n f ns seen)
  let ?key = "class_key (nm_name ns) n"
  show ?case
  proof (cases "is_class go p (Ident q n) f ns \<or> ?key \<in> set seen \<or> type_declaration p ns n = None")
    case True
    then show ?thesis by (auto simp: needs_name.simps Let_def)
  next
    case False
    then obtain source d where d: "type_declaration p ns n = Some (source, d)" by auto
    with 4(3) have key: "?key \<in> declared_keys p" by (auto simp: declared_keys_def)
    obtain k' where k: "k = Suc k'" using 4(2) by (cases k) auto
    have "card (declared_keys p - set (?key # seen)) < card (declared_keys p - set seen)"
      using key False declared_keys_bound [of p] by (intro psubset_card_mono) auto
    with 4(2) k have "card (declared_keys p - set (?key # seen)) < k'" by simp
    with 4(1) [OF _ refl _ d refl k] 4(3) False d k show ?thesis by (auto simp: needs_name.simps)
  qed
qed auto

lemma sourceNeedsInitialization_iff:
  assumes "plain_program p" "ns \<in> set (p_ordered p)" "plain_type e"
  shows "sourceNeedsInitialization go p e f ns = Some (no_zero go p e f ns)"
proof -
  have "card (declared_keys p - set []) < Suc (declared_types p)" using declared_keys_bound [of p] by simp
  from needs_returns(1) [OF this assms(2)] obtain b seen where
    r: "needs go p (Suc (declared_types p)) e f ns [] = Some (b, seen)" by fastforce
  have "answers go p [] (b, seen) (no_zero go p e f ns) (\<lambda>S. settled go p S e f ns)"
    by (rule search_sound(1) [OF assms(1) r assms(2,3)])
  then have "b \<longleftrightarrow> no_zero go p e f ns" using settled_zero [OF _ assms] by (auto simp: answers_def)
  with r show ?thesis by (simp add: sourceNeedsInitialization_def)
qed

section \<open>Accepted programs\<close>

lemma validate_classes_accepts:
  "validate_classes go p body ds = None \<Longrightarrow> (ns, f, c) \<in> set ds \<Longrightarrow> \<not> c_interface (class_at p c) \<Longrightarrow>
     validateConstructor (constructor_check go p ns f c (body c)) (body c) = None"
  by (induction go p body ds rule: validate_classes.induct) (auto split: if_splits option.splits)

text \<open>Examples: types by single names, a class \<open>Box\<close> and recursive types around it.\<close>

definition x_types :: "(string \<times> expr) list" where
  "x_types = [(''Pair'', StructType [Field [(0, ''next'')] (ArrayType None (Ident 0 ''Pair'')), Field [(0, ''box'')] (Ident 0 ''Alias'')]),
     (''Alias'', ArrayType (Some (BasicLit INTLIT ''2'')) (Ident 0 ''Box''))]"

definition x_class :: classDecl where
  "x_class = (w_class ''Box'' [] (w_run False 0))\<lparr>c_fields := [\<lparr>fd_name = ''x'', fd_visibility = ''private'', fd_type = Ident 0 ''Pair''\<rparr>]\<rparr>"

definition x_namespace :: nameSpace where
  "x_namespace = \<lparr>nm_name = ''m'', nm_goName = ''m'', nm_files = [0]\<rparr>"

definition x_program :: program where
  "x_program =
     \<lparr>p_ordered = [x_namespace],
      p_files = [\<lparr>ft_path = ''m.ghi'', ft_imports = [], ft_types = x_types, ft_classes = [0]\<rparr>],
      p_classes = [x_class]\<rparr>"

lemma x_plain: "plain_program x_program" "plain_type (Ident 0 ''Pair'')" "x_namespace \<in> set (p_ordered x_program)"
  by code_simp+

text \<open>
  C8: \<open>sourceNeedsInitialization\<close> returns for every type and decides, through recursive and imported
  types, whether a value of the type must hold a class or a parameterized type: identifiers have no
  dot and namespaces have different names.
\<close>

theorem needs_initialization_iff:
  assumes "plain_program p" "ns \<in> set (p_ordered p)" "plain_type e"
  shows "sourceNeedsInitialization go p e f ns = Some (no_zero go p e f ns)"
  by (rule sourceNeedsInitialization_iff [OF assms])

theorem needs_initialization_iff_witness: "no_zero w_go x_program (Ident 0 ''Pair'') 0 x_namespace"
proof -
  have "sourceNeedsInitialization w_go x_program (Ident 0 ''Pair'') 0 x_namespace = Some True" by code_simp
  with needs_initialization_iff [OF x_plain(1,3,2), of w_go 0] show ?thesis by simp
qed



end
