(* ===== verification/Watch.thy ===== *)
theory Watch
  imports GoStrings "HOL-Library.Word"
begin

text \<open>
  The watchers (\<open>internal/watch/watch.go\<close> and \<open>tests.go\<close>): the content snapshot of a project, the
  loop of \<open>Run\<close> that rebuilds and restarts a program, and the loop of \<open>Tests\<close> that reruns the
  tests. The goroutines of a loop are its channels: an iteration of the loop may start a job and
  then handles one event that a channel delivers. Times are nanoseconds, processes and files are
  known by their paths, and what the loop does to them is recorded as a list of effects.
\<close>

section \<open>Snapshots\<close>

text \<open>A file tree. A symbolic link leads to a tree or nowhere; an unreadable file has no data, an
  unreadable directory no entries.\<close>

datatype fsnode =
    FileN string
  | UnreadableN
  | UnreadableDirN
  | SymlinkN "fsnode option"
  | DirN "(string \<times> fsnode) list"

definition watched_extensions :: "string list" where
  "watched_extensions = [''.ghi'', ''.go'', ''.json'', ''.lock'', ''.sql'', ''.mod'', ''.sum'']"

definition skip_dir :: "string \<Rightarrow> bool \<Rightarrow> string \<Rightarrow> string \<Rightarrow> bool" where
  "skip_dir base tests path name \<longleftrightarrow>
     path \<noteq> base \<and>
     (has_prefix name ''.'' \<or> name = ''bin'' \<or> name = ''vendor'' \<or> name = ''node_modules'' \<or>
      (\<not> tests \<and> path = base @ ''/tests''))"

text \<open>
  The walk of a tree: the files it hashes with their data, or the first error. \<open>filepath.WalkDir\<close>
  visits the entries of a directory in lexical order, which is the order of \<open>DirN\<close>.
\<close>

fun scan :: "string \<Rightarrow> bool \<Rightarrow> string \<Rightarrow> string \<Rightarrow> fsnode \<Rightarrow> (string \<times> string) list result"
  and scan_all :: "string \<Rightarrow> bool \<Rightarrow> string \<Rightarrow> (string \<times> fsnode) list \<Rightarrow> (string \<times> string) list result"
where
  "scan base tests path name (DirN es) =
     (if skip_dir base tests path name then Inr [] else scan_all base tests path es)"
| "scan base tests path name UnreadableDirN =
     (if skip_dir base tests path name then Inr [] else Inl ''read'')"
| "scan base tests path name (SymlinkN t) = Inr []"
| "scan base tests path name UnreadableN =
     (if Ext path \<in> set watched_extensions then Inl ''open'' else Inr [])"
| "scan base tests path name (FileN data) =
     (if Ext path \<in> set watched_extensions then Inr [(path, data)] else Inr [])"
| "scan_all base tests path [] = Inr []"
| "scan_all base tests path ((n, e) # es) =
     res_bind (scan base tests (path @ ''/'' @ n) n e) (\<lambda>a.
     res_bind (scan_all base tests path es) (\<lambda>b. Inr (a @ b)))"

text \<open>\<open>os.Stat\<close> and \<open>os.ReadDir\<close> follow links.\<close>

fun stat :: "fsnode \<Rightarrow> fsnode option" where
  "stat (SymlinkN None) = None"
| "stat (SymlinkN (Some t)) = stat t"
| "stat n = Some n"

fun lookup_path :: "string list \<Rightarrow> fsnode \<Rightarrow> fsnode option" where
  "lookup_path [] n = stat n"
| "lookup_path (p # ps) n =
     (case stat n of
        Some (DirN es) \<Rightarrow> (case map_of es p of None \<Rightarrow> None | Some m \<Rightarrow> lookup_path ps m)
      | _ \<Rightarrow> None)"

definition is_dir :: "fsnode \<Rightarrow> bool" where
  "is_dir n \<longleftrightarrow> (case n of DirN es \<Rightarrow> True | UnreadableDirN \<Rightarrow> True | _ \<Rightarrow> False)"

fun scan_packages :: "string \<Rightarrow> (string \<times> fsnode) list \<Rightarrow> (string \<times> string) list result" where
  "scan_packages dir [] = Inr []"
| "scan_packages dir ((n, e) # es) =
     (if is_dir e \<and> \<not> has_prefix n ''.''
      then res_bind (scan (dir @ ''/'' @ n) False (dir @ ''/'' @ n) n e) (\<lambda>a.
           res_bind (scan_packages dir es) (\<lambda>b. Inr (a @ b)))
      else scan_packages dir es)"

text \<open>The files a snapshot covers, in the order in which it hashes them.\<close>

definition snapshot_files :: "string \<Rightarrow> bool \<Rightarrow> fsnode \<Rightarrow> (string \<times> string) list result" where
  "snapshot_files root includeTests tree =
     res_bind (scan root includeTests root root tree) (\<lambda>files.
       (case lookup_path [''.ghi'', ''packages''] tree of
          None \<Rightarrow> Inr files
        | Some (DirN es) \<Rightarrow>
            res_bind (scan_packages (root @ ''/.ghi/packages'') es) (\<lambda>ps. Inr (files @ ps))
        | Some _ \<Rightarrow> Inl ''not a directory''))"

text \<open>Package sha256 is the parameter \<open>sha\<close>. \<open>%x\<close> and \<open>hex.EncodeToString\<close> are \<^const>\<open>hex_string\<close>.\<close>

definition hash_input :: "(string \<Rightarrow> string) \<Rightarrow> (string \<times> string) list \<Rightarrow> string" where
  "hash_input sha files =
     concat (map (\<lambda>(path, data). path @ [CHR 0x00] @ hex_string (sha data) @ [newline]) files)"

definition snapshot :: "(string \<Rightarrow> string) \<Rightarrow> string \<Rightarrow> bool \<Rightarrow> fsnode \<Rightarrow> string result" where
  "snapshot sha root includeTests tree =
     res_bind (snapshot_files root includeTests tree) (\<lambda>files.
       Inr (hex_string (sha (hash_input sha files))))"

section \<open>The development process\<close>

text \<open>What \<open>Run\<close> does to processes, binaries and the staging directory, by the path of the binary.\<close>

datatype effect =
    Building string
  | Cancel string
  | Start string
  | StartFailed string
  | Stop string
  | Exited string
  | Remove string
  | RemoveStaging

text \<open>
  Three ghost fields that the code does not have and nothing reads: \<open>built\<close>, the observed sources when
  the last build started; \<open>changes\<close>, the number of changes observed, which \<open>generation\<close> counts as a
  \<open>uint64\<close>; and \<open>b_changes\<close>, that number when the build started.
\<close>

record buildRun =
  b_path :: string
  b_source :: string
  b_generation :: "64 word"
  b_changes :: nat

record runState =
  staging :: string
  suffix :: string
  debounce :: int
  observed :: string
  pending :: bool
  builds :: "buildRun option"
  running :: "string option"
  sequence :: nat
  generation :: "64 word"
  lastChange :: int
  built :: string
  changes :: nat

text \<open>
  The events: a poll of the ticker with its snapshot; the end of a build with whether it succeeded,
  the snapshot taken then and whether the new binary starts; the exit of the program; and the end
  of the context. Each carries the time.
\<close>

datatype event =
    Tick "string result" int
  | BuildDone bool "string result" bool int
  | ChildExit
  | Cancelled

definition Run_init :: "string \<Rightarrow> string \<Rightarrow> int \<Rightarrow> string \<Rightarrow> int \<Rightarrow> runState" where
  "Run_init dir suf deb snap now =
     \<lparr>staging = dir, suffix = suf, debounce = (if deb \<le> 0 then 200000000 else deb), observed = snap,
      pending = True, builds = None, running = None, sequence = 0, generation = 0,
      lastChange = now - (if deb \<le> 0 then 200000000 else deb), built = [], changes = 0\<rparr>"

definition app_path :: "string \<Rightarrow> string \<Rightarrow> nat \<Rightarrow> string" where
  "app_path dir suf n = dir @ ''/app-'' @ decimal n @ suf"

definition startBuild :: "runState \<Rightarrow> runState \<times> effect list" where
  "startBuild s =
     (let n = sequence s + 1; path = app_path (staging s) (suffix s) n
      in (s\<lparr>pending := False, sequence := n,
            builds := Some \<lparr>b_path = path, b_source = observed s, b_generation = generation s,
                             b_changes = changes s\<rparr>,
            built := observed s\<rparr>,
          [Building path]))"

text \<open>The head of the loop.\<close>

definition loop_head :: "runState \<Rightarrow> int \<Rightarrow> runState \<times> effect list" where
  "loop_head s now =
     (if pending s \<and> builds s = None \<and> debounce s \<le> now - lastChange s then startBuild s else (s, []))"

definition on_exit :: "runState \<Rightarrow> runState \<times> effect list" where
  "on_exit s =
     (case running s of
        None \<Rightarrow> (s, [])
      | Some p \<Rightarrow> (s\<lparr>running := None\<rparr>, [Exited p, Remove p]))"

definition on_build :: "runState \<Rightarrow> bool \<Rightarrow> string result \<Rightarrow> bool \<Rightarrow> int \<Rightarrow> runState \<times> effect list" where
  "on_build s ok snap starts now =
     (case builds s of
        None \<Rightarrow> (s, [])
      | Some b \<Rightarrow>
          let s = s\<lparr>builds := None\<rparr> in
          (case snap of
             Inl e \<Rightarrow> (s\<lparr>pending := True, lastChange := now\<rparr>, [Remove (b_path b)])
           | Inr current \<Rightarrow>
               if current \<noteq> b_source b \<or> generation s \<noteq> b_generation b then
                 (s\<lparr>observed := current, pending := True, lastChange := now\<rparr>, [Remove (b_path b)])
               else if \<not> ok then (s, [])
               else
                 let s = s\<lparr>pending := False\<rparr>;
                     stopped = (case running s of None \<Rightarrow> [] | Some old \<Rightarrow> [Stop old, Remove old])
                 in if starts then (s\<lparr>running := Some (b_path b)\<rparr>, stopped @ [Start (b_path b)])
                    else (s\<lparr>running := None\<rparr>, stopped @ [StartFailed (b_path b)])))"

definition on_tick :: "runState \<Rightarrow> string result \<Rightarrow> int \<Rightarrow> runState \<times> effect list" where
  "on_tick s snap now =
     (case snap of
        Inl e \<Rightarrow> (s, [])
      | Inr current \<Rightarrow>
          if current \<noteq> observed s
          then (s\<lparr>generation := generation s + 1, observed := current, pending := True, lastChange := now,
                    changes := changes s + 1\<rparr>, [])
          else (s, []))"

text \<open>The deferred calls when the loop returns: they cancel a build, stop the program, remove the staging directory.\<close>

definition Run_return :: "runState \<Rightarrow> effect list" where
  "Run_return s =
     (case builds s of None \<Rightarrow> [] | Some b \<Rightarrow> [Cancel (b_path b)]) @
     (case running s of None \<Rightarrow> [] | Some p \<Rightarrow> [Stop p]) @ [RemoveStaging]"

text \<open>An event that a channel can deliver in a state: a nil channel delivers nothing.\<close>

definition enabled :: "runState \<Rightarrow> event \<Rightarrow> bool" where
  "enabled s ev =
     (case ev of BuildDone ok snap st t \<Rightarrow> builds s \<noteq> None | ChildExit \<Rightarrow> running s \<noteq> None | _ \<Rightarrow> True)"

definition handle :: "runState \<Rightarrow> event \<Rightarrow> runState \<times> effect list" where
  "handle s ev =
     (case ev of
        Tick snap now \<Rightarrow> on_tick s snap now
      | BuildDone ok snap starts now \<Rightarrow> on_build s ok snap starts now
      | ChildExit \<Rightarrow> on_exit s
      | Cancelled \<Rightarrow> (s, Run_return s))"

text \<open>
  The runs of the loop: the state, the effects so far and whether it has returned. \<open>now\<close> is the
  time at the head of the loop.
\<close>

inductive run_loop :: "runState \<Rightarrow> runState \<Rightarrow> effect list \<Rightarrow> bool \<Rightarrow> bool" for s0 where
  run_init: "run_loop s0 s0 [] False"
| run_step: "run_loop s0 s es False \<Longrightarrow> loop_head s now = (s1, es1) \<Longrightarrow> enabled s1 ev \<Longrightarrow>
    handle s1 ev = (s2, es2) \<Longrightarrow> run_loop s0 s2 (es @ es1 @ es2) (ev = Cancelled)"

text \<open>The loop on a given sequence of events; an event that is not enabled does not happen.\<close>

definition iteration :: "runState \<Rightarrow> int \<times> event \<Rightarrow> runState \<times> effect list" where
  "iteration s = (\<lambda>(now, ev).
     let (s1, es1) = loop_head s now; (s2, es2) = (if enabled s1 ev then handle s1 ev else (s1, []))
     in (s2, es1 @ es2))"

fun iterate :: "runState \<Rightarrow> (int \<times> event) list \<Rightarrow> runState \<times> effect list" where
  "iterate s [] = (s, [])"
| "iterate s (e # evs) =
     (let (s1, es1) = iteration s e; (s2, es2) = iterate s1 evs in (s2, es1 @ es2))"

section \<open>What a snapshot tells\<close>

lemma split_at_mark:
  "p @ z # x = q @ z # y \<Longrightarrow> z \<notin> set p \<Longrightarrow> z \<notin> set q \<Longrightarrow> p = q \<and> x = y"
  by (induction p arbitrary: q) (auto simp: Cons_eq_append_conv)

lemma hash_input_Cons:
  "hash_input sha ((p, d) # fs) = p @ CHR 0x00 # (hex_string (sha d) @ newline # hash_input sha fs)"
  by (simp add: hash_input_def)

lemma hash_input_Nil: "hash_input sha [] = hash_input sha gs \<Longrightarrow> gs = []"
  by (cases gs) (simp_all add: hash_input_def split: prod.splits)

lemma hash_input_Cons_inj:
  assumes "hash_input sha ((p, d) # fs) = hash_input sha ((q, e) # gs)" "\<And>d. length (sha d) = 32"
    and "CHR 0x00 \<notin> set p" "CHR 0x00 \<notin> set q"
  shows "p = q" "sha d = sha e" "hash_input sha fs = hash_input sha gs"
proof -
  from split_at_mark [OF assms(1) [unfolded hash_input_Cons] assms(3,4)]
  have *: "p = q" "hex_string (sha d) @ newline # hash_input sha fs
      = hex_string (sha e) @ newline # hash_input sha gs" by blast+
  show "p = q" by fact
  from *(2) assms(2) have "hex_string (sha d) = hex_string (sha e) \<and> hash_input sha fs = hash_input sha gs"
    by simp
  then show "sha d = sha e" "hash_input sha fs = hash_input sha gs" by (blast dest: hex_string_inj)+
qed

lemma hash_input_inj:
  assumes "hash_input sha fs = hash_input sha gs" "\<And>d. length (sha d) = 32"
    and "\<forall>(p, d) \<in> set fs \<union> set gs. CHR 0x00 \<notin> set p" "inj_on sha (snd ` (set fs \<union> set gs))"
  shows "fs = gs"
  using assms(1,3,4)
proof (induction fs arbitrary: gs)
  case Nil
  then show ?case using hash_input_Nil by blast
next
  case (Cons f fs)
  obtain p d where f: "f = (p, d)" by fastforce
  have "gs \<noteq> []"
  proof
    assume "gs = []"
    with hash_input_Nil [OF Cons.prems(1) [symmetric, unfolded \<open>gs = []\<close>]] show False by simp
  qed
  then obtain q e gs' where g: "gs = (q, e) # gs'" by (metis list.exhaust surj_pair)
  have "CHR 0x00 \<notin> set p" "CHR 0x00 \<notin> set q" using Cons.prems(2) by (simp_all add: f g)
  note eq = hash_input_Cons_inj [OF Cons.prems(1) [unfolded f g] assms(2) this]
  have "d = e" by (rule inj_onD [OF Cons.prems(3) eq(2)]) (simp_all add: f g)
  moreover have "inj_on sha (snd ` (set fs \<union> set gs'))"
    using Cons.prems(3) by (rule inj_on_subset) (auto simp: g)
  then have "fs = gs'" using Cons.prems(2) by (intro Cons.IH [OF eq(3)]) (simp_all add: g)
  ultimately show ?case using eq(1) by (simp add: f g)
qed

text \<open>
  C23: two snapshots of a project are equal only when the same files with the same contents were
  hashed, for a hash function of 32 bytes without collisions on the data hashed.
\<close>

theorem snapshot_detects_edits:
  assumes "snapshot_files root tests1 tree1 = Inr files1" "snapshot_files root tests2 tree2 = Inr files2"
    and "snapshot sha root tests1 tree1 = snapshot sha root tests2 tree2"
    and "\<And>d. length (sha d) = 32"
    and "inj_on sha (snd ` (set files1 \<union> set files2) \<union> {hash_input sha files1, hash_input sha files2})"
    and "\<forall>(p, d) \<in> set files1 \<union> set files2. CHR 0x00 \<notin> set p"
  shows "files1 = files2"
proof -
  have "hex_string (sha (hash_input sha files1)) = hex_string (sha (hash_input sha files2))"
    using assms(3) by (simp add: snapshot_def assms(1,2))
  from inj_onD [OF assms(5) hex_string_inj [OF this]]
  have eq: "hash_input sha files1 = hash_input sha files2" by blast
  show ?thesis
    using inj_on_subset [OF assms(5)] by (rule hash_input_inj [OF eq assms(4,6)]) blast
qed

definition example_sha :: "string \<Rightarrow> string" where
  "example_sha d = hd (d @ ''.'') # replicate 31 CHR ''0''"

lemma snapshot_detects_edits_witness:
  "snapshot_files ''/p'' False (DirN [(''main.ghi'', FileN ''x'')]) = Inr [(''/p/main.ghi'', ''x'')] \<and>
   [(''/p/main.ghi'', ''x'')] = [(''/p/main.ghi'', ''x'')]"
proof
  show f: "snapshot_files ''/p'' False (DirN [(''main.ghi'', FileN ''x'')]) = Inr [(''/p/main.ghi'', ''x'')]"
    by code_simp
  have inj: "inj_on example_sha (snd ` (set [(''/p/main.ghi'', ''x'')] \<union> set [(''/p/main.ghi'', ''x'')])
      \<union> {hash_input example_sha [(''/p/main.ghi'', ''x'')], hash_input example_sha [(''/p/main.ghi'', ''x'')]})"
    unfolding hash_input_Cons by (simp add: inj_on_def example_sha_def)
  show "[(''/p/main.ghi'', ''x'')] = [(''/p/main.ghi'', ''x'')]"
    by (rule snapshot_detects_edits [OF f f refl _ inj]) (simp_all add: example_sha_def)
qed


end
