(* ===== verification/WatchLoops.thy ===== *)
theory WatchLoops
  imports Watch
begin

text \<open>
  The loops of the watchers: what \<open>Run\<close> does to processes, that neither loop loses a change of the
  sources, when a program is replaced, that the loop of \<open>Run\<close> settles, and the test watcher.
\<close>

section \<open>Processes and binaries\<close>

text \<open>
  The order of effects that the loop promises, from the process alive before them: a program is
  started only when none is alive, only the live one is stopped, its binary is neither removed nor
  built over, and the staging directory goes when no program is alive.
\<close>

fun effects_ok :: "string option \<Rightarrow> effect list \<Rightarrow> bool" where
  "effects_ok alive [] = True"
| "effects_ok alive (Start p # es) = (alive = None \<and> effects_ok (Some p) es)"
| "effects_ok alive (Stop p # es) = (alive = Some p \<and> effects_ok None es)"
| "effects_ok alive (Exited p # es) = (alive = Some p \<and> effects_ok None es)"
| "effects_ok alive (Remove p # es) = (alive \<noteq> Some p \<and> effects_ok alive es)"
| "effects_ok alive (Building p # es) = (alive \<noteq> Some p \<and> effects_ok alive es)"
| "effects_ok alive (RemoveStaging # es) = (alive = None \<and> effects_ok alive es)"
| "effects_ok alive (_ # es) = effects_ok alive es"

fun alive_after :: "string option \<Rightarrow> effect list \<Rightarrow> string option" where
  "alive_after alive [] = alive"
| "alive_after alive (Start p # es) = alive_after (Some p) es"
| "alive_after alive (Stop p # es) = alive_after None es"
| "alive_after alive (Exited p # es) = alive_after None es"
| "alive_after alive (_ # es) = alive_after alive es"

lemma effects_append [simp]:
  "effects_ok alive (es @ fs) \<longleftrightarrow> effects_ok alive es \<and> effects_ok (alive_after alive es) fs"
  "alive_after alive (es @ fs) = alive_after (alive_after alive es) fs"
  by (induction alive es rule: effects_ok.induct) auto

text \<open>The binaries: the running one was built earlier than the one being built.\<close>

definition paths_ok :: "runState \<Rightarrow> bool" where
  "paths_ok s \<longleftrightarrow>
     (\<forall>p. running s = Some p \<longrightarrow>
        (\<exists>n \<le> sequence s. p = app_path (staging s) (suffix s) n \<and> (builds s \<noteq> None \<longrightarrow> n < sequence s))) \<and>
     (\<forall>b. builds s = Some b \<longrightarrow> b_path b = app_path (staging s) (suffix s) (sequence s))"

lemma app_path_inj [simp]: "app_path d x m = app_path d x n \<longleftrightarrow> m = n"
  by (simp add: app_path_def)

definition step_ok :: "runState \<Rightarrow> runState \<times> effect list \<Rightarrow> bool" where
  "step_ok s r \<longleftrightarrow> (case r of (s', es) \<Rightarrow>
     paths_ok s' \<and> effects_ok (running s) es \<and> alive_after (running s) es = running s')"

lemma loop_head_ok: "paths_ok s \<Longrightarrow> step_ok s (loop_head s now)"
  by (auto simp: loop_head_def startBuild_def step_ok_def paths_ok_def Let_def intro: le_SucI)

lemma on_tick_ok: "paths_ok s \<Longrightarrow> step_ok s (on_tick s snap now)"
  by (auto simp: on_tick_def step_ok_def paths_ok_def split: sum.splits)

lemma on_exit_ok: "paths_ok s \<Longrightarrow> step_ok s (on_exit s)"
  by (auto simp: on_exit_def step_ok_def paths_ok_def split: option.splits)

lemma on_build_ok: "paths_ok s \<Longrightarrow> step_ok s (on_build s ok snap starts now)"
  by (fastforce simp: on_build_def step_ok_def paths_ok_def Let_def split: sum.splits option.splits)

lemma handle_ok: "paths_ok s \<Longrightarrow> ev \<noteq> Cancelled \<Longrightarrow> step_ok s (handle s ev)"
  using on_tick_ok on_build_ok on_exit_ok by (cases ev) (simp_all add: handle_def)

lemma Run_return_ok:
  "effects_ok (running s) (Run_return s) \<and> alive_after (running s) (Run_return s) = None"
  by (auto simp: Run_return_def split: option.splits)

lemma run_loop_paths:
  "run_loop s0 s es returned \<Longrightarrow> paths_ok s0 \<Longrightarrow> running s0 = None \<Longrightarrow>
     paths_ok s \<and> effects_ok None es \<and> alive_after None es = (if returned then None else running s)"
proof (induction rule: run_loop.induct)
  case (run_step s es now s1 es1 ev s2 es2)
  then have IH: "paths_ok s" "effects_ok None es" "alive_after None es = running s" by simp_all
  from loop_head_ok [OF IH(1), of now] run_step.hyps(2)
  have h: "paths_ok s1" "effects_ok (running s) es1" "alive_after (running s) es1 = running s1"
    by (simp_all add: step_ok_def)
  show ?case
  proof (cases "ev = Cancelled")
    case True
    with run_step.hyps(4) have "s2 = s1 \<and> es2 = Run_return s1" by (auto simp: handle_def)
    then show ?thesis using IH h Run_return_ok [of s1] True by simp
  next
    case False
    from handle_ok [OF h(1) this] run_step.hyps(4) IH h False show ?thesis by (simp add: step_ok_def)
  qed
qed simp

lemma Run_init_ok: "paths_ok (Run_init dir suf deb snap now)" "running (Run_init dir suf deb snap now) = None"
  by (simp_all add: Run_init_def paths_ok_def)

text \<open>
  C25: in every run of the watch loop at most one program is alive; a program is started only
  after the previous one ended, its binary is not removed or overwritten while it lives, and when
  the loop returns no program is left.
\<close>

theorem watch_processes:
  assumes "run_loop (Run_init dir suf deb snap now) s es returned"
  shows "effects_ok None es \<and> alive_after None es = (if returned then None else running s)"
  using run_loop_paths [OF assms Run_init_ok] by blast

lemma watch_processes_witness:
  "let s0 = Run_init ''/t'' '''' 0 ''h'' 0;
       es = [Building ''/t/app-1'', Start ''/t/app-1'', Stop ''/t/app-1'', RemoveStaging]
   in effects_ok None es \<and> alive_after None es = None"
proof -
  define s0 where "s0 = Run_init ''/t'' '''' 0 ''h'' 0"
  define s1 where "s1 = fst (loop_head s0 0)"
  define ev where "ev = BuildDone True (Inr ''h'') True 0"
  define s2 where "s2 = fst (handle s1 ev)"
  note defs = s2_def ev_def s1_def s0_def
  have h: "loop_head s0 0 = (s1, [Building ''/t/app-1''])" unfolding defs by code_simp
  have e: "enabled s1 ev" unfolding defs by code_simp
  have b: "handle s1 ev = (s2, [Start ''/t/app-1''])" unfolding defs by code_simp
  have l: "loop_head s2 0 = (s2, [])" unfolding defs by code_simp
  have r: "Run_return s2 = [Stop ''/t/app-1'', RemoveStaging]" unfolding defs by code_simp
  have f: "(ev = Cancelled) = False" by (simp add: ev_def)
  note one = run_step [OF run_init h e b, unfolded f]
  have "run_loop s0 s2 (([] @ [Building ''/t/app-1''] @ [Start ''/t/app-1'']) @ [] @
      [Stop ''/t/app-1'', RemoveStaging]) (Cancelled = Cancelled)"
    by (rule run_step [OF one l])
      (simp_all add: enabled_def handle_def r)
  from watch_processes [OF this [unfolded s0_def]]
  show ?thesis by (simp add: Let_def)
qed

section \<open>No change is lost\<close>

text \<open>
  The contract of a loop that runs one job at a time on the sources it observes: a job takes the
  observed sources, and a change of the observation makes a job pending until one has taken it.
  \<open>built\<close> is the observation that the last job took.
\<close>

locale coalescing =
  fixes step :: "'s \<Rightarrow> 's \<Rightarrow> bool"
    and inv :: "'s \<Rightarrow> bool"
    and pend :: "'s \<Rightarrow> bool"
    and obs :: "'s \<Rightarrow> string"
    and built :: "'s \<Rightarrow> string"
  assumes step_inv: "inv s \<Longrightarrow> step s t \<Longrightarrow> inv t"
    and step_built: "inv s \<Longrightarrow> step s t \<Longrightarrow> built t = built s \<or> built t = obs t \<or> pend t"
    and step_obs: "inv s \<Longrightarrow> step s t \<Longrightarrow> obs t = obs s \<or> pend t"
    and step_pend: "inv s \<Longrightarrow> step s t \<Longrightarrow> pend s \<Longrightarrow> pend t \<or> built t = obs t"
begin

lemma no_change_lost:
  "step\<^sup>*\<^sup>* s t \<Longrightarrow> inv s \<Longrightarrow> pend s \<or> obs s = built s \<Longrightarrow> inv t \<and> (pend t \<or> obs t = built t)"
proof (induction rule: rtranclp_induct)
  case (step t u)
  then show ?case using step_inv [OF _ step(2)] step_built [OF _ step(2)] step_obs [OF _ step(2)]
      step_pend [OF _ step(2)] by metis
qed simp

end

text \<open>
  The counters of the watch loop: \<open>generation\<close> counts the observed changes modulo \<open>2^64\<close>; while a
  build runs on the sources observed last nothing is pending, and any later change is.
\<close>

definition coherent :: "runState \<Rightarrow> bool" where
  "coherent s \<longleftrightarrow> 0 < debounce s \<and> generation s = of_nat (changes s) \<and>
     (\<forall>b. builds s = Some b \<longrightarrow> b_source b = built s \<and> b_generation b = of_nat (b_changes b) \<and>
        b_changes b \<le> changes s \<and>
        (if b_changes b = changes s then \<not> pending s \<and> observed s = built s else pending s))"

lemma coherent_Run_init: "coherent (Run_init dir suf deb snap now)"
  by (simp add: coherent_def Run_init_def)

lemma coherent_head: "coherent s \<Longrightarrow> loop_head s now = (t, es) \<Longrightarrow> coherent t \<and> changes t = changes s"
  by (auto simp: coherent_def loop_head_def startBuild_def Let_def split: if_splits)

lemma coherent_handle:
  "coherent s \<Longrightarrow> handle s ev = (t, es) \<Longrightarrow> coherent t \<and> changes s \<le> changes t"
  by (cases ev) (auto simp: coherent_def handle_def on_tick_def on_build_def on_exit_def Let_def
      split: if_splits sum.splits option.splits)

lemma of_nat_64_inj: "(of_nat a :: 64 word) = of_nat b \<Longrightarrow> a \<le> b \<Longrightarrow> b < 2 ^ 64 \<Longrightarrow> a = b"
  by (simp add: word_of_nat_eq_iff take_bit_nat_eq_self)

lemma head_built:
  "loop_head s now = (t, es) \<Longrightarrow> observed t = observed s \<and>
     (built t = built s \<and> pending t = pending s \<or> built t = observed t \<and> \<not> pending t)"
  by (auto simp: loop_head_def startBuild_def Let_def split: if_splits)

lemma handle_built:
  assumes "coherent s" "handle s ev = (t, es)" "changes t < 2 ^ 64"
  shows "built t = built s \<and> (observed t = observed s \<or> pending t) \<and> (pending s \<longrightarrow> pending t)"
proof (cases ev)
  case (BuildDone ok snap st now)
  show ?thesis
  proof (cases "builds s")
    case None
    with assms BuildDone show ?thesis by (simp add: handle_def on_build_def)
  next
    case (Some b)
    have c: "changes t = changes s" using assms(2) BuildDone Some
      by (auto simp: handle_def on_build_def Let_def split: if_splits sum.splits option.splits)
    have "\<not> pending s" if "generation s = b_generation b"
    proof -
      from assms(1) Some that have "(of_nat (b_changes b) :: 64 word) = of_nat (changes s)"
        "b_changes b \<le> changes s" by (auto simp: coherent_def)
      with of_nat_64_inj assms(3) c have "b_changes b = changes s" by metis
      with assms(1) Some show ?thesis by (simp add: coherent_def)
    qed
    with assms(2) BuildDone Some show ?thesis
      by (auto simp: handle_def on_build_def Let_def split: if_splits sum.splits option.splits)
  qed
qed (use assms(2) in \<open>auto simp: handle_def on_tick_def on_exit_def split: if_splits sum.splits option.splits\<close>)

text \<open>One iteration of the loop of \<open>Run\<close>, among the first \<open>2^64\<close> observed changes.\<close>

inductive run_once :: "runState \<Rightarrow> runState \<Rightarrow> bool" where
  "loop_head s now = (s1, es1) \<Longrightarrow> enabled s1 ev \<Longrightarrow> handle s1 ev = (t, es2) \<Longrightarrow> changes t < 2 ^ 64 \<Longrightarrow>
   run_once s t"

interpretation run: coalescing run_once coherent pending observed built
proof unfold_locales
  fix s t assume c: "coherent s" and "run_once s t"
  then obtain now s1 es1 ev es2 where h: "loop_head s now = (s1, es1)" and e: "handle s1 ev = (t, es2)"
    and n: "changes t < 2 ^ 64" by (auto elim: run_once.cases)
  from coherent_head [OF c h] have c1: "coherent s1" by blast
  from coherent_handle [OF c1 e] show "coherent t" by blast
  from head_built [OF h] handle_built [OF c1 e n]
  show "built t = built s \<or> built t = observed t \<or> pending t" "observed t = observed s \<or> pending t"
    "pending s \<Longrightarrow> pending t \<or> built t = observed t" by auto
qed

lemma run_loop_once:
  "run_loop s0 s es returned \<Longrightarrow> coherent s0 \<Longrightarrow> changes s < 2 ^ 64 \<Longrightarrow> run_once\<^sup>*\<^sup>* s0 s \<and> coherent s"
proof (induction rule: run_loop.induct)
  case (run_step s es now s1 es1 ev s2 es2)
  have "coherent s"
  proof -
    have "run_loop s0 s es False \<Longrightarrow> coherent s0 \<Longrightarrow> coherent s" for s es
      by (induction s es False rule: run_loop.induct) (auto dest: coherent_head coherent_handle)
    with run_step.hyps(1) run_step.prems(1) show ?thesis by blast
  qed
  with coherent_head [OF _ run_step.hyps(2)] coherent_handle [OF _ run_step.hyps(4)]
  have "changes s \<le> changes s2" "coherent s2" by auto
  with run_step.IH run_step.prems have "run_once\<^sup>*\<^sup>* s0 s" by simp
  moreover have "run_once s s2"
    using run_step.hyps(2-4) run_step.prems(2) by (rule run_once.intros)
  ultimately show ?case using \<open>coherent s2\<close> by (meson rtranclp.rtrancl_into_rtrancl)
qed auto

text \<open>
  C12: the watch loop loses no change: as long as fewer than \<open>2^64\<close> changes were observed, either a
  build is pending or the last build started from the sources observed last.
\<close>

theorem watch_no_change_lost:
  assumes "run_loop (Run_init dir suf deb snap now) s es returned" "changes s < 2 ^ 64"
  shows "pending s \<or> observed s = built s"
proof -
  have "pending (Run_init dir suf deb snap now)" by (simp add: Run_init_def)
  with run.no_change_lost run_loop_once [OF assms(1) coherent_Run_init assms(2)] coherent_Run_init
  show ?thesis by blast
qed

lemma watch_no_change_lost_witness:
  "pending (Run_init ''/t'' '''' 0 ''h'' 0)
   \<or> observed (Run_init ''/t'' '''' 0 ''h'' 0) = built (Run_init ''/t'' '''' 0 ''h'' 0)"
  by (rule watch_no_change_lost [OF run_init]) (simp add: Run_init_def)

section \<open>When the program is replaced\<close>

text \<open>The changes that the polls among the events observe.\<close>

fun observed_changes :: "string \<Rightarrow> (int \<times> event) list \<Rightarrow> nat" where
  "observed_changes obs [] = 0"
| "observed_changes obs ((now, Tick (Inr d) t) # evs) =
     (if d = obs then observed_changes obs evs else Suc (observed_changes d evs))"
| "observed_changes obs (_ # evs) = observed_changes obs evs"

definition polls_only :: "(int \<times> event) list \<Rightarrow> bool" where
  "polls_only evs \<longleftrightarrow> (\<forall>(now, ev) \<in> set evs. case ev of Tick d t \<Rightarrow> True | ChildExit \<Rightarrow> True | _ \<Rightarrow> False)"

lemma iteration_poll:
  assumes "builds s = Some b" "polls_only [(now, ev)]" "iteration s (now, ev) = (t, es)"
  shows "builds t = Some b \<and> generation t = generation s + of_nat (observed_changes (observed s) [(now, ev)])
    \<and> observed_changes (observed s) ((now, ev) # evs) =
      observed_changes (observed s) [(now, ev)] + observed_changes (observed t) evs"
proof (cases ev)
  case (Tick snap t')
  with assms show ?thesis
    by (cases snap) (auto simp: iteration_def loop_head_def enabled_def handle_def on_tick_def)
qed (use assms in \<open>auto simp: polls_only_def iteration_def loop_head_def enabled_def handle_def
    on_exit_def split: option.splits if_splits\<close>)

lemma iterate_polls:
  "builds s = Some b \<Longrightarrow> polls_only evs \<Longrightarrow> iterate s evs = (t, es) \<Longrightarrow>
     builds t = Some b \<and> generation t = generation s + of_nat (observed_changes (observed s) evs)"
proof (induction evs arbitrary: s es)
  case (Cons e evs)
  obtain now ev where e: "e = (now, ev)" by fastforce
  obtain s1 es1 where i: "iteration s (now, ev) = (s1, es1)" by fastforce
  obtain es2 where it: "iterate s1 evs = (t, es2)"
    using Cons.prems(3) by (auto simp: e i Let_def split: prod.splits)
  have p: "polls_only [(now, ev)]" "polls_only evs" using Cons.prems(2) by (auto simp: polls_only_def e)
  note one = iteration_poll [OF Cons.prems(1) p(1) i, of evs]
  with Cons.IH [OF _ p(2) it] show ?case by (simp add: e)
qed simp

text \<open>
  C26: a build during which a poll observed a change never replaces the program, whatever its
  result: it is discarded and another build is pending.
\<close>

theorem watch_discards_stale_build:
  assumes "builds s = Some b" "b_generation b = generation s" "polls_only evs" "iterate s evs = (t, es)"
    and "0 < observed_changes (observed s) evs" "observed_changes (observed s) evs < 2 ^ 64"
    and "on_build t ok snap starts now = (u, fs)"
  shows "running u = running t \<and> pending u \<and> builds u = None \<and> fs = [Remove (b_path b)]"
proof -
  let ?n = "observed_changes (observed s) evs"
  from iterate_polls [OF assms(1,3,4)]
  have b: "builds t = Some b" "generation t = generation s + of_nat ?n" by auto
  have "of_nat ?n \<noteq> (0 :: 64 word)"
    using of_nat_64_inj [of 0 ?n] assms(5,6) by auto
  then have "generation t \<noteq> b_generation b" using b(2) assms(2) by simp
  then show ?thesis using assms(7) b(1) by (cases snap) (auto simp: on_build_def Let_def)
qed

definition example_building :: runState where
  "example_building = fst (loop_head (Run_init ''/t'' '''' 0 ''h'' 0) 0)"

lemma watch_discards_stale_build_witness:
  "running (fst (on_build (fst (iterate example_building [(1, Tick (Inr ''g'') 1), (2, Tick (Inr ''h'') 2)]))
      True (Inr ''h'') True 3)) =
   running (fst (iterate example_building [(1, Tick (Inr ''g'') 1), (2, Tick (Inr ''h'') 2)]))"
proof -
  let ?evs = "[(1, Tick (Inr ''g'') 1), (2, Tick (Inr ''h'') 2)]"
  have "builds example_building = Some (the (builds example_building))"
    "b_generation (the (builds example_building)) = generation example_building"
    "polls_only ?evs" by code_simp+
  note start = this
  have "observed example_building = ''h''" by code_simp
  then have "0 < observed_changes (observed example_building) ?evs"
    "observed_changes (observed example_building) ?evs < 2 ^ 64" by simp_all
  from watch_discards_stale_build [OF start prod.collapse [symmetric] this prod.collapse [symmetric]]
  show ?thesis by blast
qed

text \<open>
  The program is replaced only by a successful build whose sources are the sources of the
  snapshot taken when it ends, with no change observed since it started; any other build, one that
  failed included, leaves the running program alone.
\<close>

theorem watch_replaces_only_current:
  assumes "builds s = Some b" "on_build s ok snap starts now = (t, es)"
  shows "(ok \<and> snap = Inr (b_source b) \<and> generation s = b_generation b \<longrightarrow>
      \<not> pending t \<and> running t = (if starts then Some (b_path b) else None)) \<and>
    (\<not> (ok \<and> snap = Inr (b_source b) \<and> generation s = b_generation b) \<longrightarrow>
      running t = running s \<and> set es \<subseteq> {Remove (b_path b)})"
  using assms by (cases snap) (auto simp: on_build_def Let_def split: if_splits)

lemma watch_replaces_only_current_witness:
  "running (fst (on_build example_building True (Inr ''h'') True 3)) = Some ''/t/app-1''"
proof -
  have b: "builds example_building = Some (the (builds example_building))" by code_simp
  have c: "True \<and> (Inr ''h'' :: string result) = Inr (b_source (the (builds example_building)))
    \<and> generation example_building = b_generation (the (builds example_building))" by code_simp
  have p: "b_path (the (builds example_building)) = ''/t/app-1''" by code_simp
  from watch_replaces_only_current [OF b prod.collapse [symmetric]] c p show ?thesis by simp
qed

section \<open>Convergence\<close>

lemma iteration_eq:
  "iteration s (now, ev) = (let s1 = fst (loop_head s now) in
     (if enabled s1 ev then fst (handle s1 ev) else s1,
      snd (loop_head s now) @ (if enabled s1 ev then snd (handle s1 ev) else [])))"
  by (simp add: iteration_def split_beta Let_def)

lemma coherent_iteration_changes:
  assumes "coherent s"
  shows "coherent (fst (iteration s e)) \<and> changes s \<le> changes (fst (iteration s e))"
proof -
  obtain now ev where e: "e = (now, ev)" by fastforce
  obtain s1 es1 where h: "loop_head s now = (s1, es1)" by fastforce
  obtain t es2 where n: "handle s1 ev = (t, es2)" by fastforce
  from coherent_head [OF assms h] coherent_handle [OF _ n] show ?thesis
    by (simp add: e iteration_def h n)
qed

lemmas coherent_iteration = coherent_iteration_changes [THEN conjunct1]

definition idle_at :: "runState \<Rightarrow> int \<Rightarrow> bool" where
  "idle_at s now \<longleftrightarrow> (pending s \<and> builds s = None \<longrightarrow> now - lastChange s < debounce s)"

lemma converge_poll:
  assumes "coherent s" "pending s \<or> observed s = built s" "lastChange s \<le> t1"
  shows "let a = fst (iteration s (t1, Tick (Inr d) t1)) in
    observed a = d \<and> lastChange a \<le> t1 \<and> (pending a \<or> built a = d) \<and> idle_at a t1 \<and>
    debounce a = debounce s \<and> changes a \<le> changes s + 1"
  using assms unfolding Let_def iteration_eq fst_conv
  by (auto simp: loop_head_def startBuild_def enabled_def handle_def on_tick_def idle_at_def coherent_def Let_def
      split: if_splits)

lemma converge_done:
  assumes "coherent a" "observed a = d" "lastChange a \<le> t1" "pending a \<or> built a = d" "idle_at a t1"
    "changes a < 2 ^ 64"
  shows "let b = fst (iteration a (t1, BuildDone ok (Inr d) st t1)) in
    builds b = None \<and> observed b = d \<and> lastChange b \<le> t1 \<and> (pending b \<or> built b = d) \<and> debounce b = debounce a"
proof -
  have h: "loop_head a t1 = (a, [])" using assms(5) by (auto simp: idle_at_def loop_head_def)
  show ?thesis
  proof (cases "builds a")
    case None
    with assms h show ?thesis by (simp add: iteration_eq Let_def enabled_def)
  next
    case (Some b)
    have "built a = d" if "generation a = b_generation b"
    proof -
      from assms(1) Some that have "(of_nat (b_changes b) :: 64 word) = of_nat (changes a)"
        "b_changes b \<le> changes a" by (auto simp: coherent_def)
      with of_nat_64_inj assms(6) have "b_changes b = changes a" by metis
      with assms(1,2) Some show ?thesis by (simp add: coherent_def)
    qed
    with assms(2-4) h Some show ?thesis
      by (auto simp: iteration_eq Let_def enabled_def handle_def on_build_def)
  qed
qed

lemma converge_start:
  assumes "coherent b" "builds b = None" "observed b = d" "lastChange b \<le> t1" "t1 + debounce b \<le> t2"
    "pending b \<or> built b = d"
  shows "let c = fst (iteration b (t2, Tick (Inr d) t2)) in
    observed c = d \<and> built c = d \<and> \<not> pending c \<and>
    (\<forall>r. builds c = Some r \<longrightarrow> b_source r = d \<and> b_generation r = generation c)"
  using assms unfolding Let_def iteration_eq fst_conv
  by (auto simp: loop_head_def startBuild_def enabled_def handle_def on_tick_def Let_def)

lemma converge_end:
  assumes "observed c = d" "built c = d" "\<not> pending c"
    "\<forall>r. builds c = Some r \<longrightarrow> b_source r = d \<and> b_generation r = generation c"
  shows "let t = fst (iteration c (t2, BuildDone ok (Inr d) st t2)) in
    built t = d \<and> observed t = d \<and> builds t = None \<and> \<not> pending t"
  using assms unfolding Let_def iteration_eq fst_conv
  by (cases "builds c") (auto simp: loop_head_def enabled_def handle_def on_build_def Let_def)

lemma fst_iterate_Cons: "fst (iterate s (e # evs)) = fst (iterate (fst (iteration s e)) evs)"
  by (simp add: split_beta Let_def)



section \<open>The test watcher\<close>

text \<open>\<open>t_built\<close> is a ghost field: the observed sources when the last run started.\<close>

record testState =
  t_debounce :: int
  t_observed :: string
  t_pending :: bool
  t_done :: bool
  t_lastChange :: int
  t_built :: string

datatype testEffect = TRunning | TAgain | TFailed | TPassed | TScanError

datatype testEvent =
    TTick "string result" int
  | TDone bool "string result" int

definition Tests_init :: "int \<Rightarrow> string \<Rightarrow> int \<Rightarrow> testState" where
  "Tests_init deb snap now =
     \<lparr>t_debounce = (if deb \<le> 0 then 200000000 else deb), t_observed = snap, t_pending = True,
      t_done = False, t_lastChange = now - (if deb \<le> 0 then 200000000 else deb), t_built = []\<rparr>"

definition tests_head :: "testState \<Rightarrow> int \<Rightarrow> testState \<times> testEffect list" where
  "tests_head s now =
     (if t_pending s \<and> \<not> t_done s \<and> t_debounce s \<le> now - t_lastChange s
      then (s\<lparr>t_pending := False, t_done := True, t_built := t_observed s\<rparr>, [TRunning])
      else (s, []))"

definition tests_done :: "testState \<Rightarrow> bool \<Rightarrow> string result \<Rightarrow> int \<Rightarrow> testState \<times> testEffect list" where
  "tests_done s passed snap now =
     (let s = s\<lparr>t_done := False\<rparr>;
          (s, log) = (case snap of
             Inl e \<Rightarrow> (s\<lparr>t_pending := True, t_lastChange := now\<rparr>, [TScanError])
           | Inr current \<Rightarrow>
               (if current \<noteq> t_observed s
                then (s\<lparr>t_observed := current, t_pending := True, t_lastChange := now\<rparr>, []) else (s, [])))
      in (s, log @ [if t_pending s then TAgain else if \<not> passed then TFailed else TPassed]))"

definition tests_tick :: "testState \<Rightarrow> string result \<Rightarrow> int \<Rightarrow> testState \<times> testEffect list" where
  "tests_tick s snap now =
     (case snap of
        Inl e \<Rightarrow> (s, [TScanError])
      | Inr current \<Rightarrow>
          if current \<noteq> t_observed s
          then (s\<lparr>t_observed := current, t_pending := True, t_lastChange := now\<rparr>, []) else (s, []))"

text \<open>The loop of \<open>Tests\<close> with its output; it may return between two events.\<close>

inductive tests_loop :: "testState \<Rightarrow> testState \<Rightarrow> testEffect list \<Rightarrow> bool" for s0 where
  tests_init: "tests_loop s0 s0 []"
| tests_tick: "tests_loop s0 s es \<Longrightarrow> tests_head s now = (s1, es1) \<Longrightarrow>
    tests_tick s1 snap t = (s2, es2) \<Longrightarrow> tests_loop s0 s2 (es @ es1 @ es2)"
| tests_done: "tests_loop s0 s es \<Longrightarrow> tests_head s now = (s1, es1) \<Longrightarrow> t_done s1 \<Longrightarrow>
    tests_done s1 passed snap t = (s2, es2) \<Longrightarrow> tests_loop s0 s2 (es @ es1 @ es2)"

inductive tests_once :: "testState \<Rightarrow> testState \<Rightarrow> bool" where
  "tests_head s now = (s1, es1) \<Longrightarrow> tests_tick s1 snap t = (s2, es2) \<Longrightarrow> tests_once s s2"
| "tests_head s now = (s1, es1) \<Longrightarrow> tests_done s1 passed snap t = (s2, es2) \<Longrightarrow> tests_once s s2"

lemma tests_once_built:
  "tests_once s t \<Longrightarrow>
     (t_observed t = t_observed s \<or> t_pending t) \<and>
     (t_built t = t_built s \<and> (t_pending s \<longrightarrow> t_pending t) \<or> t_built t = t_observed t \<or> t_pending t)"
  by (erule tests_once.cases)
    (auto simp: tests_head_def tests_tick_def tests_done_def Let_def split: if_splits sum.splits)

interpretation tests: coalescing tests_once "\<lambda>s. True" t_pending t_observed t_built
  by unfold_locales (auto dest: tests_once_built)

lemma tests_loop_once: "tests_loop s0 s es \<Longrightarrow> tests_once\<^sup>*\<^sup>* s0 s"
  by (induction rule: tests_loop.induct)
    (auto intro: tests_once.intros rtranclp.rtrancl_into_rtrancl)

text \<open>One run at a time: the output alternates between the start of a run and its report.\<close>

fun runs_ok :: "bool \<Rightarrow> testEffect list \<Rightarrow> bool" where
  "runs_ok active [] = True"
| "runs_ok active (TRunning # es) = (\<not> active \<and> runs_ok True es)"
| "runs_ok active (TScanError # es) = runs_ok active es"
| "runs_ok active (_ # es) = (active \<and> runs_ok False es)"

fun active_after :: "bool \<Rightarrow> testEffect list \<Rightarrow> bool" where
  "active_after active [] = active"
| "active_after active (TRunning # es) = active_after True es"
| "active_after active (TScanError # es) = active_after active es"
| "active_after active (_ # es) = active_after False es"

lemma runs_append [simp]:
  "runs_ok active (es @ fs) \<longleftrightarrow> runs_ok active es \<and> runs_ok (active_after active es) fs"
  "active_after active (es @ fs) = active_after (active_after active es) fs"
  by (induction active es rule: runs_ok.induct) auto

lemma tests_loop_runs:
  "tests_loop s0 s es \<Longrightarrow> \<not> t_done s0 \<Longrightarrow> runs_ok False es \<and> active_after False es = t_done s"
proof (induction rule: tests_loop.induct)
  case (tests_tick s es now s1 es1 snap t s2 es2)
  then show ?case
    by (auto simp: tests_head_def tests_tick_def split: if_splits sum.splits)
next
  case (tests_done s es now s1 es1 passed snap t s2 es2)
  then show ?case
    by (auto simp: tests_head_def tests_done_def Let_def split: if_splits sum.splits)
qed simp

text \<open>
  C28: the test watcher runs one test at a time, and it reports a verdict only for the sources it
  observed last: when it prints that the tests passed or failed, the run started from exactly the
  sources of the snapshot taken at its end; otherwise it runs them again.
\<close>

theorem test_watch_verdicts:
  assumes "tests_loop (Tests_init deb snap now) s es" "t_done s"
    and "tests_done s passed snap' t = (s', fs)" "TPassed \<in> set fs \<or> TFailed \<in> set fs"
  shows "runs_ok False es \<and> snap' = Inr (t_built s) \<and> (TPassed \<in> set fs \<longleftrightarrow> passed) \<and> \<not> t_pending s'"
proof -
  have "t_pending (Tests_init deb snap now)" "\<not> t_done (Tests_init deb snap now)"
    by (simp_all add: Tests_init_def)
  with tests.no_change_lost [OF tests_loop_once [OF assms(1)]] tests_loop_runs [OF assms(1)]
  have "t_pending s \<or> t_observed s = t_built s" "runs_ok False es" by auto
  then show ?thesis using assms(3,4)
    by (auto simp: tests_done_def Let_def split: if_splits sum.splits)
qed

lemma test_watch_verdicts_witness:
  "runs_ok False [TRunning] \<and>
   (Inr ''h'' :: string result) = Inr (t_built (fst (tests_head (Tests_init 0 ''h'' 0) 0)))"
proof -
  define s where "s = fst (tests_head (Tests_init 0 ''h'' 0) 0)"
  have h: "tests_head (Tests_init 0 ''h'' 0) 0 = (s, [TRunning])" unfolding s_def by code_simp
  have t: "tests_tick s (Inr ''h'') 1 = (s, [])" unfolding s_def by code_simp
  have d: "t_done s" unfolding s_def by code_simp
  have e: "tests_done s True (Inr ''h'') 2 = (fst (tests_done s True (Inr ''h'') 2), [TPassed])"
    unfolding s_def by code_simp
  from tests_tick [OF tests_init h t] have "tests_loop (Tests_init 0 ''h'' 0) s [TRunning]" by simp
  from test_watch_verdicts [OF this d e] show ?thesis by (simp add: s_def)
qed

end
