(* ===== verification/Toolchain.thy ===== *)
theory Toolchain
  imports GoStrings "HOL-Library.Product_Lexorder" "HOL-Library.Multiset" "HOL-Library.Word"
begin

text \<open>
  The Go toolchain manager (\<open>internal/toolchain/toolchain.go\<close> and \<open>archive.go\<close>): which Go is
  accepted, which release is downloaded, the environment it runs in, and the unpacking of the
  archive. Programs, downloads and archives are given by what they return; paths are Unix paths.
\<close>

section \<open>Versions\<close>

definition MinimumVersion :: string where "MinimumVersion = ''go1.26.0''"

text \<open>\<open>runtime\<close> is \<open>runtime.Version()\<close> of the compiler.\<close>

definition languageVersion :: "string \<Rightarrow> string" where
  "languageVersion runtime =
     (let v = version_Lang runtime in if v \<noteq> [] then v else version_Lang MinimumVersion)"

definition supportedVersion :: "string \<Rightarrow> string \<Rightarrow> bool" where
  "supportedVersion runtime v \<longleftrightarrow>
     version_IsValid v \<and> 0 \<le> version_Compare v MinimumVersion \<and> version_Lang v = languageVersion runtime"

section \<open>Environment\<close>

definition env_key :: "string \<Rightarrow> string" where
  "env_key value = to_upper (fst (cut_at CHR ''='' value))"

definition Env :: "string list \<Rightarrow> string list" where
  "Env environ =
     filter (\<lambda>value. env_key value \<notin> {''GOROOT'', ''GOTOOLCHAIN'', ''GOWORK'', ''GO111MODULE''}) environ
     @ [''GOTOOLCHAIN=local'', ''GOWORK=off'', ''GO111MODULE=on'']"

section \<open>Releases\<close>

record Archive =
  Filename :: string
  OS :: string
  Arch :: string
  ArchiveKind :: string
  SHA256 :: string
  Size :: "64 word"

record Release =
  Version :: string
  Stable :: bool
  Files :: "Archive list"

text \<open>The platform: the runtime version, \<open>GOOS\<close> and \<open>GOARCH\<close>.\<close>

record platform =
  runtimeVersion :: string
  GOOS :: string
  GOARCH :: string

text \<open>\<open>compatible\<close>: the output of \<open>go version\<close>, or none when it cannot be run.\<close>

definition compatible :: "platform \<Rightarrow> string option \<Rightarrow> bool" where
  "compatible pf out =
     (case out of
        None \<Rightarrow> False
      | Some text \<Rightarrow>
          (case string_fields text of
             w0 # w1 # w2 # w3 # _ \<Rightarrow>
               w0 = ''go'' \<and> w1 = ''version'' \<and> supportedVersion (runtimeVersion pf) w2
               \<and> w3 = GOOS pf @ ''/'' @ GOARCH pf
           | _ \<Rightarrow> False))"

definition archive_matches :: "platform \<Rightarrow> Archive \<Rightarrow> bool" where
  "archive_matches pf a \<longleftrightarrow> ArchiveKind a = ''archive'' \<and> OS a = GOOS pf \<and> Arch a = GOARCH pf"

text \<open>The loop over the sorted releases.\<close>

fun selectArchive :: "platform \<Rightarrow> Release list \<Rightarrow> (string \<times> Archive) option" where
  "selectArchive pf [] = None"
| "selectArchive pf (r # rs) =
     (if \<not> Stable r \<or> \<not> supportedVersion (runtimeVersion pf) (Version r) then selectArchive pf rs
      else (case find (archive_matches pf) (Files r) of
              Some a \<Rightarrow> Some (Version r, a)
            | None \<Rightarrow> selectArchive pf rs))"

text \<open>\<open>sort.Slice\<close> by descending version: some permutation in that order.\<close>

definition sorted_releases :: "Release list \<Rightarrow> Release list \<Rightarrow> bool" where
  "sorted_releases rs ordered \<longleftrightarrow>
     mset ordered = mset rs \<and> sorted_wrt (\<lambda>a b. \<not> 0 < version_Compare (Version b) (Version a)) ordered"

section \<open>Unpacking\<close>

definition archivePath :: "string \<Rightarrow> string \<Rightarrow> string result" where
  "archivePath root name =
     (if \<not> has_prefix name ''go/'' \<or> contains_any name [CHR 0x5C, CHR '':'', CHR 0x00]
      then Inl (''unsafe archive path '' @ name)
      else if ''..'' \<in> set (split_on CHR ''/'' name) then Inl (''unsafe archive path '' @ name)
      else if \<not> IsLocal name then Inl (''unsafe archive path '' @ name)
      else Inr (Join root name))"

datatype entryMode = DirMode | RegularMode | OtherMode

record entry =
  e_name :: string
  e_mode :: entryMode
  e_size :: "64 word"
  e_data :: string

text \<open>
  The disk below the target: the files created with their contents, and the error of a call to the
  operating system, which the parameter \<open>os\<close> gives: it may fail \<open>MkdirAll\<close> and \<open>OpenFile\<close> for any
  reason, and \<open>O_EXCL\<close> makes it fail for an existing file.
\<close>

record unpacked =
  remaining :: int
  created :: "(string \<times> string) list"

definition maxUnpacked :: int where "maxUnpacked = 2147483648"

definition write_entry ::
  "(string \<Rightarrow> (string \<times> string) list \<Rightarrow> bool) \<Rightarrow> string \<Rightarrow> entry \<Rightarrow> unpacked \<Rightarrow> unpacked \<times> string option" where
  "write_entry os root e st =
     (case archivePath root (e_name e) of
        Inl err \<Rightarrow> (st, Some err)
      | Inr target \<Rightarrow>
          (case e_mode e of
             DirMode \<Rightarrow> (st, if os target (created st) then None else Some ''mkdir'')
           | OtherMode \<Rightarrow> (st, Some (''archive links and special files are not allowed: '' @ e_name e))
           | RegularMode \<Rightarrow>
               if sint (e_size e) < 0 \<or> remaining st < sint (e_size e)
               then (st, Some ''Go archive exceeds unpacked size limit'')
               else
                 let st = st\<lparr>remaining := remaining st - sint (e_size e)\<rparr> in
                 if \<not> os target (created st) \<or> target \<in> fst ` set (created st) then (st, Some ''open'')
                 else
                   let copied = take (nat (sint (e_size e) + 1)) (e_data e);
                       st = st\<lparr>created := created st @ [(target, copied)]\<rparr>
                   in (st, if int (length copied) \<noteq> sint (e_size e)
                           then Some (''truncated archive entry '' @ e_name e) else None)))"

fun extract_loop ::
  "(string \<Rightarrow> (string \<times> string) list \<Rightarrow> bool) \<Rightarrow> string \<Rightarrow> entry list \<Rightarrow> unpacked \<Rightarrow> unpacked \<times> string option" where
  "extract_loop os root [] st = (st, None)"
| "extract_loop os root (e # es) st =
     (case write_entry os root e st of
        (st, Some err) \<Rightarrow> (st, Some err)
      | (st, None) \<Rightarrow> extract_loop os root es st)"

text \<open>\<open>entries\<close> is what the zip or tar reader of the file yields.\<close>

definition extractArchive ::
  "(string \<Rightarrow> (string \<times> string) list \<Rightarrow> bool) \<Rightarrow> string \<Rightarrow> string \<Rightarrow> entry list result \<Rightarrow> unpacked \<times> string option" where
  "extractArchive os path root entries =
     (let st = \<lparr>remaining = maxUnpacked, created = []\<rparr> in
      if \<not> has_suffix path ''.zip'' \<and> \<not> has_suffix path ''.tar.gz''
      then (st, Some ''unsupported Go archive format'')
      else (case entries of Inl err \<Rightarrow> (st, Some err) | Inr es \<Rightarrow> extract_loop os root es st))"

section \<open>Ensure\<close>

text \<open>
  The world that \<open>Ensure\<close> asks: \<open>GHI_GO\<close> made absolute when it is set, \<open>go\<close> on the path, the output
  of \<open>go version\<close> of a path, the entries of the cache with whether they are directories, whether
  the context ended, the metadata, the staging directory, a download, its unpacking, and whether
  the rename to the destination succeeds.
\<close>

record world =
  skipSystem :: bool
  ghiGo :: "string result option"
  lookPath :: "string option"
  probe :: "string \<Rightarrow> string option"
  cacheDir :: "string result"
  cached :: "(string \<times> bool) list"
  cancelled :: bool
  metadata :: "Release list result"
  stagingDir :: "string result"
  download :: "string \<Rightarrow> string result"
  unpack :: "string \<Rightarrow> string option"
  renames :: bool

definition go_path :: "platform \<Rightarrow> string \<Rightarrow> string" where
  "go_path pf dir = dir @ ''/go/bin/'' @ (if GOOS pf = ''windows'' then ''go.exe'' else ''go'')"

definition metadata_error :: "Archive \<Rightarrow> string option" where
  "metadata_error a =
     (if \<not> IsLocal (Filename a) \<or> contains_any (Filename a) [CHR ''/'', CHR 0x5C, CHR '':'']
      then Some ''invalid archive filename in Go metadata''
      else if (case hex_decode (SHA256 a) of None \<Rightarrow> True | Some d \<Rightarrow> length d \<noteq> 32)
      then Some ''invalid Go archive checksum metadata''
      else if sint (Size a) \<le> 0 \<or> 536870912 < sint (Size a) then Some ''invalid Go archive size''
      else None)"

text \<open>Package sha256 is the parameter \<open>sha\<close>. What is written is the body up to one byte more than the size.\<close>

definition checkArchive :: "(string \<Rightarrow> string) \<Rightarrow> Archive \<Rightarrow> string \<Rightarrow> string result" where
  "checkArchive sha a body =
     (let data = take (nat (sint (Size a) + 1)) body in
      if int (length data) \<noteq> sint (Size a) \<or>
         to_upper (hex_string (sha data)) \<noteq> to_upper (SHA256 a)
      then Inl ''Go archive size or SHA-256 checksum mismatch'' else Inr data)"

definition install :: "(string \<Rightarrow> string) \<Rightarrow> platform \<Rightarrow> world \<Rightarrow> string \<Rightarrow> string \<times> Archive \<Rightarrow> string result" where
  "install sha pf w cache sel =
     (case sel of (ver, a) \<Rightarrow>
     (case metadata_error a of
        Some err \<Rightarrow> Inl err
      | None \<Rightarrow>
          res_bind (stagingDir w) (\<lambda>dir.
          res_bind (download w (Filename a)) (\<lambda>body.
          res_bind (checkArchive sha a body) (\<lambda>data.
            (case unpack w data of
               Some err \<Rightarrow> Inl (''extract Go: '' @ err)
             | None \<Rightarrow>
                 if \<not> compatible pf (probe w (go_path pf (dir @ ''/unpacked'')))
                 then Inl ''downloaded Go executable failed version/platform validation''
                 else
                   let target = go_path pf (cache @ ''/'' @ ver) in
                   if renames w \<or> compatible pf (probe w target) then Inr target
                   else Inl ''install Go''))))))"

definition cachedGo :: "platform \<Rightarrow> world \<Rightarrow> string \<Rightarrow> (string \<times> bool) list \<Rightarrow> string option" where
  "cachedGo pf w cache entries =
     map_option (\<lambda>(name, d). go_path pf (cache @ ''/'' @ name))
       (find (\<lambda>(name, d). d \<and> version_IsValid name \<and>
          compatible pf (probe w (go_path pf (cache @ ''/'' @ name)))) entries)"

text \<open>\<open>ents\<close> and \<open>order\<close> are what \<open>sort.Slice\<close> makes of the entries and of the releases.\<close>

definition managedGo ::
  "(string \<Rightarrow> string) \<Rightarrow> platform \<Rightarrow> world \<Rightarrow> (string \<times> bool) list \<Rightarrow> (Release list \<Rightarrow> Release list) \<Rightarrow> string result" where
  "managedGo sha pf w ents order =
     res_bind (cacheDir w) (\<lambda>cache.
       (case cachedGo pf w cache ents of
          Some path \<Rightarrow> Inr path
        | None \<Rightarrow>
            if cancelled w then Inl ''context canceled''
            else res_bind (metadata w) (\<lambda>releases.
              (case selectArchive pf (order releases) of
                 None \<Rightarrow> Inl ''no compatible official Go archive''
               | Some sel \<Rightarrow> install sha pf w cache sel))))"

definition Ensure ::
  "(string \<Rightarrow> string) \<Rightarrow> platform \<Rightarrow> world \<Rightarrow> (string \<times> bool) list \<Rightarrow> (Release list \<Rightarrow> Release list) \<Rightarrow> string result" where
  "Ensure sha pf w ents order =
     (if skipSystem w then managedGo sha pf w ents order
      else (case ghiGo w of
         Some absolute \<Rightarrow>
           res_bind absolute (\<lambda>path.
             if compatible pf (probe w path) then Inr path
             else Inl ''GHI_GO does not identify a compatible Go executable'')
       | None \<Rightarrow>
           (case lookPath w of
              Some path \<Rightarrow>
                if compatible pf (probe w path) then Inr path else managedGo sha pf w ents order
            | None \<Rightarrow> managedGo sha pf w ents order)))"

section \<open>Versions are ordered\<close>

definition version_key ::
  "string \<Rightarrow> (nat \<times> string) \<times> (nat \<times> string) \<times> (nat \<times> string) \<times> string \<times> (nat \<times> string)" where
  "version_key x =
     (let v = parse_version (stripGo x)
      in (int_key (vMajor v), int_key (vMinor v), int_key (vPatch v), vKind v, int_key (vPre v)))"

text \<open>A comparison \<open>c\<close> decides the order of two keys; comparisons chain to a lexicographic order.\<close>

definition decides :: "int \<Rightarrow> 'a :: linorder \<Rightarrow> 'a \<Rightarrow> bool" where
  "decides c x y \<longleftrightarrow> (0 < c \<longleftrightarrow> y < x) \<and> (c = 0 \<longleftrightarrow> x = y)"

lemma decides_chain:
  "decides c a b \<Longrightarrow> decides d x y \<Longrightarrow> decides (if c \<noteq> 0 then c else d) (a, x) (b, y)"
  by (auto simp: decides_def less_prod_simp)

lemma decides_CmpInt: "decides (CmpInt x y) (int_key x) (int_key y)"
  by (auto simp: decides_def CmpInt_def int_key_def less_prod_simp)

lemma decides_string: "decides (cmp_string x y) x y"
  by (auto simp: decides_def cmp_string_def)

lemma version_Compare_decides: "decides (version_Compare x y) (version_key x) (version_key y)"
  unfolding version_Compare_def version_key_def Let_def
  by (intro decides_chain decides_CmpInt decides_string)

lemma version_Compare_key: "0 < version_Compare x y \<longleftrightarrow> version_key y < version_key x"
  using version_Compare_decides by (simp add: decides_def)

section \<open>The environment\<close>

lemma env_key_fixed:
  "env_key ''GOTOOLCHAIN=local'' = ''GOTOOLCHAIN''" "env_key ''GOWORK=off'' = ''GOWORK''"
  "env_key ''GO111MODULE=on'' = ''GO111MODULE''"
  by code_simp+

text \<open>
  The environment of every Go command sets \<open>GOTOOLCHAIN\<close>, \<open>GOWORK\<close> and \<open>GO111MODULE\<close> exactly
  once, to \<open>local\<close>, \<open>off\<close> and \<open>on\<close>, has no \<open>GOROOT\<close> in any spelling of its case, and passes every
  other variable on unchanged and in order.
\<close>

theorem Env_controls_go:
  "filter (\<lambda>v. env_key v = ''GOTOOLCHAIN'') (Env environ) = [''GOTOOLCHAIN=local'']
   \<and> filter (\<lambda>v. env_key v = ''GOWORK'') (Env environ) = [''GOWORK=off'']
   \<and> filter (\<lambda>v. env_key v = ''GO111MODULE'') (Env environ) = [''GO111MODULE=on'']
   \<and> filter (\<lambda>v. env_key v = ''GOROOT'') (Env environ) = []
   \<and> filter (\<lambda>v. env_key v \<notin> {''GOROOT'', ''GOTOOLCHAIN'', ''GOWORK'', ''GO111MODULE''}) (Env environ)
     = filter (\<lambda>v. env_key v \<notin> {''GOROOT'', ''GOTOOLCHAIN'', ''GOWORK'', ''GO111MODULE''}) environ"
proof -
  let ?P = "\<lambda>v. env_key v \<notin> {''GOROOT'', ''GOTOOLCHAIN'', ''GOWORK'', ''GO111MODULE''}"
  have "filter (\<lambda>v. env_key v = k) (filter ?P environ) = []"
    if "k \<in> {''GOROOT'', ''GOTOOLCHAIN'', ''GOWORK'', ''GO111MODULE''}" for k
    using that unfolding filter_empty_conv by auto
  then show ?thesis by (simp add: Env_def env_key_fixed)
qed

section \<open>The release\<close>

lemma selectArchive_sound:
  "selectArchive pf rs = Some (ver, a) \<Longrightarrow>
     \<exists>before r after. rs = before @ r # after \<and> Version r = ver \<and> Stable r \<and> supportedVersion (runtimeVersion pf) ver
       \<and> a \<in> set (Files r) \<and> archive_matches pf a
       \<and> (\<forall>b \<in> set before. Stable b \<and> supportedVersion (runtimeVersion pf) (Version b) \<longrightarrow>
            \<not> list_ex (archive_matches pf) (Files b))"
proof (induction rs)
  case (Cons r rs)
  show ?case
  proof (cases "Stable r \<and> supportedVersion (runtimeVersion pf) (Version r) \<and> find (archive_matches pf) (Files r) \<noteq> None")
    case True
    with Cons.prems have "ver = Version r" "find (archive_matches pf) (Files r) = Some a" by auto
    with True show ?thesis
      by (intro exI [of _ "[]"] exI [of _ r] exI [of _ rs]) (auto simp: find_Some_iff)
  next
    case False
    with Cons.prems have "selectArchive pf rs = Some (ver, a)" by (auto split: if_splits)
    from Cons.IH [OF this] obtain before r' after where *: "rs = before @ r' # after" "Version r' = ver" "Stable r'"
      "supportedVersion (runtimeVersion pf) ver" "a \<in> set (Files r')" "archive_matches pf a"
      "\<forall>b \<in> set before. Stable b \<and> supportedVersion (runtimeVersion pf) (Version b) \<longrightarrow>
            \<not> list_ex (archive_matches pf) (Files b)" by blast
    have "Stable r \<and> supportedVersion (runtimeVersion pf) (Version r) \<longrightarrow> \<not> list_ex (archive_matches pf) (Files r)"
      using False by (auto simp: find_None_iff list_ex_iff)
    with * show ?thesis by (intro exI [of _ "r # before"] exI [of _ r'] exI [of _ after]) simp
  qed
qed simp

text \<open>
  C29: the release that is downloaded is the newest one that is stable, supported by this compiler
  and has an archive for the platform, however \<open>sort.Slice\<close> orders releases of equal version.
\<close>

theorem selectArchive_newest:
  assumes "sorted_releases releases ordered" "selectArchive pf ordered = Some (ver, a)"
  shows "(\<exists>r \<in> set releases. Version r = ver \<and> Stable r \<and> a \<in> set (Files r)) \<and> archive_matches pf a
    \<and> supportedVersion (runtimeVersion pf) ver
    \<and> (\<forall>r \<in> set releases. Stable r \<and> supportedVersion (runtimeVersion pf) (Version r)
         \<and> list_ex (archive_matches pf) (Files r) \<longrightarrow> \<not> 0 < version_Compare (Version r) ver)"
proof -
  from selectArchive_sound [OF assms(2)] obtain before r after where *: "ordered = before @ r # after"
    "Version r = ver" "Stable r" "supportedVersion (runtimeVersion pf) ver" "a \<in> set (Files r)"
    "archive_matches pf a" "\<forall>b \<in> set before. Stable b \<and> supportedVersion (runtimeVersion pf) (Version b) \<longrightarrow>
            \<not> list_ex (archive_matches pf) (Files b)" by blast
  have set: "set releases = set ordered" using assms(1) by (metis sorted_releases_def set_mset_mset)
  have "sorted_wrt (\<lambda>a b. \<not> 0 < version_Compare (Version b) (Version a)) (before @ r # after)"
    using assms(1) *(1) by (simp add: sorted_releases_def)
  then have "\<forall>b \<in> set after. \<not> 0 < version_Compare (Version b) ver"
    by (simp add: sorted_wrt_append *(2))
  moreover have "\<not> 0 < version_Compare ver ver" by (simp add: version_Compare_key)
  ultimately show ?thesis using * by (auto simp: set)
qed

section \<open>What is installed\<close>

definition verified_install :: "(string \<Rightarrow> string) \<Rightarrow> platform \<Rightarrow> world \<Rightarrow> string \<Rightarrow> bool" where
  "verified_install sha pf w path \<longleftrightarrow>
     (\<exists>cache ver (a :: Archive) body dir. cacheDir w = Inr cache \<and> path = go_path pf (cache @ ''/'' @ ver) \<and>
        download w (Filename a) = Inr body \<and> IsLocal (Filename a) \<and>
        sint (Size a) = int (length body) \<and> 0 < length body \<and> length body \<le> 536870912 \<and>
        hex_decode (SHA256 a) = Some (sha body) \<and> unpack w body = None \<and>
        compatible pf (probe w (go_path pf (dir @ ''/unpacked''))))"

lemma checkArchive_body:
  assumes "checkArchive sha a body = Inr data" "0 < sint (Size a)"
  shows "data = body \<and> sint (Size a) = int (length body) \<and> hex_decode (SHA256 a) = Some (sha body)"
proof -
  from assms have d: "data = take (nat (sint (Size a) + 1)) body" "int (length data) = sint (Size a)"
    "to_upper (hex_string (sha data)) = to_upper (SHA256 a)"
    by (auto simp: checkArchive_def Let_def split: if_splits)
  then have "length data < nat (sint (Size a) + 1)" using assms(2) by linarith
  then have "data = body" using d(1) by simp
  moreover have "hex_decode (SHA256 a) = Some (sha data)"
    using d(3) hex_decode_hex_string hex_decode_upper by metis
  ultimately show ?thesis using d(2) by simp
qed

lemma metadata_error_None:
  "metadata_error a = None \<Longrightarrow> IsLocal (Filename a) \<and> 0 < sint (Size a) \<and> sint (Size a) \<le> 536870912"
  by (auto simp: metadata_error_def split: if_splits)

lemma install_verified:
  assumes "install sha pf w cache (ver, a) = Inr path" "cacheDir w = Inr cache"
  shows "verified_install sha pf w path"
proof -
  from assms(1) have m: "metadata_error a = None"
    by (simp add: install_def split: option.splits)
  note size = metadata_error_None [OF m]
  from assms(1) m obtain dir body data where *: "stagingDir w = Inr dir" "download w (Filename a) = Inr body"
    "checkArchive sha a body = Inr data" "unpack w data = None"
    "compatible pf (probe w (go_path pf (dir @ ''/unpacked'')))" "path = go_path pf (cache @ ''/'' @ ver)"
    by (auto simp: install_def res_bind_Inr_iff Let_def split: option.splits if_splits)
  from checkArchive_body [OF *(3)] size have "data = body" "sint (Size a) = int (length body)"
    "hex_decode (SHA256 a) = Some (sha body)" by auto
  with * size assms(2) show ?thesis unfolding verified_install_def by auto
qed

lemma cachedGo_compatible:
  "cachedGo pf w cache ents = Some path \<Longrightarrow> compatible pf (probe w path)"
  by (auto simp: cachedGo_def find_Some_iff)

lemma managedGo_verified:
  assumes "managedGo sha pf w ents order = Inr path"
  shows "compatible pf (probe w path) \<or> verified_install sha pf w path"
proof -
  from assms obtain cache where c: "cacheDir w = Inr cache"
    by (auto simp: managedGo_def res_bind_Inr_iff)
  show ?thesis
  proof (cases "cachedGo pf w cache ents")
    case None
    with assms c obtain rs sel where "install sha pf w cache sel = Inr path"
      by (auto simp: managedGo_def res_bind_Inr_iff split: option.splits if_splits)
    then show ?thesis using install_verified [OF _ c] by (cases sel) blast
  next
    case (Some p)
    with assms c have "p = path" by (simp add: managedGo_def)
    with cachedGo_compatible [OF Some] show ?thesis by simp
  qed
qed


section \<open>Unpacking stays in its directory\<close>

definition plain_part :: "string \<Rightarrow> bool" where
  "plain_part p \<longleftrightarrow> p \<noteq> [] \<and> p \<noteq> ''.'' \<and> p \<noteq> ''..'' \<and> CHR ''/'' \<notin> set p"

text \<open>A clean absolute path: the elements below the root.\<close>

definition abs_path :: "string list \<Rightarrow> string" where
  "abs_path ps = CHR ''/'' # join ''/'' ps"

lemma join_append: "xs \<noteq> [] \<Longrightarrow> ys \<noteq> [] \<Longrightarrow> join sep (xs @ ys) = join sep xs @ sep @ join sep ys"
  by (induction sep xs rule: join.induct) (auto simp: neq_Nil_conv)

lemma split_on_join: "ps \<noteq> [] \<Longrightarrow> \<forall>p \<in> set ps. c \<notin> set p \<Longrightarrow> split_on c (join [c] ps) = ps"
proof (induction "[c]" ps rule: join.induct)
  case (2 x)
  then show ?case by (induction x) auto
qed (auto simp: split_on_append)

lemma Clean_below:
  assumes "rs \<noteq> []" "\<forall>r \<in> set rs. plain_part r" "''..'' \<notin> set (split_on CHR ''/'' name)"
  shows "Clean (abs_path rs @ ''/'' @ name) =
    abs_path (rs @ filter (\<lambda>p. p \<noteq> [] \<and> p \<noteq> ''.'') (split_on CHR ''/'' name))"
proof -
  have s: "split_on CHR ''/'' (join ''/'' rs @ CHR ''/'' # name) = rs @ split_on CHR ''/'' name"
    using split_on_sep [of "CHR ''/''" "join ''/'' rs" name] split_on_join [OF assms(1), of "CHR ''/''"] assms(2)
    by (simp add: plain_part_def)
  have f: "filter (\<lambda>p. p \<noteq> [] \<and> p \<noteq> ''.'') rs = rs" using assms(2) by (simp add: filter_id_conv plain_part_def)
  have "''..'' \<notin> set ([] # rs @ split_on CHR ''/'' name)" using assms(2,3) by (auto simp: plain_part_def)
  from clean_parts_plain [OF this, of True "[]"] show ?thesis
    by (simp add: Clean_def s f is_abs_def has_prefix_def abs_path_def)
qed

lemma archivePath_target:
  assumes "archivePath (abs_path rs) name = Inr target" "rs \<noteq> []" "\<forall>r \<in> set rs. plain_part r"
  shows "\<exists>parts. target = abs_path (rs @ ''go'' # parts) \<and>
    (\<forall>p \<in> set parts. plain_part p \<and> CHR 0x5C \<notin> set p \<and> CHR '':'' \<notin> set p)"
proof -
  from assms(1) have n: "has_prefix name ''go/''" "\<not> contains_any name [CHR 0x5C, CHR '':'', CHR 0x00]"
    "''..'' \<notin> set (split_on CHR ''/'' name)" "target = Join (abs_path rs) name"
    by (auto simp: archivePath_def split: if_splits)
  from n(1) obtain rest where name: "name = ''go'' @ CHR ''/'' # rest"
    by (auto simp: has_prefix_iff prefix_def)
  let ?ps = "split_on CHR ''/'' rest"
  let ?parts = "filter (\<lambda>p. p \<noteq> [] \<and> p \<noteq> ''.'') ?ps"
  have s: "split_on CHR ''/'' name = ''go'' # ?ps"
    unfolding name by (rule split_on_append) simp
  have "target = abs_path (rs @ ''go'' # ?parts)"
    using Clean_below [OF assms(2,3) n(3)] by (simp add: n(4) Join_def name s abs_path_def)
  moreover have "plain_part p \<and> CHR 0x5C \<notin> set p \<and> CHR '':'' \<notin> set p" if p: "p \<in> set ?parts" for p
  proof -
    have ps: "p \<in> set ?ps" using p by simp
    then have "p \<noteq> ''..''" using n(3) s by auto
    moreover have "CHR ''/'' \<notin> set p" using ps by (rule split_on_no_sep)
    moreover have "set p \<subseteq> set name"
      using split_on_subset [OF ps] by (auto simp: name)
    ultimately show ?thesis using p n(2) by (auto simp: plain_part_def contains_any_def list_ex_iff)
  qed
  ultimately show ?thesis by blast
qed

text \<open>
  C13: a name that \<open>archivePath\<close> accepts leads to a path below \<open>go\<close> in the target directory: its
  elements are names, none of them \<open>..\<close>, so no entry of an archive is written outside.
\<close>

theorem archivePath_inside:
  assumes "archivePath (abs_path rs) name = Inr target" "rs \<noteq> []" "\<forall>r \<in> set rs. plain_part r"
  shows "\<exists>parts. target = abs_path (rs @ ''go'' # parts) \<and>
    (\<forall>p \<in> set parts. plain_part p \<and> CHR 0x5C \<notin> set p \<and> CHR '':'' \<notin> set p)"
  using archivePath_target [OF assms] .

lemma archivePath_inside_witness:
  "\<exists>parts. ''/c/go/bin/go'' = abs_path ([''c''] @ ''go'' # parts)"
proof -
  have "archivePath (abs_path [''c'']) ''go/./bin//go'' = Inr ''/c/go/bin/go''" by code_simp
  from archivePath_inside [OF this] show ?thesis by (auto simp: plain_part_def)
qed

definition unpacked_bytes :: "unpacked \<Rightarrow> int" where
  "unpacked_bytes st = (\<Sum>(p, d) \<leftarrow> created st. int (length d))"

definition inside :: "string list \<Rightarrow> string \<Rightarrow> bool" where
  "inside rs target \<longleftrightarrow> (\<exists>parts. target = abs_path (rs @ ''go'' # parts) \<and> (\<forall>p \<in> set parts. plain_part p))"

lemma archivePath_parts:
  "archivePath (abs_path rs) name = Inr target \<Longrightarrow> rs \<noteq> [] \<Longrightarrow> \<forall>r \<in> set rs. plain_part r \<Longrightarrow> inside rs target"
  using archivePath_target unfolding inside_def by blast

definition unpack_ok :: "string list \<Rightarrow> unpacked \<Rightarrow> int \<Rightarrow> bool" where
  "unpack_ok rs st extra \<longleftrightarrow>
     0 \<le> remaining st \<and> unpacked_bytes st + remaining st \<le> maxUnpacked + extra \<and>
     distinct (map fst (created st)) \<and> (\<forall>(p, d) \<in> set (created st). inside rs p)"

lemma write_entry_ok:
  assumes "unpack_ok rs st 0" "write_entry os (abs_path rs) e st = (st', err)" "rs \<noteq> []" "\<forall>r \<in> set rs. plain_part r"
  shows "unpack_ok rs st' (if err = None then 0 else 1)"
proof -
  have weaken: "unpack_ok rs s 0 \<Longrightarrow> unpack_ok rs s 1" for s by (auto simp: unpack_ok_def)
  show ?thesis
  proof (cases "archivePath (abs_path rs) (e_name e)")
    case (Inl a)
    with assms(1,2) show ?thesis by (auto simp: write_entry_def intro: weaken)
  next
    case (Inr target)
    from archivePath_parts [OF Inr assms(3,4)] have t: "inside rs target" .
    show ?thesis
    proof (cases "e_mode e = RegularMode \<and> 0 \<le> sint (e_size e) \<and> sint (e_size e) \<le> remaining st")
      case False
      with assms(1,2) Inr show ?thesis
        by (cases "e_mode e") (auto simp: write_entry_def split: if_splits intro: weaken)
    next
      case True
      let ?s = "st\<lparr>remaining := remaining st - sint (e_size e)\<rparr>"
      let ?d = "take (nat (sint (e_size e) + 1)) (e_data e)"
      from assms(1) True have s: "unpack_ok rs ?s 0" by (auto simp: unpack_ok_def unpacked_bytes_def)
      show ?thesis
      proof (cases "\<not> os target (created st) \<or> target \<in> fst ` set (created st)")
        case open_fails: True
        with assms(2) Inr True s show ?thesis by (auto simp: write_entry_def Let_def intro: weaken)
      next
        case False
        have len: "int (length ?d) \<le> sint (e_size e) + 1" using True by (simp add: min_def) linarith
        have st': "st' = ?s\<lparr>created := created st @ [(target, ?d)]\<rparr>"
          and err: "err = None \<longleftrightarrow> int (length ?d) = sint (e_size e)"
          using assms(2) Inr True False by (auto simp: write_entry_def Let_def)
        show ?thesis using assms(1) True False t len
          by (auto simp: st' err unpack_ok_def unpacked_bytes_def)
      qed
    qed
  qed
qed

text \<open>What a completed extraction created: each file of the archive with all its bytes.\<close>

fun extracted :: "string \<Rightarrow> entry list \<Rightarrow> (string \<times> string) list" where
  "extracted root [] = []"
| "extracted root (e # es) =
     (if e_mode e = RegularMode then [(Join root (e_name e), take (nat (sint (e_size e))) (e_data e))] else [])
     @ extracted root es"

lemma write_entry_done:
  assumes "write_entry os root e st = (st', None)"
  shows "e_mode e \<noteq> OtherMode \<and> created st' = created st @ extracted root [e]"
proof (cases "e_mode e")
  case RegularMode
  with assms obtain target where t: "archivePath root (e_name e) = Inr target"
    and len: "int (length (take (nat (sint (e_size e) + 1)) (e_data e))) = sint (e_size e)"
    and c: "created st' = created st @ [(target, take (nat (sint (e_size e) + 1)) (e_data e))]"
    by (auto simp: write_entry_def Let_def split: sum.splits if_splits)
  have "take (nat (sint (e_size e) + 1)) (e_data e) = take (nat (sint (e_size e))) (e_data e)"
    using len by (auto simp: nat_add_distrib min_def split: if_splits)
  moreover have "target = Join root (e_name e)" using t by (auto simp: archivePath_def split: if_splits)
  ultimately show ?thesis using c RegularMode by simp
qed (use assms in \<open>auto simp: write_entry_def split: sum.splits if_splits\<close>)

lemma extract_loop_ok:
  "unpack_ok rs st 0 \<Longrightarrow> extract_loop os (abs_path rs) es st = (st', err) \<Longrightarrow> rs \<noteq> [] \<Longrightarrow>
     \<forall>r \<in> set rs. plain_part r \<Longrightarrow>
     unpack_ok rs st' (if err = None then 0 else 1) \<and>
     (err = None \<longrightarrow> (\<forall>e \<in> set es. e_mode e \<noteq> OtherMode) \<and> created st' = created st @ extracted (abs_path rs) es)"
proof (induction es arbitrary: st)
  case (Cons e es)
  obtain s1 err1 where w: "write_entry os (abs_path rs) e st = (s1, err1)" by fastforce
  note ok = write_entry_ok [OF Cons.prems(1) w Cons.prems(3,4)]
  show ?case
  proof (cases err1)
    case None
    with Cons.prems(2) w have "extract_loop os (abs_path rs) es s1 = (st', err)" by simp
    from Cons.IH [OF _ this Cons.prems(3,4)] ok None write_entry_done [of os "abs_path rs" e st s1] w
    show ?thesis by auto
  next
    case (Some x)
    with Cons.prems(2) w ok show ?thesis by auto
  qed
qed simp

text \<open>
  C31: unpacking an archive, also one that fails, creates files only below \<open>go\<close> in its directory,
  each path once, and writes at most 2 GiB and one byte; when it succeeds the archive held no link
  or special file and every regular file is there with all its bytes.
\<close>

theorem extract_bounded:
  assumes "extractArchive os path (abs_path rs) (Inr es) = (st, err)" "rs \<noteq> []" "\<forall>r \<in> set rs. plain_part r"
  shows "(\<forall>(p, d) \<in> set (created st). inside rs p) \<and> distinct (map fst (created st)) \<and>
    unpacked_bytes st \<le> 2 ^ 31 + 1 \<and>
    (err = None \<longrightarrow> (\<forall>e \<in> set es. e_mode e \<noteq> OtherMode) \<and> created st = extracted (abs_path rs) es \<and>
       unpacked_bytes st \<le> 2 ^ 31)"
proof -
  let ?s0 = "\<lparr>remaining = maxUnpacked, created = []\<rparr>"
  have s0: "unpack_ok rs ?s0 0" by (simp add: unpack_ok_def unpacked_bytes_def maxUnpacked_def)
  show ?thesis
  proof (cases "\<not> has_suffix path ''.zip'' \<and> \<not> has_suffix path ''.tar.gz''")
    case True
    with assms(1) show ?thesis by (auto simp: extractArchive_def unpacked_bytes_def)
  next
    case False
    with assms(1) have "extract_loop os (abs_path rs) es ?s0 = (st, err)"
      by (auto simp: extractArchive_def Let_def split: if_splits)
    from extract_loop_ok [OF s0 this assms(2,3)] show ?thesis
      by (auto simp: unpack_ok_def maxUnpacked_def split: if_splits)
  qed
qed

lemma extract_bounded_witness:
  "unpacked_bytes (fst (extractArchive (\<lambda>p fs. True) ''go.zip'' (abs_path [''c''])
     (Inr [\<lparr>e_name = ''go/bin/go'', e_mode = RegularMode, e_size = 3, e_data = ''abc''\<rparr>]))) \<le> 2 ^ 31 + 1"
  using extract_bounded [OF prod.collapse [symmetric], where rs = "[''c'']" and os = "\<lambda>p fs. True" and path = "''go.zip''"
    and es = "[\<lparr>e_name = ''go/bin/go'', e_mode = RegularMode, e_size = 3, e_data = ''abc''\<rparr>]"]
  by (simp add: plain_part_def)

section \<open>Examples\<close>

definition linux :: platform where
  "linux = \<lparr>runtimeVersion = ''go1.26.2'', GOOS = ''linux'', GOARCH = ''amd64''\<rparr>"

definition example_release :: "string \<Rightarrow> Release" where
  "example_release v =
     \<lparr>Version = v, Stable = True,
      Files = [\<lparr>Filename = v @ ''.linux-amd64.tar.gz'', OS = ''linux'', Arch = ''amd64'',
                ArchiveKind = ''archive'', SHA256 = [], Size = 3\<rparr>]\<rparr>"

lemma selectArchive_newest_witness:
  "\<not> 0 < version_Compare ''go1.26.1'' ''go1.26.10''"
proof -
  let ?rs = "[example_release ''go1.26.1'', example_release ''go1.26.10'', example_release ''go1.27.0'']"
  let ?o = "[example_release ''go1.27.0'', example_release ''go1.26.10'', example_release ''go1.26.1'']"
  have w: "sorted_wrt (\<lambda>a b. \<not> 0 < version_Compare (Version b) (Version a)) ?o" by code_simp
  have s: "sorted_releases ?rs ?o"
    unfolding sorted_releases_def using w by (simp add: add_mset_commute)
  have "selectArchive linux ?o = Some (''go1.26.10'', hd (Files (example_release ''go1.26.10'')))" by code_simp
  from selectArchive_newest [OF s this]
  have "Stable (example_release ''go1.26.1'') \<and> supportedVersion (runtimeVersion linux) (Version (example_release ''go1.26.1''))
         \<and> list_ex (archive_matches linux) (Files (example_release ''go1.26.1'')) \<longrightarrow>
         \<not> 0 < version_Compare (Version (example_release ''go1.26.1'')) ''go1.26.10''" by simp
  moreover have "Stable (example_release ''go1.26.1'') \<and> supportedVersion (runtimeVersion linux) (Version (example_release ''go1.26.1''))
         \<and> list_ex (archive_matches linux) (Files (example_release ''go1.26.1''))" by code_simp
  ultimately show ?thesis by (simp add: example_release_def)
qed

definition example_world :: world where
  "example_world =
     \<lparr>skipSystem = False, ghiGo = None, lookPath = Some ''/bin/go'',
      probe = (\<lambda>p. if p = ''/bin/go'' then Some ''go version go1.26.2 linux/amd64'' else None),
      cacheDir = Inr ''/c'', cached = [], cancelled = False, metadata = Inr [], stagingDir = Inr ''/c/s'',
      download = (\<lambda>f. Inl ''offline''), unpack = (\<lambda>d. None), renames = True\<rparr>"


end
