(* ===== verification/BuildCache.thy ===== *)
theory BuildCache
  imports GoStrings
begin

text \<open>
  The build cache (\<open>internal/compiler/build_cache.go\<close>) and the semantic certificates kept with it
  (\<open>semantic_cache.go\<close>). The disk is the content of \<open>state.json\<close> and the files of the workspace by
  their relative paths. Package sha256 is the parameter \<open>sha\<close>.
\<close>

section \<open>The state on disk\<close>

record buildCacheState =
  Key :: string
  Files :: "string \<rightharpoonup> string"
  Namespaces :: "string \<rightharpoonup> string"
  Helpers :: "nat list"
  SpecializedNames :: "string \<rightharpoonup> string"

text \<open>
  \<open>Damaged\<close> stands for bytes that \<open>json.Unmarshal\<close> rejects: an interrupted write leaves a proper
  prefix of a JSON object, which is no JSON value.
\<close>

datatype stateFile = Missing | Damaged | Published buildCacheState

record disk =
  state_json :: stateFile
  work :: "string \<rightharpoonup> string"

text \<open>\<open>cacheFiles\<close>: the digests of the files below a directory of regular files.\<close>

definition cacheFiles :: "(string \<Rightarrow> string) \<Rightarrow> (string \<rightharpoonup> string) \<Rightarrow> (string \<rightharpoonup> string)" where
  "cacheFiles sha files = (\<lambda>name. map_option (\<lambda>data. hex_string (sha data)) (files name))"

text \<open>\<open>snapshot\<close>: a map lookup of a missing name gives the empty digest, hence the comparison.\<close>

definition cache_snapshot :: "(string \<Rightarrow> string) \<Rightarrow> disk \<Rightarrow> buildCacheState option" where
  "cache_snapshot sha d =
     (case state_json d of
        Published st \<Rightarrow>
          if Files st = Map.empty then None
          else
            let files = cacheFiles sha (work d) in
            if card (dom files) \<noteq> card (dom (Files st)) then None
            else if \<exists>name \<in> dom files. case Files st name of None \<Rightarrow> the (files name) \<noteq> [] | Some x \<Rightarrow> x \<noteq> the (files name)
            then None else Some st
      | _ \<Rightarrow> None)"

definition cache_valid :: "(string \<Rightarrow> string) \<Rightarrow> string \<Rightarrow> disk \<Rightarrow> bool" where
  "cache_valid sha key d =
     (case cache_snapshot sha d of None \<Rightarrow> False | Some st \<Rightarrow> Key st = key)"

section \<open>Publishing\<close>

text \<open>
  \<open>store\<close> is a sequence of operations on the disk. The maps it ranges over are visited in some
  order: \<open>removed\<close> lists the names of the old files that are not staged, \<open>written\<close> the staged names
  whose digest differs from the old one.
\<close>

datatype diskOp = RemoveState | RemoveFile string | WriteFile string string | PublishState buildCacheState

fun apply_op :: "diskOp \<Rightarrow> disk \<Rightarrow> disk" where
  "apply_op RemoveState d = d\<lparr>state_json := Missing\<rparr>"
| "apply_op (RemoveFile n) d = d\<lparr>work := (work d)(n := None)\<rparr>"
| "apply_op (WriteFile n data) d = d\<lparr>work := (work d)(n \<mapsto> data)\<rparr>"
| "apply_op (PublishState st) d = d\<lparr>state_json := Published st\<rparr>"

text \<open>What an operation may leave behind when it fails or the compiler is killed during it.\<close>

fun broken_op :: "diskOp \<Rightarrow> disk \<Rightarrow> disk set" where
  "broken_op RemoveState d = {d}"
| "broken_op (RemoveFile n) d = {d}"
| "broken_op (WriteFile n data) d = insert d {d\<lparr>work := (work d)(n \<mapsto> part)\<rparr> | part. True}"
| "broken_op (PublishState st) d = {d, d\<lparr>state_json := Damaged\<rparr>}"

definition store_removed :: "(string \<rightharpoonup> string) \<Rightarrow> (string \<rightharpoonup> string) \<Rightarrow> string list \<Rightarrow> bool" where
  "store_removed old files names \<longleftrightarrow> distinct names \<and> set names = dom old - dom files"

definition store_written :: "(string \<rightharpoonup> string) \<Rightarrow> (string \<rightharpoonup> string) \<Rightarrow> string list \<Rightarrow> bool" where
  "store_written old files names \<longleftrightarrow>
     distinct names \<and> set names = {n \<in> dom files. old n \<noteq> files n}"

definition sync_ops :: "(string \<rightharpoonup> string) \<Rightarrow> string list \<Rightarrow> string list \<Rightarrow> diskOp list" where
  "sync_ops staging removed written =
     RemoveState # map RemoveFile removed @ map (\<lambda>n. WriteFile n (the (staging n))) written"

text \<open>
  A run of \<open>store\<close> on a disk: it stops at an operation that breaks, or after the last
  synchronization compares the workspace with the staged files and publishes the state only when
  they agree. The result says whether \<open>store\<close> returned without an error.
\<close>

fun run_ops :: "diskOp list \<Rightarrow> disk \<Rightarrow> disk" where
  "run_ops [] d = d"
| "run_ops (op # ops) d = run_ops ops (apply_op op d)"

inductive store ::
  "(string \<Rightarrow> string) \<Rightarrow> buildCacheState \<Rightarrow> (string \<rightharpoonup> string) \<Rightarrow> disk \<Rightarrow> disk \<Rightarrow> bool \<Rightarrow> bool"
  for sha st staging d
where
  store_unread: "store sha st staging d d False"
| store_broken: "store_removed (cacheFiles sha (work d)) (cacheFiles sha staging) removed \<Longrightarrow>
    store_written (cacheFiles sha (work d)) (cacheFiles sha staging) written \<Longrightarrow>
    sync_ops staging removed written = before @ op # after \<Longrightarrow>
    d' \<in> broken_op op (run_ops before d) \<Longrightarrow> store sha st staging d d' False"
| store_differs: "store_removed (cacheFiles sha (work d)) (cacheFiles sha staging) removed \<Longrightarrow>
    store_written (cacheFiles sha (work d)) (cacheFiles sha staging) written \<Longrightarrow>
    d1 = run_ops (sync_ops staging removed written) d \<Longrightarrow>
    cacheFiles sha (work d1) \<noteq> cacheFiles sha staging \<Longrightarrow> store sha st staging d d1 False"
| store_unpublished: "store_removed (cacheFiles sha (work d)) (cacheFiles sha staging) removed \<Longrightarrow>
    store_written (cacheFiles sha (work d)) (cacheFiles sha staging) written \<Longrightarrow>
    d1 = run_ops (sync_ops staging removed written) d \<Longrightarrow>
    cacheFiles sha (work d1) = cacheFiles sha staging \<Longrightarrow>
    d' \<in> broken_op (PublishState (st\<lparr>Files := cacheFiles sha staging\<rparr>)) d1 \<Longrightarrow> store sha st staging d d' False"
| store_done: "store_removed (cacheFiles sha (work d)) (cacheFiles sha staging) removed \<Longrightarrow>
    store_written (cacheFiles sha (work d)) (cacheFiles sha staging) written \<Longrightarrow>
    d1 = run_ops (sync_ops staging removed written) d \<Longrightarrow>
    cacheFiles sha (work d1) = cacheFiles sha staging \<Longrightarrow>
    d' = apply_op (PublishState (st\<lparr>Files := cacheFiles sha staging\<rparr>)) d1 \<Longrightarrow> store sha st staging d d' True"

section \<open>Crash safety\<close>

lemma run_ops_append [simp]: "run_ops (a @ b) d = run_ops b (run_ops a d)"
  by (induction a arbitrary: d) auto

definition touches_work :: "diskOp \<Rightarrow> bool" where
  "touches_work op \<longleftrightarrow> (case op of RemoveFile n \<Rightarrow> True | WriteFile n x \<Rightarrow> True | _ \<Rightarrow> False)"

lemma run_ops_state:
  "list_all touches_work ops \<Longrightarrow> state_json (run_ops ops d) = state_json d"
  by (induction ops arbitrary: d) (auto simp: touches_work_def split: diskOp.splits)

lemma sync_ops_touch: "list_all touches_work (map RemoveFile removed @ map (\<lambda>n. WriteFile n (f n)) written)"
  by (auto simp: list_all_iff touches_work_def)

lemma sync_state: "state_json (run_ops (sync_ops staging removed written) d) = Missing"
  using run_ops_state [OF sync_ops_touch] by (simp add: sync_ops_def del: run_ops_append)

lemma snapshot_not_published:
  "state_json d = Missing \<or> state_json d = Damaged \<Longrightarrow> cache_snapshot sha d = None"
  by (auto simp: cache_snapshot_def)

lemma broken_sync_state:
  assumes "sync_ops staging removed written = before @ op # after" "d' \<in> broken_op op (run_ops before d)"
  shows "d' = d \<or> state_json d' = Missing"
proof (cases before)
  case Nil
  with assms show ?thesis by (auto simp: sync_ops_def)
next
  case (Cons b bs)
  with assms(1) have b: "b = RemoveState"
    "map RemoveFile removed @ map (\<lambda>n. WriteFile n (the (staging n))) written = bs @ op # after"
    by (auto simp: sync_ops_def)
  then have t: "list_all touches_work (bs @ op # after)" using sync_ops_touch by metis
  then have "state_json (run_ops before d) = Missing"
    using Cons b(1) run_ops_state [of bs] by (simp del: run_ops_append)
  with t assms(2) show ?thesis by (cases op) (auto simp: touches_work_def)
qed


text \<open>The state that \<open>snapshot\<close> accepts describes the workspace exactly.\<close>

lemma snapshot_iff:
  assumes "finite (dom (work d))" "finite (dom (Files st))" "\<And>data. sha data \<noteq> []"
  shows "cache_snapshot sha d = Some st \<longleftrightarrow>
    state_json d = Published st \<and> Files st \<noteq> Map.empty \<and> cacheFiles sha (work d) = Files st"
proof -
  let ?f = "cacheFiles sha (work d)"
  have ne: "?f n = Some x \<Longrightarrow> x \<noteq> []" for n x
    using assms(3) length_hex_string [of "sha _"] by (auto simp: cacheFiles_def dest: arg_cong [where f = length])
  have fin: "finite (dom ?f)" using assms(1) by (simp add: cacheFiles_def dom_def)
  have "?f = Files st" if c: "card (dom ?f) = card (dom (Files st))"
    and s: "\<forall>n \<in> dom ?f. \<not> (case Files st n of None \<Rightarrow> the (?f n) \<noteq> [] | Some x \<Rightarrow> x \<noteq> the (?f n))"
  proof -
    have eq: "Files st n = ?f n" if "n \<in> dom ?f" for n
      using bspec [OF s that] ne [of n] that by (cases "Files st n") auto
    then have "dom ?f \<subseteq> dom (Files st)" by (metis domIff subsetI)
    then have "dom ?f = dom (Files st)" using card_subset_eq [OF assms(2)] c by blast
    with eq show ?thesis by (metis domIff ext)
  qed
  then show ?thesis
    by (auto simp: cache_snapshot_def Let_def split: stateFile.splits if_splits option.splits)
qed

text \<open>After the synchronization the workspace has the staged files, up to files of equal digest.\<close>

lemma run_removes:
  "work (run_ops (map RemoveFile ns) d) = (\<lambda>n. if n \<in> set ns then None else work d n)"
  by (induction ns arbitrary: d) auto

lemma run_writes:
  "work (run_ops (map (\<lambda>n. WriteFile n (f n)) ns) d) = (\<lambda>n. if n \<in> set ns then Some (f n) else work d n)"
  by (induction ns arbitrary: d) auto

lemma sync_work:
  assumes "store_removed (cacheFiles sha (work d)) (cacheFiles sha staging) removed"
    "store_written (cacheFiles sha (work d)) (cacheFiles sha staging) written"
  shows "cacheFiles sha (work (run_ops (sync_ops staging removed written) d)) = cacheFiles sha staging"
proof
  fix n
  have dom: "dom (cacheFiles sha f) = dom f" for f by (auto simp: cacheFiles_def)
  have w: "n \<in> set written \<longleftrightarrow> n \<in> dom staging \<and> cacheFiles sha (work d) n \<noteq> cacheFiles sha staging n"
    and r: "n \<in> set removed \<longleftrightarrow> n \<in> dom (work d) \<and> n \<notin> dom staging"
    using assms by (auto simp: store_removed_def store_written_def dom)
  have "work (run_ops (sync_ops staging removed written) d) n =
      (if n \<in> set written then staging n else if n \<in> set removed then None else work d n)"
    using w by (auto simp: sync_ops_def run_removes run_writes)
  then show "cacheFiles sha (work (run_ops (sync_ops staging removed written) d)) n = cacheFiles sha staging n"
    using w r by (auto simp: cacheFiles_def)
qed

lemma store_done_disk:
  assumes "store sha st staging d d' True"
  shows "state_json d' = Published (st\<lparr>Files := cacheFiles sha staging\<rparr>) \<and>
    cacheFiles sha (work d') = cacheFiles sha staging"
  using assms by (cases rule: store.cases) auto

text \<open>
  When \<open>store\<close> returns without an error for a program with generated files, the cache is valid
  for its key and exactly for it, and the workspace has the files of the staged program with equal
  digests; when no operation breaks and nobody else writes, \<open>store\<close> does return without an error.
\<close>

theorem store_publishes:
  assumes "finite (dom staging)" "staging \<noteq> Map.empty" "\<And>data. sha data \<noteq> []"
  shows "(store sha st staging d d' True \<longrightarrow>
      cacheFiles sha (work d') = cacheFiles sha staging \<and> (cache_valid sha key d' \<longleftrightarrow> key = Key st)) \<and>
    (finite (dom (work d)) \<longrightarrow> (\<exists>d'. store sha st staging d d' True))"
proof (intro conjI impI)
  have fin: "finite (dom (cacheFiles sha staging))" using assms(1) by (simp add: cacheFiles_def dom_def)
  have ne: "cacheFiles sha staging \<noteq> Map.empty"
    using assms(2) by (auto simp: cacheFiles_def fun_eq_iff)
  assume s: "store sha st staging d d' True"
  note disk = store_done_disk [OF s]
  have dom: "dom (cacheFiles sha f) = dom f" for f by (auto simp: cacheFiles_def)
  from disk have "dom (work d') = dom staging" by (metis dom)
  then have "finite (dom (work d'))" using assms(1) by simp
  from snapshot_iff [OF this, of "st\<lparr>Files := cacheFiles sha staging\<rparr>" sha] fin ne disk assms(3)
  have "cache_snapshot sha d' = Some (st\<lparr>Files := cacheFiles sha staging\<rparr>)" by simp
  then show "cache_valid sha key d' \<longleftrightarrow> key = Key st" by (auto simp: cache_valid_def)
  show "cacheFiles sha (work d') = cacheFiles sha staging" using disk by simp
next
  assume fin: "finite (dom (work d))"
  have "finite (dom (cacheFiles sha (work d)) - dom (cacheFiles sha staging))"
    using fin by (simp add: cacheFiles_def dom_def)
  then obtain removed where r: "store_removed (cacheFiles sha (work d)) (cacheFiles sha staging) removed"
    unfolding store_removed_def by (metis finite_distinct_list)
  have "finite {n \<in> dom (cacheFiles sha staging). cacheFiles sha (work d) n \<noteq> cacheFiles sha staging n}"
    using assms(1) by (simp add: cacheFiles_def dom_def)
  then obtain written where w: "store_written (cacheFiles sha (work d)) (cacheFiles sha staging) written"
    unfolding store_written_def by (metis (no_types, lifting) finite_distinct_list)
  show "\<exists>d'. store sha st staging d d' True"
    using store_done [OF r w refl sync_work [OF r w] refl] by blast
qed

definition example_state :: buildCacheState where
  "example_state = \<lparr>Key = ''k'', Files = Map.empty, Namespaces = Map.empty, Helpers = [],
     SpecializedNames = Map.empty\<rparr>"

lemma store_publishes_witness:
  "\<exists>d'. store (\<lambda>d. ''h'' @ d) example_state [''main.go'' \<mapsto> ''x''] \<lparr>state_json = Missing, work = Map.empty\<rparr> d' True"
proof -
  have "finite (dom [''main.go'' \<mapsto> ''x''])" "[''main.go'' \<mapsto> ''x''] \<noteq> Map.empty"
    "\<And>data. ''h'' @ data \<noteq> []" by simp_all
  from store_publishes [where sha = "\<lambda>d. ''h'' @ d" and d = "\<lparr>state_json = Missing, work = Map.empty\<rparr>", OF this]
  show ?thesis by simp
qed


end
