(* ===== verification/SemanticCache.thy ===== *)
theory SemanticCache
  imports Imports BuildCache "HOL-Library.Multiset"
begin

text \<open>
  The semantic certificates of namespaces (\<open>internal/compiler/semantic_cache.go\<close>): the keys that
  decide whether the generated code of a namespace may be reused, and the closure of the reused
  set under inheritance.
\<close>

section \<open>Keys\<close>

text \<open>A namespace with its files (path and source), its imports and its classes (name and parent).\<close>

record nsInfo =
  files :: "(string \<times> string) list"
  nsImports :: "string list"
  classDecls :: "(string \<times> string) list"

definition namespaceDirectory :: "string \<Rightarrow> string" where
  "namespaceDirectory name = (if name = ''main'' then ''.'' else slashed name)"

definition inheritance_graph :: "(string \<times> nsInfo) list \<Rightarrow> string list" where
  "inheritance_graph ord =
     sort (concat (map (\<lambda>(ns, info). map (\<lambda>(c, parent). ns @ ''.'' @ c @ '':'' @ parent) (classDecls info)) ord))"

text \<open>
  A key is the digest of a stream of JSON arrays of strings; \<open>hash\<close> stands for its encoding and
  sha256. The code memoizes \<open>key\<close> in \<open>s.keys\<close>, which changes no value of it; its recursion ends
  because the imports are acyclic, here by fuel.
\<close>

fun key_stream ::
  "nat \<Rightarrow> (string list list \<Rightarrow> string) \<Rightarrow> string \<Rightarrow> string list \<Rightarrow> (string \<rightharpoonup> nsInfo) \<Rightarrow> string \<Rightarrow> string list list option"
where
  "key_stream 0 hash env graph nss name = None"
| "key_stream (Suc fuel) hash env graph nss name =
     (case nss name of
        None \<Rightarrow> None
      | Some ns \<Rightarrow>
          let deps = map (\<lambda>d. map_option (\<lambda>s. [d, hash s]) (key_stream fuel hash env graph nss d)) (sort (nsImports ns))
          in if None \<in> set deps then None
             else Some ([env, name] # graph # map (\<lambda>(path, source). [path, source]) (files ns) @ map the deps))"

definition ns_key ::
  "nat \<Rightarrow> (string list list \<Rightarrow> string) \<Rightarrow> string \<Rightarrow> string list \<Rightarrow> (string \<rightharpoonup> nsInfo) \<Rightarrow> string \<Rightarrow> string option" where
  "ns_key fuel hash env graph nss name = map_option hash (key_stream fuel hash env graph nss name)"

section \<open>Cached contents\<close>

text \<open>
  The generated files of a namespace in the published snapshot: its Go files in the order of their
  numbers. \<open>old.Files\<close> is a Go map, ranged over in the order of \<open>names\<close>; the order of files with
  equal numbers is not determined by the code, which the model fixes by a stable sort. A namespace
  without cached contents has no entry, here \<open>[]\<close>.
\<close>

definition source_index :: "string \<Rightarrow> int" where
  "source_index path = atoi (trim_suffix (trim_prefix (Base path) ''ghi_source_'') ''.go'')"

definition cached_paths :: "string list \<Rightarrow> string \<Rightarrow> string list" where
  "cached_paths names ns =
     sort_key source_index (filter (\<lambda>path. Dir path = namespaceDirectory ns \<and> Ext path = ''.go'') names)"

definition cached_contents ::
  "disk \<Rightarrow> buildCacheState \<Rightarrow> string list \<Rightarrow> (string \<rightharpoonup> string) \<Rightarrow> string \<Rightarrow> string \<Rightarrow> nsInfo \<Rightarrow> string list" where
  "cached_contents d old names keys runtime ns info =
     (if ns = runtime \<or> Namespaces old ns \<noteq> keys ns then []
      else let paths = cached_paths names ns
           in if length paths < length (files info) then []
              else case those (map (work d) paths) of None \<Rightarrow> [] | Some contents \<Rightarrow> contents)"

section \<open>Reuse\<close>

text \<open>
  \<open>s.files\<close>: the cached contents of a namespace; no contents and no entry are the same. A class is
  the pair of its namespace and the namespace of its parent.
\<close>

type_synonym cachedFiles = "string \<Rightarrow> string list"

definition reuse_edge :: "cachedFiles \<times> bool \<Rightarrow> string \<times> string \<Rightarrow> cachedFiles \<times> bool" where
  "reuse_edge = (\<lambda>(fs, changed) (a, b).
     if (fs a = []) \<noteq> (fs b = []) then (fs(a := [], b := []), True) else (fs, changed))"

definition reuse_pass :: "(string \<times> string) list \<Rightarrow> cachedFiles \<Rightarrow> cachedFiles \<times> bool" where
  "reuse_pass classes fs = foldl reuse_edge (fs, False) classes"

definition cached_names :: "(string \<times> string) list \<Rightarrow> cachedFiles \<Rightarrow> string set" where
  "cached_names classes fs = {n \<in> fst ` set classes \<union> snd ` set classes. fs n \<noteq> []}"

text \<open>A pass only drops namespaces, and drops one when it changes anything.\<close>

lemma reuse_edge_shrinks:
  "reuse_edge (fs, ch) e = (fs', ch') \<Longrightarrow>
     (\<forall>n. fs' n = fs n \<or> fs' n = []) \<and> (ch \<longrightarrow> ch') \<and>
     (ch' \<longrightarrow> ch \<or> (\<exists>n \<in> {fst e, snd e}. fs n \<noteq> [] \<and> fs' n = []))"
  by (cases e) (auto simp: reuse_edge_def split: if_splits)

lemma foldl_reuse_shrinks:
  "foldl reuse_edge (fs, ch) es = (fs', ch') \<Longrightarrow>
     (\<forall>n. fs' n = fs n \<or> fs' n = []) \<and> (ch \<longrightarrow> ch') \<and>
     (ch' \<longrightarrow> ch \<or> (\<exists>n \<in> fst ` set es \<union> snd ` set es. fs n \<noteq> [] \<and> fs' n = []))"
proof (induction es arbitrary: fs ch)
  case (Cons e es)
  obtain fs1 ch1 where e: "reuse_edge (fs, ch) e = (fs1, ch1)" by fastforce
  with Cons.prems have "foldl reuse_edge (fs1, ch1) es = (fs', ch')" by simp
  note later = Cons.IH [OF this] and first = reuse_edge_shrinks [OF e]
  have "fs' n = fs n \<or> fs' n = []" for n
    using later first by metis
  moreover have "\<exists>n \<in> fst ` set (e # es) \<union> snd ` set (e # es). fs n \<noteq> [] \<and> fs' n = []" if "ch'" "\<not> ch"
  proof (cases ch1)
    case True
    with first that obtain n where "n \<in> {fst e, snd e}" "fs n \<noteq> []" "fs1 n = []" by blast
    moreover from this later have "fs' n = []" by metis
    ultimately show ?thesis by auto
  next
    case False
    with later that obtain n where "n \<in> fst ` set es \<union> snd ` set es" "fs1 n \<noteq> []" "fs' n = []" by blast
    moreover from this first have "fs n \<noteq> []" by metis
    ultimately show ?thesis by auto
  qed
  ultimately show ?case using later first by blast
qed simp

lemma reuse_pass_shrinks:
  assumes "reuse_pass classes fs = (fs', True)"
  shows "card (cached_names classes fs') < card (cached_names classes fs)"
proof (rule psubset_card_mono)
  show "finite (cached_names classes fs)" by (simp add: cached_names_def)
  from foldl_reuse_shrinks [OF assms [unfolded reuse_pass_def]]
  have keep: "fs' n = fs n \<or> fs' n = []" and
    "\<exists>n \<in> fst ` set classes \<union> snd ` set classes. fs n \<noteq> [] \<and> fs' n = []" for n by simp_all
  then obtain n where "n \<in> cached_names classes fs" "n \<notin> cached_names classes fs'"
    unfolding cached_names_def by blast
  moreover have "cached_names classes fs' \<subseteq> cached_names classes fs"
    unfolding cached_names_def using keep by force
  ultimately show "cached_names classes fs' \<subset> cached_names classes fs" by blast
qed

function reuse_loop :: "(string \<times> string) list \<Rightarrow> cachedFiles \<Rightarrow> cachedFiles" where
  "reuse_loop classes fs =
     (case reuse_pass classes fs of (fs', changed) \<Rightarrow> if changed then reuse_loop classes fs' else fs')"
  by pat_completeness auto
termination
  by (relation "measure (\<lambda>(classes, fs). card (cached_names classes fs))") (auto dest: reuse_pass_shrinks [OF sym])

declare reuse_loop.simps [simp del]

text \<open>A pass that changes nothing has met no edge with one cached end.\<close>

lemma foldl_reuse_stable:
  "foldl reuse_edge (fs, ch) es = (fs', False) \<Longrightarrow>
     fs' = fs \<and> (\<forall>(a, b) \<in> set es. (fs a = []) = (fs b = []))"
proof (induction es arbitrary: fs ch)
  case (Cons e es)
  obtain fs1 ch1 where e: "reuse_edge (fs, ch) e = (fs1, ch1)" by fastforce
  with Cons.prems have rest: "foldl reuse_edge (fs1, ch1) es = (fs', False)" by simp
  with foldl_reuse_shrinks [OF rest] have "\<not> ch1" by simp
  with e have "fs1 = fs \<and> (fs (fst e) = []) = (fs (snd e) = [])"
    by (cases e) (auto simp: reuse_edge_def split: if_splits)
  with Cons.IH [OF rest] show ?case by auto
qed simp

text \<open>The inheritance component of a namespace: the edges in both directions.\<close>

definition inherits_with :: "(string \<times> string) list \<Rightarrow> (string \<times> string) set" where
  "inherits_with classes = (set classes \<union> (set classes)\<inverse>)\<^sup>*"

lemma inherits_with_edge:
  "(a, b) \<in> set classes \<Longrightarrow> (n, a) \<in> inherits_with classes \<longleftrightarrow> (n, b) \<in> inherits_with classes"
  unfolding inherits_with_def by (meson UnCI converse_iff rtrancl.rtrancl_into_rtrancl)

text \<open>What a pass drops is in the component of a namespace that was not cached.\<close>

definition drops_ok :: "(string \<times> string) list \<Rightarrow> cachedFiles \<Rightarrow> cachedFiles \<Rightarrow> bool" where
  "drops_ok classes fs fs' \<longleftrightarrow>
     (\<forall>n. fs' n = fs n \<or> fs' n = [] \<and> (\<exists>u. (n, u) \<in> inherits_with classes \<and> fs u = []))"

lemma inherits_with_trans:
  "(a, b) \<in> inherits_with classes \<Longrightarrow> (b, c) \<in> inherits_with classes \<Longrightarrow> (a, c) \<in> inherits_with classes"
  unfolding inherits_with_def by simp

lemma drops_ok_trans:
  assumes "drops_ok classes fs fs1" "drops_ok classes fs1 fs2"
  shows "drops_ok classes fs fs2"
  unfolding drops_ok_def
proof (intro allI)
  fix n
  show "fs2 n = fs n \<or> fs2 n = [] \<and> (\<exists>u. (n, u) \<in> inherits_with classes \<and> fs u = [])"
  proof (cases "fs2 n = fs1 n")
    case True with assms(1) show ?thesis unfolding drops_ok_def by metis
  next
    case False
    with assms(2) obtain u where u: "fs2 n = []" "(n, u) \<in> inherits_with classes" "fs1 u = []"
      unfolding drops_ok_def by metis
    with assms(1) obtain v where "(u, v) \<in> inherits_with classes" "fs v = []"
      unfolding drops_ok_def by (metis inherits_with_def rtrancl.rtrancl_refl)
    with u show ?thesis by (blast intro: inherits_with_trans)
  qed
qed

lemma reuse_edge_drops_ok:
  assumes "reuse_edge (fs, ch) (a, b) = (fs', ch')" "(a, b) \<in> set classes"
  shows "drops_ok classes fs fs'"
proof (cases "(fs a = []) = (fs b = [])")
  case True with assms show ?thesis by (simp add: reuse_edge_def drops_ok_def)
next
  case False
  then obtain u where u: "u \<in> {a, b}" "fs u = []" by blast
  have "(a, u) \<in> inherits_with classes" "(b, u) \<in> inherits_with classes"
    using u(1) assms(2) unfolding inherits_with_def by auto
  with u False assms(1) show ?thesis by (auto simp: reuse_edge_def drops_ok_def split: if_splits)
qed

lemma foldl_reuse_drops_ok:
  "foldl reuse_edge (fs, ch) es = (fs', ch') \<Longrightarrow> set es \<subseteq> set classes \<Longrightarrow> drops_ok classes fs fs'"
proof (induction es arbitrary: fs ch)
  case (Cons e es)
  obtain fs1 ch1 where e: "reuse_edge (fs, ch) e = (fs1, ch1)" by fastforce
  with Cons.prems have "foldl reuse_edge (fs1, ch1) es = (fs', ch')" by simp
  from Cons.IH [OF this] Cons.prems(2) have "drops_ok classes fs1 fs'" by simp
  moreover have "drops_ok classes fs fs1"
    using reuse_edge_drops_ok [of fs ch "fst e" "snd e"] e Cons.prems(2) by simp
  ultimately show ?case by (blast intro: drops_ok_trans)
qed (simp add: drops_ok_def)

lemma reuse_loop_stable:
  "(\<forall>(a, b) \<in> set classes. (reuse_loop classes fs a = []) = (reuse_loop classes fs b = []))
   \<and> drops_ok classes fs (reuse_loop classes fs)"
proof (induction classes fs rule: reuse_loop.induct)
  case (1 classes fs)
  obtain fs' ch where p: "reuse_pass classes fs = (fs', ch)" by fastforce
  note d = foldl_reuse_drops_ok [OF p [unfolded reuse_pass_def] order_refl]
  show ?case
  proof (cases ch)
    case True
    with 1 [OF p [symmetric]] p d show ?thesis
      by (auto simp: reuse_loop.simps [of classes fs] intro: drops_ok_trans)
  next
    case False
    with p d foldl_reuse_stable [of fs False classes fs'] show ?thesis
      by (auto simp: reuse_loop.simps [of classes fs] reuse_pass_def)
  qed
qed

lemma stable_component:
  assumes "\<forall>(a, b) \<in> set classes. (fs a = []) = (fs b = [])" "(n, u) \<in> inherits_with classes"
  shows "(fs n = []) = (fs u = [])"
  using assms(2) unfolding inherits_with_def by (induction) (use assms(1) in auto)

text \<open>
  C34: The closure loop of \<open>reuseSemanticNamespaces\<close> ends, and a namespace keeps its cached files
  exactly when every namespace of its inheritance component has cached files; what it keeps is what
  it had.
\<close>

theorem reuse_loop_components:
  "reuse_loop classes fs n =
     (if \<exists>u. (n, u) \<in> inherits_with classes \<and> fs u = [] then [] else fs n)"
proof -
  let ?r = "reuse_loop classes fs"
  note st = conjunct1 [OF reuse_loop_stable [of classes fs]] conjunct2 [OF reuse_loop_stable [of classes fs]]
  have self: "(n, n) \<in> inherits_with classes" by (simp add: inherits_with_def)
  show ?thesis
  proof (cases "\<exists>u. (n, u) \<in> inherits_with classes \<and> fs u = []")
    case True
    then obtain u where u: "(n, u) \<in> inherits_with classes" "fs u = []" by blast
    from st(2) u(2) have "?r u = []" unfolding drops_ok_def by metis
    with stable_component [OF st(1) u(1)] True show ?thesis by simp
  next
    case False
    with st(2) show ?thesis unfolding drops_ok_def by (metis (full_types))
  qed
qed

section \<open>What a certificate covers\<close>

text \<open>
  Paths of files are absolute, so they contain a slash; names of namespaces do not. Otherwise a file
  entry and an import entry of the stream could be exchanged.
\<close>

definition ns_paths_ok :: "(string \<rightharpoonup> nsInfo) \<Rightarrow> bool" where
  "ns_paths_ok nss \<longleftrightarrow> (\<forall>ns \<in> ran nss. (\<forall>(path, src) \<in> set (files ns). CHR ''/'' \<in> set path)
     \<and> (\<forall>d \<in> set (nsImports ns). CHR ''/'' \<notin> set d))"

definition ns_imports :: "(string \<rightharpoonup> nsInfo) \<Rightarrow> (string \<times> string) set" where
  "ns_imports nss = {(n, d). \<exists>ns. nss n = Some ns \<and> d \<in> set (nsImports ns)}"

definition dep_entry ::
  "nat \<Rightarrow> (string list list \<Rightarrow> string) \<Rightarrow> string \<Rightarrow> string list \<Rightarrow> (string \<rightharpoonup> nsInfo) \<Rightarrow> string \<Rightarrow> string list option" where
  "dep_entry fuel hash env graph nss d = map_option (\<lambda>s. [d, hash s]) (key_stream fuel hash env graph nss d)"

definition file_entry :: "string \<times> string \<Rightarrow> string list" where
  "file_entry = (\<lambda>(path, source). [path, source])"

lemma key_stream_SomeD:
  assumes "key_stream fuel hash env graph nss n = Some s"
  obtains fuel' ns deps where "nss n = Some ns"
    and "map (dep_entry fuel' hash env graph nss) (sort (nsImports ns)) = map Some deps"
    and "s = [env, n] # graph # map file_entry (files ns) @ deps"
proof (cases fuel)
  case (Suc f)
  with assms obtain ns where ns: "nss n = Some ns" by (auto split: option.splits)
  let ?ds = "map (dep_entry f hash env graph nss) (sort (nsImports ns))"
  from assms Suc ns have no: "None \<notin> set ?ds" and
    s: "s = [env, n] # graph # map file_entry (files ns) @ map the ?ds"
    by (auto simp: Let_def dep_entry_def file_entry_def comp_def split: if_splits)
  have "xs = map Some (map the xs)" if "None \<notin> set xs" for xs :: "string list option list"
    using that by (induction xs) auto
  from that [OF ns this [OF no] s] show thesis .
qed (use assms in simp)

lemma dep_entries:
  assumes "map (dep_entry fuel hash env graph nss) ds = map Some deps"
  shows "map hd deps = ds"
    and "e \<in> set deps \<Longrightarrow> \<exists>s. e = [hd e, hash s] \<and> key_stream fuel hash env graph nss (hd e) = Some s"
  using assms by (induction ds arbitrary: deps) (auto simp: dep_entry_def map_eq_Cons_conv Cons_eq_map_conv)

lemma split_by_head:
  assumes "xs @ ys = xs' @ ys'" "\<forall>x \<in> set xs \<union> set xs'. P x" "\<forall>y \<in> set ys \<union> set ys'. \<not> P y"
  shows "xs = xs' \<and> ys = ys'"
proof -
  have "takeWhile P (a @ b) = a \<and> dropWhile P (a @ b) = b" if "\<forall>x \<in> set a. P x" "\<forall>y \<in> set b. \<not> P y" for a b
    using that by (induction a) (auto simp: takeWhile_eq_Nil_iff dropWhile_eq_self_iff hd_in_set)
  from this [of xs ys] this [of xs' ys'] assms show ?thesis by auto
qed

lemma file_entries_inj: "map file_entry fs = map file_entry fs' \<Longrightarrow> fs = fs'"
  by (rule injD [OF inj_mapI]) (auto simp: inj_on_def file_entry_def)

text \<open>One level: equal streams have equal environments, graphs, files, imports and dependency streams.\<close>

lemma equal_streams:
  assumes "inj hash" "ns_paths_ok nss" "ns_paths_ok nss'"
    and "key_stream f hash env graph nss n = Some s" "key_stream f' hash env' graph' nss' n' = Some s"
  obtains ns ns' where "env = env'" "n = n'" "graph = graph'"
    "nss n = Some ns" "nss' n = Some ns'" "files ns = files ns'" "sort (nsImports ns) = sort (nsImports ns')"
    "\<And>d. d \<in> set (nsImports ns) \<Longrightarrow>
       \<exists>f f' t. key_stream f hash env graph nss d = Some t \<and> key_stream f' hash env graph nss' d = Some t"
proof -
  obtain f1 ns deps where ns: "nss n = Some ns"
    and deps: "map (dep_entry f1 hash env graph nss) (sort (nsImports ns)) = map Some deps"
    and s: "s = [env, n] # graph # map file_entry (files ns) @ deps"
    by (rule key_stream_SomeD [OF assms(4)])
  obtain f2 ns' deps' where ns': "nss' n' = Some ns'"
    and deps': "map (dep_entry f2 hash env' graph' nss') (sort (nsImports ns')) = map Some deps'"
    and s': "s = [env', n'] # graph' # map file_entry (files ns') @ deps'"
    by (rule key_stream_SomeD [OF assms(5)])
  from s s' have same: "env = env'" "n = n'" "graph = graph'" and
    tl: "map file_entry (files ns) @ deps = map file_entry (files ns') @ deps'" by auto
  have fl: "\<forall>x \<in> set (map file_entry (files ns)) \<union> set (map file_entry (files ns')). CHR ''/'' \<in> set (hd x)"
    using assms(2,3) ns ns' unfolding ns_paths_ok_def ran_def file_entry_def by fastforce
  have "hd e \<in> set (nsImports ns)" if "e \<in> set deps" for e
    using that dep_entries(1) [OF deps] by (metis image_eqI list.set_map set_sort)
  moreover have "hd e \<in> set (nsImports ns')" if "e \<in> set deps'" for e
    using that dep_entries(1) [OF deps'] by (metis image_eqI list.set_map set_sort)
  ultimately have dl: "\<forall>y \<in> set deps \<union> set deps'. CHR ''/'' \<notin> set (hd y)"
    using assms(2,3) ns ns' unfolding ns_paths_ok_def ran_def by blast
  from split_by_head [OF tl fl dl] have parts: "files ns = files ns'" "deps = deps'"
    by (auto intro: file_entries_inj)
  have imps: "sort (nsImports ns) = sort (nsImports ns')"
    using dep_entries(1) [OF deps] dep_entries(1) [OF deps'] parts(2) by simp
  have "\<exists>f f' t. key_stream f hash env graph nss d = Some t \<and> key_stream f' hash env graph nss' d = Some t"
    if d: "d \<in> set (nsImports ns)" for d
  proof -
    from d dep_entries(1) [OF deps] obtain e where e: "e \<in> set deps" "hd e = d"
      by (metis image_iff list.set_map set_sort)
    obtain t where t: "e = [hd e, hash t]" "key_stream f1 hash env graph nss d = Some t"
      using dep_entries(2) [OF deps e(1)] e(2) by blast
    obtain t' where t': "e = [hd e, hash t']" "key_stream f2 hash env' graph' nss' d = Some t'"
      using dep_entries(2) [OF deps'] e parts(2) by blast
    from t(1) t'(1) have "hash t = hash t'" by (metis list.inject)
    with assms(1) have "t = t'" by (simp add: inj_eq)
    with t t' same show ?thesis by metis
  qed
  with same ns ns' parts(1) imps show thesis using that [of ns ns'] by simp
qed


text \<open>An injective encoding of streams, for the witness: every character is escaped, every list ended.\<close>

definition enc_list :: "('a \<Rightarrow> string) \<Rightarrow> 'a list \<Rightarrow> string" where
  "enc_list enc xs = concat (map (\<lambda>x. CHR ''x'' # enc x) xs) @ ''.''"

lemma enc_list_prefix:
  assumes "\<And>x y r r'. enc x @ r = enc y @ r' \<Longrightarrow> x = y \<and> r = r'"
  shows "enc_list enc xs @ r = enc_list enc ys @ r' \<Longrightarrow> xs = ys \<and> r = r'"
proof (induction xs arbitrary: ys)
  case Nil
  then show ?case by (cases ys) (auto simp: enc_list_def)
next
  case (Cons x xs)
  then obtain y ys' where ys: "ys = y # ys'" by (cases ys) (auto simp: enc_list_def)
  with Cons.prems have "enc x @ (enc_list enc xs @ r) = enc y @ (enc_list enc ys' @ r')"
    by (simp add: enc_list_def)
  with assms Cons.IH ys show ?case by blast
qed

definition enc_stream :: "string list list \<Rightarrow> string" where
  "enc_stream = enc_list (enc_list (enc_list (\<lambda>c. [c])))"

lemma inj_enc_stream: "inj enc_stream"
proof (rule injI)
  fix a b assume "enc_stream a = enc_stream b"
  then have "enc_stream a @ [] = enc_stream b @ []" by simp
  moreover have "x = y \<and> r = r'" if "enc_list (\<lambda>c. [c]) x @ r = enc_list (\<lambda>c. [c]) y @ r'" for x y r r'
    using that by (rule enc_list_prefix [rotated]) simp
  then have "x = y \<and> r = r'"
    if "enc_list (enc_list (\<lambda>c. [c])) x @ r = enc_list (enc_list (\<lambda>c. [c])) y @ r'" for x y r r'
    using that enc_list_prefix [of "enc_list (\<lambda>c. [c])" x r y r'] by blast
  ultimately show "a = b" unfolding enc_stream_def
    using enc_list_prefix [of "enc_list (enc_list (\<lambda>c. [c]))" a "[]" b "[]"] by blast
qed

definition cert_example :: "string \<rightharpoonup> nsInfo" where
  "cert_example = [''main'' \<mapsto> \<lparr>files = [(''/p/main.ghi'', ''A'')], nsImports = [''util''], classDecls = []\<rparr>,
                  ''util'' \<mapsto> \<lparr>files = [(''/p/util/u.ghi'', ''B'')], nsImports = [], classDecls = []\<rparr>]"


end
