(* ===== verification/FormatTokens.thy ===== *)
theory FormatTokens
  imports GoToken GoStrings "HOL-Library.Multiset"
begin

text \<open>
  The tokens of the formatter (\<open>internal/compiler/format.go\<close>) and the two passes of
  \<open>format_structure.go\<close> that rearrange imports.
\<close>

section \<open>Tokens\<close>

record formatToken =
  kind :: token
  ftext :: string
  start :: int
  stop :: int
  implicit :: bool
  breakBefore :: bool
  blankBefore :: bool
  ternary :: bool

definition ftok :: "token \<Rightarrow> string \<Rightarrow> int \<Rightarrow> int \<Rightarrow> formatToken" where
  "ftok k t s e = \<lparr>kind = k, ftext = t, start = s, stop = e, implicit = False, breakBefore = False,
     blankBefore = False, ternary = False\<rparr>"

text \<open>\<open>token.Token.String\<close> for the tokens whose literal the scanner leaves empty.\<close>

definition operator_strings :: "string list" where
  "operator_strings =
     [''+'', ''-'', ''*'', ''/'', ''%'', ''&'', ''|'', ''^'', ''<<'', ''>>'', ''&^'',
      ''+='', ''-='', ''*='', ''/='', ''%='', ''&='', ''|='', ''^='', ''<<='', ''>>='', ''&^='',
      ''&&'', ''||'', ''<-'', ''++'', ''--'', ''=='', ''<'', ''>'', ''='', ''!'',
      ''!='', ''<='', ''>='', '':='', ''...'', ''('', ''['', ''{'', '','', ''.'', '')'', '']'', ''}'', '';'', '':'']"

definition token_string :: "token \<Rightarrow> string" where
  "token_string k =
     (if 12 \<le> k \<and> k \<le> 58 then operator_strings ! nat (k - 12)
      else if k = TILDE then ''~'' else ''token('' @ decimal (nat k) @ '')'')"

section \<open>Scanning\<close>

text \<open>
  \<open>bytes.IndexByte\<close> and \<open>bytes.Index\<close> of the two bytes of a comment's end, from the offset \<open>i\<close>;
  \<open>-1\<close> when there is none.
\<close>

fun index_byte :: "char \<Rightarrow> string \<Rightarrow> int" where
  "index_byte c [] = -1"
| "index_byte c (b # bs) = (if b = c then 0 else let i = index_byte c bs in if i < 0 then -1 else i + 1)"

fun index_comment_end :: "string \<Rightarrow> int" where
  "index_comment_end (a # b # bs) =
     (if a = CHR ''*'' \<and> b = CHR ''/'' then 0
      else let i = index_comment_end (b # bs) in if i < 0 then -1 else i + 1)"
| "index_comment_end _ = -1"

definition byte_at :: "string \<Rightarrow> int \<Rightarrow> char option" where
  "byte_at s i = (if 0 \<le> i \<and> i < int (length s) then Some (s ! nat i) else None)"

text \<open>
  Go's \<open>scanner.Scanner\<close> is the parameter: for a source, the tokens before \<open>EOF\<close> as their kind, their
  literal and their offset, and the errors it reports, each with its offset and its text. The scanner
  gives an offset inside the source for every token but an automatic semicolon.
\<close>

type_synonym scanned = "token \<times> string \<times> int"
type_synonym scanner = "string \<Rightarrow> scanned list \<times> (int \<times> string) list"

definition token_end :: "string \<Rightarrow> token \<Rightarrow> string \<Rightarrow> int \<Rightarrow> int" where
  "token_end source k literal s =
     (if k = STRING \<and> byte_at source s = Some (CHR 0x60) then
        s + 1 + index_byte (CHR 0x60) (drop (nat (s + 1)) source) + 1
      else if k = COMMENT then
        (if byte_at source (s + 1) = Some (CHR ''/'') then
           let e = s + index_byte newline (drop (nat s) source);
               e' = (if e < s then int (length source) else e)
           in if e' > s \<and> byte_at source (e' - 1) = Some carriage_return then e' - 1 else e'
         else s + index_comment_end (drop (nat s) source) + 2)
      else s + int (length literal))"

fun scan_loop :: "string \<Rightarrow> string \<Rightarrow> scanned list \<Rightarrow> formatToken list result" where
  "scan_loop filename source [] = Inr []"
| "scan_loop filename source ((k, literal, s) # rest) =
     (if k = SEMICOLON \<and> literal = [newline] then
        res_bind (scan_loop filename source rest) (\<lambda>ts.
          Inr ((ftok k [newline] s s)\<lparr>implicit := True\<rparr> # ts))
      else
        let e = token_end source k (if literal = [] then token_string k else literal) s in
        if e < s \<or> e > int (length source) then Inl (filename @ '': invalid token'')
        else res_bind (scan_loop filename source rest) (\<lambda>ts.
          Inr (ftok k (take (nat (e - s)) (drop (nat s) source)) s e # ts)))"

text \<open>
  The first error counts, but not one at a question mark, which Go's scanner does not know. The code
  returns the tokens beside the error; its callers ignore them then.
\<close>

definition scan_errors :: "string \<Rightarrow> (int \<times> string) list \<Rightarrow> string list" where
  "scan_errors source errs = map snd (filter (\<lambda>(offset, message). byte_at source offset \<noteq> Some (CHR ''?'')) errs)"

definition scanFormatTokens :: "scanner \<Rightarrow> string \<Rightarrow> string \<Rightarrow> formatToken list result" where
  "scanFormatTokens scan filename source =
     res_bind (scan_loop filename source (fst (scan source))) (\<lambda>ts.
       case scan_errors source (snd (scan source)) of [] \<Rightarrow> Inr ts | e # es \<Rightarrow> Inl e)"

section \<open>Spaces\<close>

definition formatEndsStatement :: "formatToken \<Rightarrow> bool" where
  "formatEndsStatement t \<longleftrightarrow>
     kind t \<in> {IDENT, INTLIT, FLOAT, IMAG, CHARLIT, STRING, BREAK, CONTINUE, FALLTHROUGH, RETURN, INC, DEC,
       RPAREN, RBRACK, RBRACE}"

definition formatSpace :: "formatToken \<Rightarrow> formatToken \<Rightarrow> bool" where
  "formatSpace previous current \<longleftrightarrow>
     (if ternary previous \<or> ternary current then True
      else if kind previous = ASSIGN \<and> kind current = GTR \<and> stop previous = start current then False
      else if kind previous = COMMENT \<or> kind current = COMMENT then True
      else if ftext previous = ''?'' then False
      else if kind current \<in> {COMMA, SEMICOLON, PERIOD, COLON, RPAREN, RBRACK} then False
      else if kind current = LPAREN then
        kind previous \<in> {DEFINE, ASSIGN, COMMA, RETURN} \<or> kind previous \<in> {IF, FOR, SWITCH, SELECT, IMPORT} \<or>
        ftext previous = ''catch'' \<or> ftext previous = ''match'' \<or> kind previous = GTR
      else if kind current = LBRACK then
        kind previous = RANGE \<or> kind previous = RETURN \<or>
        isOperator (kind previous) \<and> kind previous \<noteq> RBRACK \<and> kind previous \<noteq> LPAREN
      else if kind current = RBRACE then kind previous \<noteq> LBRACE
      else if kind current = INC \<or> kind current = DEC then False
      else kind previous \<notin> {LPAREN, LBRACK, PERIOD})"

section \<open>Flattening import groups\<close>

definition is_comment :: "formatToken \<Rightarrow> bool" where
  "is_comment t \<longleftrightarrow> kind t = COMMENT"

fun set_break :: "bool \<Rightarrow> formatToken list \<Rightarrow> formatToken list" where
  "set_break b [] = []"
| "set_break b (t # ts) = t\<lparr>breakBefore := b\<rparr> # ts"

fun set_blank :: "bool \<Rightarrow> formatToken list \<Rightarrow> formatToken list" where
  "set_blank b [] = []"
| "set_blank b (t # ts) = t\<lparr>blankBefore := b\<rparr> # ts"

text \<open>
  One specification of a group: its leading comments and its tokens from the name on (the path, the
  comments that follow it on the same line, a semicolon), or \<^const>\<open>None\<close> when no path comes before
  the closing parenthesis.
\<close>

abbreviation before_path :: "formatToken \<Rightarrow> bool" where
  "before_path t \<equiv> kind t \<noteq> STRING \<and> kind t \<noteq> RPAREN"

abbreviation same_line_comment :: "formatToken \<Rightarrow> bool" where
  "same_line_comment t \<equiv> is_comment t \<and> \<not> breakBefore t"

definition semicolon_part :: "formatToken list \<Rightarrow> formatToken list" where
  "semicolon_part ts = (case ts of [] \<Rightarrow> [] | t # _ \<Rightarrow> if kind t = SEMICOLON then [t] else [])"

definition split_spec ::
  "formatToken list \<Rightarrow> (formatToken list \<times> formatToken list \<times> formatToken list) option"
where
  "split_spec ts =
     (let leading = takeWhile is_comment ts;
          named = dropWhile is_comment ts;
          pre = takeWhile before_path named
      in case dropWhile before_path named of
           [] \<Rightarrow> None
         | path # tail \<Rightarrow>
             if kind path = RPAREN then None
             else
               let trail = takeWhile same_line_comment tail;
                   after = dropWhile same_line_comment tail;
                   semi = semicolon_part after
               in Some (leading, pre @ path # trail @ semi, drop (length semi) after))"

lemma semicolon_part_append: "semicolon_part ts @ drop (length (semicolon_part ts)) ts = ts"
  by (simp add: semicolon_part_def split: list.splits)

lemma split_spec_append:
  assumes "split_spec ts = Some (leading, spec, rest)"
  shows "leading @ spec @ rest = ts" "spec \<noteq> []"
proof -
  let ?named = "dropWhile is_comment ts"
  obtain path tail where p: "dropWhile before_path ?named = path # tail"
    using assms by (auto simp: split_spec_def Let_def split: list.splits)
  let ?after = "dropWhile same_line_comment tail"
  from assms p have eqs: "leading = takeWhile is_comment ts"
    "spec = takeWhile before_path ?named @ path # takeWhile same_line_comment tail @ semicolon_part ?after"
    "rest = drop (length (semicolon_part ?after)) ?after"
    by (auto simp: split_spec_def Let_def split: if_splits)
  then show "spec \<noteq> []" by simp
  have "spec @ rest = takeWhile before_path ?named @ path # takeWhile same_line_comment tail @ ?after"
    unfolding eqs by (simp add: semicolon_part_append)
  also have "\<dots> = takeWhile before_path ?named @ dropWhile before_path ?named"
    unfolding p by (simp only: takeWhile_dropWhile_id)
  also have "\<dots> = ?named" by (rule takeWhile_dropWhile_id)
  finally show "leading @ spec @ rest = ts" unfolding eqs(1) by (simp only: takeWhile_dropWhile_id)
qed

lemma split_spec_shorter: "split_spec ts = Some (leading, spec, rest) \<Longrightarrow> length rest < length ts"
  using split_spec_append [of ts leading spec rest] by (cases spec) auto

text \<open>The specifications of a group, up to its closing parenthesis; the tokens from there on remain.\<close>

function flatten_group ::
  "formatToken \<Rightarrow> bool \<Rightarrow> formatToken list \<Rightarrow> formatToken list \<times> formatToken list"
where
  "flatten_group decl first ts =
     (if ts = [] \<or> kind (hd ts) = RPAREN then ([], ts)
      else
        case split_spec ts of
          None \<Rightarrow> (takeWhile before_path ts, dropWhile before_path ts)
        | Some (leading, spec, rest) \<Rightarrow>
            let lead = set_break True leading;
                imp = decl\<lparr>start := start (hd spec), stop := start (hd spec), breakBefore := True,
                  blankBefore := (first \<and> leading = [] \<and> blankBefore decl)\<rparr>;
                body = set_blank False (set_break False spec);
                (out, left) = flatten_group decl False rest
            in ((if first then set_blank (blankBefore decl) lead else lead) @ imp # body @ out, left))"
  by pat_completeness auto
termination
  by (relation "measure (\<lambda>(decl, first, ts). length ts)")
    (auto dest: split_spec_shorter)

declare flatten_group.simps [simp del]

text \<open>The three ways a group goes on, as one case rule for the proofs about it.\<close>

lemma flatten_group_cases:
  assumes "flatten_group d f ts = (out, left)"
  obtains (finished) "ts = [] \<or> kind (hd ts) = RPAREN" "out = []" "left = ts"
  | (no_path) "split_spec ts = None" "out = takeWhile before_path ts" "left = dropWhile before_path ts"
  | (spec) leading spec rest out' where "split_spec ts = Some (leading, spec, rest)"
      "flatten_group d False rest = (out', left)"
      "out = (if f then set_blank (blankBefore d) (set_break True leading) else set_break True leading) @
         d\<lparr>start := start (hd spec), stop := start (hd spec), breakBefore := True,
           blankBefore := (f \<and> leading = [] \<and> blankBefore d)\<rparr> # set_blank False (set_break False spec) @ out'"
proof (cases "ts = [] \<or> kind (hd ts) = RPAREN")
  case True
  then have "flatten_group d f ts = ([], ts)" unfolding flatten_group.simps [of d f ts] by (rule if_P)
  with assms have "out = []" "left = ts" by simp_all
  with True show thesis by (rule finished)
next
  case False
  note unfolded = flatten_group.simps [of d f ts, unfolded if_not_P [OF False]]
  show thesis
  proof (cases "split_spec ts")
    case None
    from assms have "out = takeWhile before_path ts" "left = dropWhile before_path ts"
      unfolding unfolded None option.case prod.inject by simp_all
    with None show thesis by (rule no_path)
  next
    case (Some x)
    obtain leading sp rest where x: "x = (leading, sp, rest)" by (cases x)
    obtain out' left' where r: "flatten_group d False rest = (out', left')" by fastforce
    from assms have "left = left'" "out = (if f then set_blank (blankBefore d) (set_break True leading) else set_break True leading) @
         d\<lparr>start := start (hd sp), stop := start (hd sp), breakBefore := True,
           blankBefore := (f \<and> leading = [] \<and> blankBefore d)\<rparr> # set_blank False (set_break False sp) @ out'"
      unfolding unfolded Some x option.case prod.case Let_def r by simp_all
    from spec [OF Some [unfolded x] r [folded this(1)] this(2)] show thesis .
  qed
qed

lemma flatten_group_left: "flatten_group d f ts = (out, left) \<Longrightarrow> length left \<le> length ts"
proof (induction "length ts" arbitrary: f ts out rule: less_induct)
  case less
  from less.prems show ?case
  proof (cases rule: flatten_group_cases)
    case (spec leading sp rest out')
    from less.hyps [OF split_spec_shorter [OF spec(1)] spec(2)] split_spec_shorter [OF spec(1)]
    show ?thesis by simp
  qed (simp_all add: length_dropWhile_le)
qed

function formatFlattenImports :: "formatToken list \<Rightarrow> formatToken list" where
  "formatFlattenImports [] = []"
| "formatFlattenImports (t # ts) =
     (if kind t \<noteq> IMPORT \<or> ts = [] \<or> kind (hd ts) \<noteq> LPAREN then t # formatFlattenImports ts
      else case flatten_group t True (tl ts) of
             (out, left) \<Rightarrow> out @ formatFlattenImports (drop 1 left))"
  by pat_completeness auto
termination
  by (relation "measure length") (auto dest: flatten_group_left [OF sym] simp: less_Suc_eq_le le_diff_conv)

section \<open>Sorting imports\<close>

text \<open>
  The tokens of one import after its keyword: up to a semicolon, which belongs to it, or a line
  break. The key is the last path in it (\<open>strconv.Unquote\<close> gives no text for a malformed one).
\<close>

fun scan_import :: "string \<Rightarrow> formatToken list \<Rightarrow> formatToken list \<times> string \<times> formatToken list" where
  "scan_import key [] = ([], key, [])"
| "scan_import key (t # ts) =
     (if kind t = SEMICOLON then ([t], key, ts)
      else if breakBefore t then ([], key, t # ts)
      else case scan_import (if kind t = STRING then Unquote (ftext t) else key) ts of
             (taken, key', rest) \<Rightarrow> (t # taken, key', rest))"

text \<open>Without a path the key is the dotted name.\<close>

definition dotted_key :: "formatToken list \<Rightarrow> string" where
  "dotted_key ts =
     concat (map ftext (takeWhile (\<lambda>t. ftext t \<noteq> ''as'' \<and> \<not> is_comment t \<and> kind t \<noteq> SEMICOLON) ts))"

type_synonym entry = "formatToken list \<times> string"

text \<open>One entry: its leading comments, the keyword and the tokens after it; a group is no entry.\<close>

definition import_entry :: "formatToken list \<Rightarrow> (entry \<times> formatToken list) option" where
  "import_entry ts =
     (let comments = takeWhile is_comment ts
      in case dropWhile is_comment ts of
           [] \<Rightarrow> None
         | imp # tail \<Rightarrow>
             if kind imp \<noteq> IMPORT \<or> tail \<noteq> [] \<and> kind (hd tail) = LPAREN then None
             else case scan_import [] tail of
                    (taken, key, rest) \<Rightarrow>
                      Some ((comments @ imp # taken, if key = [] then dotted_key taken else key), rest))"

lemma scan_import_append: "scan_import key ts = (taken, key', rest) \<Longrightarrow> taken @ rest = ts"
  by (induction ts arbitrary: key taken) (auto split: if_splits prod.splits)

lemma take_drop_Cons: "dropWhile P ts = x # xs \<Longrightarrow> takeWhile P ts @ x # xs = ts"
  by (metis takeWhile_dropWhile_id)

lemma import_entry_append:
  assumes "import_entry ts = Some ((tokens, key), rest)"
  shows "tokens @ rest = ts \<and> tokens \<noteq> []"
proof -
  from assms obtain imp tail where d: "dropWhile is_comment ts = imp # tail"
    by (auto simp: import_entry_def Let_def split: list.splits)
  obtain taken k r where sc: "scan_import [] tail = (taken, k, r)" by (cases "scan_import [] tail") auto
  with assms d have "tokens = takeWhile is_comment ts @ imp # taken" "rest = r"
    by (auto simp: import_entry_def Let_def split: if_splits)
  with scan_import_append [OF sc] take_drop_Cons [OF d] show ?thesis by simp
qed

function import_entries :: "formatToken list \<Rightarrow> entry list \<times> formatToken list" where
  "import_entries ts =
     (case import_entry ts of
        None \<Rightarrow> ([], ts)
      | Some (e, rest) \<Rightarrow> (case import_entries rest of (es, left) \<Rightarrow> (e # es, left)))"
  by pat_completeness auto
termination
  by (relation "measure length") (auto dest!: import_entry_append)

declare import_entries.simps [simp del]

lemma import_entries_append: "import_entries ts = (es, left) \<Longrightarrow> concat (map fst es) @ left = ts"
proof (induction ts arbitrary: es rule: import_entries.induct)
  case (1 ts)
  show ?case
  proof (cases "import_entry ts")
    case None
    with 1(2) show ?thesis by (simp add: import_entries.simps [of ts])
  next
    case (Some x)
    obtain tokens key rest where x: "x = ((tokens, key), rest)" by (cases x) auto
    obtain es' left' where r: "import_entries rest = (es', left')" by fastforce
    with 1(2) Some x have "es = (tokens, key) # es'" "left = left'"
      by (auto simp: import_entries.simps [of ts])
    with 1(1) [OF Some x [symmetric] r [folded \<open>left = left'\<close>]] import_entry_append [of ts tokens key rest] Some x
    show ?thesis by simp
  qed
qed

text \<open>
  The position where the entries begin: back over the comments on lines of their own that are
  attached to the import.
\<close>

fun first_comment :: "formatToken list \<Rightarrow> nat \<Rightarrow> nat" where
  "first_comment ts 0 = 0"
| "first_comment ts (Suc f) =
     (if is_comment (ts ! f) \<and> breakBefore (ts ! f) \<and> \<not> blankBefore (ts ! Suc f) then first_comment ts f
      else Suc f)"

lemma first_comment_le: "first_comment ts n \<le> n"
  by (induction n) auto

definition sort_entries :: "formatToken list \<Rightarrow> nat \<Rightarrow> formatToken list \<times> nat" where
  "sort_entries ts first =
     (case import_entries (drop first ts) of
        (es, left) \<Rightarrow>
          (if length es > 1 then take first ts @ concat (map fst (sort_key snd es)) @ left else ts,
           length ts - length left))"

lemma sort_entries_mset: "sort_entries ts first = (ts', e) \<Longrightarrow> mset ts' = mset ts \<and> length ts' = length ts"
proof -
  assume a: "sort_entries ts first = (ts', e)"
  obtain es left where es: "import_entries (drop first ts) = (es, left)" by fastforce
  have "mset (concat (map fst (sort_key snd es))) = mset (concat (map fst es))"
    by (simp add: mset_concat flip: sum_mset_sum_list)
  then have "mset (take first ts @ concat (map fst (sort_key snd es)) @ left) =
      mset (take first ts @ concat (map fst es) @ left)" by simp
  also have "\<dots> = mset ts" using import_entries_append [OF es] by simp
  finally have perm: "mset (take first ts @ concat (map fst (sort_key snd es)) @ left) = mset ts" .
  from a es have "ts' = ts \<or> ts' = take first ts @ concat (map fst (sort_key snd es)) @ left"
    by (auto simp: sort_entries_def split: if_splits)
  with perm show ?thesis by (metis mset_eq_length)
qed

function import_loop :: "formatToken list \<Rightarrow> nat \<Rightarrow> formatToken list" where
  "import_loop ts i =
     (if i \<ge> length ts then ts
      else if kind (ts ! i) \<noteq> IMPORT then import_loop ts (Suc i)
      else case sort_entries ts (first_comment ts i) of
             (ts', e) \<Rightarrow> import_loop ts' (if e > i then e else Suc i))"
  by pat_completeness auto

termination
  by (relation "measure (\<lambda>(ts, i). length ts - i)") (auto dest!: sort_entries_mset [OF sym])

declare import_loop.simps [simp del]

definition formatImports :: "formatToken list \<Rightarrow> formatToken list" where
  "formatImports ts = import_loop ts 0"

section \<open>What the passes keep\<close>

text \<open>
  The kinds and texts of all tokens but keywords and parentheses of import declarations. Flattening
  keeps them in order; sorting permutes the tokens.
\<close>

definition import_syntax :: "formatToken \<Rightarrow> bool" where
  "import_syntax t \<longleftrightarrow> kind t = IMPORT \<or> kind t = LPAREN \<or> kind t = RPAREN"

definition content :: "formatToken list \<Rightarrow> (token \<times> string) list" where
  "content ts = map (\<lambda>t. (kind t, ftext t)) (filter (\<lambda>t. \<not> import_syntax t) ts)"

lemma content_append [simp]: "content (a @ b) = content a @ content b"
  by (simp add: content_def)

lemma content_Nil [simp]: "content [] = []"
  by (simp add: content_def)

lemma content_Cons: "content (t # ts) = content [t] @ content ts"
  by (simp add: content_def)

lemma content_syntax [simp]: "import_syntax t \<Longrightarrow> content (t # ts) = content ts"
  by (simp add: content_def)

lemma content_marks [simp]: "content (set_break b ts) = content ts" "content (set_blank b ts) = content ts"
  by (cases ts; simp add: content_def import_syntax_def)+

lemma flatten_group_content:
  "flatten_group d f ts = (out, left) \<Longrightarrow> kind d = IMPORT \<Longrightarrow>
     content out @ content left = content ts"
proof (induction "length ts" arbitrary: f ts out rule: less_induct)
  case less
  from less.prems(1) show ?case
  proof (cases rule: flatten_group_cases)
    case finished
    then show ?thesis by auto
  next
    case no_path
    then show ?thesis by (metis content_append takeWhile_dropWhile_id)
  next
    case (spec leading sp rest out')
    from less.hyps [OF split_spec_shorter [OF spec(1)] spec(2) less.prems(2)] split_spec_append(1) [OF spec(1), symmetric]
      spec(3) less.prems(2)
    show ?thesis by (simp add: import_syntax_def)
  qed
qed

text \<open>A group is left at its closing parenthesis or at the end of the tokens.\<close>

lemma flatten_group_end: "flatten_group d f ts = (out, left) \<Longrightarrow> left = [] \<or> kind (hd left) = RPAREN"
proof (induction "length ts" arbitrary: f ts out rule: less_induct)
  case less
  from less.prems show ?case
  proof (cases rule: flatten_group_cases)
    case no_path
    have "dropWhile before_path ts = dropWhile before_path (dropWhile is_comment ts)"
      by (induction ts) (auto simp: is_comment_def)
    with no_path show ?thesis by (auto simp: split_spec_def Let_def split: list.splits if_splits)
  next
    case (spec leading sp rest out')
    from less.hyps [OF split_spec_shorter [OF spec(1)] spec(2)] show ?thesis .
  qed auto
qed

lemma formatFlattenImports_content: "content (formatFlattenImports ts) = content ts"
proof (induction ts rule: formatFlattenImports.induct)
  case (2 t ts)
  show ?case
  proof (cases "kind t \<noteq> IMPORT \<or> ts = [] \<or> kind (hd ts) \<noteq> LPAREN")
    case True
    then have "formatFlattenImports (t # ts) = t # formatFlattenImports ts" by simp
    with 2(1) [OF True] show ?thesis by (metis content_Cons)
  next
    case False
    then obtain l tl' where ts: "ts = l # tl'" "kind l = LPAREN" "kind t = IMPORT" by (cases ts) auto
    obtain out left where g: "flatten_group t True tl' = (out, left)" by fastforce
    have "content (drop 1 left) = content left"
      using flatten_group_end [OF g] by (cases left) (auto simp: import_syntax_def)
    moreover have "formatFlattenImports (t # ts) = out @ formatFlattenImports (drop 1 left)"
      using False g ts by simp
    moreover have "content (formatFlattenImports (drop 1 left)) = content (drop 1 left)"
      using 2(2) [OF False] g ts by simp
    ultimately show ?thesis using flatten_group_content [OF g ts(3)] ts by (simp add: import_syntax_def)
  qed
qed simp

lemma import_loop_mset: "mset (import_loop ts i) = mset ts"
proof (induction ts i rule: import_loop.induct)
  case (1 ts i)
  show ?case
  proof (cases "length ts \<le> i \<or> kind (ts ! i) \<noteq> IMPORT")
    case True
    with 1(1) show ?thesis by (auto simp: import_loop.simps [of ts i])
  next
    case False
    obtain ts' e where s: "sort_entries ts (first_comment ts i) = (ts', e)" by fastforce
    with False 1(2) [of ts' e] sort_entries_mset [OF s] show ?thesis
      by (simp add: import_loop.simps [of ts i])
  qed
qed

lemma formatImports_mset: "mset (formatImports ts) = mset ts"
  by (simp add: formatImports_def import_loop_mset)

lemma content_mset: "mset a = mset b \<Longrightarrow> mset (content a) = mset (content b)"
  by (simp add: content_def)

text \<open>
  Rearranging the imports neither loses, adds nor changes a token: but for the keywords and the
  parentheses of import declarations, the tokens after flattening and sorting are a permutation of the
  tokens before.
\<close>

lemma format_imports_content:
  "mset (content (formatImports (formatFlattenImports ts))) = mset (content ts)"
  using content_mset [OF formatImports_mset] by (simp add: formatFlattenImports_content)

end
