(* ===== verification/Ternary.thy ===== *)
theory Ternary
  imports FormatTokens GoAst
begin

text \<open>
  Conditional expressions (\<open>internal/compiler/ternary_parse.go\<close>): the tokens of a question mark and
  its colon, and the pass that rewrites each conditional expression into a call of a function
  literal. Go's scanner and \<open>parser.ParseExpr\<close> are parameters.
\<close>

section \<open>Brackets\<close>

definition is_open :: "formatToken \<Rightarrow> bool" where
  "is_open t \<longleftrightarrow> kind t \<in> {LPAREN, LBRACK, LBRACE}"

definition is_close :: "formatToken \<Rightarrow> bool" where
  "is_close t \<longleftrightarrow> kind t \<in> {RPAREN, RBRACK, RBRACE}"

text \<open>The partners of the brackets: a stack of the open ones, whatever their kinds.\<close>

fun bracket_pairs_from ::
  "nat \<Rightarrow> nat list \<Rightarrow> formatToken list \<Rightarrow> (nat \<rightharpoonup> nat) \<Rightarrow> (nat \<rightharpoonup> nat)"
where
  "bracket_pairs_from i opens [] m = m"
| "bracket_pairs_from i opens (t # ts) m =
     (if is_open t then bracket_pairs_from (Suc i) (i # opens) ts m
      else if is_close t then
        (case opens of
           [] \<Rightarrow> bracket_pairs_from (Suc i) [] ts m
         | j # js \<Rightarrow> bracket_pairs_from (Suc i) js ts (m(i \<mapsto> j, j \<mapsto> i)))
      else bracket_pairs_from (Suc i) opens ts m)"

definition bracket_pairs :: "formatToken list \<Rightarrow> (nat \<rightharpoonup> nat)" where
  "bracket_pairs ts = bracket_pairs_from 0 [] ts Map.empty"

section \<open>Questions and colons\<close>

definition arrow_at :: "formatToken list \<Rightarrow> nat \<Rightarrow> bool" where
  "arrow_at ts j \<longleftrightarrow>
     kind (ts ! j) = ASSIGN \<and> j + 1 < length ts \<and> kind (ts ! (j + 1)) = GTR \<and> stop (ts ! j) = start (ts ! (j + 1))"

text \<open>The partner of the token at \<open>j\<close> when it is an opening bracket: the loops skip the group.\<close>

definition group_end :: "(nat \<rightharpoonup> nat) \<Rightarrow> nat \<Rightarrow> nat option" where
  "group_end groups j = (case groups j of None \<Rightarrow> None | Some e \<Rightarrow> if e > j then Some e else None)"

lemma group_end_greater [dest]: "group_end groups j = Some e \<Longrightarrow> j < e"
  by (auto simp: group_end_def split: option.splits if_splits)

function find_colon :: "formatToken list \<Rightarrow> (nat \<rightharpoonup> nat) \<Rightarrow> nat \<Rightarrow> nat option" where
  "find_colon ts groups j =
     (if j \<ge> length ts then None
      else case group_end groups j of
        Some e \<Rightarrow> find_colon ts groups (Suc e)
      | None \<Rightarrow>
          if arrow_at ts j then find_colon ts groups (Suc j)
          else if kind (ts ! j) = COLON then Some j
          else if kind (ts ! j) \<in> {COMMA, SEMICOLON, ASSIGN, DEFINE, RPAREN, RBRACK, RBRACE} then None
          else find_colon ts groups (Suc j))"
  by pat_completeness auto
termination
  by (relation "measure (\<lambda>(ts, groups, j). length ts - j)") auto

declare find_colon.simps [simp del]

definition ternary_pairs :: "formatToken list \<Rightarrow> (nat \<rightharpoonup> nat) \<Rightarrow> (nat \<rightharpoonup> nat)" where
  "ternary_pairs ts groups = (\<lambda>i.
     if i < length ts \<and> ftext (ts ! i) = ''?'' then find_colon ts groups (Suc i) else None)"

text \<open>The tokens without comments, their brackets and the colons of the question marks.\<close>

definition ternaryTokens ::
  "scanner \<Rightarrow> string \<Rightarrow> string \<Rightarrow> (formatToken list \<times> (nat \<rightharpoonup> nat) \<times> (nat \<rightharpoonup> nat)) result"
where
  "ternaryTokens scan filename source =
     res_bind (scanFormatTokens scan filename source) (\<lambda>all.
       let ts = filter (\<lambda>t. kind t \<noteq> COMMENT) all;
           groups = bracket_pairs ts
       in Inr (ts, groups, ternary_pairs ts groups))"

section \<open>The extent of an expression\<close>

text \<open>The token at \<open>s\<close> comes before the condition.\<close>

definition before_condition :: "formatToken list \<Rightarrow> nat \<Rightarrow> bool" where
  "before_condition ts s \<longleftrightarrow>
     (let k = kind (ts ! s) in
      k = ARROW \<and> s > 0 \<and> formatEndsStatement (ts ! (s - 1)) \<or>
      k = GTR \<and> s > 0 \<and> kind (ts ! (s - 1)) = ASSIGN \<and> stop (ts ! (s - 1)) = start (ts ! s) \<or>
      k \<in> {LPAREN, LBRACK, LBRACE, COMMA, SEMICOLON, COLON, RETURN, IF, FOR, SWITCH, CASE, RANGE, DEFINE} \<or>
      k = ASSIGN \<or> ADD_ASSIGN \<le> k \<and> k \<le> AND_NOT_ASSIGN \<or> ftext (ts ! s) = ''throw'')"

text \<open>Backwards from the question mark; the argument is one more than the code's \<open>start\<close>.\<close>

function expr_start :: "formatToken list \<Rightarrow> (nat \<rightharpoonup> nat) \<Rightarrow> nat \<Rightarrow> nat" where
  "expr_start ts groups 0 = 0"
| "expr_start ts groups (Suc s) =
     (case groups s of
        Some opn \<Rightarrow>
          if opn < s then expr_start ts groups opn
          else if before_condition ts s then Suc s else expr_start ts groups s
      | None \<Rightarrow> if before_condition ts s then Suc s else expr_start ts groups s)"
  by pat_completeness auto
termination
  by (relation "measure (\<lambda>(ts, groups, n). n)") auto

text \<open>
  \<open>ternaryInHeader\<close>: the expression stands in the header of a control statement. The partner of a
  closing bracket comes before it, so \<open>opn \<le> i\<close> always holds.
\<close>

function ternaryInHeader_loop :: "formatToken list \<Rightarrow> (nat \<rightharpoonup> nat) \<Rightarrow> nat \<Rightarrow> nat \<Rightarrow> bool" where
  "ternaryInHeader_loop ts groups first 0 = False"
| "ternaryInHeader_loop ts groups first (Suc i) =
     (let k = kind (ts ! i) in
      if k \<in> {IF, FOR, SWITCH, RANGE} then True
      else if k = LBRACE \<or> k = RBRACE then False
      else if k = SEMICOLON \<and> Suc i \<noteq> first then False
      else if k = RPAREN \<or> k = RBRACK then
        (case groups i of
           Some opn \<Rightarrow> if opn \<le> i then ternaryInHeader_loop ts groups first opn else False
         | None \<Rightarrow> ternaryInHeader_loop ts groups first i)
      else ternaryInHeader_loop ts groups first i)"
  by pat_completeness auto
termination
  by (relation "measure (\<lambda>(ts, groups, first, n). n)") auto

definition ternaryInHeader :: "formatToken list \<Rightarrow> (nat \<rightharpoonup> nat) \<Rightarrow> nat \<Rightarrow> bool" where
  "ternaryInHeader ts groups first = ternaryInHeader_loop ts groups first first"

text \<open>A completed expression: not one of the types that still need their literal's body.\<close>

definition completed :: "expr option \<Rightarrow> bool" where
  "completed e \<longleftrightarrow>
     (case e of
        None \<Rightarrow> False
      | Some x \<Rightarrow> (case x of ArrayType _ _ \<Rightarrow> False | MapType _ _ \<Rightarrow> False | StructType _ \<Rightarrow> False
                            | FuncType _ _ _ \<Rightarrow> False | _ \<Rightarrow> True))"

text \<open>
  Forwards from behind the colon; \<open>after\<close> is the end of the colon's token. \<open>parseExpr\<close> gets the
  bytes between the colon and the brace.
\<close>

function expr_end ::
  "(string \<Rightarrow> expr option) \<Rightarrow> string \<Rightarrow> formatToken list \<Rightarrow> (nat \<rightharpoonup> nat) \<Rightarrow> bool \<Rightarrow> int \<Rightarrow> nat \<Rightarrow> nat"
where
  "expr_end parseExpr source ts groups header after e =
     (if e \<ge> length ts then e
      else if header \<and> kind (ts ! e) = LBRACE \<and>
        (case slice source after (start (ts ! e)) of None \<Rightarrow> False | Some s \<Rightarrow> completed (parseExpr s)) then e
      else case group_end groups e of
        Some c \<Rightarrow> expr_end parseExpr source ts groups header after (Suc c)
      | None \<Rightarrow>
          if kind (ts ! e) \<in> {COMMA, SEMICOLON, COLON, RPAREN, RBRACK, RBRACE} then e
          else expr_end parseExpr source ts groups header after (Suc e))"
  by pat_completeness auto
termination
  by (relation "measure (\<lambda>(parseExpr, source, ts, groups, header, after, e). length ts - e)") auto

declare expr_end.simps [simp del]

function nested_between :: "(nat \<rightharpoonup> nat) \<Rightarrow> (nat \<rightharpoonup> nat) \<Rightarrow> nat \<Rightarrow> nat \<Rightarrow> bool" where
  "nested_between groups pairs i e =
     (if i \<ge> e then False
      else case group_end groups i of
        Some c \<Rightarrow> nested_between groups pairs (Suc c) e
      | None \<Rightarrow> pairs i \<noteq> None \<or> nested_between groups pairs (Suc i) e)"
  by pat_completeness auto
termination
  by (relation "measure (\<lambda>(groups, pairs, i, e). e - i)") auto

declare nested_between.simps [simp del]

section \<open>The pass\<close>

definition ternaryResultMarker :: string where "ternaryResultMarker = ''ghi_ternary_result''"

definition tokenPosition :: "string \<Rightarrow> string \<Rightarrow> nat \<Rightarrow> string" where
  "tokenPosition source filename offset =
     (let p = lineColumn filename source offset
      in filename @ '':'' @ decimal (nat (PosLine p)) @ '':'' @ decimal (nat (Column p)))"

definition ternary_edits :: "formatToken list \<Rightarrow> nat \<Rightarrow> nat \<Rightarrow> nat \<Rightarrow> nat \<Rightarrow> sourceEdit list" where
  "ternary_edits ts first q colon e =
     (let last = stop (ts ! (e - 1)) in
      [sEdit (start (ts ! first)) (start (ts ! first)) (''(func() '' @ ternaryResultMarker @ '' { if ''),
       sEdit (start (ts ! q)) (stop (ts ! q)) '' { return '',
       sEdit (start (ts ! colon)) (stop (ts ! colon)) '' }; return '',
       sEdit last last '' })()''])"

fun apply_all ::
  "coverageSourceMap list \<Rightarrow> string \<Rightarrow> sourceEdit list \<Rightarrow> int \<Rightarrow> int \<Rightarrow> coverageSourceMap list option" where
  "apply_all [] source edits a b = Some []"
| "apply_all (m # ms) source edits a b =
     (case applyExpression m source edits a b of
        None \<Rightarrow> None
      | Some m' \<Rightarrow> map_option ((#) m') (apply_all ms source edits a b))"

text \<open>
  One round on the first question mark: the new source and maps, an error, or \<^const>\<open>None\<close> for a
  slice out of range, which panics.
\<close>

definition rewrite_ternary ::
  "(string \<Rightarrow> expr option) \<Rightarrow> string \<Rightarrow> string \<Rightarrow> coverageSourceMap list \<Rightarrow>
     formatToken list \<Rightarrow> (nat \<rightharpoonup> nat) \<Rightarrow> (nat \<rightharpoonup> nat) \<Rightarrow> nat \<Rightarrow> nat \<Rightarrow>
     (string \<times> coverageSourceMap list) result option"
where
  "rewrite_ternary parseExpr filename source maps ts groups pairs q colon =
     (let fail = (\<lambda>message. Some (Inl (tokenPosition source filename (nat (start (ts ! q))) @ '': ternary '' @ message)));
          first = expr_start ts groups q;
          header = ternaryInHeader ts groups first;
          e = expr_end parseExpr source ts groups header (stop (ts ! colon)) (colon + 1)
      in if first = q \<or> colon = q + 1 \<or> e = colon + 1 then fail ''requires a condition and two values''
         else if nested_between groups pairs (q + 1) e then fail ''nested expressions require parentheses''
         else
           let edits = ternary_edits ts first q colon e
           in case apply_all maps source edits (start (ts ! first)) (stop (ts ! (e - 1))) of
                None \<Rightarrow> None
              | Some maps' \<Rightarrow> map_option (\<lambda>source'. Inr (source', maps')) (applyEdits source edits))"

text \<open>The loop; a round without question marks to rewrite ends it. Each round uses one unit of fuel.\<close>

primrec ternary_rounds ::
  "nat \<Rightarrow> scanner \<Rightarrow> (string \<Rightarrow> expr option) \<Rightarrow> string \<Rightarrow> string \<Rightarrow> coverageSourceMap list \<Rightarrow>
     (string \<times> coverageSourceMap list) result option"
where
  "ternary_rounds 0 scan parseExpr filename source maps = None"
| "ternary_rounds (Suc fuel) scan parseExpr filename source maps =
     (case ternaryTokens scan filename source of
        Inl e \<Rightarrow> Some (Inl e)
      | Inr (ts, groups, pairs) \<Rightarrow>
          (case filter (\<lambda>i. pairs i \<noteq> None) [0..<length ts] of
             [] \<Rightarrow> Some (Inr (source, maps))
           | q # _ \<Rightarrow>
               (case rewrite_ternary parseExpr filename source maps ts groups pairs q (the (pairs q)) of
                  None \<Rightarrow> None
                | Some (Inl e) \<Rightarrow> Some (Inl e)
                | Some (Inr (source', maps')) \<Rightarrow> ternary_rounds fuel scan parseExpr filename source' maps')))"

definition normalizeTernaries ::
  "scanner \<Rightarrow> (string \<Rightarrow> expr option) \<Rightarrow> string \<Rightarrow> string \<Rightarrow> coverageSourceMap list \<Rightarrow>
     (string \<times> coverageSourceMap list) result option"
where
  "normalizeTernaries scan parseExpr filename source maps =
     (if CHR ''?'' \<notin> set source then Some (Inr (source, maps))
      else ternary_rounds (Suc (count_list source (CHR ''?''))) scan parseExpr filename source maps)"

section \<open>The pass ends and keeps the source maps correct\<close>

text \<open>
  What Go's scanner documents: without errors, every token starts behind the one before and inside the
  source.
\<close>

fun items_in_order :: "string \<Rightarrow> int \<Rightarrow> scanned list \<Rightarrow> bool" where
  "items_in_order source p [] = True"
| "items_in_order source p ((k, literal, s) # rest) =
     (p \<le> s \<and> s \<le> int (length source) \<and>
      items_in_order source
        (if k = SEMICOLON \<and> literal = [newline] then s
         else token_end source k (if literal = [] then token_string k else literal) s) rest)"

definition scanner_ok :: "scanner \<Rightarrow> bool" where
  "scanner_ok scan \<longleftrightarrow>
     (\<forall>source. scan_errors source (snd (scan source)) = [] \<longrightarrow> items_in_order source 0 (fst (scan source)))"

definition token_ok :: "string \<Rightarrow> formatToken \<Rightarrow> bool" where
  "token_ok source t \<longleftrightarrow> 0 \<le> start t \<and> start t \<le> stop t \<and> stop t \<le> int (length source) \<and>
     (ftext t = [newline] \<or> slice source (start t) (stop t) = Some (ftext t))"

definition tokens_in_order :: "string \<Rightarrow> formatToken list \<Rightarrow> bool" where
  "tokens_in_order source ts \<longleftrightarrow>
     sorted_wrt (\<lambda>a b. stop a \<le> start b) ts \<and> (\<forall>t \<in> set ts. token_ok source t)"

lemma scan_loop_in_order:
  "scan_loop filename source items = Inr ts \<Longrightarrow> items_in_order source p items \<Longrightarrow> 0 \<le> p \<Longrightarrow>
     tokens_in_order source ts \<and> (\<forall>t \<in> set ts. p \<le> start t)"
proof (induction items arbitrary: ts p)
  case Nil
  then show ?case by (simp add: tokens_in_order_def)
next
  case (Cons item rest)
  obtain k l s where item: "item = (k, l, s)" by (cases item)
  show ?case
  proof (cases "k = SEMICOLON \<and> l = [newline]")
    case True
    with Cons.prems item obtain ts' where r: "scan_loop filename source rest = Inr ts'"
      and ts: "ts = (ftok k [newline] s s)\<lparr>implicit := True\<rparr> # ts'" by (auto simp: res_bind_Inr_iff)
    have "tokens_in_order source ts' \<and> (\<forall>t \<in> set ts'. s \<le> start t)"
      using Cons.IH [OF r, of s] Cons.prems item True by simp
    with ts Cons.prems item True show ?thesis
      by (auto simp: tokens_in_order_def token_ok_def ftok_def)
  next
    case False
    let ?e = "token_end source k (if l = [] then token_string k else l) s"
    from Cons.prems(1) item False have e: "s \<le> ?e" "?e \<le> int (length source)"
      by (auto simp: Let_def split: if_splits)
    with Cons.prems(1) item False obtain ts' where r: "scan_loop filename source rest = Inr ts'"
      and ts: "ts = ftok k (take (nat (?e - s)) (drop (nat s) source)) s ?e # ts'"
      by (auto simp: res_bind_Inr_iff Let_def)
    have ps: "p \<le> s" "0 \<le> s" using Cons.prems item by auto
    have "tokens_in_order source ts' \<and> (\<forall>t \<in> set ts'. ?e \<le> start t)"
      using Cons.IH [OF r, of ?e] Cons.prems(2) item False e ps by simp
    moreover have "slice source s ?e = Some (take (nat (?e - s)) (drop (nat s) source))"
      using e ps by (simp add: slice_def nat_diff_distrib drop_take)
    ultimately show ?thesis using ts e ps by (auto simp: tokens_in_order_def token_ok_def ftok_def)
  qed
qed

lemma ternaryTokens_in_order:
  assumes "scanner_ok scan" "ternaryTokens scan filename source = Inr (ts, groups, pairs)"
  shows "tokens_in_order source ts" "groups = bracket_pairs ts" "pairs = ternary_pairs ts groups"
proof -
  from assms(2) obtain all where all: "scanFormatTokens scan filename source = Inr all"
    and ts: "ts = filter (\<lambda>t. kind t \<noteq> COMMENT) all" "groups = bracket_pairs ts" "pairs = ternary_pairs ts groups"
    by (auto simp: ternaryTokens_def res_bind_Inr_iff Let_def)
  then show "groups = bracket_pairs ts" "pairs = ternary_pairs ts groups" by simp_all
  from all have l: "scan_loop filename source (fst (scan source)) = Inr all"
    and "scan_errors source (snd (scan source)) = []"
    by (cases "scan_errors source (snd (scan source))"; auto simp: scanFormatTokens_def res_bind_Inr_iff)+
  with assms(1) have "items_in_order source 0 (fst (scan source))" by (simp add: scanner_ok_def)
  from scan_loop_in_order [OF l this] ts(1) show "tokens_in_order source ts"
    by (auto simp: tokens_in_order_def sorted_wrt_filter)
qed

text \<open>Where the loops over the tokens stop.\<close>

lemma bracket_pairs_from_bound:
  "\<forall>o' \<in> set opens. o' < i \<Longrightarrow> \<forall>j k. m j = Some k \<longrightarrow> k < i \<Longrightarrow>
     bracket_pairs_from i opens ts m j = Some k \<Longrightarrow> k < i + length ts"
proof (induction i opens ts m arbitrary: j k rule: bracket_pairs_from.induct)
  case (2 i opens t ts m)
  show ?case
  proof (cases "is_open t")
    case True
    with 2(1) [OF True, of j k] 2(5,6,7) show ?thesis by (fastforce simp: less_Suc_eq)
  next
    case False
    show ?thesis
    proof (cases "is_close t")
      case True
      show ?thesis
      proof (cases opens)
        case Nil
        with 2(2) [OF False True Nil, of j k] 2(6,7) False True show ?thesis by (fastforce simp: less_Suc_eq)
      next
        case (Cons x xs)
        have "\<forall>ja ka. (m(i \<mapsto> x, x \<mapsto> i)) ja = Some ka \<longrightarrow> ka < Suc i"
          using 2(5,6) Cons by (auto simp: less_Suc_eq)
        with 2(3) [OF False True Cons, of j k] 2(5,7) False True Cons show ?thesis
          by (fastforce simp: less_Suc_eq)
      qed
    next
      case c: False
      with 2(4) [OF False c, of j k] 2(5,6,7) False show ?thesis by (fastforce simp: less_Suc_eq)
    qed
  qed
qed auto

lemma bracket_pairs_bound: "bracket_pairs ts j = Some k \<Longrightarrow> k < length ts"
  unfolding bracket_pairs_def using bracket_pairs_from_bound [of "[]" 0 Map.empty ts j k] by simp

lemma group_end_bound: "group_end (bracket_pairs ts) j = Some e \<Longrightarrow> e < length ts"
  by (auto simp: group_end_def split: option.splits if_splits dest: bracket_pairs_bound)

lemma find_colon_bounds: "find_colon ts groups j = Some c \<Longrightarrow> j \<le> c \<and> c < length ts"
proof (induction ts groups j rule: find_colon.induct)
  case (1 ts groups j)
  show ?case
  proof (cases "group_end groups j")
    case None
    with 1 show ?thesis by (auto simp: find_colon.simps [of ts groups j] split: if_splits)
  next
    case (Some e)
    with 1 show ?thesis by (auto simp: find_colon.simps [of ts groups j] split: if_splits)
  qed
qed

lemma expr_start_le: "expr_start ts groups n \<le> n"
  by (induction ts groups n rule: expr_start.induct) (auto split: option.splits)

lemma expr_end_bounds:
  "e \<le> length ts \<Longrightarrow> groups = bracket_pairs ts \<Longrightarrow>
     e \<le> expr_end parseExpr source ts groups header after e
     \<and> expr_end parseExpr source ts groups header after e \<le> length ts"
proof (induction parseExpr source ts groups header after e rule: expr_end.induct)
  case (1 parseExpr source ts groups header after e)
  note unf = expr_end.simps [of parseExpr source ts groups header after e]
  show ?case
  proof (cases "length ts \<le> e \<or> header \<and> kind (ts ! e) = LBRACE \<and>
        (case slice source after (start (ts ! e)) of None \<Rightarrow> False | Some s \<Rightarrow> completed (parseExpr s))")
    case True
    with 1(3) show ?thesis unfolding unf by auto
  next
    case False
    then have f: "\<not> length ts \<le> e" "\<not> (header \<and> kind (ts ! e) = LBRACE \<and>
        (case slice source after (start (ts ! e)) of None \<Rightarrow> False | Some s \<Rightarrow> completed (parseExpr s)))" by blast+
    show ?thesis
    proof (cases "group_end groups e")
      case None
      with 1(1) [OF f None] 1(3,4) f show ?thesis unfolding unf by auto
    next
      case (Some c)
      with group_end_bound [of ts e c] 1(4) have "e < c" "c < length ts" by auto
      with 1(2) [OF f Some] 1(3,4) f Some show ?thesis unfolding unf by auto
    qed
  qed
qed

definition source_between :: "string \<Rightarrow> int \<Rightarrow> int \<Rightarrow> string" where
  "source_between source a b = (case slice source a b of None \<Rightarrow> [] | Some s \<Rightarrow> s)"

text \<open>Edits change the count of a byte by what they insert and what they replace.\<close>

lemma splice_count:
  "edits_ok p es (int (length src)) \<Longrightarrow> spliceEdits src edit_text es p = Some ys \<Longrightarrow>
     count_list ys c + sum_list (map (\<lambda>e. count_list (source_between src (edit_start e) (edit_end e)) c) es)
       = count_list (drop (nat p) src) c + sum_list (map (\<lambda>e. count_list (edit_text e) c) es)"
proof (induction es arbitrary: p ys)
  case Nil
  then show ?case by (auto simp: slice_def split: if_splits)
next
  case (Cons e es)
  from Cons.prems obtain copied rest where sl: "slice src p (edit_start e) = Some copied"
    and rest: "spliceEdits src edit_text es (edit_end e) = Some rest" and ys: "ys = copied @ edit_text e @ rest"
    by (auto split: option.splits)
  from Cons.prems(1) have b: "0 \<le> p" "p \<le> edit_start e" "edit_start e \<le> edit_end e" "edit_end e \<le> int (length src)"
    by simp_all
  have "drop (nat p) src = copied @ drop (nat (edit_start e)) src"
    using sl b by (auto simp: slice_def split: if_splits)
      (metis append_take_drop_id drop_drop le_add_diff_inverse2 nat_mono take_drop)
  moreover have "drop (nat (edit_start e)) src
      = source_between src (edit_start e) (edit_end e) @ drop (nat (edit_end e)) src"
    using b by (auto simp: source_between_def slice_def)
      (metis append_take_drop_id drop_drop le_add_diff_inverse2 nat_mono take_drop)
  moreover have "count_list rest c + sum_list (map (\<lambda>e. count_list (source_between src (edit_start e) (edit_end e)) c) es)
      = count_list (drop (nat (edit_end e)) src) c + sum_list (map (\<lambda>e. count_list (edit_text e) c) es)"
    using Cons.IH [OF _ rest] Cons.prems(1) by simp
  ultimately show ?case using ys by simp
qed

lemma applyExpression_ok:
  assumes "map_ok m source" "edits_ok 0 edits (int (length source))" "applyEdits source edits = Some source'"
  shows "\<exists>m'. applyExpression m source edits a b = Some m' \<and> map_ok m' source'"
proof -
  from apply_map_ok [OF assms(1,2)] assms(3) obtain m' where m': "apply_map m source edits = Some m'" "map_ok m' source'"
    by auto
  then show ?thesis by (cases "offsets m'") (auto simp: applyExpression_def Let_def map_ok_def)
qed

lemma apply_all_ok:
  assumes "edits_ok 0 edits (int (length source))" "applyEdits source edits = Some source'"
  shows "\<forall>m \<in> set maps. map_ok m source \<Longrightarrow>
    \<exists>maps'. apply_all maps source edits a b = Some maps' \<and> (\<forall>m \<in> set maps'. map_ok m source')"
proof (induction maps)
  case (Cons m ms)
  then obtain ms' where "apply_all ms source edits a b = Some ms'" "\<forall>m \<in> set ms'. map_ok m source'" by auto
  moreover obtain m' where "applyExpression m source edits a b = Some m'" "map_ok m' source'"
    using applyExpression_ok [OF _ assms, of m a b] Cons.prems by auto
  ultimately show ?case by simp
qed simp

lemma tokens_in_orderD:
  assumes "tokens_in_order source ts"
  shows "i < j \<Longrightarrow> j < length ts \<Longrightarrow> stop (ts ! i) \<le> start (ts ! j)"
    and "i < length ts \<Longrightarrow> 0 \<le> start (ts ! i) \<and> start (ts ! i) \<le> stop (ts ! i) \<and> stop (ts ! i) \<le> int (length source)"
    and "i < length ts \<Longrightarrow> ftext (ts ! i) = ''?'' \<Longrightarrow> slice source (start (ts ! i)) (stop (ts ! i)) = Some ''?''"
proof -
  show "i < j \<Longrightarrow> j < length ts \<Longrightarrow> stop (ts ! i) \<le> start (ts ! j)"
    using assms by (simp add: tokens_in_order_def sorted_wrt_iff_nth_less)
  have t: "i < length ts \<Longrightarrow> token_ok source (ts ! i)" using assms by (simp add: tokens_in_order_def)
  then show "i < length ts \<Longrightarrow> 0 \<le> start (ts ! i) \<and> start (ts ! i) \<le> stop (ts ! i) \<and> stop (ts ! i) \<le> int (length source)"
    by (simp add: token_ok_def)
  show "i < length ts \<Longrightarrow> ftext (ts ! i) = ''?'' \<Longrightarrow> slice source (start (ts ! i)) (stop (ts ! i)) = Some ''?''"
    using t by (simp add: token_ok_def newline_def)
qed

text \<open>The edits of a round: sorted and disjoint, and they remove the question mark.\<close>

lemma ternary_edits_ok:
  assumes ord: "tokens_in_order source ts" and pos: "first < q" "q < colon" "colon < e - 1" "e \<le> length ts"
    and qm: "ftext (ts ! q) = ''?''"
  shows "edits_ok 0 (ternary_edits ts first q colon e) (int (length source))"
    and "applyEdits source (ternary_edits ts first q colon e) = Some source' \<Longrightarrow>
      count_list source' (CHR ''?'') < count_list source (CHR ''?'')"
proof -
  note le = tokens_in_orderD(1) [OF ord] and ok = tokens_in_orderD(2) [OF ord]
  have "stop (ts ! first) \<le> start (ts ! q)" "stop (ts ! q) \<le> start (ts ! colon)" "stop (ts ! colon) \<le> start (ts ! (e - 1))"
    by (rule le; use pos in simp)+
  moreover have "first < length ts" "q < length ts" "colon < length ts" "e - 1 < length ts" using pos by auto
  moreover note ok [OF this(1)] ok [OF this(2)] ok [OF this(3)] ok [OF this(4)]
  ultimately
  show good: "edits_ok 0 (ternary_edits ts first q colon e) (int (length source))"
    by (simp add: ternary_edits_def Let_def)
  assume "applyEdits source (ternary_edits ts first q colon e) = Some source'"
  from splice_count [OF good this [unfolded applyEdits_def], of "CHR ''?''"]
  have "count_list source' (CHR ''?'') + 1 + count_list (source_between source (start (ts ! colon)) (stop (ts ! colon))) (CHR ''?'')
      + count_list (source_between source (start (ts ! first)) (start (ts ! first))) (CHR ''?'')
      + count_list (source_between source (stop (ts ! (e - 1))) (stop (ts ! (e - 1)))) (CHR ''?'')
      = count_list source (CHR ''?'')"
    using tokens_in_orderD(3) [OF ord, of q] pos qm
    by (simp add: ternary_edits_def Let_def source_between_def ternaryResultMarker_def)
  then show "count_list source' (CHR ''?'') < count_list source (CHR ''?'')" by linarith
qed

lemma rewrite_ternary_ok:
  assumes "tokens_in_order source ts" "groups = bracket_pairs ts" "pairs = ternary_pairs ts groups"
    and "pairs q = Some colon" "\<forall>m \<in> set maps. map_ok m source"
  shows "\<exists>r. rewrite_ternary parseExpr filename source maps ts groups pairs q colon = Some r \<and>
    (\<forall>source' maps'. r = Inr (source', maps') \<longrightarrow>
       (\<forall>m \<in> set maps'. map_ok m source') \<and> count_list source' (CHR ''?'') < count_list source (CHR ''?''))"
proof -
  from assms(3,4) have q: "q < length ts" "ftext (ts ! q) = ''?''" "find_colon ts groups (Suc q) = Some colon"
    by (auto simp: ternary_pairs_def split: if_splits)
  from find_colon_bounds [OF q(3)] have c: "q < colon" "colon < length ts" by auto
  let ?first = "expr_start ts groups q"
  let ?e = "expr_end parseExpr source ts groups (ternaryInHeader ts groups ?first) (stop (ts ! colon)) (colon + 1)"
  have e: "colon + 1 \<le> ?e" "?e \<le> length ts"
    using expr_end_bounds [of "colon + 1" ts groups parseExpr source "ternaryInHeader ts groups ?first" "stop (ts ! colon)"]
      c assms(2) by auto
  show ?thesis
  proof (cases "?first = q \<or> colon = q + 1 \<or> ?e = colon + 1 \<or> nested_between groups pairs (q + 1) ?e")
    case True
    then show ?thesis by (auto simp: rewrite_ternary_def Let_def)
  next
    case False
    with expr_start_le [of ts groups q] have f: "?first < q" by simp
    from False have "?e \<noteq> colon + 1" by blast
    with e(1) have ce: "colon < ?e - 1" by linarith
    note edits = ternary_edits_ok [OF assms(1) f c(1) ce e(2) q(2)]
    obtain source' where s': "applyEdits source (ternary_edits ts ?first q colon ?e) = Some source'"
      using spliceEdits_total [OF edits(1)] unfolding applyEdits_def by blast
    obtain maps' where ms': "apply_all maps source (ternary_edits ts ?first q colon ?e) (start (ts ! ?first))
        (stop (ts ! (?e - 1))) = Some maps'" "\<forall>m \<in> set maps'. map_ok m source'"
      using apply_all_ok [OF edits(1) s' assms(5)] by blast
    have "rewrite_ternary parseExpr filename source maps ts groups pairs q colon = Some (Inr (source', maps'))"
      unfolding rewrite_ternary_def Let_def using False ms'(1) s' by simp
    with ms'(2) edits(2) [OF s'] show ?thesis by simp
  qed
qed

text \<open>What the pass leaves: no question mark with a colon.\<close>

definition ternary_free :: "scanner \<Rightarrow> string \<Rightarrow> string \<Rightarrow> bool" where
  "ternary_free scan filename source \<longleftrightarrow>
     CHR ''?'' \<notin> set source \<or>
     (case ternaryTokens scan filename source of
        Inl e \<Rightarrow> False | Inr (ts, groups, pairs) \<Rightarrow> list_all (\<lambda>i. pairs i = None) [0..<length ts])"

lemma ternary_rounds_ok:
  assumes "scanner_ok scan"
  shows "\<forall>m \<in> set maps. map_ok m source \<Longrightarrow> count_list source (CHR ''?'') < fuel \<Longrightarrow>
    \<exists>r. ternary_rounds fuel scan parseExpr filename source maps = Some r \<and>
      (\<forall>source' maps'. r = Inr (source', maps') \<longrightarrow>
         (\<forall>m \<in> set maps'. map_ok m source') \<and> ternary_free scan filename source')"
proof (induction fuel arbitrary: source maps)
  case (Suc fuel)
  show ?case
  proof (cases "ternaryTokens scan filename source")
    case (Inl e)
    then show ?thesis by simp
  next
    case (Inr x)
    obtain ts groups pairs where x: "x = (ts, groups, pairs)" by (cases x)
    note tt = ternaryTokens_in_order [OF assms Inr [unfolded x]]
    show ?thesis
    proof (cases "filter (\<lambda>i. pairs i \<noteq> None) [0..<length ts]")
      case Nil
      then have "list_all (\<lambda>i. pairs i = None) [0..<length ts]" by (simp add: filter_empty_conv list_all_iff)
      with Inr x Nil Suc.prems show ?thesis by (simp add: ternary_free_def)
    next
      case (Cons q qs)
      then have "q \<in> set (filter (\<lambda>i. pairs i \<noteq> None) [0..<length ts])" by simp
      then have "pairs q = Some (the (pairs q))" by auto
      from rewrite_ternary_ok [OF tt this Suc.prems(1), of parseExpr filename]
      obtain r where r: "rewrite_ternary parseExpr filename source maps ts groups pairs q (the (pairs q)) = Some r"
        and ok: "\<forall>source' maps'. r = Inr (source', maps') \<longrightarrow>
          (\<forall>m \<in> set maps'. map_ok m source') \<and> count_list source' (CHR ''?'') < count_list source (CHR ''?'')" by blast
      show ?thesis
      proof (cases r)
        case (Inl e)
        with r Inr x Cons show ?thesis by simp
      next
        case r': (Inr y)
        obtain source' maps' where y: "y = (source', maps')" by (cases y)
        with ok r' Suc.prems(2) have "\<forall>m \<in> set maps'. map_ok m source'" "count_list source' (CHR ''?'') < fuel" by auto
        from Suc.IH [OF this] r Inr x Cons r' y show ?thesis by simp
      qed
    qed
  qed
qed simp

text \<open>
  C7: The rewriting of conditional expressions ends: with one round for each question mark of the
  source it returns, and no slice is out of range, when the scanner delivers tokens in the order of the
  source. When it succeeds no question mark with its colon is left, and every source map is still a
  correct map from the bytes of the rewritten source to the original.
\<close>

theorem normalizeTernaries_total:
  assumes "scanner_ok scan" "\<forall>m \<in> set maps. map_ok m source"
  shows "\<exists>r. normalizeTernaries scan parseExpr filename source maps = Some r \<and>
    (\<forall>source' maps'. r = Inr (source', maps') \<longrightarrow>
       (\<forall>m \<in> set maps'. map_ok m source') \<and> ternary_free scan filename source')"
proof (cases "CHR ''?'' \<in> set source")
  case True
  with ternary_rounds_ok [OF assms, of "Suc (count_list source (CHR ''?''))" parseExpr filename] show ?thesis
    by (simp add: normalizeTernaries_def)
next
  case False
  with assms(2) show ?thesis by (simp add: normalizeTernaries_def ternary_free_def)
qed

text \<open>A scanner that knows one source, \<open>a?b:c\<close>.\<close>

definition toy_scanner :: scanner where
  "toy_scanner source =
     (if source = ''a?b:c'' then
        ([(IDENT, ''a'', 0), (ILLEGAL, ''?'', 1), (IDENT, ''b'', 2), (COLON, [], 3), (IDENT, ''c'', 4)],
         [(1, ''illegal character'')])
      else ([], []))"

lemma normalizeTernaries_total_witness:
  "normalizeTernaries toy_scanner (\<lambda>_. None) ''f'' ''a?b:c'' [emptyMap]
     \<noteq> None \<and>
   map_option (map_sum id fst) (normalizeTernaries toy_scanner (\<lambda>_. None) ''f'' ''a?b:c'' [])
     = Some (Inr ''(func() ghi_ternary_result { if a { return b }; return c })()'')"
proof
  have ok: "scanner_ok toy_scanner"
    by (auto simp: scanner_ok_def toy_scanner_def token_end_def token_string_def operator_strings_def)
  have m: "\<forall>m \<in> set [emptyMap]. map_ok m ''a?b:c''" by (simp add: map_ok_def emptyMap_def)
  from normalizeTernaries_total [OF ok m, of "\<lambda>_. None" "''f''"]
  show "normalizeTernaries toy_scanner (\<lambda>_. None) ''f'' ''a?b:c'' [emptyMap] \<noteq> None" by auto
  show "map_option (map_sum id fst) (normalizeTernaries toy_scanner (\<lambda>_. None) ''f'' ''a?b:c'' [])
     = Some (Inr ''(func() ghi_ternary_result { if a { return b }; return c })()'')"
    by code_simp
qed

end
