(* ===== verification/FormatStructure.thy ===== *)
theory FormatStructure
  imports Ternary
begin

text \<open>
  The printer of the formatter (\<open>formatStructure\<close> of \<open>internal/compiler/format_structure.go\<close>): a walk
  over the tokens with a stack of the open brackets, which decides on spaces, line breaks,
  indentation and commas. A lookup of a missing partner gives the token 0, as the code's map does.
\<close>

section \<open>State\<close>

record frame =
  index :: nat
  fclause :: nat
  literal :: bool
  cases :: bool
  activeCase :: bool
  indented :: bool
  parameters :: bool
  statement :: bool
  matchResult :: bool
  armEnd :: bool
  header :: string

definition newFrame :: "nat \<Rightarrow> frame" where
  "newFrame i = \<lparr>index = i, fclause = 0, literal = False, cases = False, activeCase = False, indented = False,
     parameters = False, statement = False, matchResult = False, armEnd = False, header = []\<rparr>"

record printer =
  stack :: "frame list"
  out :: string
  depth :: int
  lineStart :: bool
  pending :: nat
  prev :: "formatToken option"
  clause :: nat
  commas :: "nat list"
  literalBraces :: "nat list"

definition start_printer :: printer where
  "start_printer = \<lparr>stack = [], out = [], depth = 0, lineStart = True, pending = 0, prev = None, clause = 0,
     commas = [], literalBraces = []\<rparr>"

definition top_frame :: "printer \<Rightarrow> frame option" where
  "top_frame s = (case stack s of [] \<Rightarrow> None | f # _ \<Rightarrow> Some f)"

definition upd_top :: "(frame \<Rightarrow> frame) \<Rightarrow> printer \<Rightarrow> printer" where
  "upd_top g s = (case stack s of [] \<Rightarrow> s | f # fs \<Rightarrow> s\<lparr>stack := g f # fs\<rparr>)"

definition newlines :: "nat \<Rightarrow> printer \<Rightarrow> printer" where
  "newlines n s = (if n > pending s then s\<lparr>pending := n\<rparr> else s)"

text \<open>\<open>emit\<close>; \<open>strings.Repeat\<close> panics for a negative depth.\<close>

definition tab :: char where "tab = CHR 0x09"

definition emit :: "string \<Rightarrow> bool \<Rightarrow> printer \<Rightarrow> printer option" where
  "emit txt space s =
     (let breaks = pending s > 0 \<and> out s \<noteq> [];
          s1 = (if breaks then s\<lparr>out := out s @ replicate (pending s) newline, lineStart := True\<rparr> else s);
          s2 = s1\<lparr>pending := 0\<rparr>
      in if lineStart s2 then
           (if depth s2 < 0 then None
            else Some (s2\<lparr>out := out s2 @ replicate (nat (depth s2)) tab @ txt, lineStart := False\<rparr>))
         else Some (s2\<lparr>out := out s2 @ (if space then '' '' else []) @ txt\<rparr>))"

section \<open>Classifying clauses\<close>

definition partner :: "(nat \<rightharpoonup> nat) \<Rightarrow> nat \<Rightarrow> nat" where
  "partner pairs j = (case pairs j of None \<Rightarrow> 0 | Some k \<Rightarrow> k)"

definition header_words :: "string list" where
  "header_words = [''for'', ''if'', ''switch'', ''select'', ''func'', ''constructor'', ''enum'', ''class'',
     ''interface'', ''struct'', ''try'', ''catch'', ''finally'', ''else'']"

definition opens_collection :: "formatToken list \<Rightarrow> nat \<Rightarrow> nat \<Rightarrow> bool" where
  "opens_collection ts first j \<longleftrightarrow>
     kind (ts ! j) = LBRACK \<and> (j = first \<or> kind (ts ! (j - 1)) \<notin> {IDENT, RPAREN, RBRACK})"

text \<open>
  The loop of \<open>header\<close>; each step uses one unit of fuel, and without fuel the result is
  \<^const>\<open>None\<close>. The flag says that the loop ended, not that the function returned from inside it.
\<close>

primrec header_loop ::
  "nat \<Rightarrow> formatToken list \<Rightarrow> (nat \<rightharpoonup> nat) \<Rightarrow> nat \<Rightarrow> nat \<Rightarrow> nat \<Rightarrow> nat \<Rightarrow> string \<Rightarrow> bool \<Rightarrow> (string \<times> bool \<times> bool) option"
where
  "header_loop 0 ts pairs cl first e j result collection = None"
| "header_loop (Suc fuel) ts pairs cl first e j result collection =
     (if j \<ge> e then Some (result, collection, True)
      else
        let t = ts ! j;
            coll = (collection \<or> opens_collection ts first j)
        in if kind t = FUNC \<and> j > cl \<and> kind (ts ! (j - 1)) = RBRACK
           then header_loop fuel ts pairs cl first e (Suc j) result coll
           else if kind t = STRUCT \<or> kind t = INTERFACE then
             (if j + 1 < e \<and> kind (ts ! (j + 1)) = LBRACE \<and> partner pairs (j + 1) < e
              then header_loop fuel ts pairs cl first e (Suc (partner pairs (j + 1))) result coll
              else Some (ftext t, coll, False))
           else if is_open t \<and> pairs j \<noteq> None \<and> the (pairs j) < e then
             header_loop fuel ts pairs cl first e (Suc (the (pairs j))) result (coll \<and> kind t \<noteq> LBRACE)
           else
             header_loop fuel ts pairs cl first e (Suc j)
               (if ftext t \<in> set header_words then (if result = [] then ftext t else result)
                else if ftext t = ''match'' then ''match'' else result) coll)"

definition header_of :: "formatToken list \<Rightarrow> (nat \<rightharpoonup> nat) \<Rightarrow> printer \<Rightarrow> nat \<Rightarrow> string option" where
  "header_of ts pairs s e =
     (let first = (case top_frame s of
                     None \<Rightarrow> clause s
                   | Some f \<Rightarrow> if kind (ts ! index f) = LPAREN then max (clause s) (index f + 1) else clause s)
      in case header_loop (Suc (length ts)) ts pairs (clause s) first e first [] False of
           None \<Rightarrow> None
         | Some (result, collection, ended) \<Rightarrow>
             Some (if ended \<and> collection \<and> result \<in> {''for'', ''if'', ''switch''} \<and> e > 0 \<and> kind (ts ! (e - 1)) = IDENT
                   then [] else result))"

text \<open>The token before \<open>i\<close> that is no comment.\<close>

fun lastCode :: "formatToken list \<Rightarrow> nat \<Rightarrow> nat option" where
  "lastCode ts 0 = None"
| "lastCode ts (Suc i) = (if is_comment (ts ! i) then lastCode ts i else Some i)"

section \<open>One token\<close>

definition kind_at :: "formatToken list \<Rightarrow> nat option \<Rightarrow> token" where
  "kind_at ts p = (case p of None \<Rightarrow> -1 | Some i \<Rightarrow> kind (ts ! i))"

definition top_is :: "(frame \<Rightarrow> bool) \<Rightarrow> frame option \<Rightarrow> bool" where
  "top_is P tp = (case tp of None \<Rightarrow> False | Some f \<Rightarrow> P f)"

text \<open>Line breaks of the source before the token, and the break behind the arm of a match.\<close>

definition gap_newline :: "formatToken \<Rightarrow> printer \<Rightarrow> printer" where
  "gap_newline t s =
     (case prev s of
        None \<Rightarrow> s
      | Some pt \<Rightarrow>
          if breakBefore t \<or> is_comment pt \<and> has_prefix (ftext pt) ''//''
          then newlines (if blankBefore t \<and> kind pt \<noteq> LBRACE \<and> kind pt \<noteq> LPAREN \<and> kind t \<noteq> RBRACE \<and> kind t \<noteq> RPAREN
                         then 2 else 1) s
          else s)"

text \<open>A pending structural line break belongs behind a trailing comment.\<close>

definition gap_comment :: "formatToken \<Rightarrow> printer \<Rightarrow> printer" where
  "gap_comment t s =
     (if is_comment t \<and> \<not> breakBefore t \<and> prev s \<noteq> None \<and> kind (the (prev s)) \<noteq> LBRACE
      then s\<lparr>pending := 0\<rparr> else s)"

definition gap_arm :: "formatToken \<Rightarrow> printer \<Rightarrow> printer" where
  "gap_arm t s =
     (if top_is (\<lambda>f. header f = ''match'' \<and> armEnd f) (top_frame s) \<and> \<not> is_comment t
      then upd_top (\<lambda>f. f\<lparr>armEnd := False\<rparr>) (newlines 1 s) else s)"

definition gap_step :: "formatToken \<Rightarrow> printer \<Rightarrow> printer" where
  "gap_step t s = gap_arm t (gap_comment t (gap_newline t s))"

text \<open>An explicit semicolon stays only in the header of a control statement.\<close>

definition semicolon_step ::
  "formatToken list \<Rightarrow> (nat \<rightharpoonup> nat) \<Rightarrow> nat \<Rightarrow> nat option \<Rightarrow> printer \<Rightarrow> printer option"
where
  "semicolon_step ts pairs i p s =
     (case header_of ts pairs s i of
        None \<Rightarrow> None
      | Some h \<Rightarrow>
          if h \<in> {''for'', ''if'', ''switch''} \<and> \<not> (kind_at ts p = RBRACE \<and> the p \<notin> set (literalBraces s))
          then map_option (\<lambda>s'. s'\<lparr>prev := Some (ts ! i)\<rparr>) (emit '';'' False s)
          else Some ((newlines 1 s)\<lparr>clause := i + 1\<rparr>))"

definition clause_step :: "formatToken list \<Rightarrow> nat \<Rightarrow> nat option \<Rightarrow> printer \<Rightarrow> printer" where
  "clause_step ts i p s =
     (let tp = top_frame s;
          s1 = (if breakBefore (ts ! i) \<and> p \<noteq> None \<and> formatEndsStatement (ts ! the p) \<and>
                  (tp = None \<or> top_is (\<lambda>f. kind (ts ! index f) = LBRACE \<and> \<not> literal f) tp)
                then s\<lparr>clause := i\<rparr> else s)
      in if (kind (ts ! i) = CASE \<or> kind (ts ! i) = DEFAULT) \<and> top_is cases tp
         then (newlines 1 (upd_top (\<lambda>f. f\<lparr>activeCase := False\<rparr>)
                 (if top_is activeCase tp then s1\<lparr>depth := depth s1 - 1\<rparr> else s1)))\<lparr>clause := i\<rparr>
         else s1)"

definition close_step :: "formatToken list \<Rightarrow> nat \<Rightarrow> printer \<Rightarrow> printer" where
  "close_step ts i s =
     (if is_close (ts ! i) then
        (case stack s of
           [] \<Rightarrow> s
         | f # fs \<Rightarrow>
             let s1 = (if indented f then newlines 1 (s\<lparr>depth := depth s - 1\<rparr>) else s);
                 s2 = (if kind (ts ! i) = RBRACE then
                         (let d = s1\<lparr>clause := fclause f,
                                     depth := depth s1 - (if activeCase f then 1 else 0) - 1\<rparr>
                          in if i = index f + 1 then d else newlines 1 d)
                       else s1)
             in s2\<lparr>stack := fs\<rparr>)
      else s)"

definition return_step :: "formatToken list \<Rightarrow> nat \<Rightarrow> frame option \<Rightarrow> printer \<Rightarrow> printer" where
  "return_step ts i tp s =
     (if kind (ts ! i) = RETURN \<and> top_is (\<lambda>f. \<not> literal f \<and> kind (ts ! index f) = LBRACE) tp
      then newlines (if top_is statement tp then 2 else 1) s else s)"

text \<open>A prefix operator: nothing before it ends a statement.\<close>

definition is_prefix_at :: "formatToken list \<Rightarrow> nat \<Rightarrow> nat \<Rightarrow> bool" where
  "is_prefix_at ts cl p \<longleftrightarrow> p = cl \<or> p = 0 \<or> \<not> formatEndsStatement (ts ! (p - 1))"

definition space_step ::
  "formatToken list \<Rightarrow> (nat \<rightharpoonup> nat) \<Rightarrow> nat \<Rightarrow> nat option \<Rightarrow> frame option \<Rightarrow> printer \<Rightarrow> bool option"
where
  "space_step ts pairs i p tp s =
     (let t = ts ! i;
          space = (case prev s of None \<Rightarrow> False | Some pt \<Rightarrow> formatSpace pt t)
      in case p of
           None \<Rightarrow> Some space
         | Some q \<Rightarrow>
             let k = kind (ts ! q); e = partner pairs i;
                 sp = (if kind t = LBRACK \<and> k = IDENT \<and>
                         (e = i + 1 \<or> e + 1 < length ts \<and> kind (ts ! (e + 1)) = IDENT) then True else space);
                 member = top_is (\<lambda>f. parameters f \<or> header f = ''struct'' \<or> header f = ''interface'') tp;
                 needs = (kind t = LBRACE \<or> k = MUL \<and> \<not> member)
             in case (if needs then header_of ts pairs s i else Some ''-'') of
                  None \<Rightarrow> None
                | Some h \<Rightarrow>
                    Some (sp \<and>
                      \<not> (kind t = LBRACE \<and> e = i + 1 \<and> (k = STRUCT \<or> k = INTERFACE)) \<and>
                      \<not> (k = RBRACK \<and> (kind t \<in> {IDENT, LBRACK, FUNC} \<or> kind t = LBRACE \<and> h = [])) \<and>
                      \<not> (kind t = LBRACE \<and> h = [] \<and> k \<noteq> GTR \<and> k \<noteq> RPAREN) \<and>
                      \<not> (k = AND \<and> is_prefix_at ts (clause s) q) \<and>
                      \<not> (k = MUL \<and> is_prefix_at ts (clause s) q) \<and>
                      \<not> (k = MUL \<and> (member \<or> h = ''func'')) \<and>
                      \<not> (k = ARROW \<and> is_prefix_at ts (clause s) q) \<and>
                      k \<noteq> NOTOP))"

text \<open>A frame that a closing bracket has popped is not used any more.\<close>

definition statement_step :: "formatToken list \<Rightarrow> nat \<Rightarrow> frame option \<Rightarrow> printer \<Rightarrow> printer" where
  "statement_step ts i tp s =
     (if top_is (\<lambda>f. kind (ts ! index f) = LBRACE) tp \<and> kind (ts ! i) \<notin> {COMMENT, RBRACE, CASE, DEFAULT} \<and>
         \<not> is_close (ts ! i)
      then upd_top (\<lambda>f. f\<lparr>statement := True\<rparr>) s else s)"

text \<open>What an opening brace starts: a literal gets a comma behind its last element.\<close>

definition starts_literal :: "nat option \<Rightarrow> token \<Rightarrow> string \<Rightarrow> frame option \<Rightarrow> bool" where
  "starts_literal p k h tp \<longleftrightarrow>
     h = [] \<and> k \<in> {IDENT, RBRACK, RBRACE, COMMA, COLON, LBRACE} \<or>
     top_is (\<lambda>f. literal f \<and> (p = Some (index f) \<or> k = COMMA \<or> k = COLON)) tp"

definition mark_literal :: "formatToken list \<Rightarrow> nat \<Rightarrow> nat \<Rightarrow> printer \<Rightarrow> printer" where
  "mark_literal ts i e s =
     (let sl = s\<lparr>literalBraces := e # literalBraces s\<rparr>
      in case lastCode ts e of
           None \<Rightarrow> sl
         | Some l \<Rightarrow> if l > i \<and> kind (ts ! l) \<noteq> COMMA then sl\<lparr>commas := l # commas sl\<rparr> else sl)"

definition lbrace_step :: "formatToken list \<Rightarrow> (nat \<rightharpoonup> nat) \<Rightarrow> nat \<Rightarrow> nat option \<Rightarrow> printer \<Rightarrow> printer option" where
  "lbrace_step ts pairs i p s =
     (case header_of ts pairs s i of
        None \<Rightarrow> None
      | Some h \<Rightarrow>
          let e = partner pairs i;
              lit = starts_literal p (kind_at ts p) h (top_frame s);
              s1 = (if lit then mark_literal ts i e s else s);
              s2 = s1\<lparr>stack := (newFrame i)\<lparr>fclause := clause s1, literal := lit,
                        cases := (h = ''switch'' \<or> h = ''select''), header := h\<rparr> # stack s1,
                      depth := depth s1 + 1\<rparr>
          in Some ((newlines (if e \<noteq> i + 1 then 1 else 0) s2)\<lparr>clause := i + 1\<rparr>))"

definition lparen_step :: "formatToken list \<Rightarrow> (nat \<rightharpoonup> nat) \<Rightarrow> nat \<Rightarrow> nat option \<Rightarrow> printer \<Rightarrow> printer" where
  "lparen_step ts pairs i p s =
     (let lp = (kind (ts ! i) = LPAREN \<and> p \<noteq> None);
          indent = (lp \<and> kind_at ts p = IMPORT \<and> partner pairs i \<noteq> i + 1);
          params = (lp \<and> (kind_at ts p = FUNC \<or> ftext (ts ! the p) = ''constructor'' \<or>
                      the p > 0 \<and> kind (ts ! (the p - 1)) = FUNC));
          s1 = s\<lparr>stack := (newFrame i)\<lparr>indented := indent, parameters := params\<rparr> # stack s\<rparr>
      in if indent then newlines 1 (s1\<lparr>depth := depth s1 + 1\<rparr>) else s1)"

definition comma_step :: "nat \<Rightarrow> printer \<Rightarrow> printer" where
  "comma_step i s =
     (let s1 = (if top_is (\<lambda>f. header f = ''enum'') (top_frame s) then (newlines 1 s)\<lparr>clause := i + 1\<rparr> else s);
          s2 = (if top_is (\<lambda>f. header f = ''match'' \<and> matchResult f) (top_frame s1)
                then (upd_top (\<lambda>f. f\<lparr>matchResult := False, armEnd := True\<rparr>) (newlines 1 s1))\<lparr>clause := i + 1\<rparr>
                else s1)
      in if top_is literal (top_frame s2) then (newlines 1 s2)\<lparr>clause := i + 1\<rparr> else s2)"

definition gtr_step :: "formatToken list \<Rightarrow> nat \<Rightarrow> printer \<Rightarrow> printer" where
  "gtr_step ts i s =
     (if top_is (\<lambda>f. header f = ''match'') (top_frame s) \<and>
         (case prev s of None \<Rightarrow> False | Some pt \<Rightarrow> kind pt = ASSIGN \<and> stop pt = start (ts ! i))
      then (upd_top (\<lambda>f. f\<lparr>matchResult := True\<rparr>) s)\<lparr>clause := i + 1\<rparr> else s)"

definition colon_step :: "formatToken list \<Rightarrow> nat \<Rightarrow> printer \<Rightarrow> printer" where
  "colon_step ts i s =
     (if \<not> ternary (ts ! i) \<and> top_is (\<lambda>f. cases f \<and> \<not> activeCase f) (top_frame s)
      then upd_top (\<lambda>f. f\<lparr>activeCase := True, statement := False\<rparr>)
             ((newlines 1 (s\<lparr>depth := depth s + 1\<rparr>))\<lparr>clause := i + 1\<rparr>)
      else s)"

definition rbrace_step :: "formatToken list \<Rightarrow> nat \<Rightarrow> printer \<Rightarrow> printer" where
  "rbrace_step ts i s =
     (case dropWhile is_comment (drop (i + 1) ts) of
        [] \<Rightarrow> s
      | n # _ \<Rightarrow>
          if kind n \<notin> {COMMA, RPAREN, RBRACK, PERIOD, LPAREN, LBRACE} \<and>
             ftext n \<notin> {''else'', ''catch'', ''finally''} \<and> \<not> isOperator (kind n)
          then (newlines 1 s)\<lparr>clause := i + 1\<rparr> else s)"

definition after_step :: "formatToken list \<Rightarrow> (nat \<rightharpoonup> nat) \<Rightarrow> nat \<Rightarrow> nat option \<Rightarrow> printer \<Rightarrow> printer option" where
  "after_step ts pairs i p s =
     (let k = kind (ts ! i) in
      if k = LBRACE then lbrace_step ts pairs i p s
      else if k = LPAREN \<or> k = LBRACK then Some (lparen_step ts pairs i p s)
      else if k = COMMA then Some (comma_step i s)
      else if k = GTR then Some (gtr_step ts i s)
      else if k = COLON then Some (colon_step ts i s)
      else if k = RBRACE then Some (rbrace_step ts i s)
      else Some s)"

text \<open>
  The iteration for the token \<open>i\<close>. The frame on top when it begins decides also after a closing
  bracket has popped it.
\<close>

definition print_token :: "formatToken list \<Rightarrow> (nat \<rightharpoonup> nat) \<Rightarrow> nat \<Rightarrow> printer \<Rightarrow> printer option" where
  "print_token ts pairs i s =
     (let t = ts ! i; p = lastCode ts i; s1 = gap_step t s
      in if kind t = SEMICOLON then semicolon_step ts pairs i p s1
         else
           let s2 = clause_step ts i p s1;
               tp = top_frame s2;
               s3 = return_step ts i tp (close_step ts i s2)
           in Option.bind (space_step ts pairs i p tp s3) (\<lambda>space.
              Option.bind (emit (ftext t) space s3) (\<lambda>s4.
              Option.bind (if i \<in> set (commas s4) then emit '','' False s4 else Some s4) (\<lambda>s5.
              map_option (\<lambda>s6. s6\<lparr>prev := Some t\<rparr>) (after_step ts pairs i p (statement_step ts i tp s5))))))"

fun print_tokens :: "formatToken list \<Rightarrow> (nat \<rightharpoonup> nat) \<Rightarrow> nat list \<Rightarrow> printer \<Rightarrow> printer option" where
  "print_tokens ts pairs [] s = Some s"
| "print_tokens ts pairs (i # is) s = Option.bind (print_token ts pairs i s) (print_tokens ts pairs is)"

section \<open>The whole printer\<close>

text \<open>
  The tokens with their line breaks: an automatic semicolon goes, every other token knows how many
  line ends separate it from the one before. A slice out of range panics.
\<close>

fun mark_breaks :: "string \<Rightarrow> int set \<Rightarrow> formatToken option \<Rightarrow> formatToken list \<Rightarrow> formatToken list option" where
  "mark_breaks source operators before [] = Some []"
| "mark_breaks source operators before (t # ts) =
     (let t1 = t\<lparr>ternary := start t \<in> operators\<rparr> in
      if implicit t then mark_breaks source operators before ts
      else case before of
        None \<Rightarrow> map_option ((#) t1) (mark_breaks source operators (Some t1) ts)
      | Some b \<Rightarrow>
          (case slice source (stop b) (start t) of
             None \<Rightarrow> None
           | Some gap \<Rightarrow>
               let breaks = count_lines gap;
                   t2 = t1\<lparr>breakBefore := breaks > 0, blankBefore := breaks > 1\<rparr>
               in map_option ((#) t2) (mark_breaks source operators (Some t2) ts)))"

definition ternary_operators :: "scanner \<Rightarrow> string \<Rightarrow> int set" where
  "ternary_operators scan source =
     (case ternaryTokens scan ''format.ghi'' source of
        Inl e \<Rightarrow> {}
      | Inr (grammar, groups, pairs) \<Rightarrow>
          set (concat (map (\<lambda>q. case pairs q of
                              None \<Rightarrow> [] | Some colon \<Rightarrow> [start (grammar ! q), start (grammar ! colon)])
                           [0..<length grammar])))"

definition layout_tokens :: "scanner \<Rightarrow> string \<Rightarrow> formatToken list \<Rightarrow> formatToken list option" where
  "layout_tokens scan source all =
     map_option (\<lambda>ts. formatImports (formatFlattenImports ts))
       (mark_breaks source (ternary_operators scan source) None all)"

definition trim_newlines :: "string \<Rightarrow> string" where
  "trim_newlines s = rev (dropWhile (\<lambda>c. c = newline) (rev s))"

definition formatStructure :: "scanner \<Rightarrow> string \<Rightarrow> formatToken list \<Rightarrow> string option" where
  "formatStructure scan source all =
     (case layout_tokens scan source all of
        None \<Rightarrow> None
      | Some ts \<Rightarrow>
          map_option (\<lambda>s. trim_newlines (out s) @ [newline])
            (print_tokens ts (bracket_pairs ts) [0..<length ts] start_printer))"

section \<open>What is printed\<close>

text \<open>
  The pieces of an output: white space and the text it precedes.
\<close>

definition white :: "string \<Rightarrow> bool" where
  "white s \<longleftrightarrow> set s \<subseteq> {newline, tab, CHR '' ''}"

definition pieces :: "(string \<times> string) list \<Rightarrow> string" where
  "pieces ps = concat (map (\<lambda>(w, txt). w @ txt) ps)"

definition printed :: "printer \<Rightarrow> string list \<Rightarrow> printer \<Rightarrow> bool" where
  "printed s texts s' \<longleftrightarrow>
     (\<exists>ps. out s' = out s @ pieces ps \<and> map snd ps = texts \<and> (\<forall>(w, txt) \<in> set ps. white w))"

lemma printed_nothing: "out s' = out s \<Longrightarrow> printed s [] s'"
  unfolding printed_def by (intro exI [of _ "[]"]) (simp add: pieces_def)

lemma printed_trans: "printed s a s1 \<Longrightarrow> printed s1 b s2 \<Longrightarrow> printed s (a @ b) s2"
  unfolding printed_def by (elim exE) (rule_tac x = "ps @ psa" in exI, auto simp: pieces_def)

lemma printed_out: "printed s a s1 \<Longrightarrow> out s2 = out s1 \<Longrightarrow> printed s a s2"
  by (simp add: printed_def)

lemma printed_out_left: "printed s1 a s2 \<Longrightarrow> out s1 = out s \<Longrightarrow> printed s a s2"
  by (simp add: printed_def)

lemma white_simps [simp]: "white []" "white '' ''" "white (a @ b) \<longleftrightarrow> white a \<and> white b"
    "white (replicate n newline)" "white (replicate n tab)"
  by (auto simp: white_def)

lemma emit_out:
  assumes "emit txt space s = Some s'"
  shows "\<exists>w. out s' = out s @ w @ txt \<and> white w"
proof -
  let ?b = "if pending s > 0 \<and> out s \<noteq> [] then replicate (pending s) newline else []"
  let ?l = "pending s > 0 \<and> out s \<noteq> [] \<or> lineStart s"
  have "out s' = out s @ (?b @ (if ?l then replicate (nat (depth s)) tab else if space then '' '' else [])) @ txt"
    using assms by (auto simp: emit_def Let_def split: if_splits)
  moreover have "white (?b @ (if ?l then replicate (nat (depth s)) tab else if space then '' '' else []))"
    by simp
  ultimately show ?thesis by blast
qed

lemma emit_printed: "emit t space s = Some s' \<Longrightarrow> printed s [t] s'"
proof -
  assume "emit t space s = Some s'"
  then obtain w where "out s' = out s @ w @ t" "white w" using emit_out by blast
  then show ?thesis unfolding printed_def by (intro exI [of _ "[(w, t)]"]) (simp add: pieces_def)
qed

text \<open>Only \<open>emit\<close> writes.\<close>

lemma out_newlines [simp]: "out (newlines n s) = out s"
  by (simp add: newlines_def)

lemma out_upd_top [simp]: "out (upd_top g s) = out s"
  by (simp add: upd_top_def split: list.split)

lemma out_gap_step [simp]: "out (gap_step t s) = out s"
  by (simp add: gap_step_def gap_arm_def gap_comment_def gap_newline_def split: option.split)

lemma out_clause_step [simp]: "out (clause_step ts i p s) = out s"
  by (simp add: clause_step_def Let_def)

lemma out_close_step [simp]: "out (close_step ts i s) = out s"
  by (simp add: close_step_def Let_def split: list.split)

lemma out_return_step [simp]: "out (return_step ts i tp s) = out s"
  by (simp add: return_step_def)

lemma out_statement_step [simp]: "out (statement_step ts i tp s) = out s"
  by (simp add: statement_step_def)

lemma out_mark_literal [simp]: "out (mark_literal ts i e s) = out s"
  by (simp add: mark_literal_def Let_def split: option.split)

lemma out_lbrace_step: "lbrace_step ts pairs i p s = Some s' \<Longrightarrow> out s' = out s"
  by (auto simp: lbrace_step_def Let_def split: option.splits)

lemma out_lparen_step [simp]: "out (lparen_step ts pairs i p s) = out s"
  by (simp add: lparen_step_def Let_def)

lemma out_comma_step [simp]: "out (comma_step i s) = out s"
  by (simp add: comma_step_def Let_def)

lemma out_gtr_step [simp]: "out (gtr_step ts i s) = out s"
  by (simp add: gtr_step_def)

lemma out_colon_step [simp]: "out (colon_step ts i s) = out s"
  by (simp add: colon_step_def)

lemma out_rbrace_step [simp]: "out (rbrace_step ts i s) = out s"
  by (simp add: rbrace_step_def split: list.split)

lemma out_after_step: "after_step ts pairs i p s = Some s' \<Longrightarrow> out s' = out s"
  unfolding after_step_def Let_def by (auto split: if_splits dest: out_lbrace_step)

text \<open>The texts printed for a token.\<close>

definition token_texts :: "formatToken \<Rightarrow> string list \<Rightarrow> bool" where
  "token_texts t texts \<longleftrightarrow>
     (if kind t = SEMICOLON then texts = [] \<or> texts = ['';''] else texts = [ftext t] \<or> texts = [ftext t, '',''])"

lemma semicolon_printed:
  assumes "semicolon_step ts pairs i p s = Some s'" "kind t = SEMICOLON"
  shows "\<exists>texts. printed s texts s' \<and> token_texts t texts"
proof -
  obtain h where h: "header_of ts pairs s i = Some h" using assms(1) by (auto simp: semicolon_step_def split: option.splits)
  show ?thesis
  proof (cases "h \<in> {''for'', ''if'', ''switch''} \<and> \<not> (kind_at ts p = RBRACE \<and> the p \<notin> set (literalBraces s))")
    case True
    with assms(1) h obtain s1 where "emit '';'' False s = Some s1" "s' = s1\<lparr>prev := Some (ts ! i)\<rparr>"
      by (auto simp: semicolon_step_def)
    then have "printed s ['';''] s'" by (auto intro: printed_out [OF emit_printed])
    with assms(2) show ?thesis unfolding token_texts_def by auto
  next
    case False
    with assms(1) h have "s' = (newlines 1 s)\<lparr>clause := i + 1\<rparr>"
      unfolding semicolon_step_def h option.case if_not_P [OF False] by simp
    then have "printed s [] s'" by (intro printed_nothing) simp
    with assms(2) show ?thesis unfolding token_texts_def by auto
  qed
qed

lemma print_token_printed:
  assumes "print_token ts pairs i s = Some s'"
  shows "\<exists>texts. printed s texts s' \<and> token_texts (ts ! i) texts"
proof (cases "kind (ts ! i) = SEMICOLON")
  case True
  with assms have "semicolon_step ts pairs i (lastCode ts i) (gap_step (ts ! i) s) = Some s'"
    by (simp add: print_token_def Let_def)
  from semicolon_printed [OF this True] obtain texts where
    "printed (gap_step (ts ! i) s) texts s'" "token_texts (ts ! i) texts" by blast
  then show ?thesis using printed_out_left [of "gap_step (ts ! i) s" texts s' s] by auto
next
  case False
  let ?p = "lastCode ts i"
  let ?s2 = "clause_step ts i ?p (gap_step (ts ! i) s)"
  let ?s3 = "return_step ts i (top_frame ?s2) (close_step ts i ?s2)"
  from assms False obtain space s4 s5 s6 where
    e4: "emit (ftext (ts ! i)) space ?s3 = Some s4" and
    e5: "(if i \<in> set (commas s4) then emit '','' False s4 else Some s4) = Some s5" and
    e6: "after_step ts pairs i ?p (statement_step ts i (top_frame ?s2) s5) = Some s6" and
    s': "s' = s6\<lparr>prev := Some (ts ! i)\<rparr>"
    unfolding print_token_def Let_def by (auto simp: bind_eq_Some_conv)
  have p4: "printed s [ftext (ts ! i)] s4" by (rule printed_out_left [OF emit_printed [OF e4]]) simp
  have out6: "out s' = out s5" using out_after_step [OF e6] s' by simp
  show ?thesis
  proof (cases "i \<in> set (commas s4)")
    case True
    with e5 have "printed s4 ['',''] s5" by (auto intro: emit_printed)
    from printed_out [OF printed_trans [OF p4 this] out6] False show ?thesis unfolding token_texts_def by auto
  next
    case f: False
    with e5 p4 have "printed s [ftext (ts ! i)] s5" by simp
    from printed_out [OF this out6] False show ?thesis unfolding token_texts_def by auto
  qed
qed

lemma print_tokens_printed:
  "print_tokens ts pairs is s = Some s' \<Longrightarrow>
     \<exists>tss. printed s (concat tss) s' \<and> list_all2 token_texts (map ((!) ts) is) tss"
proof (induction "is" arbitrary: s)
  case Nil
  then show ?case by (auto intro!: exI [of _ "[]"] printed_nothing)
next
  case (Cons i js)
  then obtain s1 where s1: "print_token ts pairs i s = Some s1" "print_tokens ts pairs js s1 = Some s'"
    by (auto simp: bind_eq_Some_conv)
  from print_token_printed [OF s1(1)] Cons.IH [OF s1(2)] obtain texts tss where
    "printed s texts s1" "token_texts (ts ! i) texts" "printed s1 (concat tss) s'"
    "list_all2 token_texts (map ((!) ts) js) tss" by blast
  then show ?case by (intro exI [of _ "texts # tss"]) (auto intro: printed_trans)
qed

lemma mark_breaks_content:
  "mark_breaks source ops before ts = Some ts' \<Longrightarrow> content ts' = content (filter (\<lambda>t. \<not> implicit t) ts)"
proof (induction ts arbitrary: before ts')
  case (Cons t ts)
  have same: "content (t\<lparr>ternary := a, breakBefore := b, blankBefore := c\<rparr> # xs) = content [t] @ content xs"
    "content (t\<lparr>ternary := a\<rparr> # xs) = content [t] @ content xs" for a b c xs
    by (simp_all add: content_def import_syntax_def)
  have "content (t # filter (\<lambda>t. \<not> implicit t) ts) = content [t] @ content (filter (\<lambda>t. \<not> implicit t) ts)"
    by (rule content_Cons)
  with Cons same show ?case
    by (auto simp: Let_def split: if_splits option.splits)
qed simp


section \<open>The printer ends\<close>

text \<open>Properly nested brackets; \<open>opens\<close> are the kinds of the open ones.\<close>

definition closes :: "token \<Rightarrow> token \<Rightarrow> bool" where
  "closes o' c \<longleftrightarrow> (o', c) \<in> {(LPAREN, RPAREN), (LBRACK, RBRACK), (LBRACE, RBRACE)}"

fun nested :: "token list \<Rightarrow> formatToken list \<Rightarrow> bool" where
  "nested opens [] \<longleftrightarrow> opens = []"
| "nested opens (t # ts) \<longleftrightarrow>
     (if is_open t then nested (kind t # opens) ts
      else if is_close t then
        (case opens of [] \<Rightarrow> False | k # ks \<Rightarrow> closes k (kind t) \<and> nested ks ts)
      else nested opens ts)"

definition pairs_ok :: "formatToken list \<Rightarrow> (nat \<rightharpoonup> nat) \<Rightarrow> bool" where
  "pairs_ok ts pairs \<longleftrightarrow> (\<forall>j < length ts. is_open (ts ! j) \<longrightarrow> (\<exists>k > j. pairs j = Some k))"

lemma nested_pairs:
  assumes "nested kinds ts" "length kinds = length opens" "distinct opens" "\<forall>j \<in> set opens. j < i"
  shows "(\<forall>j \<in> set opens. \<exists>k \<ge> i. bracket_pairs_from i opens ts m j = Some k)
    \<and> (\<forall>n < length ts. is_open (ts ! n) \<longrightarrow> (\<exists>k > i + n. bracket_pairs_from i opens ts m (i + n) = Some k))
    \<and> (\<forall>j < i. j \<notin> set opens \<longrightarrow> bracket_pairs_from i opens ts m j = m j)"
  using assms
proof (induction ts arbitrary: kinds opens i m)
  case (Cons t ts)
  have split: "(\<forall>n < length (t # ts). is_open ((t # ts) ! n) \<longrightarrow> Q n) \<longleftrightarrow>
      (is_open t \<longrightarrow> Q 0) \<and> (\<forall>n < length ts. is_open (ts ! n) \<longrightarrow> Q (Suc n))" for Q
    by (auto simp: less_Suc_eq_0_disj)
  show ?case
  proof (cases "is_open t")
    case True
    let ?r = "bracket_pairs_from (Suc i) (i # opens) ts m"
    from Cons.prems True have "nested (kind t # kinds) ts" by simp
    from Cons.IH [OF this, of "i # opens" "Suc i" m] Cons.prems
    have ih: "\<forall>j \<in> set (i # opens). \<exists>k \<ge> Suc i. ?r j = Some k"
      "\<forall>n < length ts. is_open (ts ! n) \<longrightarrow> (\<exists>k > Suc i + n. ?r (Suc i + n) = Some k)"
      "\<forall>j < Suc i. j \<notin> set (i # opens) \<longrightarrow> ?r j = m j" by fastforce+
    have "bracket_pairs_from i opens (t # ts) m = ?r" using True by simp
    then show ?thesis unfolding split using ih by (fastforce simp: Suc_le_eq)
  next
    case no: False
    show ?thesis
    proof (cases "is_close t")
      case True
      with Cons.prems no obtain k ks where k: "kinds = k # ks" "nested ks ts" by (cases kinds) auto
      with Cons.prems obtain x xs where x: "opens = x # xs" by (cases opens) auto
      let ?m = "m(i \<mapsto> x, x \<mapsto> i)"
      let ?r = "bracket_pairs_from (Suc i) xs ts ?m"
      from Cons.IH [OF k(2), of xs "Suc i" ?m] Cons.prems k x
      have ih: "\<forall>j \<in> set xs. \<exists>k \<ge> Suc i. ?r j = Some k"
        "\<forall>n < length ts. is_open (ts ! n) \<longrightarrow> (\<exists>k > Suc i + n. ?r (Suc i + n) = Some k)"
        "\<forall>j < Suc i. j \<notin> set xs \<longrightarrow> ?r j = ?m j" by fastforce+
      have r: "bracket_pairs_from i opens (t # ts) m = ?r" using no True x by simp
      have "?r x = Some i" using ih(3) Cons.prems x by auto
      moreover have "\<forall>j < i. j \<notin> set opens \<longrightarrow> ?r j = m j" using ih(3) Cons.prems x by auto
      ultimately show ?thesis unfolding split r using ih x no by (fastforce simp: Suc_le_eq)
    next
      case False
      let ?r = "bracket_pairs_from (Suc i) opens ts m"
      from Cons.prems no False have "nested kinds ts" by simp
      from Cons.IH [OF this, of opens "Suc i" m] Cons.prems
      have ih: "\<forall>j \<in> set opens. \<exists>k \<ge> Suc i. ?r j = Some k"
        "\<forall>n < length ts. is_open (ts ! n) \<longrightarrow> (\<exists>k > Suc i + n. ?r (Suc i + n) = Some k)"
        "\<forall>j < Suc i. j \<notin> set opens \<longrightarrow> ?r j = m j" by fastforce+
      have r: "bracket_pairs_from i opens (t # ts) m = ?r" using no False by simp
      show ?thesis unfolding split r using ih no by (fastforce simp: Suc_le_eq)
    qed
  qed
qed simp

lemma nested_pairs_ok: "nested [] ts \<Longrightarrow> pairs_ok ts (bracket_pairs ts)"
  using nested_pairs [of "[]" ts "[]" 0 Map.empty] by (simp add: pairs_ok_def bracket_pairs_def)

text \<open>With the partners in place every step of \<open>header\<close> goes forward.\<close>

lemma header_loop_total:
  "pairs_ok ts pairs \<Longrightarrow> e \<le> length ts \<Longrightarrow> e < j + fuel \<Longrightarrow> 0 < fuel \<Longrightarrow>
     \<exists>r. header_loop fuel ts pairs cl first e j result collection = Some r"
proof (induction fuel arbitrary: j result collection)
  case (Suc fuel)
  have next_ok: "\<exists>r. header_loop fuel ts pairs cl first e (Suc k) res coll = Some r"
    if "j \<le> k" "j < e" for k res coll
    using Suc.IH [OF Suc.prems(1,2)] Suc.prems(3) that by simp
  have opn: "\<exists>k > n. pairs n = Some k" if "n < e" "is_open (ts ! n)" for n
    using that Suc.prems(1,2) unfolding pairs_ok_def by simp
  have brace: "j \<le> partner pairs (j + 1)" if "j + 1 < e" "kind (ts ! (j + 1)) = LBRACE"
    using opn [of "j + 1"] that by (auto simp: partner_def is_open_def)
  have group: "j \<le> the (pairs j)" if "j < e" "is_open (ts ! j)" "pairs j \<noteq> None"
    using opn [of j] that by auto
  show ?case
  proof (cases "e \<le> j")
    case True
    then have "header_loop (Suc fuel) ts pairs cl first e j result collection = Some (result, collection, True)" by simp
    then show ?thesis by blast
  next
    case False
    note unf = header_loop.simps(2) [of fuel ts pairs cl first e j result collection, unfolded if_not_P [OF False] Let_def]
    show ?thesis
      unfolding unf using next_ok brace group False by (auto simp del: header_loop.simps)
  qed
qed auto

lemma header_of_total:
  assumes "pairs_ok ts pairs" "i \<le> length ts"
  shows "\<exists>h. header_of ts pairs s i = Some h"
proof -
  have "\<exists>r. header_loop (Suc (length ts)) ts pairs cl first i first [] False = Some r" for cl first
    using header_loop_total [OF assms, of first "Suc (length ts)"] assms(2) by simp
  then show ?thesis unfolding header_of_def Let_def by (metis (no_types, lifting) option.case(2) prod.exhaust split_conv)
qed

text \<open>
  The state and the tokens before it: a frame for each open bracket, with the kind of the bracket,
  and an indentation that is the sum of what the frames account for.
\<close>

definition weight :: "formatToken list \<Rightarrow> frame \<Rightarrow> int" where
  "weight ts f =
     (if kind (ts ! index f) = LBRACE then (if activeCase f then 2 else 1) else if indented f then 1 else 0)"

definition frame_ok :: "formatToken list \<Rightarrow> frame \<Rightarrow> token \<Rightarrow> bool" where
  "frame_ok ts f k \<longleftrightarrow> kind (ts ! index f) = k \<and>
     (if k = LBRACE then \<not> indented f else \<not> cases f \<and> \<not> activeCase f)"

definition printer_ok :: "formatToken list \<Rightarrow> token list \<Rightarrow> printer \<Rightarrow> bool" where
  "printer_ok ts opens s \<longleftrightarrow>
     list_all2 (frame_ok ts) (stack s) opens \<and> depth s = sum_list (map (weight ts) (stack s))"

lemma printer_ok_depth: "printer_ok ts opens s \<Longrightarrow> 0 \<le> depth s"
  by (auto simp: printer_ok_def weight_def intro!: sum_list_nonneg)

lemma printer_ok_same: "printer_ok ts opens s \<Longrightarrow> stack s' = stack s \<Longrightarrow> depth s' = depth s \<Longrightarrow> printer_ok ts opens s'"
  by (simp add: printer_ok_def)

lemma stack_depth_newlines [simp]: "stack (newlines n s) = stack s" "depth (newlines n s) = depth s"
  by (simp_all add: newlines_def)

lemma printer_ok_newlines [simp]: "printer_ok ts opens (newlines n s) \<longleftrightarrow> printer_ok ts opens s"
  by (simp add: printer_ok_def)

lemma printer_ok_fields [simp]:
  "printer_ok ts opens (s\<lparr>clause := c\<rparr>) \<longleftrightarrow> printer_ok ts opens s"
  "printer_ok ts opens (s\<lparr>pending := n\<rparr>) \<longleftrightarrow> printer_ok ts opens s"
  "printer_ok ts opens (s\<lparr>prev := t\<rparr>) \<longleftrightarrow> printer_ok ts opens s"
  "printer_ok ts opens (s\<lparr>literalBraces := ls\<rparr>) \<longleftrightarrow> printer_ok ts opens s"
  "printer_ok ts opens (s\<lparr>commas := ls\<rparr>) \<longleftrightarrow> printer_ok ts opens s"
  by (simp_all add: printer_ok_def)

text \<open>Flags without weight.\<close>

lemma printer_ok_upd_top:
  assumes "\<And>f. index (g f) = index f \<and> indented (g f) = indented f \<and> cases (g f) = cases f \<and> activeCase (g f) = activeCase f"
  shows "printer_ok ts opens (upd_top g s) \<longleftrightarrow> printer_ok ts opens s"
  using assms
  by (cases "stack s") (auto simp: upd_top_def printer_ok_def weight_def frame_ok_def list_all2_Cons1)

lemma emit_total:
  assumes "printer_ok ts opens s"
  shows "\<exists>s'. emit t space s = Some s' \<and> stack s' = stack s \<and> depth s' = depth s \<and> commas s' = commas s"
  using printer_ok_depth [OF assms] by (auto simp: emit_def Let_def)

lemma gap_step_ok [simp]: "printer_ok ts opens (gap_step t s) \<longleftrightarrow> printer_ok ts opens s"
  by (simp add: gap_step_def gap_arm_def gap_comment_def gap_newline_def printer_ok_upd_top split: option.split)

lemma clause_step_ok: "printer_ok ts opens s \<Longrightarrow> printer_ok ts opens (clause_step ts i p s)"
proof -
  assume ok: "printer_ok ts opens s"
  show ?thesis
  proof (cases "(kind (ts ! i) = CASE \<or> kind (ts ! i) = DEFAULT) \<and> top_is cases (top_frame s)")
    case True
    then obtain f fs where f: "stack s = f # fs" "cases f" by (cases "stack s") (auto simp: top_is_def top_frame_def)
    from ok f have "kind (ts ! index f) = LBRACE" by (auto simp: printer_ok_def frame_ok_def list_all2_Cons1 split: if_splits)
    with ok f True show ?thesis
      by (auto simp: clause_step_def Let_def upd_top_def printer_ok_def weight_def frame_ok_def list_all2_Cons1
            top_is_def top_frame_def)
  next
    case False
    with ok show ?thesis unfolding clause_step_def Let_def if_not_P [OF False] by simp
  qed
qed

lemma close_step_ok:
  assumes "printer_ok ts (k # opens) s" "is_close (ts ! i)" "closes k (kind (ts ! i))"
  shows "printer_ok ts opens (close_step ts i s)"
proof -
  obtain f fs where f: "stack s = f # fs" "frame_ok ts f k" "list_all2 (frame_ok ts) fs opens"
    and d: "depth s = weight ts f + sum_list (map (weight ts) fs)"
    using assms(1) by (auto simp: printer_ok_def list_all2_Cons2)
  have "stack (close_step ts i s) = fs" using f(1) assms(2) by (simp add: close_step_def Let_def)
  moreover have "depth (close_step ts i s) = depth s - weight ts f"
  proof (cases "kind (ts ! i) = RBRACE")
    case True
    with assms(3) f(2) have "kind (ts ! index f) = LBRACE" "\<not> indented f" by (auto simp: closes_def frame_ok_def)
    with f(1) assms(2) True show ?thesis by (simp add: close_step_def Let_def weight_def)
  next
    case False
    with assms(2,3) f(2) have "kind (ts ! index f) \<noteq> LBRACE" by (auto simp: closes_def frame_ok_def is_close_def)
    with f(1) assms(2) False show ?thesis by (simp add: close_step_def Let_def weight_def)
  qed
  ultimately show ?thesis using f(3) d by (simp add: printer_ok_def)
qed

lemma close_step_other: "\<not> is_close (ts ! i) \<Longrightarrow> close_step ts i s = s"
  by (simp add: close_step_def)

lemma return_step_ok [simp]: "printer_ok ts opens (return_step ts i tp s) \<longleftrightarrow> printer_ok ts opens s"
  by (simp add: return_step_def)

lemma statement_step_ok [simp]: "printer_ok ts opens (statement_step ts i tp s) \<longleftrightarrow> printer_ok ts opens s"
  by (simp add: statement_step_def printer_ok_upd_top)

lemma space_step_total:
  "pairs_ok ts pairs \<Longrightarrow> i \<le> length ts \<Longrightarrow> \<exists>b. space_step ts pairs i p tp s = Some b"
  using header_of_total [of ts pairs i s] by (auto simp: space_step_def Let_def split: option.split)

lemma lbrace_step_ok:
  assumes "pairs_ok ts pairs" "i < length ts" "kind (ts ! i) = LBRACE" "printer_ok ts opens s"
  shows "\<exists>s'. lbrace_step ts pairs i p s = Some s' \<and> printer_ok ts (LBRACE # opens) s'"
proof -
  obtain h where h: "header_of ts pairs s i = Some h" using header_of_total [of ts pairs i s] assms by auto
  have push: "printer_ok ts (LBRACE # opens)
      (s1\<lparr>stack := (newFrame i)\<lparr>fclause := c, literal := l, cases := b, header := h\<rparr> # stack s1, depth := depth s1 + 1\<rparr>)"
    if "printer_ok ts opens s1" for s1 c l b
    using that assms(3) by (simp add: printer_ok_def frame_ok_def weight_def newFrame_def)
  have "printer_ok ts opens (if lit then mark_literal ts i e s else s)" for lit e
    using assms(4) by (simp add: mark_literal_def Let_def split: option.split)
  note push [OF this]
  then show ?thesis unfolding lbrace_step_def h option.case(2) Let_def by simp
qed

lemma lparen_step_ok:
  assumes "kind (ts ! i) = LPAREN \<or> kind (ts ! i) = LBRACK" "printer_ok ts opens s"
  shows "printer_ok ts (kind (ts ! i) # opens) (lparen_step ts pairs i p s)"
  using assms by (auto simp: lparen_step_def Let_def printer_ok_def frame_ok_def weight_def newFrame_def)

lemma comma_step_ok [simp]: "printer_ok ts opens (comma_step i s) \<longleftrightarrow> printer_ok ts opens s"
  by (simp add: comma_step_def Let_def printer_ok_upd_top)

lemma gtr_step_ok [simp]: "printer_ok ts opens (gtr_step ts i s) \<longleftrightarrow> printer_ok ts opens s"
  by (simp add: gtr_step_def printer_ok_upd_top)

lemma rbrace_step_ok [simp]: "printer_ok ts opens (rbrace_step ts i s) \<longleftrightarrow> printer_ok ts opens s"
  by (simp add: rbrace_step_def split: list.split)

lemma colon_step_ok:
  assumes "printer_ok ts opens s"
  shows "printer_ok ts opens (colon_step ts i s)"
proof (cases "\<not> ternary (ts ! i) \<and> top_is (\<lambda>f. cases f \<and> \<not> activeCase f) (top_frame s)")
  case True
  then obtain f fs where f: "stack s = f # fs" "cases f" "\<not> activeCase f"
    by (cases "stack s") (auto simp: top_is_def top_frame_def)
  with assms have "kind (ts ! index f) = LBRACE" by (auto simp: printer_ok_def frame_ok_def list_all2_Cons1 split: if_splits)
  with assms f True show ?thesis
    by (auto simp: colon_step_def upd_top_def printer_ok_def weight_def frame_ok_def list_all2_Cons1 newlines_def)
next
  case False
  with assms show ?thesis unfolding colon_step_def if_not_P [OF False] by simp
qed

text \<open>The kinds of the open brackets behind a token.\<close>

definition opens_after :: "token list \<Rightarrow> formatToken \<Rightarrow> token list" where
  "opens_after opens t = (if is_open t then kind t # opens else if is_close t then tl opens else opens)"

lemma nested_Cons:
  "nested opens (t # ts) \<longleftrightarrow>
     nested (opens_after opens t) ts \<and> (is_close t \<longrightarrow> opens \<noteq> [] \<and> closes (hd opens) (kind t))"
proof -
  have "is_open t \<Longrightarrow> \<not> is_close t" by (auto simp: is_open_def is_close_def)
  then show ?thesis by (auto simp: opens_after_def split: list.splits)
qed

lemma after_step_ok:
  assumes "pairs_ok ts pairs" "i < length ts" "printer_ok ts opens s" "\<not> is_close (ts ! i)"
  shows "\<exists>s'. after_step ts pairs i p s = Some s' \<and> printer_ok ts (opens_after opens (ts ! i)) s'"
  using assms lbrace_step_ok [OF assms(1,2) _ assms(3), of p] lparen_step_ok [OF _ assms(3), of i pairs p]
    colon_step_ok [OF assms(3), of i]
  by (auto simp: after_step_def Let_def opens_after_def is_open_def is_close_def)

lemma after_step_close_ok:
  assumes "printer_ok ts opens s" "is_close (ts ! i)"
  shows "\<exists>s'. after_step ts pairs i p s = Some s' \<and> printer_ok ts opens s'"
  using assms by (auto simp: after_step_def Let_def is_close_def)

lemma semicolon_step_ok:
  assumes "pairs_ok ts pairs" "i < length ts" "printer_ok ts opens s"
  shows "\<exists>s'. semicolon_step ts pairs i p s = Some s' \<and> printer_ok ts opens s'"
proof -
  obtain h where h: "header_of ts pairs s i = Some h" using header_of_total [of ts pairs i s] assms by auto
  obtain s1 where "emit '';'' False s = Some s1" "stack s1 = stack s" "depth s1 = depth s"
    using emit_total [OF assms(3)] by blast
  with h assms(3) show ?thesis
    unfolding semicolon_step_def by (auto intro: printer_ok_same)
qed

lemma print_token_ok:
  assumes pairs: "pairs_ok ts pairs" and i: "i < length ts" and ok: "printer_ok ts opens s"
    and nest: "nested opens (drop i ts)"
  shows "\<exists>s'. print_token ts pairs i s = Some s' \<and> printer_ok ts (opens_after opens (ts ! i)) s'
    \<and> nested (opens_after opens (ts ! i)) (drop (Suc i) ts)"
proof -
  from nest i have nest': "nested (opens_after opens (ts ! i)) (drop (Suc i) ts)"
    and close: "is_close (ts ! i) \<Longrightarrow> opens \<noteq> [] \<and> closes (hd opens) (kind (ts ! i))"
    by (simp_all add: Cons_nth_drop_Suc [symmetric] nested_Cons del: nested.simps)
  let ?p = "lastCode ts i"
  have ok1: "printer_ok ts opens (gap_step (ts ! i) s)" using ok by simp
  show ?thesis
  proof (cases "kind (ts ! i) = SEMICOLON")
    case True
    then have "opens_after opens (ts ! i) = opens" by (simp add: opens_after_def is_open_def is_close_def)
    with semicolon_step_ok [OF pairs i ok1, of ?p] nest' True show ?thesis by (simp add: print_token_def Let_def)
  next
    case False
    let ?s2 = "clause_step ts i ?p (gap_step (ts ! i) s)"
    let ?tp = "top_frame ?s2"
    let ?s3 = "return_step ts i ?tp (close_step ts i ?s2)"
    let ?mid = "if is_close (ts ! i) then tl opens else opens"
    have ok2: "printer_ok ts opens ?s2" by (rule clause_step_ok [OF ok1])
    have ok3: "printer_ok ts ?mid ?s3"
    proof (cases "is_close (ts ! i)")
      case True
      with close obtain k ks where "opens = k # ks" "closes k (kind (ts ! i))" by (cases opens) auto
      with close_step_ok [of ts k ks ?s2 i] ok2 True show ?thesis by simp
    next
      case False
      with ok2 show ?thesis by (simp add: close_step_other)
    qed
    obtain space where sp: "space_step ts pairs i ?p ?tp ?s3 = Some space"
      using space_step_total [OF pairs, of i ?p ?tp ?s3] i by auto
    obtain s4 where s4: "emit (ftext (ts ! i)) space ?s3 = Some s4" "printer_ok ts ?mid s4"
      using emit_total [OF ok3] ok3 by (blast intro: printer_ok_same)
    obtain s5 where s5: "(if i \<in> set (commas s4) then emit '','' False s4 else Some s4) = Some s5" "printer_ok ts ?mid s5"
    proof (cases "i \<in> set (commas s4)")
      case True
      with emit_total [OF s4(2)] s4(2) that show thesis by (fastforce intro: printer_ok_same)
    next
      case False
      with s4(2) that show thesis by simp
    qed
    have ok6: "printer_ok ts ?mid (statement_step ts i ?tp s5)" using s5(2) by simp
    have "\<exists>s6. after_step ts pairs i ?p (statement_step ts i ?tp s5) = Some s6
        \<and> printer_ok ts (opens_after opens (ts ! i)) s6"
    proof (cases "is_close (ts ! i)")
      case True
      then have "\<not> is_open (ts ! i)" by (auto simp: is_open_def is_close_def)
      with True after_step_close_ok [OF ok6 True, of pairs ?p] show ?thesis by (simp add: opens_after_def)
    next
      case False
      with after_step_ok [OF pairs i ok6 False, of ?p] show ?thesis by simp
    qed
    then obtain s6 where s6: "after_step ts pairs i ?p (statement_step ts i ?tp s5) = Some s6"
      "printer_ok ts (opens_after opens (ts ! i)) s6" by blast
    have "print_token ts pairs i s = Some (s6\<lparr>prev := Some (ts ! i)\<rparr>)"
      unfolding print_token_def Let_def if_not_P [OF False] sp bind.simps(2) s4(1) s5(1) s6(1) by simp
    with s6(2) nest' show ?thesis by simp
  qed
qed

lemma print_tokens_total:
  "pairs_ok ts pairs \<Longrightarrow> i \<le> length ts \<Longrightarrow> printer_ok ts opens s \<Longrightarrow> nested opens (drop i ts) \<Longrightarrow>
     \<exists>s'. print_tokens ts pairs [i..<length ts] s = Some s'"
proof (induction "length ts - i" arbitrary: i opens s)
  case (Suc n)
  then have i: "i < length ts" by simp
  from print_token_ok [OF Suc.prems(1) i Suc.prems(3,4)] obtain s1 where
    "print_token ts pairs i s = Some s1" "printer_ok ts (opens_after opens (ts ! i)) s1"
    "nested (opens_after opens (ts ! i)) (drop (Suc i) ts)" by blast
  with Suc.hyps(1) [of "Suc i", OF _ Suc.prems(1)] Suc.hyps(2) i show ?case
    by (auto simp: upt_conv_Cons)
qed simp

text \<open>Tokens in the order of the source have a gap between them.\<close>

lemma mark_breaks_total:
  "tokens_in_order source ts \<Longrightarrow>
     (\<forall>b. before = Some b \<longrightarrow> 0 \<le> stop b \<and> (\<forall>t \<in> set ts. stop b \<le> start t)) \<Longrightarrow>
     \<exists>ts'. mark_breaks source ops before ts = Some ts'"
proof (induction ts arbitrary: before)
  case (Cons t ts)
  from Cons.prems(1) have t: "0 \<le> start t" "start t \<le> stop t" "stop t \<le> int (length source)"
    and rest: "tokens_in_order source ts" "\<forall>u \<in> set ts. stop t \<le> start u"
    by (auto simp: tokens_in_order_def token_ok_def)
  have later: "\<exists>ts'. mark_breaks source ops (Some b) ts = Some ts'" if "stop b = stop t" for b
    using Cons.IH [OF rest(1), of "Some b"] rest(2) t that by auto
  show ?case
  proof (cases "implicit t")
    case True
    with Cons.IH [OF rest(1), of before] Cons.prems(2) show ?thesis by simp
  next
    case False
    show ?thesis
    proof (cases before)
      case None
      with False later [of "t\<lparr>ternary := start t \<in> ops\<rparr>"] show ?thesis by auto
    next
      case (Some b)
      with Cons.prems(2) t have "0 \<le> stop b" "stop b \<le> start t" by auto
      with t obtain gap where g: "slice source (stop b) (start t) = Some gap"
        using slice_Some_iff [of source "stop b" "start t"] by auto
      with False Some later [of "t\<lparr>ternary := start t \<in> ops, breakBefore := count_lines gap > 0, blankBefore := count_lines gap > 1\<rparr>"]
      show ?thesis by (auto simp: Let_def)
    qed
  qed
qed simp

text \<open>
  C10: The formatter returns: for tokens in the order of the source whose brackets, after the
  imports are sorted, are properly nested, it neither loops in the classification of a clause nor
  panics on a negative indentation or a slice out of range.
\<close>

theorem formatStructure_total:
  assumes "tokens_in_order source all"
    and "\<forall>ts. layout_tokens scan source all = Some ts \<longrightarrow> nested [] ts"
  shows "\<exists>result. formatStructure scan source all = Some result"
proof -
  obtain ts0 where "mark_breaks source (ternary_operators scan source) None all = Some ts0"
    using mark_breaks_total [OF assms(1), of None] by auto
  then obtain ts where ts: "layout_tokens scan source all = Some ts" by (simp add: layout_tokens_def)
  with assms(2) have nest: "nested [] ts" by blast
  have "printer_ok ts [] start_printer" by (simp add: printer_ok_def start_printer_def)
  from print_tokens_total [OF nested_pairs_ok [OF nest] _ this, of 0] nest
  obtain s where "print_tokens ts (bracket_pairs ts) [0..<length ts] start_printer = Some s" by auto
  with ts show ?thesis by (simp add: formatStructure_def)
qed

text \<open>The tokens of \<open>if x{y}\<close>.\<close>

definition example_tokens :: "formatToken list" where
  "example_tokens = [ftok IF ''if'' 0 2, ftok IDENT ''x'' 3 4, ftok LBRACE ''{'' 4 5, ftok IDENT ''y'' 5 6, ftok RBRACE ''}'' 6 7]"

definition no_scanner :: scanner where "no_scanner source = ([], [])"

lemma example_layout: "layout_tokens no_scanner ''if x{y}'' example_tokens = Some example_tokens"
  by code_simp

lemma example_formatted:
  "formatStructure no_scanner ''if x{y}'' example_tokens =
     Some (''if x {'' @ [newline, tab] @ ''y'' @ [newline] @ ''}'' @ [newline])"
  by code_simp


lemma formatStructure_total_witness:
  "tokens_in_order ''if x{y}'' example_tokens \<and> (\<exists>r. formatStructure no_scanner ''if x{y}'' example_tokens = Some r)"
proof
  show ord: "tokens_in_order ''if x{y}'' example_tokens" by (simp add: tokens_in_order_def token_ok_def example_tokens_def ftok_def slice_def)
  have "nested [] example_tokens" by code_simp
  then show "\<exists>r. formatStructure no_scanner ''if x{y}'' example_tokens = Some r"
    by (intro formatStructure_total [OF ord]) (simp add: example_layout)
qed

end
