(* ===== verification/FormatProject.thy ===== *)
theory FormatProject
  imports FormatStructure Watch
begin

text \<open>
  Formatting a source and a project (\<open>FormatSource\<close> and \<open>FormatProject\<close> of
  \<open>internal/compiler/format.go\<close>). \<open>parse\<close> stands for the compiler's parser: the error it finds in a
  source, if any.
\<close>

section \<open>One source\<close>

text \<open>A panic in the printer is recovered and becomes an error.\<close>

definition FormatSource ::
  "scanner \<Rightarrow> (string \<Rightarrow> string \<Rightarrow> string option) \<Rightarrow> string \<Rightarrow> string \<Rightarrow> string result"
where
  "FormatSource sc parse filename source =
     (case parse filename source of
        Some e \<Rightarrow> Inl (filename @ '': '' @ e)
      | None \<Rightarrow>
          res_bind (scanFormatTokens sc filename source) (\<lambda>tokens.
            case formatStructure sc source tokens of
              None \<Rightarrow> Inl (filename @ '': invalid source'')
            | Some output \<Rightarrow>
                (case parse filename output of
                   Some e \<Rightarrow> Inl (filename @ '': formatted source is invalid: '' @ e)
                 | None \<Rightarrow> Inr output)))"

section \<open>Collecting the changes\<close>

record change =
  change_path :: string
  change_data :: string
  change_mode :: nat

text \<open>
  What the walk asks for beside the tree: whether the context is cancelled when it visits a path, the
  formatter, and the mode of a file, which may not be readable.
\<close>

record formatEnv =
  cancelled :: "string \<Rightarrow> bool"
  formatter :: "string \<Rightarrow> string \<Rightarrow> string result"
  mode_of :: "string \<Rightarrow> nat option"

definition skips_dir :: "string \<Rightarrow> string \<Rightarrow> string \<Rightarrow> bool" where
  "skips_dir root path name \<longleftrightarrow>
     path \<noteq> root \<and> (has_prefix name ''.'' \<or> name = ''bin'' \<or> name = ''vendor'' \<or> name = ''node_modules'')"

definition is_source :: "string \<Rightarrow> string \<Rightarrow> bool" where
  "is_source path name \<longleftrightarrow> \<not> has_prefix name ''.'' \<and> Ext path = ''.ghi''"

definition format_file :: "formatEnv \<Rightarrow> string \<Rightarrow> string \<Rightarrow> change list result" where
  "format_file env path source =
     res_bind (formatter env path source) (\<lambda>output.
       if source = output then Inr []
       else case mode_of env path of
              None \<Rightarrow> Inl ''info''
            | Some mode \<Rightarrow> Inr [\<lparr>change_path = path, change_data = output, change_mode = mode\<rparr>])"

text \<open>
  \<open>filepath.WalkDir\<close> visits a directory before its entries, in lexical order; an unreadable directory
  is visited again with an error. A symbolic link is not followed, the root included.
\<close>

fun collect :: "formatEnv \<Rightarrow> string \<Rightarrow> string \<Rightarrow> string \<Rightarrow> fsnode \<Rightarrow> change list result"
  and collect_all :: "formatEnv \<Rightarrow> string \<Rightarrow> string \<Rightarrow> (string \<times> fsnode) list \<Rightarrow> change list result"
where
  "collect env root path name (DirN es) =
     (if cancelled env path then Inl ''context canceled''
      else if skips_dir root path name then Inr [] else collect_all env root path es)"
| "collect env root path name UnreadableDirN =
     (if cancelled env path then Inl ''context canceled''
      else if skips_dir root path name then Inr [] else Inl ''read directory'')"
| "collect env root path name (SymlinkN t) =
     (if cancelled env path then Inl ''context canceled''
      else if is_source path name then Inl (''source symlinks are not supported: '' @ path) else Inr [])"
| "collect env root path name UnreadableN =
     (if cancelled env path then Inl ''context canceled''
      else if is_source path name then Inl ''read file'' else Inr [])"
| "collect env root path name (FileN data) =
     (if cancelled env path then Inl ''context canceled''
      else if is_source path name then format_file env path data else Inr [])"
| "collect_all env root path [] = Inr []"
| "collect_all env root path ((n, e) # es) =
     res_bind (collect env root (path @ ''/'' @ n) n e) (\<lambda>a.
     res_bind (collect_all env root path es) (\<lambda>b. Inr (a @ b)))"

section \<open>Writing\<close>

text \<open>The files of a disk with their contents and permissions.\<close>

type_synonym files = "string \<rightharpoonup> string \<times> nat"

datatype fileOp =
    CreateTemp string
  | WriteTemp string string
  | Chmod string nat
  | Rename string string
  | Remove string

fun file_op :: "fileOp \<Rightarrow> files \<Rightarrow> files" where
  "file_op (CreateTemp n) d = d(n \<mapsto> ([], 384))"
| "file_op (WriteTemp n data) d = (case d n of None \<Rightarrow> d | Some (old, mode) \<Rightarrow> d(n \<mapsto> (data, mode)))"
| "file_op (Chmod n mode) d = (case d n of None \<Rightarrow> d | Some (data, old) \<Rightarrow> d(n \<mapsto> (data, mode)))"
| "file_op (Rename n path) d = (case d n of None \<Rightarrow> d | Some f \<Rightarrow> d(n := None, path \<mapsto> f))"
| "file_op (Remove n) d = d(n := None)"

text \<open>Where staging a file fails, if it does; a failed write leaves part of the data.\<close>

datatype fault = NoFault | CreateFails | WriteFails string | ChmodFails | CloseFails | RenameFails

definition perm :: "nat \<Rightarrow> nat" where "perm mode = mode mod 512"

fun stage_file :: "change \<Rightarrow> string \<Rightarrow> fault \<Rightarrow> fileOp list \<times> bool" where
  "stage_file c t CreateFails = ([], False)"
| "stage_file c t (WriteFails part) = ([CreateTemp t, WriteTemp t part, Remove t], False)"
| "stage_file c t ChmodFails = ([CreateTemp t, WriteTemp t (change_data c), Remove t], False)"
| "stage_file c t CloseFails =
     ([CreateTemp t, WriteTemp t (change_data c), Chmod t (perm (change_mode c)), Remove t], False)"
| "stage_file c t RenameFails =
     ([CreateTemp t, WriteTemp t (change_data c), Chmod t (perm (change_mode c)), Remove t], False)"
| "stage_file c t NoFault =
     ([CreateTemp t, WriteTemp t (change_data c), Chmod t (perm (change_mode c)), Rename t (change_path c)], True)"

text \<open>
  The loop over the changes: the paths reported, whether it ended without an error, and the operations
  on the disk. \<open>stop\<close> says for which change the context is cancelled, \<open>temp\<close> gives the names of
  \<open>os.CreateTemp\<close>.
\<close>

fun write_changes ::
  "bool \<Rightarrow> (string \<Rightarrow> bool) \<Rightarrow> (string \<Rightarrow> string) \<Rightarrow> (string \<Rightarrow> fault) \<Rightarrow> change list \<Rightarrow> string list \<times> bool \<times> fileOp list"
where
  "write_changes check halt temp faults [] = ([], True, [])"
| "write_changes check halt temp faults (c # cs) =
     (if halt (change_path c) then ([], False, [])
      else
        let (ops, ok) = (if check then ([], True) else stage_file c (temp (change_path c)) (faults (change_path c)))
        in if ok then
             (case write_changes check halt temp faults cs of
                (paths, done', ops') \<Rightarrow> (change_path c # paths, done', ops @ ops'))
           else ([], False, ops))"

definition FormatProject ::
  "formatEnv \<Rightarrow> string \<Rightarrow> fsnode \<Rightarrow> bool \<Rightarrow> (string \<Rightarrow> bool) \<Rightarrow> (string \<Rightarrow> string) \<Rightarrow> (string \<Rightarrow> fault) \<Rightarrow>
     string list \<times> bool \<times> fileOp list"
where
  "FormatProject env root tree check halt temp faults =
     (case stat tree of
        None \<Rightarrow> ([], False, [])
      | Some node \<Rightarrow>
          if \<not> is_dir node then ([], False, [])
          else case collect env root root (Base root) tree of
                 Inl e \<Rightarrow> ([], False, [])
               | Inr cs \<Rightarrow> write_changes check halt temp faults cs)"

fun run_files :: "fileOp list \<Rightarrow> files \<Rightarrow> files" where
  "run_files [] d = d"
| "run_files (op # ops) d = run_files ops (file_op op d)"

section \<open>No source is damaged\<close>

text \<open>What a single change may do to a disk: nothing but to its temporary file, or the replacement.\<close>

definition replaced :: "change \<Rightarrow> string \<times> nat" where
  "replaced c = (change_data c, perm (change_mode c))"

lemma run_files_append [simp]: "run_files (a @ b) d = run_files b (run_files a d)"
  by (induction a arbitrary: d) simp_all

lemma stage_prefix:
  assumes "prefix ops (fst (stage_file c t f))" "d t = None"
  shows "\<exists>d'. run_files ops d = d' \<and> (\<forall>p. p \<noteq> t \<longrightarrow> d' p = d p \<or> p = change_path c \<and> d' p = Some (replaced c))"
  using assms
  by (cases f) (auto simp: prefix_Cons replaced_def prefix_append split: if_splits)

text \<open>A staging that runs to its end leaves no temporary file.\<close>

lemma stage_complete:
  assumes "stage_file c t f = (ops, ok)" "d t = None" "t \<noteq> change_path c"
  shows "run_files ops d = (if ok then d(change_path c \<mapsto> replaced c) else d)"
  using assms by (cases f) (auto simp: replaced_def fun_eq_iff)

text \<open>
  A disk is good for a set of changes when every path holds what it held before or, when it is to
  be changed, the new contents with the old permissions.
\<close>

definition good_disk :: "change list \<Rightarrow> (string \<Rightarrow> string) \<Rightarrow> files \<Rightarrow> files \<Rightarrow> bool" where
  "good_disk cs temp d0 d \<longleftrightarrow>
     (\<forall>p. p \<notin> temp ` change_path ` set cs \<longrightarrow>
        d p = d0 p \<or> (\<exists>c \<in> set cs. p = change_path c \<and> d p = Some (replaced c)))"

lemma write_changes_prefix:
  assumes "write_changes False halt temp faults cs = (paths, fin, ops)"
    and "prefix pre ops"
    and "\<forall>c \<in> set cs. d (temp (change_path c)) = None \<and> temp (change_path c) \<notin> change_path ` set cs"
    and "inj_on temp (change_path ` set cs)"
  shows "good_disk cs temp d (run_files pre d)"
  using assms
proof (induction cs arbitrary: paths fin ops pre d)
  case Nil
  then show ?case by (auto simp: good_disk_def)
next
  case (Cons c cs)
  let ?t = "temp (change_path c)"
  obtain o1 ok where st: "stage_file c ?t (faults (change_path c)) = (o1, ok)" by fastforce
  show ?case
  proof (cases "halt (change_path c)")
    case True
    with Cons.prems show ?thesis by (auto simp: good_disk_def)
  next
    case no: False
    have here: "good_disk (c # cs) temp d (run_files pre d)" if "prefix pre o1"
      using stage_prefix [of pre c ?t "faults (change_path c)" d] st that Cons.prems(3)
      by (fastforce simp: good_disk_def)
    show ?thesis
    proof (cases ok)
      case False
      with Cons.prems(1,2) st no here show ?thesis by simp
    next
      case True
      obtain ps fin' o2 where rest: "write_changes False halt temp faults cs = (ps, fin', o2)" by (cases "write_changes False halt temp faults cs") auto
      with Cons.prems(1) st no True have ops: "ops = o1 @ o2" by simp
      show ?thesis
      proof (cases "prefix pre o1")
        case True
        then show ?thesis by (rule here)
      next
        case False
        with Cons.prems(2) ops obtain pre2 where pre2: "pre = o1 @ pre2" "prefix pre2 o2"
          by (auto simp: prefix_append)
        define d1 where "d1 = d(change_path c \<mapsto> replaced c)"
        have r1: "run_files o1 d = d1"
          using stage_complete [OF st, of d] Cons.prems(3) \<open>ok\<close> by (simp add: d1_def)
        have fresh: "\<forall>c' \<in> set cs. d1 (temp (change_path c')) = None \<and> temp (change_path c') \<notin> change_path ` set cs"
          using Cons.prems(3) by (auto simp: d1_def)
        have "inj_on temp (change_path ` set cs)" using Cons.prems(4) by (auto simp: inj_on_def)
        from Cons.IH [OF rest pre2(2) fresh this] have g: "good_disk cs temp d1 (run_files pre2 d1)" .
        have "d1 p = d p \<or> p = change_path c \<and> d1 p = Some (replaced c)" for p by (simp add: d1_def)
        with g show ?thesis unfolding good_disk_def pre2(1) run_files_append r1
          by (metis (no_types, lifting) image_insert insertCI list.simps(15))
      qed
    qed
  qed
qed

lemma write_changes_complete:
  assumes "write_changes False halt temp faults cs = (paths, True, ops)"
    and "\<forall>c \<in> set cs. d (temp (change_path c)) = None \<and> temp (change_path c) \<notin> change_path ` set cs"
    and "distinct (map change_path cs)"
  shows "(\<forall>c \<in> set cs. run_files ops d (change_path c) = Some (replaced c))
    \<and> (\<forall>p. p \<notin> change_path ` set cs \<longrightarrow> run_files ops d p = d p) \<and> paths = map change_path cs"
  using assms
proof (induction cs arbitrary: paths ops d)
  case (Cons c cs)
  let ?t = "temp (change_path c)"
  obtain o1 ok where st: "stage_file c ?t (faults (change_path c)) = (o1, ok)" by fastforce
  obtain ps fin' o2 where rest: "write_changes False halt temp faults cs = (ps, fin', o2)" by (cases "write_changes False halt temp faults cs") auto
  from Cons.prems(1) st rest have ok: "ok" "fin'" "ops = o1 @ o2" "paths = change_path c # ps" "\<not> halt (change_path c)"
    by (auto split: if_splits)
  define d1 where "d1 = d(change_path c \<mapsto> replaced c)"
  have r1: "run_files o1 d = d1" using stage_complete [OF st, of d] Cons.prems(2) ok by (simp add: d1_def)
  have "\<forall>c' \<in> set cs. d1 (temp (change_path c')) = None \<and> temp (change_path c') \<notin> change_path ` set cs"
    using Cons.prems(2) by (auto simp: d1_def)
  from Cons.IH [OF rest [unfolded eqTrueI [OF ok(2)]] this] Cons.prems(3)
  have ih: "\<forall>c \<in> set cs. run_files o2 d1 (change_path c) = Some (replaced c)"
    "\<forall>p. p \<notin> change_path ` set cs \<longrightarrow> run_files o2 d1 p = d1 p" "ps = map change_path cs" by auto
  have "change_path c \<notin> change_path ` set cs" using Cons.prems(3) by auto
  with ih have "run_files o2 d1 (change_path c) = Some (replaced c)" by (simp add: d1_def)
  moreover have "\<forall>p. p \<notin> change_path ` set (c # cs) \<longrightarrow> run_files o2 d1 p = d p" using ih(2) by (simp add: d1_def)
  ultimately show ?case using ih(1,3) ok(3,4) r1 by simp
qed simp

text \<open>The sources that the walk visits, with their contents.\<close>

fun visited :: "string \<Rightarrow> string \<Rightarrow> string \<Rightarrow> fsnode \<Rightarrow> (string \<times> string) list"
  and visited_all :: "string \<Rightarrow> string \<Rightarrow> (string \<times> fsnode) list \<Rightarrow> (string \<times> string) list"
where
  "visited root path name (DirN es) = (if skips_dir root path name then [] else visited_all root path es)"
| "visited root path name (FileN data) = (if is_source path name then [(path, data)] else [])"
| "visited root path name UnreadableDirN = []"
| "visited root path name (SymlinkN t) = []"
| "visited root path name UnreadableN = []"
| "visited_all root path [] = []"
| "visited_all root path ((n, e) # es) = visited root (path @ ''/'' @ n) n e @ visited_all root path es"

text \<open>The changes of a list of sources.\<close>

definition change_of :: "formatEnv \<Rightarrow> change \<Rightarrow> string \<times> string \<Rightarrow> bool" where
  "change_of env c = (\<lambda>(path, source). change_path c = path \<and> formatter env path source = Inr (change_data c) \<and>
     source \<noteq> change_data c \<and> mode_of env path = Some (change_mode c))"

inductive changes_of :: "formatEnv \<Rightarrow> (string \<times> string) list \<Rightarrow> change list \<Rightarrow> bool" for env where
  nothing: "changes_of env [] []"
| same: "changes_of env (x # xs) cs" if "formatter env (fst x) (snd x) = Inr (snd x)" "changes_of env xs cs"
| change: "changes_of env (x # xs) (c # cs)" if "change_of env c x" "changes_of env xs cs"

lemma changes_of_append:
  "changes_of env xs a \<Longrightarrow> changes_of env ys b \<Longrightarrow> changes_of env (xs @ ys) (a @ b)"
  by (induction rule: changes_of.induct) (auto intro: changes_of.intros)

lemma format_file_changes: "format_file env path source = Inr cs \<Longrightarrow> changes_of env [(path, source)] cs"
  by (auto simp: format_file_def res_bind_Inr_iff split: if_splits option.splits)
    (auto simp: change_of_def intro: changes_of.intros(2,3) [OF _ changes_of.nothing])

lemma collect_changes:
  "collect env root path name node = Inr cs \<Longrightarrow> changes_of env (visited root path name node) cs"
  "collect_all env root path es = Inr cs \<Longrightarrow> changes_of env (visited_all root path es) cs"
proof (induction env root path name node and env root path es arbitrary: cs and cs rule: collect_collect_all.induct)
  case (5 env root path name data)
  then show ?case by (auto dest: format_file_changes intro: changes_of.intros split: if_splits)
next
  case (7 env root path n e es)
  then show ?case by (auto simp: res_bind_Inr_iff intro: changes_of_append)
qed (auto intro: changes_of.intros split: if_splits)

lemma changes_of_mem:
  "changes_of env xs cs \<Longrightarrow> c \<in> set cs \<Longrightarrow> \<exists>x \<in> set xs. change_of env c x"
  by (induction rule: changes_of.induct) auto

lemma changes_of_distinct:
  "changes_of env xs cs \<Longrightarrow> distinct (map fst xs) \<Longrightarrow> distinct (map change_path cs)"
proof (induction rule: changes_of.induct)
  case (change c x xs cs)
  have "change_path c \<notin> set (map change_path cs)"
  proof
    assume "change_path c \<in> set (map change_path cs)"
    then obtain c' where c': "c' \<in> set cs" "change_path c' = change_path c" by auto
    with changes_of_mem [OF change(2) c'(1)] obtain x' where "x' \<in> set xs" "change_of env c' x'" by blast
    with c'(2) change(1,4) show False by (force simp: change_of_def)
  qed
  with change(3,4) show ?case by simp
qed simp_all

lemma changes_of_all:
  "changes_of env xs cs \<Longrightarrow> x \<in> set xs \<Longrightarrow> formatter env (fst x) (snd x) = Inr (snd x) \<or> (\<exists>c \<in> set cs. change_of env c x)"
  by (induction rule: changes_of.induct) auto

text \<open>The disk holds the tree that was walked; temporary names are new.\<close>

definition on_disk :: "formatEnv \<Rightarrow> string \<Rightarrow> fsnode \<Rightarrow> files \<Rightarrow> bool" where
  "on_disk env root tree d \<longleftrightarrow>
     distinct (map fst (visited root root (Base root) tree)) \<and>
     (\<forall>(path, source) \<in> set (visited root root (Base root) tree). \<exists>mode. d path = Some (source, mode) \<and> mode_of env path = Some mode)"

lemma FormatProject_ops:
  assumes "FormatProject env root tree check halt temp faults = (paths, fin, ops)"
  obtains cs where "changes_of env (visited root root (Base root) tree) cs" "write_changes check halt temp faults cs = (paths, fin, ops)"
    | "ops = []" "\<not> fin"
  using assms by (auto simp: FormatProject_def split: option.splits sum.splits if_splits dest: collect_changes(1))

lemma write_changes_check: "write_changes True halt temp faults cs = (paths, fin, ops) \<Longrightarrow> ops = []"
  by (induction cs arbitrary: paths ops) (auto split: if_splits prod.splits)

lemma held_source:
  "on_disk env root tree d \<Longrightarrow> (p, source) \<in> set (visited root root (Base root) tree) \<Longrightarrow>
     \<exists>mode. d p = Some (source, mode) \<and> mode_of env p = Some mode"
  unfolding on_disk_def by blast

lemma changed_source:
  assumes "changes_of env (visited root root (Base root) tree) cs" "on_disk env root tree d" "c \<in> set cs"
  shows "\<exists>source mode. d (change_path c) = Some (source, mode)
    \<and> formatter env (change_path c) source = Inr (change_data c) \<and> replaced c = (change_data c, perm mode)"
proof -
  from changes_of_mem [OF assms(1,3)] obtain source where x: "(change_path c, source) \<in> set (visited root root (Base root) tree)"
    "formatter env (change_path c) source = Inr (change_data c)" "mode_of env (change_path c) = Some (change_mode c)"
    by (auto simp: change_of_def)
  from held_source [OF assms(2) x(1)] x show ?thesis by (auto simp: replaced_def)
qed

text \<open>After a complete run every visited source is formatted.\<close>

lemma complete_formats:
  assumes cs: "changes_of env (visited root root (Base root) tree) cs" and disk: "on_disk env root tree d"
    and dn: "\<forall>c \<in> set cs. d' (change_path c) = Some (replaced c)" "\<forall>p. p \<notin> change_path ` set cs \<longrightarrow> d' p = d p"
    and src: "(p, source) \<in> set (visited root root (Base root) tree)"
  shows "\<exists>output mode. formatter env p source = Inr output \<and> d' p = Some (output, mode)"
proof (cases "\<exists>c \<in> set cs. change_of env c (p, source)")
  case True
  with dn(1) show ?thesis by (auto simp: change_of_def replaced_def)
next
  case False
  with changes_of_all [OF cs src] have f: "formatter env p source = Inr source" by simp
  obtain mode where m: "d p = Some (source, mode)" using held_source [OF disk src] by blast
  show ?thesis
  proof (cases "p \<in> change_path ` set cs")
    case True
    then obtain c where c: "c \<in> set cs" "p = change_path c" by auto
    from changed_source [OF cs disk c(1)] c(2) m f have "change_data c = source" by auto
    with c dn(1) f show ?thesis by (auto simp: replaced_def)
  next
    case False
    with dn(2) m f show ?thesis by auto
  qed
qed

lemma fresh_temps:
  assumes "changes_of env (visited root root (Base root) tree) cs" "on_disk env root tree d" "\<forall>p. d (temp p) = None"
  shows "\<forall>c \<in> set cs. d (temp (change_path c)) = None \<and> temp (change_path c) \<notin> change_path ` set cs"
proof (intro ballI conjI notI)
  fix c assume "c \<in> set cs"
  show "d (temp (change_path c)) = None" using assms(3) by blast
  assume "temp (change_path c) \<in> change_path ` set cs"
  then obtain c' where "c' \<in> set cs" "change_path c' = temp (change_path c)" by auto
  with changed_source [OF assms(1,2), of c'] assms(3) show False by auto
qed

text \<open>
  C5: Formatting never damages a project: after any part of the operations (so also when it is killed),
  every file but the temporary ones is unchanged or holds the formatted text of what it held, with its
  permissions; checking changes nothing; and when a formatting run succeeds every visited source is
  formatted.
\<close>

theorem format_project_safe:
  assumes "FormatProject env root tree check halt temp faults = (paths, fin, ops)"
    and "on_disk env root tree d" "inj temp" "\<forall>p. d (temp p) = None" "prefix pre ops"
  shows "(check \<longrightarrow> ops = [])
    \<and> (\<forall>p. p \<notin> range temp \<longrightarrow> run_files pre d p = d p \<or>
         (\<exists>source mode output. d p = Some (source, mode) \<and> formatter env p source = Inr output
            \<and> run_files pre d p = Some (output, perm mode)))
    \<and> (fin \<and> \<not> check \<longrightarrow>
         (\<forall>(p, source) \<in> set (visited root root (Base root) tree).
            \<exists>output mode. formatter env p source = Inr output \<and> run_files ops d p = Some (output, mode)))"
  using assms(1)
proof (cases rule: FormatProject_ops)
  case 2
  with assms(5) show ?thesis by simp
next
  case (1 cs)
  note fresh = fresh_temps [OF 1(1) assms(2,4)]
  have dist: "distinct (map change_path cs)"
    using changes_of_distinct [OF 1(1)] assms(2) by (simp add: on_disk_def)
  show ?thesis
  proof (cases check)
    case True
    with 1(2) write_changes_check [of halt temp faults cs] assms(5) show ?thesis by auto
  next
    case False
    have w: "write_changes False halt temp faults cs = (paths, fin, ops)" using 1(2) False by simp
    have "inj_on temp (change_path ` set cs)" using assms(3) by (simp add: inj_on_def)
    note good = write_changes_prefix [OF w assms(5) fresh this]
    have all: "run_files pre d p = d p \<or> (\<exists>source mode output. d p = Some (source, mode) \<and> formatter env p source = Inr output
            \<and> run_files pre d p = Some (output, perm mode))" if "p \<notin> range temp" for p
    proof -
      from that have "p \<notin> temp ` change_path ` set cs" by auto
      with good have "run_files pre d p = d p \<or> (\<exists>c \<in> set cs. p = change_path c \<and> run_files pre d p = Some (replaced c))"
        unfolding good_disk_def by blast
      then show ?thesis using changed_source [OF 1(1) assms(2)] by fastforce
    qed
    have "\<exists>output mode. formatter env p source = Inr output \<and> run_files ops d p = Some (output, mode)"
      if "fin" "(p, source) \<in> set (visited root root (Base root) tree)" for p source
      using complete_formats [OF 1(1) assms(2) _ _ that(2), of "run_files ops d"]
        write_changes_complete [OF w [unfolded eqTrueI [OF that(1)]] fresh dist] by blast
    with all False show ?thesis by blast
  qed
qed

text \<open>A project with one file, formatted by appending a line end.\<close>

definition example_env :: formatEnv where
  "example_env = \<lparr>cancelled = (\<lambda>_. False), formatter = (\<lambda>_ s. Inr (s @ [newline])), mode_of = (\<lambda>_. Some 420)\<rparr>"

definition example_tree :: fsnode where "example_tree = DirN [(''a.ghi'', FileN ''x'')]"

definition example_temp :: "string \<Rightarrow> string" where "example_temp p = ''/t/.ghi-format-'' @ p"

definition example_disk :: files where "example_disk = [''/p/a.ghi'' \<mapsto> (''x'', 420)]"

lemma format_project_safe_witness:
  "map_option fst (run_files (snd (snd (FormatProject example_env ''/p'' example_tree False (\<lambda>_. False) example_temp (\<lambda>_. NoFault))))
     example_disk ''/p/a.ghi'') = Some (''x'' @ [newline])"
proof -
  have v: "visited ''/p'' ''/p'' (Base ''/p'') example_tree = [(''/p/a.ghi'', ''x'')]"
    by code_simp
  obtain paths fin ops where r: "FormatProject example_env ''/p'' example_tree False (\<lambda>_. False) example_temp (\<lambda>_. NoFault) = (paths, fin, ops)"
    by (cases "FormatProject example_env ''/p'' example_tree False (\<lambda>_. False) example_temp (\<lambda>_. NoFault)")
  have "fst (snd (FormatProject example_env ''/p'' example_tree False (\<lambda>_. False) example_temp (\<lambda>_. NoFault)))" by code_simp
  with r have fin by simp
  have "on_disk example_env ''/p'' example_tree example_disk"
    by (simp add: on_disk_def v example_disk_def example_env_def)
  moreover have "inj example_temp" by (simp add: inj_def example_temp_def)
  moreover have "\<forall>p. example_disk (example_temp p) = None" by (simp add: example_disk_def example_temp_def)
  ultimately have "\<exists>output mode. formatter example_env ''/p/a.ghi'' ''x'' = Inr output \<and> run_files ops example_disk ''/p/a.ghi'' = Some (output, mode)"
    using format_project_safe [OF r, of example_disk ops] \<open>fin\<close> by (simp add: v)
  moreover have "formatter example_env ''/p/a.ghi'' ''x'' = Inr (''x'' @ [newline])" by (simp add: example_env_def)
  ultimately show ?thesis unfolding r by auto
qed

text \<open>A project path that is a symbolic link to a directory: nothing below it is visited.\<close>

lemma format_symlink_root:
  assumes "stat t = Some (DirN es)" "\<not> is_source root (Base root)" "\<not> cancelled env root"
  shows "FormatProject env root (SymlinkN (Some t)) check halt temp faults = ([], True, [])"
  using assms by (simp add: FormatProject_def is_dir_def)

end
