(* ===== verification/Project.thy ===== *)
theory Project
  imports Watch "HOL-Library.Multiset" "HOL-Library.List_Lexorder" "HOL-Library.Char_ord"
begin

text \<open>
  Loading a project (\<open>loadProjectOverlay\<close> of \<open>internal/compiler/project.go\<close>): the walk over the sources
  of the project and of its packages, and the namespaces they make up. The compiler's parser
  (\<open>parse\<close>: the namespace, the Go package name and the unit of a source) and the package roots of
  the package manager are parameters.
\<close>

section \<open>State\<close>

record 'u sourceFile =
  sf_path :: string
  sf_source :: string
  sf_unit :: 'u

record 'u nspace =
  ns_name :: string
  ns_dir :: string
  ns_goName :: string
  ns_files :: "'u sourceFile list"

text \<open>
  \<open>p.Namespaces\<close> and \<open>p.Ordered\<close> hold the same namespaces: the list in the order of their first
  sources, looked up by name. \<open>remaining\<close> holds the overlay paths not met yet.
\<close>

record 'u loadState =
  ordered :: "'u nspace list"
  directories :: "string \<rightharpoonup> string"
  testNamespaces :: "string list"
  remaining :: "string list"

record loadConfig =
  root :: string
  testing :: bool
  overlay :: "(string \<times> string) list"

definition start_load :: "loadConfig \<Rightarrow> 'u loadState" where
  "start_load cfg = \<lparr>ordered = [], directories = Map.empty, testNamespaces = [], remaining = map fst (overlay cfg)\<rparr>"

section \<open>The walk\<close>

text \<open>What \<open>filepath.WalkDir\<close> leads to below a root: a source with its data (if it can be read), a
  symbolic link with the name of a source, or an error of the walk itself.\<close>

datatype walkEvent = Source string "string option" | LinkedSource string | WalkError

definition skips :: "bool \<Rightarrow> string \<Rightarrow> string \<Rightarrow> string \<Rightarrow> string \<Rightarrow> bool" where
  "skips tst pkg scanRoot path name \<longleftrightarrow>
     (\<not> tst \<or> pkg \<noteq> []) \<and> path = Join scanRoot ''tests'' \<or>
     path \<noteq> scanRoot \<and> (has_prefix name ''.'' \<or> name = ''bin'' \<or> name = ''vendor'' \<or> name = ''node_modules'')"

fun walk :: "bool \<Rightarrow> string \<Rightarrow> string \<Rightarrow> string \<Rightarrow> string \<Rightarrow> fsnode \<Rightarrow> walkEvent list"
  and walk_all :: "bool \<Rightarrow> string \<Rightarrow> string \<Rightarrow> string \<Rightarrow> (string \<times> fsnode) list \<Rightarrow> walkEvent list"
where
  "walk tst pkg scanRoot path name (DirN es) =
     (if skips tst pkg scanRoot path name then [] else walk_all tst pkg scanRoot path es)"
| "walk tst pkg scanRoot path name UnreadableDirN =
     (if skips tst pkg scanRoot path name then [] else [WalkError])"
| "walk tst pkg scanRoot path name (SymlinkN t) = (if Ext path = ''.ghi'' then [LinkedSource path] else [])"
| "walk tst pkg scanRoot path name UnreadableN = (if Ext path = ''.ghi'' then [Source path None] else [])"
| "walk tst pkg scanRoot path name (FileN data) = (if Ext path = ''.ghi'' then [Source path (Some data)] else [])"
| "walk_all tst pkg scanRoot path [] = []"
| "walk_all tst pkg scanRoot path ((n, e) # es) =
     walk tst pkg scanRoot (Join path n) n e @ walk_all tst pkg scanRoot path es"

section \<open>One source\<close>

definition find_ns :: "'u loadState \<Rightarrow> string \<Rightarrow> 'u nspace option" where
  "find_ns s name = find (\<lambda>ns. ns_name ns = name) (ordered s)"

text \<open>Add a source to its namespace, which is new or known.\<close>

definition add_source :: "string \<Rightarrow> string \<Rightarrow> string \<Rightarrow> 'u sourceFile \<Rightarrow> 'u loadState \<Rightarrow> 'u loadState" where
  "add_source name dir goName f s =
     (case find_ns s name of
        None \<Rightarrow> s\<lparr>ordered := ordered s @ [\<lparr>ns_name = name, ns_dir = dir, ns_goName = goName, ns_files = [f]\<rparr>]\<rparr>
      | Some _ \<Rightarrow> s\<lparr>ordered := map (\<lambda>ns. if ns_name ns = name then ns\<lparr>ns_files := ns_files ns @ [f]\<rparr> else ns) (ordered s)\<rparr>)"

text \<open>\<open>rel\<close> begins with \<open>tests/\<close>.\<close>

definition in_tests :: "loadConfig \<Rightarrow> string \<Rightarrow> bool" where
  "in_tests cfg path \<longleftrightarrow> has_prefix path (Join (root cfg) ''tests'' @ ''/'')"

definition load_parsed ::
  "loadConfig \<Rightarrow> string \<Rightarrow> string \<Rightarrow> string \<Rightarrow> string \<times> string \<times> 'u \<Rightarrow> 'u loadState \<Rightarrow> 'u loadState result"
where
  "load_parsed cfg pkg path data parsed s =
     (case parsed of (name, goName, un) \<Rightarrow>
       if pkg \<noteq> [] \<and> name \<noteq> pkg \<and> \<not> has_prefix name (pkg @ ''.'')
       then Inl (path @ '': package '' @ pkg @ '' cannot declare namespace '' @ name)
       else
         let dir = Dir path in
         if directories s dir \<noteq> None \<and> directories s dir \<noteq> Some name
         then Inl (path @ '': one directory cannot declare both '' @ the (directories s dir) @ '' and '' @ name)
         else
           let s1 = s\<lparr>directories := (directories s)(dir \<mapsto> name)\<rparr> in
           if (case find_ns s1 name of None \<Rightarrow> False | Some ns \<Rightarrow> ns_dir ns \<noteq> dir)
           then Inl (''namespace '' @ name @ '' is declared in multiple directories'')
           else
             let s2 = add_source name dir goName \<lparr>sf_path = path, sf_source = data, sf_unit = un\<rparr> s1
             in if pkg = [] \<and> in_tests cfg path then
                  (if name = ''main'' then Inl (path @ '': tests must use a test namespace, not main'')
                   else Inr (s2\<lparr>testNamespaces := List.insert name (testNamespaces s2)\<rparr>))
                else Inr s2)"

text \<open>A source is read from the overlay, when it is one of the project, or from the disk.\<close>

definition source_data :: "loadConfig \<Rightarrow> string \<Rightarrow> string \<Rightarrow> string option \<Rightarrow> string option" where
  "source_data cfg pkg path data =
     (if pkg = [] \<and> map_of (overlay cfg) path \<noteq> None then map_of (overlay cfg) path else data)"

definition visit_event ::
  "loadConfig \<Rightarrow> (string \<Rightarrow> string \<Rightarrow> (string \<times> string \<times> 'u) result) \<Rightarrow> string \<Rightarrow> walkEvent \<Rightarrow> 'u loadState \<Rightarrow>
     'u loadState result"
where
  "visit_event cfg parse pkg ev s =
     (case ev of
        WalkError \<Rightarrow> Inl ''walk''
      | LinkedSource path \<Rightarrow> Inl (''source symlinks are not supported: '' @ path)
      | Source path data \<Rightarrow>
          let s1 = (if pkg = [] then s\<lparr>remaining := removeAll path (remaining s)\<rparr> else s)
          in case source_data cfg pkg path data of
               None \<Rightarrow> Inl ''read''
             | Some text' \<Rightarrow> res_bind (parse path text') (\<lambda>parsed. load_parsed cfg pkg path text' parsed s1))"

fun visit_events ::
  "loadConfig \<Rightarrow> (string \<Rightarrow> string \<Rightarrow> (string \<times> string \<times> 'u) result) \<Rightarrow> (string \<times> walkEvent) list \<Rightarrow> 'u loadState \<Rightarrow>
     'u loadState result"
where
  "visit_events cfg parse [] s = Inr s"
| "visit_events cfg parse ((pkg, ev) # evs) s =
     res_bind (visit_event cfg parse pkg ev s) (visit_events cfg parse evs)"

section \<open>The project\<close>

text \<open>The package roots: their paths, namespaces and trees.\<close>

type_synonym packageRoots = "(string \<times> string \<times> fsnode) list result"

definition package_events :: "bool \<Rightarrow> (string \<times> string \<times> fsnode) list \<Rightarrow> (string \<times> walkEvent) list" where
  "package_events tst roots =
     concat (map (\<lambda>(path, pkg, tree). map (Pair pkg) (walk tst pkg path path (Base path) tree)) roots)"

definition loadProjectOverlay ::
  "(string \<Rightarrow> string \<Rightarrow> (string \<times> string \<times> 'u) result) \<Rightarrow> packageRoots \<Rightarrow> fsnode \<Rightarrow> loadConfig \<Rightarrow> 'u loadState result"
where
  "loadProjectOverlay parse packages tree cfg =
     (if list_ex (\<lambda>(path, data). \<not> is_abs path \<or> Clean path \<noteq> path) (overlay cfg)
      then Inl ''overlay filename must be an absolute clean path''
      else
        res_bind (visit_events cfg parse
                    (map (Pair []) (walk (testing cfg) [] (root cfg) (root cfg) (Base (root cfg)) tree)) (start_load cfg)) (\<lambda>s.
        if remaining s \<noteq> [] then Inl ''overlay target must be an existing production .ghi file in the project''
        else
          res_bind packages (\<lambda>roots.
          res_bind (visit_events cfg parse (package_events (testing cfg) roots) s) (\<lambda>s.
          if ordered s = [] then Inl (''no .ghi source files found in '' @ root cfg)
          else if \<not> testing cfg \<and> (case find_ns s ''main'' of None \<Rightarrow> True | Some m \<Rightarrow> ns_dir m \<noteq> root cfg)
          then Inl ''project root must declare namespace main''
          else Inr (s\<lparr>ordered := sort_key ns_name (ordered s)\<rparr>)))))"

section \<open>The namespaces of a loaded project\<close>

text \<open>
  Every namespace has sources, all in its directory and all declaring it; names and directories are
  one to one.
\<close>

definition namespace_ok :: "(string \<Rightarrow> string \<Rightarrow> (string \<times> string \<times> 'u) result) \<Rightarrow> 'u nspace \<Rightarrow> bool" where
  "namespace_ok parse ns \<longleftrightarrow> ns_files ns \<noteq> [] \<and>
     (\<forall>f \<in> set (ns_files ns). Dir (sf_path f) = ns_dir ns \<and>
        (\<exists>goName. parse (sf_path f) (sf_source f) = Inr (ns_name ns, goName, sf_unit f)))"

definition load_ok :: "(string \<Rightarrow> string \<Rightarrow> (string \<times> string \<times> 'u) result) \<Rightarrow> 'u loadState \<Rightarrow> bool" where
  "load_ok parse s \<longleftrightarrow>
     distinct (map ns_name (ordered s)) \<and>
     (\<forall>ns \<in> set (ordered s). namespace_ok parse ns \<and> directories s (ns_dir ns) = Some (ns_name ns)) \<and>
     ''main'' \<notin> set (testNamespaces s)"

definition all_sources :: "'u loadState \<Rightarrow> (string \<times> string option) list" where
  "all_sources s = concat (map (\<lambda>ns. map (\<lambda>f. (sf_path f, Some (sf_source f))) (ns_files ns)) (ordered s))"

lemma find_ns_Some: "find_ns s name = Some ns \<Longrightarrow> ns \<in> set (ordered s) \<and> ns_name ns = name"
  by (auto simp: find_ns_def find_Some_iff)

lemma find_ns_None: "find_ns s name = None \<Longrightarrow> name \<notin> ns_name ` set (ordered s)"
  by (auto simp: find_ns_def find_None_iff)

lemma map_update_at:
  assumes "distinct (map key xs)" "x \<in> set xs"
  obtains a b where "xs = a @ x # b" "map (\<lambda>y. if key y = key x then g y else y) xs = a @ g x # b"
proof -
  from assms(2) obtain a b where ab: "xs = a @ x # b" by (auto simp: in_set_conv_decomp)
  have "key y \<noteq> key x" if "y \<in> set a \<or> y \<in> set b" for y
    using assms(1) that unfolding ab by (auto simp: image_iff)
  then have "map (\<lambda>y. if key y = key x then g y else y) a = a" "map (\<lambda>y. if key y = key x then g y else y) b = b"
    by (intro map_idI; simp)+
  then have "map (\<lambda>y. if key y = key x then g y else y) xs = a @ g x # b"
    unfolding ab by simp
  with ab show thesis by (rule that)
qed

text \<open>Adding a source that declares its namespace in the right directory.\<close>

lemma add_source_ok:
  fixes s :: "'u loadState"
  assumes ok: "load_ok parse s" and par: "parse path data = Inr (name, goName, un)"
    and dir: "directories s (Dir path) = Some name"
    and known: "\<And>ns. find_ns s name = Some ns \<Longrightarrow> ns_dir ns = Dir path"
  shows "load_ok parse (add_source name (Dir path) goName \<lparr>sf_path = path, sf_source = data, sf_unit = un\<rparr> s)
    \<and> mset (all_sources (add_source name (Dir path) goName \<lparr>sf_path = path, sf_source = data, sf_unit = un\<rparr> s))
      = add_mset (path, Some data) (mset (all_sources s))"
proof (cases "find_ns s name")
  case None
  from ok have "distinct (map ns_name (ordered s))" "''main'' \<notin> set (testNamespaces s)"
    "\<forall>ns \<in> set (ordered s). namespace_ok parse ns \<and> directories s (ns_dir ns) = Some (ns_name ns)"
    by (auto simp: load_ok_def)
  with None find_ns_None [OF None] par dir show ?thesis
    by (auto simp: add_source_def load_ok_def all_sources_def namespace_ok_def)
next
  case (Some ns)
  let ?f = "\<lparr>sf_path = path, sf_source = data, sf_unit = un\<rparr>"
  let ?g = "\<lambda>n :: 'u nspace. n\<lparr>ns_files := ns_files n @ [?f]\<rparr>"
  note ns = find_ns_Some [OF Some]
  from ok have d: "distinct (map ns_name (ordered s))" and m: "''main'' \<notin> set (testNamespaces s)"
    and all: "\<forall>ns \<in> set (ordered s). namespace_ok parse ns \<and> directories s (ns_dir ns) = Some (ns_name ns)"
    by (auto simp: load_ok_def)
  obtain a b where ab: "ordered s = a @ ns # b"
    and upd: "map (\<lambda>n. if ns_name n = ns_name ns then ?g n else n) (ordered s) = a @ ?g ns # b"
    by (rule map_update_at [OF d conjunct1 [OF ns]])
  have new: "add_source name (Dir path) goName ?f s = s\<lparr>ordered := a @ ?g ns # b\<rparr>"
    using Some upd ns by (simp add: add_source_def)
  have "namespace_ok parse (?g ns)"
    using all ns known [OF Some] par unfolding namespace_ok_def by auto
  with all d m have "load_ok parse (s\<lparr>ordered := a @ ?g ns # b\<rparr>)" unfolding load_ok_def ab by auto
  moreover have "mset (all_sources (s\<lparr>ordered := a @ ?g ns # b\<rparr>)) = add_mset (path, Some data) (mset (all_sources s))"
    unfolding all_sources_def ab by simp
  ultimately show ?thesis unfolding new by blast
qed

lemma load_parsed_ok:
  assumes ok: "load_ok parse s" and par: "parse path data = Inr parsed"
    and l: "load_parsed cfg pkg path data parsed s = Inr s'"
  shows "load_ok parse s' \<and> mset (all_sources s') = add_mset (path, Some data) (mset (all_sources s))"
proof -
  obtain name goName un where parsed: "parsed = (name, goName, un)" by (cases parsed)
  let ?s1 = "s\<lparr>directories := (directories s)(Dir path \<mapsto> name)\<rparr>"
  let ?s2 = "add_source name (Dir path) goName \<lparr>sf_path = path, sf_source = data, sf_unit = un\<rparr> ?s1"
  from l parsed have free: "directories s (Dir path) = None \<or> directories s (Dir path) = Some name"
    and known: "\<And>ns. find_ns ?s1 name = Some ns \<Longrightarrow> ns_dir ns = Dir path"
    and s': "s' = ?s2 \<or> s' = ?s2\<lparr>testNamespaces := List.insert name (testNamespaces ?s2)\<rparr> \<and> name \<noteq> ''main''"
    unfolding load_parsed_def Let_def by (auto split: if_splits option.splits)
  have "load_ok parse ?s1" using ok free unfolding load_ok_def by auto
  from add_source_ok [OF this, of path data name goName un] par parsed known
  have "load_ok parse ?s2 \<and> mset (all_sources ?s2) = add_mset (path, Some data) (mset (all_sources s))"
    by (simp add: all_sources_def)
  with s' show ?thesis by (auto simp: load_ok_def all_sources_def)
qed

text \<open>The path and the data that an event contributes.\<close>

definition event_source :: "loadConfig \<Rightarrow> string \<times> walkEvent \<Rightarrow> string \<times> string option" where
  "event_source cfg e =
     (case snd e of Source path data \<Rightarrow> (path, source_data cfg (fst e) path data) | LinkedSource path \<Rightarrow> (path, None)
      | WalkError \<Rightarrow> ([], None))"

lemma visit_event_ok:
  assumes "load_ok parse s" "visit_event cfg parse pkg ev s = Inr s'"
  shows "load_ok parse s' \<and> mset (all_sources s') = add_mset (event_source cfg (pkg, ev)) (mset (all_sources s))"
proof -
  from assms(2) obtain path data where ev: "ev = Source path data"
    by (cases ev) (auto simp: visit_event_def)
  let ?s1 = "if pkg = [] then s\<lparr>remaining := removeAll path (remaining s)\<rparr> else s"
  from assms(2) ev obtain txt' parsed where t: "source_data cfg pkg path data = Some txt'" "parse path txt' = Inr parsed"
    "load_parsed cfg pkg path txt' parsed ?s1 = Inr s'"
    unfolding visit_event_def by (auto simp: res_bind_Inr_iff Let_def split: option.splits)
  have "load_ok parse ?s1" "all_sources ?s1 = all_sources s" using assms(1) by (auto simp: load_ok_def all_sources_def)
  with load_parsed_ok [of parse ?s1 path txt' parsed cfg pkg s'] t(2,3) show ?thesis using ev t(1)
    by (simp add: event_source_def)
qed

lemma visit_events_ok:
  "load_ok parse s \<Longrightarrow> visit_events cfg parse evs s = Inr s' \<Longrightarrow>
     load_ok parse s' \<and> mset (all_sources s') = mset (map (event_source cfg) evs) + mset (all_sources s)"
proof (induction evs arbitrary: s)
  case (Cons e evs)
  obtain pkg ev where e: "e = (pkg, ev)" by (cases e)
  with Cons.prems(2) obtain s1 where s1: "visit_event cfg parse pkg ev s = Inr s1" "visit_events cfg parse evs s1 = Inr s'"
    by (auto simp: res_bind_Inr_iff)
  from visit_event_ok [OF Cons.prems(1) s1(1)] Cons.IH [OF _ s1(2)] e show ?case by auto
qed simp

text \<open>The events of the walk over the project and its packages.\<close>

definition project_events :: "fsnode \<Rightarrow> loadConfig \<Rightarrow> (string \<times> string \<times> fsnode) list \<Rightarrow> (string \<times> walkEvent) list" where
  "project_events tree cfg roots =
     map (Pair []) (walk (testing cfg) [] (root cfg) (root cfg) (Base (root cfg)) tree) @ package_events (testing cfg) roots"

text \<open>
  C11: Loading a project loses no source and mixes none up: on success the namespaces are sorted and
  their names and directories are one to one; every namespace has sources, all of them in its directory
  and declaring it; the sources of all namespaces are exactly those the walk met, with the text of the
  overlay where it has one; \<open>main\<close> is no test namespace, and outside of tests it is the namespace of
  the project's root.
\<close>

theorem loadProject_namespaces:
  assumes "loadProjectOverlay parse packages tree cfg = Inr s" "packages = Inr roots"
  shows "sorted (map ns_name (ordered s)) \<and> distinct (map ns_name (ordered s)) \<and> distinct (map ns_dir (ordered s))
    \<and> (\<forall>ns \<in> set (ordered s). namespace_ok parse ns)
    \<and> mset (all_sources s) = mset (map (event_source cfg) (project_events tree cfg roots))
    \<and> ''main'' \<notin> set (testNamespaces s)
    \<and> (testing cfg \<or> (\<exists>ns \<in> set (ordered s). ns_name ns = ''main'' \<and> ns_dir ns = root cfg))"
proof -
  from assms obtain s1 s2 where
    s1: "visit_events cfg parse (map (Pair []) (walk (testing cfg) [] (root cfg) (root cfg) (Base (root cfg)) tree)) (start_load cfg) = Inr s1"
    and s2: "visit_events cfg parse (package_events (testing cfg) roots) s1 = Inr s2"
    and main: "testing cfg \<or> (\<exists>m. find_ns s2 ''main'' = Some m \<and> ns_dir m = root cfg)"
    and s: "s = s2\<lparr>ordered := sort_key ns_name (ordered s2)\<rparr>"
    unfolding loadProjectOverlay_def by (auto simp: res_bind_Inr_iff split: if_splits option.splits)
  have start: "load_ok parse (start_load cfg)" "all_sources (start_load cfg) = []"
    by (simp_all add: load_ok_def start_load_def all_sources_def)
  note o1 = visit_events_ok [OF start(1) s1] and o2 = visit_events_ok [OF _ s2]
  from o1 o2 start(2) have ok: "load_ok parse s2"
    and src: "mset (all_sources s2) = mset (map (event_source cfg) (project_events tree cfg roots))"
    by (auto simp: project_events_def)
  from ok have names: "distinct (map ns_name (ordered s2))" and "\<forall>ns \<in> set (ordered s2). namespace_ok parse ns"
    and dirs: "\<forall>ns \<in> set (ordered s2). directories s2 (ns_dir ns) = Some (ns_name ns)"
    and "''main'' \<notin> set (testNamespaces s2)" by (auto simp: load_ok_def)
  have "distinct (map ns_dir (ordered s2))"
    using names dirs unfolding distinct_map inj_on_def by (metis option.inject)
  then have "distinct (map ns_dir (ordered s))"
    unfolding s by (simp add: distinct_map)
  moreover have "distinct (map ns_name (ordered s))" using names unfolding s by (simp add: distinct_map)
  moreover have "mset (all_sources s) = mset (all_sources s2)"
    unfolding s all_sources_def by (simp add: mset_concat flip: sum_mset_sum_list)
  moreover have "testing cfg \<or> (\<exists>ns \<in> set (ordered s). ns_name ns = ''main'' \<and> ns_dir ns = root cfg)"
    using main find_ns_Some [of s2 "''main''"] unfolding s by auto
  ultimately show ?thesis
    using \<open>\<forall>ns \<in> set (ordered s2). namespace_ok parse ns\<close> \<open>''main'' \<notin> set (testNamespaces s2)\<close> src
    unfolding s by simp
qed

text \<open>A project of two sources; the parser takes the first letter for the namespace.\<close>

definition example_parse :: "string \<Rightarrow> string \<Rightarrow> (string \<times> string \<times> unit) result" where
  "example_parse path data = Inr (if data = ''m'' then ''main'' else ''util'', ''p'', ())"

definition example_project :: fsnode where
  "example_project = DirN [(''main.ghi'', FileN ''m''), (''util'', DirN [(''u.ghi'', FileN ''u'')])]"

definition example_config :: loadConfig where
  "example_config = \<lparr>root = ''/p'', testing = False, overlay = []\<rparr>"

lemma loadProject_namespaces_witness:
  "(case loadProjectOverlay example_parse (Inr []) example_project example_config of
      Inl e \<Rightarrow> False
    | Inr s \<Rightarrow> map ns_name (ordered s) = [''main'', ''util''] \<and> distinct (map ns_dir (ordered s)))"
proof -
  have "(case loadProjectOverlay example_parse (Inr []) example_project example_config of
      Inl e \<Rightarrow> [] | Inr s \<Rightarrow> map ns_name (ordered s)) = [''main'', ''util'']"
    by code_simp
  then obtain s where s: "loadProjectOverlay example_parse (Inr []) example_project example_config = Inr s"
    "map ns_name (ordered s) = [''main'', ''util'']" by (auto split: sum.splits)
  from loadProject_namespaces [OF s(1) refl] s show ?thesis by simp
qed

end
