(* ===== verification/Dependencies.thy ===== *)
theory Dependencies
  imports Watch "HOL-Library.Multiset" "HOL-Library.List_Lexorder" "HOL-Library.Char_ord"
begin

text \<open>
  The verification of downloaded Go modules (\<open>internal/compiler/dependency_verify.go\<close>). The JSON
  decoder, sha256, base64 and the archive reader are parameters; goroutines are interleaved.
\<close>

section \<open>Parallel loops\<close>

text \<open>The indices of one worker, in its order.\<close>

function worker_indices :: "nat \<Rightarrow> nat \<Rightarrow> nat \<Rightarrow> nat list" where
  "worker_indices cnt workers i =
     (if i \<ge> cnt \<or> workers = 0 then [] else i # worker_indices cnt workers (i + workers))"
  by pat_completeness auto
termination
  by (relation "measure (\<lambda>(cnt, workers, i). cnt - i)") auto

declare worker_indices.simps [simp del]

text \<open>An interleaving of queues: any queue that is not empty may go on.\<close>

inductive interleaved :: "'a list list \<Rightarrow> 'a list \<Rightarrow> bool" where
  finished: "\<forall>q \<in> set qs. q = [] \<Longrightarrow> interleaved qs []"
| goes_on: "i < length qs \<Longrightarrow> qs ! i = x # q \<Longrightarrow> interleaved (qs[i := q]) xs \<Longrightarrow> interleaved qs (x # xs)"

text \<open>The calls of \<open>work\<close> in a complete run of \<open>parallelIndices\<close>, which waits for its workers.\<close>

definition parallelIndices :: "nat \<Rightarrow> nat \<Rightarrow> nat list \<Rightarrow> bool" where
  "parallelIndices cnt workers calls \<longleftrightarrow>
     interleaved (map (worker_indices cnt workers) [0..<min cnt workers]) calls"

text \<open>Every call writes the slot of its index.\<close>

definition fill_slots :: "(nat \<Rightarrow> 'a) \<Rightarrow> nat list \<Rightarrow> (nat \<rightharpoonup> 'a)" where
  "fill_slots f calls = foldl (\<lambda>slots i. slots(i \<mapsto> f i)) Map.empty calls"

lemma interleaved_mset: "interleaved qs xs \<Longrightarrow> mset xs = mset (concat qs)"
proof (induction rule: interleaved.induct)
  case (finished qs)
  then show ?case by (simp add: concat_eq_Nil_conv)
next
  case (goes_on i qs x q xs)
  have "qs = take i qs @ (x # q) # drop (Suc i) qs" using goes_on(1,2) by (metis id_take_nth_drop)
  moreover have "qs[i := q] = take i qs @ q # drop (Suc i) qs" using goes_on(1) by (simp add: upd_conv_take_nth_drop)
  ultimately have "mset (concat qs) = add_mset x (mset (concat (qs[i := q])))"
    by (metis (no_types, lifting) concat.simps(2) concat_append mset.simps(2) mset_append append_Cons union_mset_add_mset_right)
  with goes_on.IH show ?case by simp
qed

lemma count_worker_indices:
  "0 < workers \<Longrightarrow> count_list (worker_indices cnt workers i) k =
     (if i \<le> k \<and> k < cnt \<and> k mod workers = i mod workers then 1 else 0)"
proof (induction cnt workers i rule: worker_indices.induct)
  case (1 cnt workers i)
  show ?case
  proof (cases "i \<ge> cnt")
    case True
    then show ?thesis by (auto simp: worker_indices.simps [of cnt workers i])
  next
    case False
    have "i + workers \<le> k" if "i < k" "k mod workers = i mod workers"
    proof -
      from that have "workers dvd k - i" using mod_eq_dvd_iff_nat by (metis less_imp_le)
      with that(1) show ?thesis by (auto dest: dvd_imp_le)
    qed
    with False 1 show ?thesis by (auto simp: worker_indices.simps [of cnt workers i])
  qed
qed

lemma count_list_concat: "count_list (concat xss) k = (\<Sum>xs \<leftarrow> xss. count_list xs k)"
  by (induction xss) simp_all

lemma parallelIndices_once:
  assumes "parallelIndices cnt workers calls" "0 < workers"
  shows "mset calls = mset [0..<cnt]"
proof (rule multiset_eqI)
  fix k
  have "count_list calls k = (\<Sum>w \<leftarrow> [0..<min cnt workers]. count_list (worker_indices cnt workers w) k)"
    using interleaved_mset [OF assms(1) [unfolded parallelIndices_def]]
    by (simp add: count_mset [symmetric] comp_def flip: count_list_concat) (simp add: count_list_concat count_mset comp_def)
  also have "\<dots> = (\<Sum>w \<leftarrow> [0..<min cnt workers]. if w = k mod workers \<and> k < cnt then 1 else 0)"
    by (rule arg_cong [of _ _ sum_list], rule map_cong [OF refl])
      (use assms(2) in \<open>auto simp: count_worker_indices\<close>)
  also have "\<dots> = (if k < cnt then 1 else 0)"
  proof (cases "k < cnt")
    case True
    then have "k mod workers < min cnt workers" using assms(2) by (auto intro: le_less_trans [OF mod_less_eq_dividend])
    with True show ?thesis by (simp add: sum_list_distinct_conv_sum_set sum.delta)
  qed simp
  finally show "count (mset calls) k = count (mset [0..<cnt]) k"
    by (simp add: count_mset count_list_eq_length_filter distinct_count_atmost_1)
qed

text \<open>A run that calls every index once fills every slot, in whatever order.\<close>

lemma fill_slots_at: "distinct calls \<Longrightarrow> fill_slots f calls i = (if i \<in> set calls then Some (f i) else None)"
proof -
  have "foldl (\<lambda>slots i. slots(i \<mapsto> f i)) m calls i = (if i \<in> set calls then Some (f i) else m i)" for m
    by (induction calls arbitrary: m) auto
  then show ?thesis by (simp add: fill_slots_def)
qed

lemma fill_slots_all:
  assumes "parallelIndices cnt workers calls" "0 < workers" "i < cnt"
  shows "fill_slots f calls i = Some (f i)"
proof -
  note perm = parallelIndices_once [OF assms(1,2)]
  have "distinct calls" using mset_eq_imp_distinct_iff [OF perm] by simp
  moreover have "set calls = {0..<cnt}" using mset_eq_setD [OF perm] by simp
  moreover note assms(3)
  ultimately
  show ?thesis by (simp add: fill_slots_at)
qed

section \<open>The hash of a module\<close>

text \<open>The digests of the packages sha256 and base64, for the streams of h1.\<close>

record digests =
  sha :: "string \<Rightarrow> string"
  b64 :: "string \<Rightarrow> string"

text \<open>
  The work on the file \<open>name\<close>: \<open>interrupted\<close> says whether the context is cancelled while it waits
  for the semaphore or reads, \<open>content\<close> what opening and reading gives.
\<close>

definition hash_file :: "digests \<Rightarrow> (string \<Rightarrow> bool) \<Rightarrow> (string \<Rightarrow> string result) \<Rightarrow> string \<Rightarrow> string result" where
  "hash_file dg interrupted content name =
     (if newline \<in> set name then Inl ''module filename contains newline''
      else if interrupted name then Inl ''context canceled''
      else res_bind (content name) (\<lambda>data. Inr (sha dg data)))"

definition hash_line :: "digests \<Rightarrow> string \<Rightarrow> string \<Rightarrow> string" where
  "hash_line dg digest name = hex_string digest @ ''  '' @ name @ [newline]"

text \<open>The lines in the order of the names; the first slot with an error ends the loop.\<close>

fun hash_lines :: "digests \<Rightarrow> (nat \<rightharpoonup> string result) \<Rightarrow> nat \<Rightarrow> string list \<Rightarrow> string result" where
  "hash_lines dg slots i [] = Inr []"
| "hash_lines dg slots i (name # names) =
     (case slots i of
        None \<Rightarrow> res_bind (hash_lines dg slots (Suc i) names) (\<lambda>r. Inr (hash_line dg [] name @ r))
      | Some (Inl e) \<Rightarrow> Inl e
      | Some (Inr d) \<Rightarrow> res_bind (hash_lines dg slots (Suc i) names) (\<lambda>r. Inr (hash_line dg d name @ r)))"

definition h1_text :: "digests \<Rightarrow> string \<Rightarrow> string" where
  "h1_text dg stream = ''h1:'' @ b64 dg (sha dg stream)"

text \<open>\<open>parallelModuleHash\<close> for a run of its workers; \<open>fin\<close> is the context at the end.\<close>

definition parallelModuleHash ::
  "digests \<Rightarrow> (string \<Rightarrow> bool) \<Rightarrow> bool \<Rightarrow> (string \<Rightarrow> string result) \<Rightarrow> string list \<Rightarrow> nat list \<Rightarrow> string result"
where
  "parallelModuleHash dg interrupted fin content files calls =
     (let names = sort files;
          slots = fill_slots (\<lambda>i. hash_file dg interrupted content (names ! i)) calls
      in res_bind (hash_lines dg slots 0 names) (\<lambda>stream.
           if fin then Inl ''context canceled'' else Inr (h1_text dg stream)))"

text \<open>The digest of a list of files with their contents, one after the other.\<close>

definition h1 :: "digests \<Rightarrow> (string \<times> string) list \<Rightarrow> string" where
  "h1 dg fs = h1_text dg (concat (map (\<lambda>(name, data). hash_line dg (sha dg data) name) fs))"

lemma hash_lines_sequential:
  "\<forall>k < length names. slots (i + k) = Some (hash_file dg interrupted content (names ! k)) \<Longrightarrow>
   hash_lines dg slots i names = Inr stream \<Longrightarrow>
     \<exists>fs. map fst fs = names \<and> (\<forall>(name, data) \<in> set fs. content name = Inr data \<and> newline \<notin> set name)
       \<and> stream = concat (map (\<lambda>(name, data). hash_line dg (sha dg data) name) fs)"
proof (induction names arbitrary: i stream)
  case Nil
  then show ?case by simp
next
  case (Cons name names)
  from Cons.prems(1) have "slots i = Some (hash_file dg interrupted content name)" by (metis add_0_right length_greater_0_conv list.distinct(1) nth_Cons_0)
  with Cons.prems(2) obtain data rest where d: "content name = Inr data" "newline \<notin> set name"
    and rest: "hash_lines dg slots (Suc i) names = Inr rest" and st: "stream = hash_line dg (sha dg data) name @ rest"
    by (auto simp: hash_file_def res_bind_Inr_iff split: sum.splits if_splits)
  from Cons.prems(1) have "\<forall>k < length names. slots (Suc i + k) = Some (hash_file dg interrupted content (names ! k))"
    by (metis (no_types, lifting) Suc_less_eq add_Suc_right add_Suc_shift length_Cons nth_Cons_Suc)
  from Cons.IH [OF this rest] obtain fs where "map fst fs = names"
    "\<forall>(name, data) \<in> set fs. content name = Inr data \<and> newline \<notin> set name"
    "rest = concat (map (\<lambda>(name, data). hash_line dg (sha dg data) name) fs)" by blast
  with d st show ?case by (intro exI [of _ "(name, data) # fs"]) auto
qed

text \<open>However the workers are scheduled, the digest is that of the sorted files.\<close>

lemma parallelModuleHash_h1:
  assumes "parallelModuleHash dg interrupted fin content files calls = Inr digest"
    and "parallelIndices (length files) workers calls" "0 < workers"
  obtains fs where "map fst fs = sort files" "\<forall>(name, data) \<in> set fs. content name = Inr data \<and> newline \<notin> set name"
    "digest = h1 dg fs"
proof -
  let ?slots = "fill_slots (\<lambda>i. hash_file dg interrupted content (sort files ! i)) calls"
  from assms(1) obtain stream where st: "hash_lines dg ?slots 0 (sort files) = Inr stream" "digest = h1_text dg stream"
    by (auto simp: parallelModuleHash_def Let_def res_bind_Inr_iff split: if_splits)
  have "\<forall>k < length (sort files). ?slots (0 + k) = Some (hash_file dg interrupted content (sort files ! k))"
    using fill_slots_all [OF assms(2,3)] by auto
  from hash_lines_sequential [OF this st(1)] st(2) show thesis by (auto simp: h1_def intro: that)
qed

section \<open>Modules\<close>

record downloadedModule =
  Path :: string
  Version :: string
  Sum :: string
  Zip :: string
  ModDir :: string
  Error :: string

text \<open>The locked sums: the lines of three fields; the last line for a module counts.\<close>

definition locked_sums :: "string \<Rightarrow> (string \<rightharpoonup> string)" where
  "locked_sums sums =
     foldl (\<lambda>locked line. case string_fields line of [p, v, h] \<Rightarrow> locked(p @ ''@'' @ v \<mapsto> h) | _ \<Rightarrow> locked)
       Map.empty (split_on newline sums)"

text \<open>A lookup of a missing module gives the empty text, which has no prefix \<open>h1:\<close>.\<close>

definition module_error :: "(string \<rightharpoonup> string) \<Rightarrow> downloadedModule \<Rightarrow> string option" where
  "module_error locked m =
     (let expected = (case locked (Path m @ ''@'' @ Version m) of None \<Rightarrow> [] | Some h \<Rightarrow> h) in
      if Error m \<noteq> [] then Some (''download Go module '' @ Path m @ '': '' @ Error m)
      else if expected = [] \<or> Sum m \<noteq> expected \<or> \<not> has_prefix expected ''h1:''
      then Some (''Go module '' @ Path m @ ''@'' @ Version m @ '' checksum does not match mojave.lock'')
      else if Zip m = [] \<or> ModDir m = []
      then Some (''Go module '' @ Path m @ ''@'' @ Version m @ '' has incomplete download metadata'')
      else None)"

text \<open>The decoder delivers modules and at last the end or a decoding error (\<open>broken\<close>).\<close>

fun downloadedModules :: "(string \<rightharpoonup> string) \<Rightarrow> downloadedModule list \<Rightarrow> bool \<Rightarrow> downloadedModule list result" where
  "downloadedModules locked [] broken = (if broken then Inl ''read downloaded Go modules'' else Inr [])"
| "downloadedModules locked (m # ms) broken =
     (case module_error locked m of
        Some e \<Rightarrow> Inl e
      | None \<Rightarrow> res_bind (downloadedModules locked ms broken) (\<lambda>r. Inr (m # r)))"

text \<open>
  \<open>hashModuleDirectory\<close>: the files below a directory with the prefix of the module, relative to it.
  A file is opened by its path, which follows links.
\<close>

definition open_node :: "fsnode \<Rightarrow> string result" where
  "open_node n = (case stat n of Some (FileN data) \<Rightarrow> Inr data | _ \<Rightarrow> Inl ''open'')"

fun module_files :: "(string \<Rightarrow> bool) \<Rightarrow> string \<Rightarrow> fsnode \<Rightarrow> (string \<times> fsnode) list result"
  and module_entries :: "(string \<Rightarrow> bool) \<Rightarrow> string \<Rightarrow> (string \<times> fsnode) list \<Rightarrow> (string \<times> fsnode) list result"
where
  "module_files halt name (DirN es) =
     (if halt name then Inl ''context canceled'' else module_entries halt name es)"
| "module_files halt name UnreadableDirN =
     (if halt name then Inl ''context canceled'' else Inl ''read directory'')"
| "module_files halt name (FileN data) =
     (if halt name then Inl ''context canceled'' else Inr [(name, FileN data)])"
| "module_files halt name UnreadableN =
     (if halt name then Inl ''context canceled'' else Inr [(name, UnreadableN)])"
| "module_files halt name (SymlinkN t) =
     (if halt name then Inl ''context canceled'' else Inr [(name, SymlinkN t)])"
| "module_entries halt name [] = Inr []"
| "module_entries halt name ((n, e) # es) =
     res_bind (module_files halt (name @ ''/'' @ n) e) (\<lambda>a.
     res_bind (module_entries halt name es) (\<lambda>b. Inr (a @ b)))"

text \<open>The root itself must be a directory; a link to one is none for \<open>filepath.WalkDir\<close>.\<close>

definition directory_files :: "(string \<Rightarrow> bool) \<Rightarrow> string \<Rightarrow> fsnode \<Rightarrow> (string \<times> fsnode) list result" where
  "directory_files halt prefix' tree =
     res_bind (module_files halt prefix' tree) (\<lambda>fs.
       if (case tree of DirN es \<Rightarrow> False | _ \<Rightarrow> True) then Inl ''not a directory'' else Inr fs)"

text \<open>
  The two jobs of a module: its archive, whose entries \<open>dirhash.HashZip\<close> reads, and its directory.
  A job has its own run of workers and its own interruptions; the name of a duplicate entry opens the
  last one.
\<close>

record environment =
  archive :: "string \<Rightarrow> (string \<times> string result) list result"
  tree_of :: "string \<Rightarrow> fsnode"
  walk_halts :: "string \<Rightarrow> bool"
  waits :: "nat \<Rightarrow> string \<Rightarrow> bool"
  stopped :: "nat \<Rightarrow> bool"
  schedule :: "nat \<Rightarrow> nat list"

definition open_in :: "(string \<times> string result) list \<Rightarrow> string \<Rightarrow> string result" where
  "open_in es name = (case map_of (rev es) name of None \<Rightarrow> Inl ''open'' | Some r \<Rightarrow> r)"

definition hash_entries :: "digests \<Rightarrow> environment \<Rightarrow> nat \<Rightarrow> (string \<times> string result) list \<Rightarrow> string result" where
  "hash_entries dg env i es =
     parallelModuleHash dg (waits env i) (stopped env i) (open_in es) (map fst es) (schedule env i)"

definition zip_entries :: "environment \<Rightarrow> downloadedModule \<Rightarrow> (string \<times> string result) list result" where
  "zip_entries env m = archive env (Zip m)"

definition dir_entries :: "environment \<Rightarrow> downloadedModule \<Rightarrow> (string \<times> string result) list result" where
  "dir_entries env m =
     res_bind (directory_files (walk_halts env) (Path m @ ''@'' @ Version m) (tree_of env (ModDir m))) (\<lambda>fs.
       Inr (map (\<lambda>(name, n). (name, open_node n)) fs))"

definition job_error :: "digests \<Rightarrow> environment \<Rightarrow> nat \<Rightarrow> downloadedModule \<times> bool \<Rightarrow> string option" where
  "job_error dg env i = (\<lambda>(m, zip).
     case res_bind (if zip then zip_entries env m else dir_entries env m) (hash_entries dg env i) of
       Inl e \<Rightarrow> Some (''verify Go module '' @ Path m @ ''@'' @ Version m @ (if zip then '' zip: '' else '' dir: '') @ e)
     | Inr digest \<Rightarrow>
         if digest \<noteq> Sum m
         then Some (''Go module '' @ Path m @ ''@'' @ Version m @ '': '' @ (if zip then ''zip'' else ''dir'') @ '' has been modified'')
         else None)"

definition module_jobs :: "downloadedModule list \<Rightarrow> (downloadedModule \<times> bool) list" where
  "module_jobs ms = concat (map (\<lambda>m. [(m, True), (m, False)]) ms)"

text \<open>The errors in the order of the jobs; at last the context.\<close>

definition verifyDownloadedModules ::
  "digests \<Rightarrow> environment \<Rightarrow> bool \<Rightarrow> nat list \<Rightarrow> downloadedModule list \<Rightarrow> string option"
where
  "verifyDownloadedModules dg env cancelled calls ms =
     (let jobs = module_jobs ms;
          slots = fill_slots (\<lambda>i. job_error dg env i (jobs ! i)) calls;
          errors = map (\<lambda>i. case slots i of None \<Rightarrow> None | Some e \<Rightarrow> e) [0..<length jobs]
      in case find (\<lambda>e. e \<noteq> None) errors of
           Some e \<Rightarrow> e
         | None \<Rightarrow> if cancelled then Some ''context canceled'' else None)"

text \<open>A run: the workers of the jobs, at most four, and the workers of each job.\<close>

definition workers_limit :: "nat \<Rightarrow> nat" where
  "workers_limit maxprocs = min 16 (max 1 maxprocs)"

definition entries_count :: "environment \<Rightarrow> downloadedModule \<times> bool \<Rightarrow> nat" where
  "entries_count env = (\<lambda>(m, zip).
     case (if zip then zip_entries env m else dir_entries env m) of Inl e \<Rightarrow> 0 | Inr es \<Rightarrow> length es)"

definition verify_run :: "environment \<Rightarrow> nat \<Rightarrow> nat list \<Rightarrow> downloadedModule list \<Rightarrow> bool" where
  "verify_run env maxprocs calls ms \<longleftrightarrow>
     parallelIndices (length (module_jobs ms)) (min 4 (workers_limit maxprocs)) calls \<and>
     (\<forall>i < length (module_jobs ms).
        parallelIndices (entries_count env (module_jobs ms ! i)) (workers_limit maxprocs) (schedule env i))"

section \<open>What a verified module is\<close>

text \<open>The files of a list of entries, in the order of their names, with what opening them gives.\<close>

definition files_of :: "(string \<times> string result) list \<Rightarrow> (string \<times> string) list \<Rightarrow> bool" where
  "files_of es fs \<longleftrightarrow> map fst fs = sort (map fst es) \<and>
     list_all (\<lambda>(name, data). open_in es name = Inr data \<and> newline \<notin> set name) fs"

definition h1_stream :: "digests \<Rightarrow> (string \<times> string) list \<Rightarrow> string" where
  "h1_stream dg fs = concat (map (\<lambda>(name, data). hash_line dg (sha dg data) name) fs)"

text \<open>sha256 has digests of 32 bytes and does not collide on the two lists; base64 is injective.\<close>

definition no_collision :: "digests \<Rightarrow> (string \<times> string) list \<Rightarrow> (string \<times> string) list \<Rightarrow> bool" where
  "no_collision dg fs gs \<longleftrightarrow>
     inj (b64 dg) \<and> (\<forall>d. length (sha dg d) = 32) \<and>
     inj_on (sha dg) (snd ` set fs \<union> snd ` set gs \<union> {h1_stream dg fs, h1_stream dg gs})"

lemma h1_stream_Cons: "h1_stream dg ((n, d) # fs) = hex_string (sha dg d) @ ''  '' @ n @ newline # h1_stream dg fs"
  by (simp add: h1_stream_def hash_line_def)

lemma before_mark: "a @ c # r = b @ c # r' \<Longrightarrow> c \<notin> set a \<Longrightarrow> c \<notin> set b \<Longrightarrow> a = b \<and> r = r'"
  by (induction a arbitrary: b) (case_tac b; auto)+

lemma h1_stream_inj:
  assumes "\<forall>d. length (sha dg d) = 32" "h1_stream dg fs = h1_stream dg gs"
    and "\<forall>(n, d) \<in> set fs. newline \<notin> set n" "\<forall>(n, d) \<in> set gs. newline \<notin> set n"
    and "inj_on (sha dg) (snd ` set fs \<union> snd ` set gs)"
  shows "fs = gs"
  using assms(2-)
proof (induction fs arbitrary: gs)
  case Nil
  then show ?case by (cases gs) (auto simp: h1_stream_def hash_line_def)
next
  case (Cons f fs)
  obtain n d where f: "f = (n, d)" by (cases f)
  from Cons.prems(1) f obtain g gs' where gs: "gs = g # gs'"
    by (cases gs) (auto simp: h1_stream_def hash_line_def)
  obtain n' d' where g: "g = (n', d')" by (cases g)
  have "hex_string (sha dg d) @ (''  '' @ n @ newline # h1_stream dg fs)
      = hex_string (sha dg d') @ (''  '' @ n' @ newline # h1_stream dg gs')"
    using Cons.prems(1) f gs g by (simp add: h1_stream_Cons)
  moreover have "length (hex_string (sha dg d)) = length (hex_string (sha dg d'))"
    using assms(1) by simp
  ultimately have hex: "hex_string (sha dg d) = hex_string (sha dg d')"
    and rest: "n @ newline # h1_stream dg fs = n' @ newline # h1_stream dg gs'"
    by simp_all
  have "d = d'"
    by (rule inj_onD [OF Cons.prems(4) hex_string_inj [OF hex]]) (simp_all add: f gs g)
  have marks: "newline \<notin> set n" "newline \<notin> set n'" using Cons.prems(2,3) by (simp_all add: f gs g)
  note tail = before_mark [OF rest marks]
  have "fs = gs'"
  proof (rule Cons.IH)
    show "h1_stream dg fs = h1_stream dg gs'" using tail by simp
    show "\<forall>(n, d) \<in> set fs. newline \<notin> set n" "\<forall>(n, d) \<in> set gs'. newline \<notin> set n"
      using Cons.prems(2,3) by (simp_all add: gs)
    show "inj_on (sha dg) (snd ` set fs \<union> snd ` set gs')"
      by (rule inj_on_subset [OF Cons.prems(4)]) (auto simp: gs)
  qed
  with tail \<open>d = d'\<close> show ?case by (simp add: f gs g)
qed

lemma h1_inj:
  assumes "h1 dg fs = h1 dg gs" "no_collision dg fs gs" "files_of es fs" "files_of es' gs"
  shows "fs = gs"
proof (rule h1_stream_inj)
  from assms(1,2) have "sha dg (h1_stream dg fs) = sha dg (h1_stream dg gs)"
    by (auto simp: h1_def h1_text_def h1_stream_def no_collision_def inj_eq)
  with assms(2) show "h1_stream dg fs = h1_stream dg gs" by (auto simp: no_collision_def dest: inj_onD)
  from assms(2) show "inj_on (sha dg) (snd ` set fs \<union> snd ` set gs)"
    by (auto simp: no_collision_def intro: inj_on_subset)
  show "\<forall>(n, d) \<in> set fs. newline \<notin> set n" "\<forall>(n, d) \<in> set gs. newline \<notin> set n"
    using assms(3,4) by (auto simp: files_of_def list_all_iff)
  show "\<forall>d. length (sha dg d) = 32" using assms(2) by (simp add: no_collision_def)
qed

lemma downloadedModules_locked:
  "downloadedModules locked ms broken = Inr modules \<Longrightarrow> m \<in> set modules \<Longrightarrow>
     locked (Path m @ ''@'' @ Version m) = Some (Sum m) \<and> has_prefix (Sum m) ''h1:''"
proof (induction ms arbitrary: modules)
  case (Cons x ms)
  have ok: "module_error locked x = None \<Longrightarrow> locked (Path x @ ''@'' @ Version x) = Some (Sum x) \<and> has_prefix (Sum x) ''h1:''"
    by (auto simp: module_error_def Let_def split: if_splits option.splits)
  from Cons ok show ?case by (auto simp: res_bind_Inr_iff split: option.splits)
qed (auto split: if_splits)

text \<open>An accepted job has the digest of its files.\<close>

lemma job_digest:
  assumes "job_error dg env i (m, isZip) = None"
    and "parallelIndices (entries_count env (m, isZip)) workers (schedule env i)" "0 < workers"
  shows "\<exists>es fs. (if isZip then zip_entries env m else dir_entries env m) = Inr es \<and> files_of es fs \<and> Sum m = h1 dg fs"
proof -
  let ?entries = "if isZip then zip_entries env m else dir_entries env m"
  have "res_bind ?entries (hash_entries dg env i) = Inr (Sum m)"
    using assms(1) unfolding job_error_def prod.case
    by (cases "res_bind ?entries (hash_entries dg env i)") (simp_all split: if_split_asm)
  then obtain es where es: "?entries = Inr es" and d: "hash_entries dg env i es = Inr (Sum m)"
    unfolding res_bind_Inr_iff by blast
  from assms(2) es have "parallelIndices (length (map fst es)) workers (schedule env i)" by (simp add: entries_count_def)
  then obtain fs where "map fst fs = sort (map fst es)"
    "\<forall>(name, data) \<in> set fs. open_in es name = Inr data \<and> newline \<notin> set name" "Sum m = h1 dg fs"
    by (rule parallelModuleHash_h1 [OF d [unfolded hash_entries_def] _ assms(3)])
  with es show ?thesis unfolding files_of_def list_all_iff by blast
qed

lemma module_jobs_mem:
  assumes "m \<in> set ms"
  obtains i where "i < length (module_jobs ms)" "module_jobs ms ! i = (m, isZip)"
proof -
  have "(m, isZip) \<in> set (module_jobs ms)"
    using assms by (cases isZip) (auto simp: module_jobs_def intro: bexI [of _ m])
  then show ?thesis using that by (auto simp: in_set_conv_nth)
qed

lemma verify_jobs:
  assumes "verifyDownloadedModules dg env cancelled calls ms = None" "verify_run env maxprocs calls ms"
    and "i < length (module_jobs ms)"
  shows "job_error dg env i (module_jobs ms ! i) = None"
proof -
  let ?jobs = "module_jobs ms"
  let ?slots = "fill_slots (\<lambda>i. job_error dg env i (?jobs ! i)) calls"
  have "0 < min 4 (workers_limit maxprocs)" by (simp add: workers_limit_def)
  with assms(2,3) have "?slots i = Some (job_error dg env i (?jobs ! i))"
    by (auto simp: verify_run_def intro: fill_slots_all)
  moreover have "find (\<lambda>e. e \<noteq> None) (map (\<lambda>i. case ?slots i of None \<Rightarrow> None | Some e \<Rightarrow> e) [0..<length ?jobs]) = None"
    using assms(1) by (auto simp: verifyDownloadedModules_def Let_def find_Some_iff split: option.splits)
  then have "(\<lambda>i. case ?slots i of None \<Rightarrow> None | Some e \<Rightarrow> e) i = None"
    using assms(3) by (simp add: find_None_iff del: not_None_eq)
  ultimately show ?thesis by simp
qed

section \<open>A module with one file\<close>

definition w_digests :: digests where
  "w_digests = \<lparr>sha = (\<lambda>d. replicate 32 (if d = ''x'' then CHR ''a'' else CHR ''b'')), b64 = (\<lambda>s. s)\<rparr>"

definition w_module :: downloadedModule where
  "w_module = \<lparr>Path = ''m'', Version = ''v'', Sum = ''h1:bbbbbbbbbbbbbbbbbbbbbbbbbbbbbbbb'', Zip = ''z'', ModDir = ''d'', Error = []\<rparr>"

definition w_env :: environment where
  "w_env = \<lparr>archive = (\<lambda>z. Inr [(''m@v/a'', Inr ''x'')]), tree_of = (\<lambda>d. DirN [(''a'', FileN ''x'')]),
     walk_halts = (\<lambda>n. False), waits = (\<lambda>i n. False), stopped = (\<lambda>i. False), schedule = (\<lambda>i. [0])\<rparr>"

lemma w_download:
  "downloadedModules (locked_sums ''m v h1:bbbbbbbbbbbbbbbbbbbbbbbbbbbbbbbb'') [w_module] False = Inr [w_module]"
  by code_simp
lemma w_verify: "verifyDownloadedModules w_digests w_env False [0, 1] [w_module] = None"
  by code_simp

lemma w_zip: "zip_entries w_env w_module = Inr [(''m@v/a'', Inr ''x'')]" by code_simp
lemma w_dir: "dir_entries w_env w_module = Inr [(''m@v/a'', Inr ''x'')]" by code_simp

lemma one_queue: "interleaved [xs] xs"
proof (induction xs)
  case (Cons x xs)
  then show ?case by (intro interleaved.goes_on [of 0]) simp_all
qed (simp add: interleaved.finished)

lemma w_run: "verify_run w_env 1 [0, 1] [w_module]"
proof -
  have one: "parallelIndices 1 1 [0]" and two: "parallelIndices 2 1 [0, 1]"
    by (simp_all add: parallelIndices_def worker_indices.simps one_queue)
  have "entries_count w_env (module_jobs [w_module] ! i) = 1" if "i < 2" for i
    using that by (cases i) (auto simp: entries_count_def module_jobs_def w_zip w_dir less_Suc_eq)
  then show ?thesis using one two
    by (simp add: verify_run_def workers_limit_def module_jobs_def w_env_def numeral_2_eq_2)
qed

lemma w_files: "files_of [(''m@v/a'', Inr ''x'')] fs \<longleftrightarrow> fs = [(''m@v/a'', ''x'')]"
  by (auto simp: files_of_def open_in_def newline_def)

lemma w_no_collision: "no_collision w_digests [(''m@v/a'', ''x'')] [(''m@v/a'', ''x'')]"
  by (auto simp: no_collision_def w_digests_def h1_stream_def hash_line_def inj_def)
section \<open>Accepted modules\<close>

text \<open>
  C6: A module is accepted only with the locked contents: when the downloaded modules pass and their
  verification reports no error, under any schedule of the workers, the sum locked for each module is
  the digest of the files of its archive and of the files of its directory; without collisions of sha256
  the directory has exactly the files of the archive.
\<close>

theorem verified_modules_locked:
  assumes "downloadedModules (locked_sums sums) ms broken = Inr modules"
    and "verifyDownloadedModules dg env cancelled calls modules = None"
    and "verify_run env maxprocs calls modules" "m \<in> set modules"
  shows "\<exists>az dir zs ds. locked_sums sums (Path m @ ''@'' @ Version m) = Some (h1 dg zs)
    \<and> zip_entries env m = Inr az \<and> files_of az zs
    \<and> dir_entries env m = Inr dir \<and> files_of dir ds \<and> h1 dg ds = h1 dg zs
    \<and> (no_collision dg zs ds \<longrightarrow> ds = zs)"
proof -
  have job: "\<exists>es fs. (if isZip then zip_entries env m else dir_entries env m) = Inr es \<and> files_of es fs \<and> Sum m = h1 dg fs" for isZip
  proof -
    obtain i where i: "i < length (module_jobs modules)" "module_jobs modules ! i = (m, isZip)"
      by (rule module_jobs_mem [OF assms(4)])
    show ?thesis
    proof (rule job_digest)
      show "job_error dg env i (m, isZip) = None" using verify_jobs [OF assms(2,3) i(1)] i(2) by simp
      show "parallelIndices (entries_count env (m, isZip)) (workers_limit maxprocs) (schedule env i)"
        using assms(3) i by (auto simp: verify_run_def)
      show "0 < workers_limit maxprocs" by (simp add: workers_limit_def)
    qed
  qed
  from job [of True] job [of False] obtain az zs dir ds where
    "zip_entries env m = Inr az" "files_of az zs" "Sum m = h1 dg zs"
    "dir_entries env m = Inr dir" "files_of dir ds" "Sum m = h1 dg ds" by auto
  with downloadedModules_locked [OF assms(1,4)] h1_inj [of dg ds zs] show ?thesis
    by (metis (no_types, lifting) h1_inj)
qed

theorem verified_modules_locked_witness:
  "locked_sums ''m v h1:bbbbbbbbbbbbbbbbbbbbbbbbbbbbbbbb'' ''m@v'' = Some (h1 w_digests [(''m@v/a'', ''x'')])
   \<and> (\<exists>dir ds. dir_entries w_env w_module = Inr dir \<and> files_of dir ds \<and> ds = [(''m@v/a'', ''x'')])"
proof -
  have "w_module \<in> set [w_module]" by simp
  from verified_modules_locked [OF w_download w_verify w_run this] w_zip w_dir w_files w_no_collision
  show ?thesis by (auto simp: w_module_def)
qed

end
